(* ===== verification/Reame_Prelude.thy ===== *)
theory Reame_Prelude
  imports Main "HOL-Library.Word" "HOL-Library.Char_ord" "HOL-Library.List_Lexorder"
begin

text \<open>
  Shared vocabulary of the development: the machine types, the parts of the C++ standard
  library and of the C locale the sources call (\<open>std::string::find\<close>, \<open>substr\<close>,
  \<open>std::to_string\<close>, \<open>std::stol\<close>, the character classes), the little-endian byte
  packing, and the lemmas about them that every component uses.  A C++ \<open>char\<close> and a byte
  of a \<open>std::vector<char>\<close> are both the type \<^typ>\<open>char\<close>, an eight-bit value.
\<close>

unbundle bit_operations_syntax

type_synonym bytes = "char list"
type_synonym u32 = "32 word"
type_synonym u64 = "64 word"
type_synonym token = "32 word"

named_theorems str_simps \<open>evaluation rules for the string routines\<close>
named_theorems chunk_intros \<open>results that more input does not change\<close>

section \<open>Characters in the C locale\<close>

definition code :: "char \<Rightarrow> nat" where
  "code c = of_char c"

definition isdigit :: "char \<Rightarrow> bool" where
  "isdigit c \<longleftrightarrow> 48 \<le> code c \<and> code c \<le> 57"

definition isupper :: "char \<Rightarrow> bool" where
  "isupper c \<longleftrightarrow> 65 \<le> code c \<and> code c \<le> 90"

definition islower :: "char \<Rightarrow> bool" where
  "islower c \<longleftrightarrow> 97 \<le> code c \<and> code c \<le> 122"

definition isalnum :: "char \<Rightarrow> bool" where
  "isalnum c \<longleftrightarrow> isdigit c \<or> isupper c \<or> islower c"

definition isspace :: "char \<Rightarrow> bool" where
  "isspace c \<longleftrightarrow> code c = 32 \<or> (9 \<le> code c \<and> code c \<le> 13)"

definition tolower :: "char \<Rightarrow> char" where
  "tolower c = (if isupper c then char_of (code c + 32) else c)"

definition toupper :: "char \<Rightarrow> char" where
  "toupper c = (if islower c then char_of (code c - 32) else c)"

lemmas char_class_defs = isdigit_def isupper_def islower_def isalnum_def isspace_def code_def

lemma code_less: "code c < 256"
  unfolding code_def using nat_of_char_less_256 by simp

lemma char_of_code [simp]: "char_of (code c) = c"
  by (simp add: code_def)

lemma code_char_of: "n < 256 \<Longrightarrow> code (char_of n) = n"
  by (simp add: code_def)

lemma code_inject [simp]: "code c = code d \<longleftrightarrow> c = d"
  by (simp add: code_def)

lemma code_tolower: "code (tolower c) = (if isupper c then code c + 32 else code c)"
  by (auto simp: tolower_def isupper_def intro!: code_char_of)

lemma code_toupper: "code (toupper c) = (if islower c then code c - 32 else code c)"
  by (auto simp: toupper_def islower_def intro!: code_char_of)

lemma tolower_idem [simp]: "tolower (tolower c) = tolower c"
proof -
  have "\<not> isupper (tolower c)" by (auto simp: isupper_def code_tolower)
  then show ?thesis by (subst tolower_def) simp
qed

lemma toupper_idem [simp]: "toupper (toupper c) = toupper c"
proof -
  have "\<not> islower (toupper c)" by (auto simp: islower_def code_toupper)
  then show ?thesis by (subst toupper_def) simp
qed

section \<open>Strings\<close>

definition substr :: "bytes \<Rightarrow> nat \<Rightarrow> nat \<Rightarrow> bytes" where
  "substr s pos n = take n (drop pos s)"

fun find_suffix :: "bytes \<Rightarrow> bytes \<Rightarrow> nat \<Rightarrow> nat option" where
  "find_suffix needle [] k = (if needle = [] then Some k else None)"
| "find_suffix needle (c # s) k =
     (if take (length needle) (c # s) = needle then Some k else find_suffix needle s (Suc k))"

definition find_from :: "bytes \<Rightarrow> bytes \<Rightarrow> nat \<Rightarrow> nat option" where
  "find_from s needle pos =
     (if length s < pos then None else find_suffix needle (drop pos s) pos)"

abbreviation CRLF :: bytes where
  "CRLF \<equiv> [CHR 0x0D, CHR 0x0A]"

definition occurs_at :: "bytes \<Rightarrow> bytes \<Rightarrow> nat \<Rightarrow> bool" where
  "occurs_at s needle j \<longleftrightarrow> j + length needle \<le> length s \<and> take (length needle) (drop j s) = needle"

lemma occurs_at_0: "occurs_at s needle 0 \<longleftrightarrow> take (length needle) s = needle"
  by (auto simp: occurs_at_def dest: arg_cong [where f = length])

lemma occurs_at_Suc [simp]: "occurs_at (c # s) needle (Suc j) \<longleftrightarrow> occurs_at s needle j"
  by (simp add: occurs_at_def)

lemma find_suffix_Some:
  "find_suffix needle s k = Some j \<Longrightarrow>
     k \<le> j \<and> occurs_at s needle (j - k) \<and> (\<forall>i<j - k. \<not> occurs_at s needle i)"
proof (induction needle s k rule: find_suffix.induct)
  case (1 needle k)
  then show ?case by (auto simp: occurs_at_def split: if_splits)
next
  case (2 needle c s k)
  show ?case
  proof (cases "take (length needle) (c # s) = needle")
    case True
    with 2 show ?thesis by (simp add: occurs_at_0)
  next
    case False
    with 2 have IH: "Suc k \<le> j" "occurs_at s needle (j - Suc k)"
      "\<forall>i<j - Suc k. \<not> occurs_at s needle i" by auto
    then have j: "j - k = Suc (j - Suc k)" by simp
    have "\<not> occurs_at (c # s) needle i" if "i < j - k" for i
      using that IH(3) False j by (cases i) (auto simp: occurs_at_0)
    with IH j show ?thesis by auto
  qed
qed

lemma find_suffix_None: "find_suffix needle s k = None \<Longrightarrow> \<not> occurs_at s needle i"
proof (induction needle s k arbitrary: i rule: find_suffix.induct)
  case (1 needle k)
  then show ?case by (auto simp: occurs_at_def split: if_splits)
next
  case (2 needle c s k)
  then show ?case by (cases i) (auto simp: occurs_at_0 split: if_splits)
qed

lemma occurs_at_drop: "pos \<le> length s \<Longrightarrow> occurs_at (drop pos s) needle j \<longleftrightarrow> occurs_at s needle (pos + j)"
  by (auto simp: occurs_at_def add.commute)

lemma find_from_NoneD: "find_from s needle pos = None \<Longrightarrow> pos \<le> i \<Longrightarrow> \<not> occurs_at s needle i"
proof (cases "length s < pos")
  case True
  assume "pos \<le> i"
  with True show ?thesis by (auto simp: occurs_at_def)
next
  case False
  assume "find_from s needle pos = None" "pos \<le> i"
  with False show ?thesis
    using find_suffix_None [of needle "drop pos s" pos "i - pos"] occurs_at_drop [of pos s needle "i - pos"]
    by (simp add: find_from_def)
qed

lemma find_from_SomeD:
  assumes "find_from s needle pos = Some j"
  shows "pos \<le> j" "occurs_at s needle j" "pos \<le> i \<Longrightarrow> i < j \<Longrightarrow> \<not> occurs_at s needle i"
proof -
  from assms have pos: "pos \<le> length s" and f: "find_suffix needle (drop pos s) pos = Some j"
    by (auto simp: find_from_def split: if_splits)
  from find_suffix_Some [OF f] pos show "pos \<le> j" "occurs_at s needle j"
    by (auto simp: occurs_at_drop)
  assume i: "pos \<le> i" "i < j"
  then have "i - pos < j - pos" by simp
  with find_suffix_Some [OF f] have "\<not> occurs_at (drop pos s) needle (i - pos)" by blast
  with i pos show "\<not> occurs_at s needle i" by (simp add: occurs_at_drop)
qed

lemma find_from_SomeI:
  assumes "pos \<le> j" "occurs_at s needle j" "\<And>i. pos \<le> i \<Longrightarrow> i < j \<Longrightarrow> \<not> occurs_at s needle i"
  shows "find_from s needle pos = Some j"
proof (cases "find_from s needle pos")
  case None
  with assms(1,2) show ?thesis by (auto dest: find_from_NoneD)
next
  case (Some k)
  note k = find_from_SomeD [OF Some]
  have "k = j" using assms k by (metis linorder_neqE_nat)
  with Some show ?thesis by simp
qed

lemma find_from_NoneI:
  assumes "\<And>i. pos \<le> i \<Longrightarrow> \<not> occurs_at s needle i"
  shows "find_from s needle pos = None"
proof (cases "find_from s needle pos")
  case (Some k)
  with assms find_from_SomeD(1,2) [OF Some] show ?thesis by blast
qed

lemma occurs_at_append [simp]: "occurs_at s needle j \<Longrightarrow> occurs_at (s @ t) needle j"
  by (auto simp: occurs_at_def)

lemma occurs_at_append_iff:
  "j + length needle \<le> length s \<Longrightarrow> occurs_at (s @ t) needle j \<longleftrightarrow> occurs_at s needle j"
  by (auto simp: occurs_at_def)

lemma occurs_at_shift [simp]: "occurs_at (p @ s) needle (length p + j) \<longleftrightarrow> occurs_at s needle j"
  by (auto simp: occurs_at_def)

lemma find_from_bounds:
  "find_from s needle pos = Some j \<Longrightarrow> pos \<le> j \<and> j + length needle \<le> length s"
  using find_from_SomeD(1,2) by (auto simp: occurs_at_def)

lemma find_from_append [chunk_intros]:
  assumes "find_from s needle pos = Some j"
  shows "find_from (s @ t) needle pos = Some j"
proof (rule find_from_SomeI)
  show "pos \<le> j" "occurs_at (s @ t) needle j"
    using find_from_SomeD(1,2) [OF assms] by auto
  fix i assume i: "pos \<le> i" "i < j"
  then have "i + length needle \<le> length s" using find_from_bounds [OF assms] by simp
  with i show "\<not> occurs_at (s @ t) needle i"
    using find_from_SomeD(3) [OF assms] by (simp add: occurs_at_append_iff)
qed

lemma find_from_shift:
  "find_from (p @ s) needle (length p + pos) = map_option ((+) (length p)) (find_from s needle pos)"
proof (cases "find_from s needle pos")
  case None
  have "\<not> occurs_at (p @ s) needle i" if "length p + pos \<le> i" for i
    using that find_from_NoneD [OF None, of "i - length p"] occurs_at_shift [of p s needle "i - length p"]
    by simp
  then show ?thesis using None by (simp add: find_from_NoneI)
next
  case (Some j)
  note D = find_from_SomeD [OF Some]
  have "find_from (p @ s) needle (length p + pos) = Some (length p + j)"
  proof (rule find_from_SomeI)
    show "length p + pos \<le> length p + j" "occurs_at (p @ s) needle (length p + j)"
      using D(1,2) by auto
    fix i assume "length p + pos \<le> i" "i < length p + j"
    then show "\<not> occurs_at (p @ s) needle i"
      using D(3) [of "i - length p"] occurs_at_shift [of p s needle "i - length p"] by simp
  qed
  with Some show ?thesis by simp
qed

text \<open>The first CRLF after a run without a carriage return ends that run.\<close>

lemma find_suffix_CRLF:
  "CHR 0x0D \<notin> set line \<Longrightarrow> find_suffix CRLF (line @ CRLF @ rest) k = Some (k + length line)"
  by (induction line arbitrary: k) auto

lemma find_from_CRLF:
  "CHR 0x0D \<notin> set line \<Longrightarrow> find_from (line @ CRLF @ rest) CRLF 0 = Some (length line)"
  using find_suffix_CRLF [of line rest 0] by (simp add: find_from_def)

lemma find_from_CRLF_after:
  assumes "CHR 0x0D \<notin> set line"
  shows "find_from (p @ line @ CRLF @ rest) CRLF (length p) = Some (length p + length line)"
  using find_from_shift [of p "line @ CRLF @ rest" CRLF 0] find_from_CRLF [OF assms, of rest]
  by simp

lemma substr_append: "pos + n \<le> length s \<Longrightarrow> substr (s @ t) pos n = substr s pos n"
  by (simp add: substr_def)

lemma substr_shift [simp]: "substr (p @ s) (length p + pos) n = substr s pos n"
  by (simp add: substr_def)

lemma length_substr: "pos + n \<le> length s \<Longrightarrow> length (substr s pos n) = n"
  by (simp add: substr_def)

section \<open>Decimal numbers\<close>

definition digit_char :: "nat \<Rightarrow> char" where
  "digit_char d = char_of (48 + d)"

fun show_nat :: "nat \<Rightarrow> bytes" where
  "show_nat n = (if n < 10 then [digit_char n] else show_nat (n div 10) @ [digit_char (n mod 10)])"

declare show_nat.simps [simp del]

definition show_int :: "int \<Rightarrow> bytes" where
  "show_int i = (if i < 0 then CHR ''-'' # show_nat (nat (- i)) else show_nat (nat i))"

definition digit_value :: "char \<Rightarrow> nat" where
  "digit_value c = code c - 48"

definition read_nat :: "bytes \<Rightarrow> nat" where
  "read_nat ds = foldl (\<lambda>v c. 10 * v + digit_value c) 0 ds"

lemma isdigit_digit_char [simp]: "d < 10 \<Longrightarrow> isdigit (digit_char d)"
  by (simp add: isdigit_def digit_char_def code_char_of)

lemma digit_value_digit_char [simp]: "d < 10 \<Longrightarrow> digit_value (digit_char d) = d"
  by (simp add: digit_value_def digit_char_def code_char_of)

lemma read_nat_snoc [simp]: "read_nat (ds @ [c]) = 10 * read_nat ds + digit_value c"
  by (simp add: read_nat_def)

lemma show_nat_length_pow: "n < 10 ^ Suc k \<Longrightarrow> length (show_nat n) \<le> Suc k"
proof (induction k arbitrary: n)
  case 0
  then show ?case by (simp add: show_nat.simps [of n])
next
  case (Suc k)
  show ?case
  proof (cases "n < 10")
    case True
    then show ?thesis by (simp add: show_nat.simps [of n])
  next
    case False
    have "n div 10 < 10 ^ Suc k" using Suc.prems by (simp add: div_less_iff_less_mult)
    from Suc.IH [OF this] False show ?thesis by (simp add: show_nat.simps [of n])
  qed
qed

lemma show_nat_length: "n < 10 ^ 20 \<Longrightarrow> length (show_nat n) \<le> 20"
  using show_nat_length_pow [of n 19] by simp

lemma show_nat_digits: "list_all isdigit (show_nat n)"
proof (induction n rule: show_nat.induct)
  case (1 n)
  then show ?case by (cases "n < 10") (simp_all add: show_nat.simps [of n])
qed

lemma show_nat_not_Nil [simp]: "show_nat n \<noteq> []"
  by (subst show_nat.simps) simp

lemma read_show_nat [simp]: "read_nat (show_nat n) = n"
proof (induction n rule: show_nat.induct)
  case (1 n)
  show ?case
  proof (cases "n < 10")
    case True
    then show ?thesis by (simp add: show_nat.simps [of n] read_nat_def)
  next
    case False
    with 1 show ?thesis by (simp add: show_nat.simps [of n])
  qed
qed

lemma isdigit_not_special:
  "isdigit c \<Longrightarrow> c \<noteq> CHR 0x0D \<and> c \<noteq> CHR 0x0A \<and> c \<noteq> CHR ''-'' \<and> c \<noteq> CHR ''+'' \<and> c \<noteq> CHR '' ''
     \<and> c \<noteq> CHR ''.'' \<and> c \<noteq> CHR '','' \<and> \<not> isspace c"
  by (auto simp: isdigit_def isspace_def code_def)

lemma show_nat_no_CR: "CHR 0x0D \<notin> set (show_nat n)"
  using show_nat_digits [of n] isdigit_not_special by (auto simp: list_all_iff)

lemma show_nat_hd: "isdigit (hd (show_nat n))"
  using show_nat_digits [of n] by (cases "show_nat n") auto

text \<open>
  \<open>std::stol\<close> and its relatives: skip white space, an optional sign, then the longest run
  of digits; no digit is \<open>std::invalid_argument\<close>, a value outside the type's range is
  \<open>std::out_of_range\<close>.  The number of characters read is the \<open>pos\<close> output argument.
\<close>

datatype conv_error = InvalidArgument | OutOfRange

definition sto_integer :: "int \<Rightarrow> int \<Rightarrow> bytes \<Rightarrow> conv_error + int \<times> nat" where
  "sto_integer lo hi s =
     (let sp = takeWhile isspace s;
          t = dropWhile isspace s;
          signed = (t \<noteq> [] \<and> (hd t = CHR ''-'' \<or> hd t = CHR ''+''));
          u = (if signed then tl t else t);
          ds = takeWhile isdigit u;
          v = (if signed \<and> hd t = CHR ''-'' then - int (read_nat ds) else int (read_nat ds))
      in if ds = [] then Inl InvalidArgument
         else if v < lo \<or> hi < v then Inl OutOfRange
         else Inr (v, length sp + (if signed then 1 else 0) + length ds))"

abbreviation stol :: "bytes \<Rightarrow> conv_error + int \<times> nat" where
  "stol \<equiv> sto_integer (- (2 ^ 63)) (2 ^ 63 - 1)"

abbreviation stoi :: "bytes \<Rightarrow> conv_error + int \<times> nat" where
  "stoi \<equiv> sto_integer (- (2 ^ 31)) (2 ^ 31 - 1)"

lemma takeWhile_all: "list_all P xs \<Longrightarrow> takeWhile P xs = xs"
  by (induction xs) auto

lemma sto_integer_digits:
  assumes "list_all isdigit ds" "ds \<noteq> []"
  shows "sto_integer lo hi ds =
    (if int (read_nat ds) < lo \<or> hi < int (read_nat ds) then Inl OutOfRange
     else Inr (int (read_nat ds), length ds))"
proof -
  obtain d ds' where ds: "ds = d # ds'" using assms(2) by (cases ds) auto
  then have "isdigit d" using assms(1) by simp
  then have "takeWhile isspace ds = []" "dropWhile isspace ds = ds"
    "hd ds \<noteq> CHR ''-''" "hd ds \<noteq> CHR ''+''"
    using isdigit_not_special ds by auto
  then show ?thesis using assms by (simp add: sto_integer_def Let_def takeWhile_all)
qed

lemma substr_middle: "substr (p @ v @ r) (length p) (length v) = v"
  by (simp add: substr_def)

lemma find_SomeD: "find P xs = Some x \<Longrightarrow> x \<in> set xs \<and> P x"
  by (induction xs) (auto split: if_splits)

section \<open>Little-endian packing\<close>

definition byte_of :: "'a::len word \<Rightarrow> char" where
  "byte_of w = char_of (unat (w AND 0xFF))"

definition word_of_byte :: "char \<Rightarrow> 'a::len word" where
  "word_of_byte c = of_nat (code c)"

fun le_bytes :: "nat \<Rightarrow> 'a::len word \<Rightarrow> bytes" where
  "le_bytes 0 w = []"
| "le_bytes (Suc n) w = byte_of w # le_bytes n (drop_bit 8 w)"

fun le_read :: "bytes \<Rightarrow> 'a::len word" where
  "le_read [] = 0"
| "le_read (b # bs) = push_bit 8 (le_read bs) OR word_of_byte b"

lemma length_le_bytes [simp]: "length (le_bytes n w) = n"
  by (induction n arbitrary: w) auto

lemma word_of_byte_byte_of: "word_of_byte (byte_of (w :: 'a::len word)) = take_bit 8 w"
proof -
  have m: "w AND 0xFF = take_bit 8 w"
    using take_bit_eq_mask [of 8 w] by (simp add: mask_eq_exp_minus_1)
  have "unat (take_bit 8 w) < 256"
    using take_bit_nat_less_exp [of 8 "unat w"] by (simp add: unsigned_take_bit_eq)
  then have "code (byte_of w) = unat (take_bit 8 w)"
    unfolding byte_of_def m by (rule code_char_of)
  then show ?thesis by (simp add: word_of_byte_def)
qed

lemma le_bytes_4: "le_bytes 4 w = [byte_of w, byte_of (drop_bit 8 w), byte_of (drop_bit 16 w), byte_of (drop_bit 24 w)]"
proof -
  have "(4 :: nat) = Suc (Suc (Suc (Suc 0)))" by simp
  then show ?thesis by (simp only: le_bytes.simps drop_bit_drop_bit) simp
qed

lemma upt_Suc_shift: "[0..<Suc n] = 0 # map Suc [0..<n]"
  by (simp only: map_Suc_upt upt_conv_Cons [OF zero_less_Suc])

lemma le_bytes_map: "le_bytes n v = map (\<lambda>i. byte_of (drop_bit (8 * i) v)) [0..<n]"
proof (induction n arbitrary: v)
  case (Suc n)
  then show ?case by (simp only: upt_Suc_shift le_bytes.simps list.map map_map) (simp add: comp_def add.commute)
qed simp

lemma le_read_le_bytes: "le_read (le_bytes n (w :: 'a::len word)) = take_bit (8 * n) w"
proof (induction n arbitrary: w)
  case 0
  then show ?case by simp
next
  case (Suc n)
  have "push_bit 8 (take_bit (8 * n) (drop_bit 8 w)) OR take_bit 8 w = take_bit (8 * Suc n) w"
    by (rule bit_word_eqI) (auto simp: bit_simps)
  with Suc show ?case by (simp add: word_of_byte_byte_of)
qed

lemma le_read_le_bytes32 [simp]: "le_read (le_bytes 4 (w :: u32)) = w"
  by (simp add: le_read_le_bytes take_bit_word_eq_self)

lemma le_read_le_bytes64 [simp]: "le_read (le_bytes 8 (w :: u64)) = w"
  by (simp add: le_read_le_bytes take_bit_word_eq_self)

section \<open>Word bounds\<close>

lemma u64_bound: "unat (w :: u64) < 18446744073709551616"
  using unsigned_less [of w, where 'a = nat] by simp

lemma u32_bound: "unat (w :: u32) < 4294967296"
  using unsigned_less [of w, where 'a = nat] by simp

end
