(* ===== verification/Cache_Serializer.thy ===== *)
theory Cache_Serializer
  imports Reame_Prelude
begin

text \<open>
  \<open>KVCacheSerializer\<close> (\<open>src/src/cache/cache_serializer.cpp\<close>): the compression envelope
  and the FNV-1a checksum of cached snapshots.  zstd is not part of the sources: it is the
  parameter \<open>zstd\<close>, \<open>None\<close> for a build without it, and the named hypothesis
  \<open>zstd_lossless\<close> is the library's documented contract.
\<close>

section \<open>Model\<close>

text \<open>
  The four zstd entry points the code calls: \<open>ZSTD_compress\<close> (\<open>None\<close> when
  \<open>ZSTD_isError\<close>), \<open>ZSTD_getErrorName\<close> of that failure, \<open>ZSTD_getFrameContentSize\<close>
  (\<open>None\<close> for its two error values), and \<open>ZSTD_decompress\<close> into a buffer of the given size.
\<close>

record zstd_api =
  zs_compress :: "bytes \<Rightarrow> bytes option"
  zs_error_name :: "bytes \<Rightarrow> bytes"
  zs_content_size :: "bytes \<Rightarrow> nat option"
  zs_decompress :: "bytes \<Rightarrow> nat \<Rightarrow> bytes option"

type_synonym zstd = "zstd_api option"

datatype cache_error = CacheError bytes

definition kFlagZstd :: char where
  "kFlagZstd = CHR ''Z''"

definition kFlagRaw :: char where
  "kFlagRaw = CHR ''R''"

definition compress :: "zstd \<Rightarrow> bytes \<Rightarrow> cache_error + bytes" where
  "compress z data =
     (case z of
        Some api \<Rightarrow>
          (case zs_compress api data of
             None \<Rightarrow> Inl (CacheError (''zstd compression failed: '' @ zs_error_name api data))
           | Some frame \<Rightarrow> Inr (kFlagZstd # frame))
      | None \<Rightarrow> Inr (kFlagRaw # data))"

definition decompress :: "zstd \<Rightarrow> bytes \<Rightarrow> cache_error + bytes" where
  "decompress z data =
     (if data = [] then Inl (CacheError ''empty compression envelope'')
      else if hd data = kFlagRaw then Inr (tl data)
      else if hd data = kFlagZstd then
        (case z of
           Some api \<Rightarrow>
             (case zs_content_size api (tl data) of
                None \<Rightarrow> Inl (CacheError ''corrupt zstd frame in cache entry'')
              | Some raw_size \<Rightarrow>
                  (case zs_decompress api (tl data) raw_size of
                     None \<Rightarrow> Inl (CacheError ''zstd decompression failed'')
                   | Some out \<Rightarrow>
                       if length out \<noteq> raw_size then Inl (CacheError ''zstd decompression failed'')
                       else Inr out))
         | None \<Rightarrow> Inl (CacheError
             ''cache entry is zstd-compressed but reame was built without zstd''))
      else Inl (CacheError (''unknown compression envelope flag '' @ [CHR 0x27, hd data, CHR 0x27])))"

definition fnv_offset :: u64 where
  "fnv_offset = 0xcbf29ce484222325"

definition fnv_prime :: u64 where
  "fnv_prime = 0x100000001b3"

definition fnv_step :: "u64 \<Rightarrow> char \<Rightarrow> u64" where
  "fnv_step hash c = (hash XOR word_of_byte c) * fnv_prime"

definition checksum :: "bytes \<Rightarrow> u64" where
  "checksum data = foldl fnv_step fnv_offset data"

section \<open>The envelope\<close>

definition zstd_lossless :: "zstd \<Rightarrow> bool" where
  "zstd_lossless z \<longleftrightarrow>
     (case z of None \<Rightarrow> True
      | Some api \<Rightarrow> (\<forall>d. \<exists>frame. zs_compress api d = Some frame
          \<and> zs_content_size api frame = Some (length d)
          \<and> zs_decompress api frame (length d) = Some d))"

lemma decompress_compress:
  assumes "zstd_lossless z"
  shows "\<exists>packed. compress z data = Inr packed \<and> decompress z packed = Inr data"
proof (cases z)
  case None
  then show ?thesis by (simp add: compress_def decompress_def)
next
  case (Some api)
  with assms obtain frame where "zs_compress api data = Some frame"
    "zs_content_size api frame = Some (length data)"
    "zs_decompress api frame (length data) = Some data"
    by (auto simp: zstd_lossless_def)
  with Some show ?thesis
    by (simp add: compress_def decompress_def kFlagRaw_def kFlagZstd_def)
qed

lemma decompress_raw: "decompress z (kFlagRaw # data) = Inr data"
  by (simp add: decompress_def)

section \<open>The checksum detects every change of one byte\<close>

lemma fnv_prime_invertible: "fnv_prime * 0xce965057aff6957b = 1"
  by (simp add: fnv_prime_def)

lemma mult_fnv_prime_inject: "(a :: u64) * fnv_prime = b * fnv_prime \<longleftrightarrow> a = b"
proof
  assume "a * fnv_prime = b * fnv_prime"
  then have "a * (fnv_prime * 0xce965057aff6957b) = b * (fnv_prime * 0xce965057aff6957b)"
    by (simp only: mult.assoc [symmetric])
  then show "a = b" by (simp add: fnv_prime_invertible)
qed simp

lemma xor_right_inject: "(a :: u64) XOR c = b XOR c \<longleftrightarrow> a = b"
proof
  assume "a XOR c = b XOR c"
  then have "(a XOR c) XOR c = (b XOR c) XOR c" by simp
  then show "a = b" by (simp only: xor.assoc xor_self_eq xor.right_neutral)
qed simp

lemma word_of_byte_inject: "(word_of_byte c :: u64) = word_of_byte d \<longleftrightarrow> c = d"
proof
  assume "(word_of_byte c :: u64) = word_of_byte d"
  then have "unat (word_of_byte c :: u64) = unat (word_of_byte d :: u64)" by simp
  then have "code c = code d"
    using code_less [of c] code_less [of d]
    by (simp add: word_of_byte_def unat_of_nat take_bit_eq_mod)
  then show "c = d" by simp
qed simp

lemma fnv_step_inject_hash: "fnv_step h c = fnv_step h' c \<longleftrightarrow> h = h'"
  by (simp add: fnv_step_def mult_fnv_prime_inject xor_right_inject)

lemma fnv_step_inject_byte: "fnv_step h c = fnv_step h d \<longleftrightarrow> c = d"
  unfolding fnv_step_def mult_fnv_prime_inject
  by (simp only: xor.commute [of h] xor_right_inject word_of_byte_inject)

lemma foldl_fnv_inject: "foldl fnv_step h cs = foldl fnv_step h' cs \<longleftrightarrow> h = h'"
  by (induction cs arbitrary: h h') (simp_all add: fnv_step_inject_hash)

text \<open>
  Two byte strings that differ in exactly one byte have different FNV-1a checksums, whatever
  the position and the two values.
\<close>

lemma checksum_byte_change: "checksum (xs @ c # ys) = checksum (xs @ d # ys) \<longleftrightarrow> c = d"
  by (simp add: checksum_def foldl_fnv_inject fnv_step_inject_byte)

lemma checksum_snoc: "checksum (data @ [c]) = fnv_step (checksum data) c"
  by (simp add: checksum_def)

text \<open>A stored-only zstd: frames carry the payload as it is.\<close>

definition stored_zstd :: zstd_api where
  "stored_zstd = \<lparr>zs_compress = Some, zs_error_name = (\<lambda>_. []),
     zs_content_size = (\<lambda>f. Some (length f)), zs_decompress = (\<lambda>f n. Some (take n f))\<rparr>"

lemma stored_zstd_lossless: "zstd_lossless (Some stored_zstd)"
  by (simp add: zstd_lossless_def stored_zstd_def)

end
