(* ===== verification/Llama_Backend.thy ===== *)
theory Llama_Backend
  imports Cache_Serializer Complex_Main
begin

text \<open>
  The seam to llama.cpp: the virtual interface \<open>LlamaBackend\<close>
  (\<open>src/include/reame/core/llama_backend.hpp\<close>) as a record of operations, and its real
  implementation (\<open>src/src/core/llama_backend_real.cpp\<close>) over the llama C API.  llama.cpp is
  not part of the repository: its functions are the parameter \<open>llama_api\<close>, and what the
  wrapper relies on is the predicate \<open>llama_api_ok\<close>.  An operation of a backend maps the
  backend's state to a result, or the exception thrown, and the new state.  Logits are lists
  of reals; positions and token counts are natural numbers, contexts being far smaller than
  \<open>2^31\<close> positions.  The locale \<open>kv_backend\<close> is the contract of the interface that the
  caches and the decoders rely on.  \<open>CallbackExn\<close> is any other \<open>std::exception\<close>, thrown by a
  callback the caller of the engine passed in.
\<close>

datatype engine_exn = ModelError bytes | CacheExn cache_error | EngineError bytes | CallbackExn bytes

type_synonym logits = "real list"

record seq_slice =
  sl_seq_id :: int
  sl_tokens :: "token list"
  sl_pos_start :: nat

record chat_message =
  cm_role :: bytes
  cm_content :: bytes

record 'b backend_ops =
  bo_tokenize :: "bytes \<Rightarrow> bool \<Rightarrow> 'b \<Rightarrow> engine_exn + token list"
  bo_detokenize :: "token list \<Rightarrow> 'b \<Rightarrow> engine_exn + bytes"
  bo_token_piece :: "token \<Rightarrow> 'b \<Rightarrow> engine_exn + bytes"
  bo_decode :: "token list \<Rightarrow> 'b \<Rightarrow> (engine_exn + logits) \<times> 'b"
  bo_decode_append :: "token list \<Rightarrow> 'b \<Rightarrow> (engine_exn + logits) \<times> 'b"
  bo_decode_batch :: "token list \<Rightarrow> 'b \<Rightarrow> (engine_exn + logits list) \<times> 'b"
  bo_truncate_to :: "nat \<Rightarrow> 'b \<Rightarrow> (engine_exn + unit) \<times> 'b"
  bo_decode_seqs :: "seq_slice list \<Rightarrow> 'b \<Rightarrow> (engine_exn + logits list) \<times> 'b"
  bo_format_chat :: "bytes \<Rightarrow> 'b \<Rightarrow> bytes"
  bo_format_chat_messages :: "chat_message list \<Rightarrow> 'b \<Rightarrow> bytes"
  bo_clear_seq :: "int \<Rightarrow> 'b \<Rightarrow> 'b"
  bo_copy_seq :: "int \<Rightarrow> int \<Rightarrow> nat \<Rightarrow> 'b \<Rightarrow> 'b"
  bo_reset :: "'b \<Rightarrow> 'b"
  bo_state_data :: "'b \<Rightarrow> engine_exn + bytes"
  bo_set_state :: "bytes \<Rightarrow> nat \<Rightarrow> 'b \<Rightarrow> (engine_exn + unit) \<times> 'b"
  bo_n_past :: "'b \<Rightarrow> nat"
  bo_vocab_size :: "'b \<Rightarrow> int"
  bo_context_length :: "'b \<Rightarrow> nat"
  bo_eos_token :: "'b \<Rightarrow> token"
  bo_is_eog :: "token \<Rightarrow> 'b \<Rightarrow> bool"
  bo_supports_rollback :: "'b \<Rightarrow> bool"

section \<open>The llama C API\<close>

record batch_item =
  bi_token :: token
  bi_pos :: nat
  bi_seq :: int
  bi_logits :: bool

text \<open>
  The sizing functions take the capacity of the output buffer and return the count with the
  output written; a negative count is the size that would have been needed.
\<close>

record 'c llama_api =
  llama_tokenize :: "bytes \<Rightarrow> nat \<Rightarrow> bool \<Rightarrow> int \<times> token list"
  llama_detokenize :: "token list \<Rightarrow> nat \<Rightarrow> int \<times> bytes"
  llama_token_to_piece :: "token \<Rightarrow> nat \<Rightarrow> int \<times> bytes"
  llama_decode :: "batch_item list \<Rightarrow> 'c \<Rightarrow> int \<times> 'c"
  llama_get_logits_ith :: "'c \<Rightarrow> int \<Rightarrow> logits option"
  llama_model_chat_template :: "bytes option"
  llama_chat_apply_template :: "bytes \<Rightarrow> (bytes \<times> bytes) list \<Rightarrow> nat \<Rightarrow> int \<times> bytes"
  llama_memory_seq_cp :: "int \<Rightarrow> int \<Rightarrow> nat \<Rightarrow> 'c \<Rightarrow> 'c"
  llama_memory_seq_rm :: "int \<Rightarrow> int \<Rightarrow> 'c \<Rightarrow> bool \<times> 'c"
  llama_memory_clear :: "'c \<Rightarrow> 'c"
  llama_state_get_data :: "'c \<Rightarrow> bytes"
  llama_state_set_data :: "bytes \<Rightarrow> 'c \<Rightarrow> nat \<times> 'c"
  llama_vocab_n_tokens :: int
  llama_n_ctx :: nat
  llama_vocab_eos :: token
  llama_vocab_is_eog :: "token \<Rightarrow> bool"
  llama_model_is_recurrent :: bool
  llama_model_is_hybrid :: bool

section \<open>RealLlamaBackend\<close>

record 'c real_backend =
  rb_ctx :: 'c
  rb_n_past :: nat

definition real_tokenize :: "'c llama_api \<Rightarrow> bytes \<Rightarrow> bool \<Rightarrow> engine_exn + token list" where
  "real_tokenize api txt add_special =
     (let n = fst (llama_tokenize api txt 0 add_special) in
      if n = 0 then Inr []
      else if n = - (2 ^ 31) then Inl (ModelError (''tokenization overflow for input of ''
        @ show_nat (length txt) @ '' bytes''))
      else let cap = (if n < 0 then nat (- n) else nat n)
           in case llama_tokenize api txt cap add_special of
                (written, tokens) \<Rightarrow>
                  if written < 0 then Inl (ModelError ''tokenization failed'')
                  else Inr (take (nat written) tokens))"

definition real_detokenize :: "'c llama_api \<Rightarrow> token list \<Rightarrow> engine_exn + bytes" where
  "real_detokenize api tokens =
     (let n = fst (llama_detokenize api tokens 0) in
      if n = 0 then Inr []
      else let cap = (if n < 0 then nat (- n) else nat n)
           in case llama_detokenize api tokens cap of
                (written, txt) \<Rightarrow>
                  if written < 0 then Inl (ModelError ''detokenization failed'')
                  else Inr (take (nat written) txt))"

definition real_token_piece :: "'c llama_api \<Rightarrow> token \<Rightarrow> engine_exn + bytes" where
  "real_token_piece api tok =
     (case llama_token_to_piece api tok 128 of
        (n, buf) \<Rightarrow>
          if 0 \<le> n then Inr (take (nat n) buf)
          else (case llama_token_to_piece api tok (nat (- n)) of
                  (m, piece) \<Rightarrow>
                    if m < 0 then Inl (ModelError (''token_to_piece failed for token '' @ show_int (sint tok)))
                    else Inr (take (nat m) piece)))"

fun get_logits :: "'c llama_api \<Rightarrow> bytes \<Rightarrow> 'c \<Rightarrow> int list \<Rightarrow> logits list \<Rightarrow> engine_exn + logits list" where
  "get_logits api msg ctx [] out = Inr out"
| "get_logits api msg ctx (i # idxs) out =
     (case llama_get_logits_ith api ctx i of
        None \<Rightarrow> Inl (ModelError (msg @ show_int i))
      | Some l \<Rightarrow> get_logits api msg ctx idxs (out @ [take (nat (llama_vocab_n_tokens api)) l]))"

definition append_batch :: "nat \<Rightarrow> token list \<Rightarrow> bool \<Rightarrow> batch_item list" where
  "append_batch n_past tokens all_logits =
     map (\<lambda>i. \<lparr>bi_token = tokens ! i, bi_pos = n_past + i, bi_seq = 0,
       bi_logits = (all_logits \<or> i = length tokens - 1)\<rparr>) [0..<length tokens]"

definition decode_impl :: "'c llama_api \<Rightarrow> token list \<Rightarrow> bool \<Rightarrow> 'c real_backend
    \<Rightarrow> (engine_exn + logits list) \<times> 'c real_backend" where
  "decode_impl api tokens all_logits b =
     (let n = length tokens in
      if n = 0 then (Inl (ModelError ''decode of zero tokens''), b)
      else case llama_decode api (append_batch (rb_n_past b) tokens all_logits) (rb_ctx b) of
             (rc, ctx) \<Rightarrow>
               if rc \<noteq> 0 then (Inl (ModelError (''llama_decode failed with status '' @ show_int rc)), b\<lparr>rb_ctx := ctx\<rparr>)
               else (get_logits api ''no logits returned at batch position '' ctx
                       (map int [if all_logits then 0 else n - 1..<n]) [],
                     b\<lparr>rb_ctx := ctx, rb_n_past := rb_n_past b + n\<rparr>))"

definition last_logits :: "engine_exn + logits list \<Rightarrow> engine_exn + logits" where
  "last_logits r = (case r of Inl e \<Rightarrow> Inl e | Inr ls \<Rightarrow> Inr (last ls))"

definition real_reset :: "'c llama_api \<Rightarrow> 'c real_backend \<Rightarrow> 'c real_backend" where
  "real_reset api b = b\<lparr>rb_ctx := llama_memory_clear api (rb_ctx b), rb_n_past := 0\<rparr>"

definition real_decode :: "'c llama_api \<Rightarrow> token list \<Rightarrow> 'c real_backend \<Rightarrow> (engine_exn + logits) \<times> 'c real_backend" where
  "real_decode api tokens b =
     (case decode_impl api tokens False (real_reset api b) of (r, b') \<Rightarrow> (last_logits r, b'))"

definition real_decode_append :: "'c llama_api \<Rightarrow> token list \<Rightarrow> 'c real_backend \<Rightarrow> (engine_exn + logits) \<times> 'c real_backend" where
  "real_decode_append api tokens b =
     (case decode_impl api tokens False b of (r, b') \<Rightarrow> (last_logits r, b'))"

definition real_decode_batch :: "'c llama_api \<Rightarrow> token list \<Rightarrow> 'c real_backend \<Rightarrow> (engine_exn + logits list) \<times> 'c real_backend" where
  "real_decode_batch api tokens b = decode_impl api tokens True b"

definition slice_items :: "seq_slice \<Rightarrow> batch_item list" where
  "slice_items s =
     map (\<lambda>t. \<lparr>bi_token = sl_tokens s ! t, bi_pos = sl_pos_start s + t, bi_seq = sl_seq_id s,
       bi_logits = (t + 1 = length (sl_tokens s))\<rparr>) [0..<length (sl_tokens s)]"

fun slice_ends :: "int \<Rightarrow> seq_slice list \<Rightarrow> int list" where
  "slice_ends i [] = []"
| "slice_ends i (s # ss) = (i + int (length (sl_tokens s)) - 1) # slice_ends (i + int (length (sl_tokens s))) ss"

definition real_decode_seqs :: "'c llama_api \<Rightarrow> seq_slice list \<Rightarrow> 'c real_backend \<Rightarrow> (engine_exn + logits list) \<times> 'c real_backend" where
  "real_decode_seqs api slices b =
     (if sum_list (map (length \<circ> sl_tokens) slices) = 0 then (Inl (ModelError ''decode_seqs with no tokens''), b)
      else case llama_decode api (concat (map slice_items slices)) (rb_ctx b) of
             (rc, ctx) \<Rightarrow>
               if rc \<noteq> 0 then (Inl (ModelError (''llama_decode (multi-seq) failed with status '' @ show_int rc)), b\<lparr>rb_ctx := ctx\<rparr>)
               else (get_logits api ''no logits at multi-seq batch position '' ctx (slice_ends 0 slices) [],
                     b\<lparr>rb_ctx := ctx\<rparr>))"

definition apply_template :: "'c llama_api \<Rightarrow> bytes \<Rightarrow> (bytes \<times> bytes) list \<Rightarrow> nat \<Rightarrow> bytes \<Rightarrow> bytes" where
  "apply_template api tmpl msgs cap fallback =
     (case llama_chat_apply_template api tmpl msgs cap of
        (n, buf) \<Rightarrow>
          if n < 0 then fallback
          else if cap < nat n then
            (case llama_chat_apply_template api tmpl msgs (nat n) of
               (m, buf') \<Rightarrow> if m < 0 then fallback else take (nat m) buf')
          else take (nat n) buf)"

definition real_format_chat :: "'c llama_api \<Rightarrow> bytes \<Rightarrow> bytes" where
  "real_format_chat api user_message =
     (case llama_model_chat_template api of
        None \<Rightarrow> user_message
      | Some tmpl \<Rightarrow> apply_template api tmpl [(''user'', user_message)] (length user_message + 512) user_message)"

definition plain_turns :: "chat_message list \<Rightarrow> bytes" where
  "plain_turns messages =
     concat (map (\<lambda>m. cm_role m @ '': '' @ cm_content m @ [CHR 0x0A]) messages) @ ''assistant:''"

definition real_format_chat_messages :: "'c llama_api \<Rightarrow> chat_message list \<Rightarrow> bytes" where
  "real_format_chat_messages api messages =
     (case llama_model_chat_template api of
        None \<Rightarrow> plain_turns messages
      | Some tmpl \<Rightarrow>
          apply_template api tmpl (map (\<lambda>m. (cm_role m, cm_content m)) messages)
            (sum_list (map (\<lambda>m. length (cm_role m) + length (cm_content m)) messages) + 1024)
            (plain_turns messages))"

definition real_copy_seq :: "'c llama_api \<Rightarrow> int \<Rightarrow> int \<Rightarrow> nat \<Rightarrow> 'c real_backend \<Rightarrow> 'c real_backend" where
  "real_copy_seq api src dst n_tokens b = b\<lparr>rb_ctx := llama_memory_seq_cp api src dst n_tokens (rb_ctx b)\<rparr>"

definition real_clear_seq :: "'c llama_api \<Rightarrow> int \<Rightarrow> 'c real_backend \<Rightarrow> 'c real_backend" where
  "real_clear_seq api seq_id b = b\<lparr>rb_ctx := snd (llama_memory_seq_rm api seq_id (- 1) (rb_ctx b))\<rparr>"

definition real_truncate_to :: "'c llama_api \<Rightarrow> nat \<Rightarrow> 'c real_backend \<Rightarrow> (engine_exn + unit) \<times> 'c real_backend" where
  "real_truncate_to api n_tokens b =
     (if rb_n_past b \<le> n_tokens then (Inr (), b)
      else case llama_memory_seq_rm api 0 (int n_tokens) (rb_ctx b) of
             (ok, ctx) \<Rightarrow>
               if \<not> ok then (Inl (ModelError (''failed to truncate sequence to '' @ show_nat n_tokens @ '' tokens'')), b\<lparr>rb_ctx := ctx\<rparr>)
               else (Inr (), b\<lparr>rb_ctx := ctx, rb_n_past := n_tokens\<rparr>))"

definition real_state_data :: "'c llama_api \<Rightarrow> 'c real_backend \<Rightarrow> engine_exn + bytes" where
  "real_state_data api b =
     (let data = llama_state_get_data api (rb_ctx b)
      in if data = [] then Inl (ModelError ''llama_state_get_data failed'') else Inr data)"

definition real_set_state :: "'c llama_api \<Rightarrow> bytes \<Rightarrow> nat \<Rightarrow> 'c real_backend \<Rightarrow> (engine_exn + unit) \<times> 'c real_backend" where
  "real_set_state api data n_past b =
     (case llama_state_set_data api data (rb_ctx b) of
        (rd, ctx) \<Rightarrow>
          if rd = 0 then (Inl (ModelError ''llama_state_set_data failed (incompatible or truncated state blob)''), b\<lparr>rb_ctx := ctx\<rparr>)
          else (Inr (), b\<lparr>rb_ctx := ctx, rb_n_past := n_past\<rparr>))"

definition real_supports_rollback :: "'c llama_api \<Rightarrow> bool" where
  "real_supports_rollback api \<longleftrightarrow> \<not> llama_model_is_recurrent api \<and> \<not> llama_model_is_hybrid api"

definition real_ops :: "'c llama_api \<Rightarrow> 'c real_backend backend_ops" where
  "real_ops api = \<lparr>
     bo_tokenize = (\<lambda>txt add_special b. real_tokenize api txt add_special),
     bo_detokenize = (\<lambda>tokens b. real_detokenize api tokens),
     bo_token_piece = (\<lambda>tok b. real_token_piece api tok),
     bo_decode = real_decode api, bo_decode_append = real_decode_append api,
     bo_decode_batch = real_decode_batch api, bo_truncate_to = real_truncate_to api,
     bo_decode_seqs = real_decode_seqs api,
     bo_format_chat = (\<lambda>msg b. real_format_chat api msg),
     bo_format_chat_messages = (\<lambda>msgs b. real_format_chat_messages api msgs),
     bo_clear_seq = real_clear_seq api, bo_copy_seq = real_copy_seq api, bo_reset = real_reset api,
     bo_state_data = real_state_data api, bo_set_state = real_set_state api,
     bo_n_past = rb_n_past, bo_vocab_size = (\<lambda>b. llama_vocab_n_tokens api),
     bo_context_length = (\<lambda>b. llama_n_ctx api), bo_eos_token = (\<lambda>b. llama_vocab_eos api),
     bo_is_eog = (\<lambda>tok b. llama_vocab_is_eog api tok),
     bo_supports_rollback = (\<lambda>b. real_supports_rollback api)\<rparr>"


section \<open>What the wrapper relies on\<close>

text \<open>
  \<open>toks c s\<close> is the token content of sequence \<open>s\<close> in the context's memory.  A batch is
  contiguous when, per sequence, its positions continue the stored ones.
\<close>

definition contiguous :: "(int \<Rightarrow> token list) \<Rightarrow> batch_item list \<Rightarrow> bool" where
  "contiguous seqs items \<longleftrightarrow> (\<forall>s\<in>set (map bi_seq items).
     map bi_pos (filter (\<lambda>i. bi_seq i = s) items) =
       [length (seqs s)..<length (seqs s) + length (filter (\<lambda>i. bi_seq i = s) items)])"

definition seq_tokens :: "int \<Rightarrow> batch_item list \<Rightarrow> token list" where
  "seq_tokens s items = map bi_token (filter (\<lambda>i. bi_seq i = s) items)"

definition llama_api_ok :: "'c llama_api \<Rightarrow> ('c \<Rightarrow> int \<Rightarrow> token list) \<Rightarrow> bool" where
  "llama_api_ok api toks \<longleftrightarrow>
     (\<forall>items c c'. contiguous (toks c) items \<and> llama_decode api items c = (0, c') \<longrightarrow>
        toks c' = (\<lambda>s. toks c s @ seq_tokens s items))
   \<and> (\<forall>s p c c'. 0 \<le> p \<and> llama_memory_seq_rm api s p c = (True, c') \<longrightarrow>
        toks c' = (toks c)(s := take (nat p) (toks c s)))
   \<and> (\<forall>s c. toks (snd (llama_memory_seq_rm api s (- 1) c)) = (toks c)(s := []))
   \<and> (\<forall>c. toks (llama_memory_clear api c) = (\<lambda>s. []))
   \<and> (\<forall>src dst n c. 0 \<le> dst \<and> toks c dst = [] \<longrightarrow>
        toks (llama_memory_seq_cp api src dst n c) = (toks c)(dst := take n (toks c src)))
   \<and> (\<forall>c c0 rd c'. llama_state_set_data api (llama_state_get_data api c) c0 = (rd, c') \<and> rd \<noteq> 0 \<longrightarrow>
        toks c' 0 = toks c 0)"

lemma llama_api_okD:
  assumes "llama_api_ok api toks"
  shows "contiguous (toks c) items \<Longrightarrow> llama_decode api items c = (0, c') \<Longrightarrow> toks c' = (\<lambda>s. toks c s @ seq_tokens s items)"
    and "0 \<le> p \<Longrightarrow> llama_memory_seq_rm api s p c = (True, c') \<Longrightarrow> toks c' = (toks c)(s := take (nat p) (toks c s))"
    and "toks (snd (llama_memory_seq_rm api s (- 1) c)) = (toks c)(s := [])"
    and "toks (llama_memory_clear api c) = (\<lambda>s. [])"
    and "0 \<le> dst \<Longrightarrow> toks c dst = [] \<Longrightarrow> toks (llama_memory_seq_cp api src dst n c) = (toks c)(dst := take n (toks c src))"
    and "llama_state_set_data api (llama_state_get_data api c) c0 = (rd, c') \<Longrightarrow> rd \<noteq> 0 \<Longrightarrow> toks c' 0 = toks c 0"
  using assms unfolding llama_api_ok_def by auto

section \<open>The contract of the interface\<close>

locale kv_backend =
  fixes ops :: "'b backend_ops"
    and kv :: "'b \<Rightarrow> token list"
    and ok :: "'b \<Rightarrow> bool"
    and represents :: "bytes \<Rightarrow> token list \<Rightarrow> bool"
  assumes append_kv: "ok b \<Longrightarrow> bo_decode_append ops ts b = (Inr l, b') \<Longrightarrow> ok b' \<and> kv b' = kv b @ ts"
    and batch_kv: "ok b \<Longrightarrow> bo_decode_batch ops ts b = (Inr ls, b') \<Longrightarrow> ok b' \<and> kv b' = kv b @ ts \<and> length ls = length ts"
    and decode_kv: "bo_decode ops ts b = (Inr l, b') \<Longrightarrow> ok b' \<and> kv b' = ts"
    and truncate_kv: "ok b \<Longrightarrow> bo_truncate_to ops n b = (Inr u, b') \<Longrightarrow> ok b' \<and> kv b' = take n (kv b)"
    and reset_kv: "ok (bo_reset ops b) \<and> kv (bo_reset ops b) = []"
    and snapshot: "ok b \<Longrightarrow> bo_state_data ops b = Inr blob \<Longrightarrow> represents blob (kv b)"
    and restore: "represents blob ts \<Longrightarrow> bo_set_state ops blob (length ts) b = (Inr u, b') \<Longrightarrow> ok b' \<and> kv b' = ts"
    and n_past_kv: "ok b \<Longrightarrow> bo_n_past ops b = length (kv b)"
begin

text \<open>A decode followed by a rollback to the old length leaves the sequence as it was.\<close>

lemma rollback_restores:
  assumes "ok b" "bo_decode_batch ops ts b = (Inr ls, b1)" "bo_truncate_to ops (bo_n_past ops b) b1 = (Inr u, b2)"
  shows "ok b2 \<and> kv b2 = kv b \<and> bo_n_past ops b2 = bo_n_past ops b"
proof -
  have b1: "ok b1" "kv b1 = kv b @ ts" using batch_kv [OF assms(1,2)] by auto
  have b2: "ok b2" "kv b2 = take (length (kv b)) (kv b @ ts)"
    using truncate_kv [OF b1(1) assms(3)] b1(2) n_past_kv [OF assms(1)] by auto
  then show ?thesis using n_past_kv [OF assms(1)] n_past_kv [OF b2(1)] by simp
qed

end

section \<open>The real backend keeps the contract\<close>

definition coherent :: "('c \<Rightarrow> int \<Rightarrow> token list) \<Rightarrow> 'c real_backend \<Rightarrow> bool" where
  "coherent toks b \<longleftrightarrow> rb_n_past b = length (toks (rb_ctx b) 0)"

definition seq0 :: "('c \<Rightarrow> int \<Rightarrow> token list) \<Rightarrow> 'c real_backend \<Rightarrow> token list" where
  "seq0 toks b = toks (rb_ctx b) 0"

definition snapshot_of :: "'c llama_api \<Rightarrow> ('c \<Rightarrow> int \<Rightarrow> token list) \<Rightarrow> bytes \<Rightarrow> token list \<Rightarrow> bool" where
  "snapshot_of api toks blob ts \<longleftrightarrow> (\<exists>c. blob = llama_state_get_data api c \<and> toks c 0 = ts)"

lemma append_batch_seq [simp]:
  "map bi_seq (append_batch n ts a) = replicate (length ts) 0"
  "filter (\<lambda>i. bi_seq i = s) (append_batch n ts a) = (if s = 0 then append_batch n ts a else [])"
  "map bi_pos (append_batch n ts a) = [n..<n + length ts]"
  "map bi_token (append_batch n ts a) = ts"
  "length (append_batch n ts a) = length ts"
proof -
  show "map bi_pos (append_batch n ts a) = [n..<n + length ts]"
    by (rule nth_equalityI) (simp_all add: append_batch_def)
  show "filter (\<lambda>i. bi_seq i = s) (append_batch n ts a) = (if s = 0 then append_batch n ts a else [])"
    by (auto simp: append_batch_def filter_empty_conv intro!: filter_True)
qed (simp_all add: append_batch_def comp_def map_nth map_replicate_const)

lemma get_logits_length: "get_logits api msg c is out = Inr ls \<Longrightarrow> length ls = length out + length is"
  by (induction "is" arbitrary: out) (auto split: option.splits)

lemma decode_impl_kv:
  assumes "llama_api_ok api toks" "coherent toks b" "decode_impl api ts a b = (Inr ls, b')"
  shows "coherent toks b' \<and> seq0 toks b' = seq0 toks b @ ts \<and> length ls = (if a then length ts else 1)"
proof -
  let ?items = "append_batch (rb_n_past b) ts a"
  obtain ctx where ctx: "llama_decode api ?items (rb_ctx b) = (0, ctx)" "ts \<noteq> []"
    and b': "b' = b\<lparr>rb_ctx := ctx, rb_n_past := rb_n_past b + length ts\<rparr>"
    and ls: "get_logits api ''no logits returned at batch position '' ctx
      (map int [if a then 0 else length ts - 1..<length ts]) [] = Inr ls"
    using assms(3) by (auto simp: decode_impl_def Let_def split: if_splits prod.splits)
  have "contiguous (toks (rb_ctx b)) ?items" using assms(2) by (simp add: contiguous_def coherent_def)
  then have "toks ctx = (\<lambda>s. toks (rb_ctx b) s @ seq_tokens s ?items)"
    using llama_api_okD(1) [OF assms(1)] ctx(1) by blast
  moreover have "length ts - (length ts - 1) = 1" using ctx(2) by (cases ts) auto
  ultimately show ?thesis
    using b' assms(2) get_logits_length [OF ls] by (auto simp: coherent_def seq0_def seq_tokens_def)
qed

lemma real_backend_kv:
  assumes "llama_api_ok api toks"
  shows "kv_backend (real_ops api) (seq0 toks) (coherent toks) (snapshot_of api toks)"
proof
  note laws = llama_api_okD [OF assms]
  have reset: "coherent toks (real_reset api b)" "seq0 toks (real_reset api b) = []" for b
    by (simp_all add: real_reset_def coherent_def seq0_def laws(4))
  fix b b' :: "'a real_backend" and ts l ls n u blob
  show "coherent toks (bo_reset (real_ops api) b) \<and> seq0 toks (bo_reset (real_ops api) b) = []"
    using reset by (simp add: real_ops_def)
  show "coherent toks b' \<and> seq0 toks b' = ts" if "bo_decode (real_ops api) ts b = (Inr l, b')"
    using that decode_impl_kv [OF assms reset(1) [of b], of ts False] reset(2)
    by (auto simp: real_ops_def real_decode_def last_logits_def split: prod.splits sum.splits)
  show "bo_n_past (real_ops api) b = length (seq0 toks b)" if "coherent toks b"
    using that by (simp add: real_ops_def coherent_def seq0_def)
  show "coherent toks b' \<and> seq0 toks b' = ts"
    if "snapshot_of api toks blob ts" "bo_set_state (real_ops api) blob (length ts) b = (Inr u, b')"
    using that laws(6) by (auto simp: real_ops_def real_set_state_def snapshot_of_def coherent_def seq0_def
        split: prod.splits if_splits)
  assume ok: "coherent toks b"
  show "coherent toks b' \<and> seq0 toks b' = seq0 toks b @ ts" if "bo_decode_append (real_ops api) ts b = (Inr l, b')"
    using that decode_impl_kv [OF assms ok, of ts False]
    by (auto simp: real_ops_def real_decode_append_def last_logits_def split: prod.splits sum.splits)
  show "coherent toks b' \<and> seq0 toks b' = seq0 toks b @ ts \<and> length ls = length ts"
    if "bo_decode_batch (real_ops api) ts b = (Inr ls, b')"
    using that decode_impl_kv [OF assms ok, of ts True] by (simp add: real_ops_def real_decode_batch_def)
  show "coherent toks b' \<and> seq0 toks b' = take n (seq0 toks b)"
    if "bo_truncate_to (real_ops api) n b = (Inr u, b')"
    using that ok laws(2) [of "int n" 0 "rb_ctx b"]
    by (auto simp: real_ops_def real_truncate_to_def coherent_def seq0_def split: prod.splits if_splits)
  show "snapshot_of api toks blob (seq0 toks b)" if "bo_state_data (real_ops api) b = Inr blob"
    using that by (auto simp: real_ops_def real_state_data_def snapshot_of_def seq0_def Let_def split: if_splits)
qed

section \<open>Two-pass sizing\<close>

text \<open>
  The documented sizing protocol: with a buffer that is large enough the function writes the
  whole output, otherwise it returns the negated size needed.
\<close>

definition sized :: "(nat \<Rightarrow> int \<times> 'a list) \<Rightarrow> 'a list \<Rightarrow> bool" where
  "sized f out \<longleftrightarrow> (\<forall>cap. (length out \<le> cap \<longrightarrow> f cap = (int (length out), out))
     \<and> (cap < length out \<longrightarrow> fst (f cap) = - int (length out)))"

lemma sizedD: "sized f out \<Longrightarrow> f (length out) = (int (length out), out)"
  "sized f out \<Longrightarrow> out = [] \<Longrightarrow> fst (f 0) = 0" "sized f out \<Longrightarrow> out \<noteq> [] \<Longrightarrow> fst (f 0) = - int (length out)"
  by (simp_all add: sized_def)

text \<open>
  No text is truncated on its way through the tokenizer.  Under llama.cpp's sizing
  protocol the wrapper returns the complete token sequence of a text, the complete text of a
  token sequence, and the complete piece of a token, also when the piece does not fit the
  128-byte stack buffer.
\<close>

theorem real_text_complete:
  assumes "sized (\<lambda>cap. llama_tokenize api txt cap add_special) toks" "length toks < 2 ^ 31"
    and "sized (llama_detokenize api ts) out" "sized (llama_token_to_piece api tok) piece"
  shows "real_tokenize api txt add_special = Inr toks \<and> real_detokenize api ts = Inr out
    \<and> real_token_piece api tok = Inr piece"
proof (intro conjI)
  show "real_tokenize api txt add_special = Inr toks"
    using sizedD [OF assms(1)] assms(2) by (cases "toks = []") (simp_all add: real_tokenize_def Let_def)
  show "real_detokenize api ts = Inr out"
    using sizedD [OF assms(3)] by (cases "out = []") (simp_all add: real_detokenize_def Let_def)
  show "real_token_piece api tok = Inr piece"
  proof (cases "length piece \<le> 128")
    case True
    then show ?thesis using assms(4) by (simp add: real_token_piece_def sized_def)
  next
    case False
    then have "fst (llama_token_to_piece api tok 128) = - int (length piece)"
      using assms(4) by (simp add: sized_def)
    with False sizedD(1) [OF assms(4)] show ?thesis by (auto simp: real_token_piece_def split: prod.splits)
  qed
qed

section \<open>A reference context\<close>

text \<open>
  A context that keeps one token list per sequence and nothing else, and serializes it: it
  satisfies \<open>llama_api_ok\<close>, so the hypotheses above can hold.
\<close>

definition ref_toks :: "token list list \<Rightarrow> int \<Rightarrow> token list" where
  "ref_toks c s = (if 0 \<le> s \<and> nat s < length c then c ! nat s else [])"

definition ref_seqs_ok :: "token list list \<Rightarrow> batch_item list \<Rightarrow> bool" where
  "ref_seqs_ok c items \<longleftrightarrow> list_all (\<lambda>i. 0 \<le> bi_seq i \<and> nat (bi_seq i) < length c) items"

definition ref_save_seq :: "token list \<Rightarrow> bytes" where
  "ref_save_seq ts = concat (map (\<lambda>t. CHR ''T'' # le_bytes 4 t) ts) @ ''E''"

fun ref_load :: "bytes \<Rightarrow> token list \<Rightarrow> token list list" where
  "ref_load [] ts = []"
| "ref_load (k # bs) ts =
     (if k = CHR ''E'' then ts # ref_load bs [] else ref_load (drop 4 bs) (ts @ [le_read (take 4 bs)]))"

definition ref_save :: "token list list \<Rightarrow> bytes" where
  "ref_save c = ref_save_seq (ref_toks c 0)"

definition ref_api :: "token list list llama_api" where
  "ref_api = \<lparr>
     llama_tokenize = (\<lambda>txt cap sp. let out = map word_of_byte txt
        in if length out \<le> cap then (int (length out), out) else (- int (length out), [])),
     llama_detokenize = (\<lambda>ts cap. let out = map byte_of ts
        in if length out \<le> cap then (int (length out), out) else (- int (length out), [])),
     llama_token_to_piece = (\<lambda>t cap. if 1 \<le> cap then (1, [byte_of t]) else (- 1, [])),
     llama_decode = (\<lambda>items c. if ref_seqs_ok c items
        then (0, map (\<lambda>s. c ! s @ seq_tokens (int s) items) [0..<length c]) else (1, c)),
     llama_get_logits_ith = (\<lambda>c i. Some [1, 0]),
     llama_model_chat_template = None,
     llama_chat_apply_template = (\<lambda>tmpl msgs cap. (- 1, [])),
     llama_memory_seq_cp = (\<lambda>src dst n c. if 0 \<le> dst \<and> nat dst < length c
        then c[nat dst := take n (ref_toks c src)] else c @ replicate (nat dst - length c) [] @ [take n (ref_toks c src)]),
     llama_memory_seq_rm = (\<lambda>s p c. if 0 \<le> s \<and> nat s < length c
        then (True, c[nat s := take (nat p) (c ! nat s)]) else (True, c)),
     llama_memory_clear = (\<lambda>c. map (\<lambda>_. []) c),
     llama_state_get_data = ref_save,
     llama_state_set_data = (\<lambda>bs c. (length bs, ref_load bs [])),
     llama_vocab_n_tokens = 2, llama_n_ctx = 4096, llama_vocab_eos = 0, llama_vocab_is_eog = (\<lambda>t. t = 0),
     llama_model_is_recurrent = False, llama_model_is_hybrid = False\<rparr>"


lemma ref_load_seq:
  "ref_load (concat (map (\<lambda>t. CHR ''T'' # le_bytes 4 t) ts) @ ''E'' @ rest) acc = (acc @ ts) # ref_load rest []"
  by (induction ts arbitrary: acc) simp_all

lemma ref_load_save: "ref_load (ref_save c) [] = [ref_toks c 0]"
  using ref_load_seq [of "ref_toks c 0" "[]" "[]"] by (simp add: ref_save_def ref_save_seq_def)

lemma ref_api_ok: "llama_api_ok ref_api ref_toks"
  unfolding llama_api_ok_def
proof (intro conjI allI impI)
  fix items c c'
  assume "contiguous (ref_toks c) items \<and> llama_decode ref_api items c = (0, c')"
  then have ok: "ref_seqs_ok c items" and c': "c' = map (\<lambda>s. c ! s @ seq_tokens (int s) items) [0..<length c]"
    by (auto simp: ref_api_def split: if_splits)
  have "seq_tokens s items = []" if "\<not> (0 \<le> s \<and> nat s < length c)" for s
    using ok that by (auto simp: seq_tokens_def ref_seqs_ok_def list_all_iff filter_empty_conv)
  then show "ref_toks c' = (\<lambda>s. ref_toks c s @ seq_tokens s items)"
    by (auto simp: c' ref_toks_def fun_eq_iff)
qed (auto simp: ref_api_def ref_toks_def fun_eq_iff nth_append nth_list_update ref_load_save split: if_splits)

interpretation ref_kv: kv_backend "real_ops ref_api" "seq0 ref_toks" "coherent ref_toks" "snapshot_of ref_api ref_toks"
  using ref_api_ok by (rule real_backend_kv)

text \<open>
  C32: the wrapper over llama.cpp keeps its position counter and the context's memory in
  agreement, and implements the contract of \<open>LlamaBackend\<close>: decoding appends exactly the
  given tokens to the sequence (one logits vector per token for a batch), a rollback keeps
  exactly the first positions, a restored snapshot brings back exactly the saved sequence.
\<close>

theorem real_backend_contract:
  assumes "llama_api_ok api toks"
  shows "kv_backend (real_ops api) (seq0 toks) (coherent toks) (snapshot_of api toks)"
  using assms by (rule real_backend_kv)

theorem real_backend_contract_witness:
  "kv_backend (real_ops ref_api) (seq0 ref_toks) (coherent ref_toks) (snapshot_of ref_api ref_toks)"
  by (rule real_backend_contract [OF ref_api_ok])

theorem real_text_complete_witness:
  "real_tokenize ref_api ''ab'' True = Inr (map word_of_byte ''ab'')"
  using real_text_complete [of ref_api "''ab''" True "map word_of_byte ''ab''" "[]" "[]" 7 "[byte_of (7 :: token)]"]
  by (simp add: sized_def ref_api_def Let_def)

end
