(* ===== verification/Model_Backend.thy ===== *)
theory Model_Backend
  imports Llama_Backend
begin

text \<open>
  What the generation loops rely on beyond the cache contract: the logits an operation of
  \<open>LlamaBackend\<close> returns are those of a language model, a function of the tokens a sequence
  holds.  \<open>llama_model_ok\<close> states it of llama.cpp, the locales \<open>model_backend\<close> (one sequence:
  the engine and the speculative decoder) and \<open>seq_backend\<close> (many sequences in one forward
  pass: the scheduler) state it of the interface, and the wrapper
  \<open>src/src/core/llama_backend_real.cpp\<close> is shown to provide both.  That the forward pass of a
  batch computes what separate passes would compute is exact arithmetic; a build that sums in
  another order is outside the model.
\<close>

definition llama_model_ok :: "'c llama_api \<Rightarrow> ('c \<Rightarrow> int \<Rightarrow> token list) \<Rightarrow> (token list \<Rightarrow> logits) \<Rightarrow> bool" where
  "llama_model_ok api toks model \<longleftrightarrow> llama_api_ok api toks
     \<and> (\<forall>items c c' i. contiguous (toks c) items \<and> llama_decode api items c = (0, c')
          \<and> i < length items \<and> bi_logits (items ! i) \<longrightarrow>
          (\<exists>l. llama_get_logits_ith api c' (int i) = Some l \<and> take (nat (llama_vocab_n_tokens api)) l =
             model (take (Suc (bi_pos (items ! i))) (toks c' (bi_seq (items ! i))))))
     \<and> (\<forall>items c s. s \<notin> bi_seq ` set items \<longrightarrow> toks (snd (llama_decode api items c)) s = toks c s)"

lemma llama_model_okD:
  assumes "llama_model_ok api toks model"
  shows "llama_api_ok api toks"
    and "contiguous (toks c) items \<Longrightarrow> llama_decode api items c = (0, c') \<Longrightarrow> i < length items \<Longrightarrow> bi_logits (items ! i) \<Longrightarrow>
      \<exists>l. llama_get_logits_ith api c' (int i) = Some l \<and> take (nat (llama_vocab_n_tokens api)) l =
        model (take (Suc (bi_pos (items ! i))) (toks c' (bi_seq (items ! i))))"
    and "s \<notin> bi_seq ` set items \<Longrightarrow> toks (snd (llama_decode api items c)) s = toks c s"
  using assms unfolding llama_model_ok_def by auto

section \<open>The contracts\<close>

locale model_backend = kv_backend ops kv ok represents
  for ops :: "'b backend_ops" and kv :: "'b \<Rightarrow> token list" and ok :: "'b \<Rightarrow> bool"
    and represents :: "bytes \<Rightarrow> token list \<Rightarrow> bool" +
  fixes model :: "token list \<Rightarrow> logits"
    and eog :: "token \<Rightarrow> bool"
  assumes append_logits: "ok b \<Longrightarrow> bo_decode_append ops ts b = (Inr l, b') \<Longrightarrow> l = model (kv b @ ts)"
    and batch_logits: "ok b \<Longrightarrow> bo_decode_batch ops ts b = (Inr ls, b') \<Longrightarrow>
      ls = map (\<lambda>i. model (kv b @ take (Suc i) ts)) [0..<length ts]"
    and decode_logits: "bo_decode ops ts b = (Inr l, b') \<Longrightarrow> l = model ts"
    and eog_same: "bo_is_eog ops t b = eog t"

definition slices_fit :: "(int \<Rightarrow> token list) \<Rightarrow> seq_slice list \<Rightarrow> bool" where
  "slices_fit held slices \<longleftrightarrow> distinct (map sl_seq_id slices)
     \<and> list_all (\<lambda>s. sl_tokens s \<noteq> [] \<and> sl_pos_start s = length (held (sl_seq_id s))) slices"

locale seq_backend =
  fixes ops :: "'b backend_ops"
    and seqs :: "'b \<Rightarrow> int \<Rightarrow> token list"
    and model :: "token list \<Rightarrow> logits"
    and eog :: "token \<Rightarrow> bool"
  assumes seqs_logits: "slices_fit (seqs b) ss \<Longrightarrow> bo_decode_seqs ops ss b = (Inr ls, b') \<Longrightarrow>
      ls = map (\<lambda>s. model (seqs b (sl_seq_id s) @ sl_tokens s)) ss"
    and seqs_append: "slices_fit (seqs b) ss \<Longrightarrow> bo_decode_seqs ops ss b = (Inr ls, b') \<Longrightarrow> s \<in> set ss \<Longrightarrow>
      seqs b' (sl_seq_id s) = seqs b (sl_seq_id s) @ sl_tokens s"
    and seqs_frame: "bo_decode_seqs ops ss b = (r, b') \<Longrightarrow> i \<notin> sl_seq_id ` set ss \<Longrightarrow> seqs b' i = seqs b i"
    and copy_seqs: "0 \<le> dst \<Longrightarrow> seqs b dst = [] \<Longrightarrow>
      seqs (bo_copy_seq ops src dst n b) = (seqs b)(dst := take n (seqs b src))"
    and clear_seqs: "seqs (bo_clear_seq ops i b) = (seqs b)(i := [])"
    and eog_const: "bo_is_eog ops t b = eog t"

section \<open>The wrapper over llama.cpp provides them\<close>

lemma get_logits_all:
  assumes "\<And>i. i \<in> set is \<Longrightarrow> \<exists>l. llama_get_logits_ith api c i = Some l \<and> take (nat (llama_vocab_n_tokens api)) l = f i"
  shows "get_logits api msg c is out = Inr (out @ map f is)"
  using assms
proof (induction "is" arbitrary: out)
  case (Cons i "is")
  obtain l where "llama_get_logits_ith api c i = Some l" "take (nat (llama_vocab_n_tokens api)) l = f i"
    using Cons.prems by force
  with Cons show ?case by simp
qed simp

lemma decode_impl_logits:
  assumes m: "llama_model_ok api toks model" and ok: "coherent toks b" and dec: "decode_impl api ts a b = (Inr ls, b')"
  shows "ls = map (\<lambda>i. model (seq0 toks b @ take (Suc i) ts)) [if a then 0 else length ts - 1..<length ts]"
proof -
  let ?items = "append_batch (rb_n_past b) ts a"
  let ?is = "[if a then 0 else length ts - 1..<length ts]"
  obtain ctx where ctx: "llama_decode api ?items (rb_ctx b) = (0, ctx)"
    and ls: "get_logits api ''no logits returned at batch position '' ctx (map int ?is) [] = Inr ls"
    using dec by (auto simp: decode_impl_def Let_def split: if_splits prod.splits)
  have cont: "contiguous (toks (rb_ctx b)) ?items" using ok by (simp add: contiguous_def coherent_def)
  have after: "toks ctx 0 = seq0 toks b @ ts"
    using llama_api_okD(1) [OF llama_model_okD(1) [OF m] cont ctx] by (simp add: seq_tokens_def seq0_def)
  have len: "rb_n_past b = length (seq0 toks b)" using ok by (simp add: coherent_def seq0_def)
  have each: "\<exists>l. llama_get_logits_ith api ctx i = Some l \<and> take (nat (llama_vocab_n_tokens api)) l =
      model (seq0 toks b @ take (Suc (nat i)) ts)" if i: "i \<in> set (map int ?is)" for i
  proof -
    have n: "nat i < length ts" "bi_logits (?items ! nat i)" "0 \<le> i"
      using i by (auto simp: append_batch_def split: if_splits)
    have "bi_pos (?items ! nat i) = length (seq0 toks b) + nat i" "bi_seq (?items ! nat i) = 0"
      using n by (simp_all add: append_batch_def len)
    then show ?thesis using llama_model_okD(2) [OF m cont ctx, of "nat i"] n after by simp
  qed
  have "ls = map (\<lambda>i. model (seq0 toks b @ take (Suc (nat i)) ts)) (map int ?is)"
    using get_logits_all [of "map int ?is", OF each] ls by simp
  then show ?thesis unfolding map_map by (simp add: comp_def)
qed

lemma real_backend_model:
  assumes m: "llama_model_ok api toks model"
  shows "model_backend (real_ops api) (seq0 toks) (coherent toks) (snapshot_of api toks) model (llama_vocab_is_eog api)"
proof (intro model_backend.intro model_backend_axioms.intro)
  show "kv_backend (real_ops api) (seq0 toks) (coherent toks) (snapshot_of api toks)"
    by (rule real_backend_kv [OF llama_model_okD(1) [OF m]])
  have last: "l = model (seq0 toks b @ ts)"
    if "coherent toks b" "decode_impl api ts False b = (Inr ls, b')" "last_logits (Inr ls) = Inr l" for b ts ls b' l
  proof -
    have "ts \<noteq> []" using that(2) by (auto simp: decode_impl_def Let_def split: if_splits)
    then have "[length ts - 1..<length ts] = [length ts - 1]"
      using upt_conv_Cons [of "length ts - 1" "length ts"] by (cases ts) simp_all
    with decode_impl_logits [OF m that(1,2)] that(3) \<open>ts \<noteq> []\<close> show ?thesis by (simp add: last_logits_def)
  qed
  have reset: "coherent toks (real_reset api b)" "seq0 toks (real_reset api b) = []" for b
    by (simp_all add: real_reset_def coherent_def seq0_def llama_api_okD(4) [OF llama_model_okD(1) [OF m]])
  fix b b' :: "'a real_backend" and ts l ls
  show "l = model ts" if "bo_decode (real_ops api) ts b = (Inr l, b')"
    using that last [OF reset(1) [of b], of ts] reset(2)
    by (auto simp: real_ops_def real_decode_def last_logits_def split: prod.splits sum.splits)
  assume ok: "coherent toks b"
  show "l = model (seq0 toks b @ ts)" if "bo_decode_append (real_ops api) ts b = (Inr l, b')"
    using that last [OF ok, of ts]
    by (auto simp: real_ops_def real_decode_append_def last_logits_def split: prod.splits sum.splits)
  show "ls = map (\<lambda>i. model (seq0 toks b @ take (Suc i) ts)) [0..<length ts]"
    if "bo_decode_batch (real_ops api) ts b = (Inr ls, b')"
    using that decode_impl_logits [OF m ok, of ts True ls b'] by (simp add: real_ops_def real_decode_batch_def)
qed (simp add: real_ops_def)

lemma slice_items_simps [simp]:
  "map bi_seq (slice_items s) = replicate (length (sl_tokens s)) (sl_seq_id s)"
  "map bi_pos (slice_items s) = [sl_pos_start s..<sl_pos_start s + length (sl_tokens s)]"
  "map bi_token (slice_items s) = sl_tokens s"
  "length (slice_items s) = length (sl_tokens s)"
proof -
  show "map bi_pos (slice_items s) = [sl_pos_start s..<sl_pos_start s + length (sl_tokens s)]"
    by (rule nth_equalityI) (simp_all add: slice_items_def)
qed (simp_all add: slice_items_def comp_def map_nth map_replicate_const)

lemma slice_items_seq: "x \<in> set (slice_items s) \<Longrightarrow> bi_seq x = sl_seq_id s"
  by (auto simp: slice_items_def)

lemma filter_slices:
  "filter (\<lambda>x. bi_seq x = i) (concat (map slice_items ss)) = concat (map slice_items (filter (\<lambda>s. sl_seq_id s = i) ss))"
proof (induction ss)
  case (Cons s ss)
  have "filter (\<lambda>x. bi_seq x = i) (slice_items s) = (if sl_seq_id s = i then slice_items s else [])"
    using slice_items_seq [of _ s] by (auto intro!: filter_True filter_False)
  with Cons show ?case by simp
qed simp

lemma filter_distinct_slices:
  "distinct (map sl_seq_id ss) \<Longrightarrow> s \<in> set ss \<Longrightarrow> filter (\<lambda>s'. sl_seq_id s' = sl_seq_id s) ss = [s]"
  by (induction ss) (auto simp: filter_empty_conv image_iff)

lemma seq_items_of_slice:
  "distinct (map sl_seq_id ss) \<Longrightarrow> s \<in> set ss \<Longrightarrow>
     filter (\<lambda>x. bi_seq x = sl_seq_id s) (concat (map slice_items ss)) = slice_items s"
  by (simp add: filter_slices filter_distinct_slices)

lemma slices_contiguous:
  assumes "slices_fit held ss"
  shows "contiguous held (concat (map slice_items ss))"
  unfolding contiguous_def
proof
  fix i
  assume "i \<in> set (map bi_seq (concat (map slice_items ss)))"
  then obtain s where s: "s \<in> set ss" "i = sl_seq_id s" by (auto dest: slice_items_seq)
  then show "map bi_pos (filter (\<lambda>x. bi_seq x = i) (concat (map slice_items ss))) =
      [length (held i)..<length (held i) + length (filter (\<lambda>x. bi_seq x = i) (concat (map slice_items ss)))]"
    using assms seq_items_of_slice [of ss s] by (simp add: slices_fit_def list_all_iff)
qed

text \<open>The batch index the wrapper reads for a slice is that of the slice's last token.\<close>

lemma slice_ends_read:
  assumes "list_all (\<lambda>s. sl_tokens s \<noteq> []) ss"
    and "\<And>j s. s \<in> set ss \<Longrightarrow> j < length (pre @ concat (map slice_items ss)) \<Longrightarrow>
       (pre @ concat (map slice_items ss)) ! j = last (slice_items s) \<Longrightarrow>
       \<exists>l. llama_get_logits_ith api c (int j) = Some l \<and> take (nat (llama_vocab_n_tokens api)) l = f s"
  shows "get_logits api msg c (slice_ends (int (length pre)) ss) out = Inr (out @ map f ss)"
  using assms
proof (induction ss arbitrary: pre out)
  case (Cons s ss)
  define j where "j = length pre + length (sl_tokens s) - 1"
  have ne: "sl_tokens s \<noteq> []" using Cons.prems(1) by simp
  then have j: "int (length pre) + int (length (sl_tokens s)) - 1 = int j" "j < length (pre @ slice_items s)" "length pre \<le> j"
    by (cases "sl_tokens s"; simp add: j_def)+
  have ne': "slice_items s \<noteq> []" using ne by (metis length_0_conv slice_items_simps(4))
  then have "(pre @ slice_items s) ! j = last (pre @ slice_items s)"
    by (subst last_conv_nth) (auto simp: j_def)
  then have "(pre @ concat (map slice_items (s # ss))) ! j = last (slice_items s)"
    using j(2) ne' by (simp add: nth_append split: if_splits)
  with Cons.prems(2) [of s j] j(2) obtain l where l: "llama_get_logits_ith api c (int j) = Some l"
    "take (nat (llama_vocab_n_tokens api)) l = f s" by auto
  have "get_logits api msg c (slice_ends (int (length (pre @ slice_items s))) ss) (out @ [f s]) = Inr ((out @ [f s]) @ map f ss)"
    using Cons.prems by (intro Cons.IH) auto
  then have "get_logits api msg c (slice_ends (int (length pre) + int (length (sl_tokens s))) ss) (out @ [f s]) = Inr (out @ map f (s # ss))"
    by simp
  with l j(1) show ?case by simp
qed simp

lemma seq_tokens_slices:
  "distinct (map sl_seq_id ss) \<Longrightarrow> s \<in> set ss \<Longrightarrow> seq_tokens (sl_seq_id s) (concat (map slice_items ss)) = sl_tokens s"
  by (simp add: seq_tokens_def seq_items_of_slice)

lemma last_slice_item:
  assumes "sl_tokens s \<noteq> []"
  shows "bi_seq (last (slice_items s)) = sl_seq_id s" "bi_logits (last (slice_items s))"
    "bi_pos (last (slice_items s)) = sl_pos_start s + length (sl_tokens s) - 1"
  using assms by (cases "sl_tokens s"; simp add: slice_items_def last_map)+

lemma real_decode_seqs_ok:
  assumes m: "llama_model_ok api toks model" and fit: "slices_fit (toks (rb_ctx b)) ss"
    and dec: "real_decode_seqs api ss b = (Inr ls, b')"
  shows "ls = map (\<lambda>s. model (toks (rb_ctx b) (sl_seq_id s) @ sl_tokens s)) ss
    \<and> (\<forall>s\<in>set ss. toks (rb_ctx b') (sl_seq_id s) = toks (rb_ctx b) (sl_seq_id s) @ sl_tokens s)"
proof -
  let ?items = "concat (map slice_items ss)" and ?old = "toks (rb_ctx b)"
  obtain ctx where ctx: "llama_decode api ?items (rb_ctx b) = (0, ctx)" and b': "b' = b\<lparr>rb_ctx := ctx\<rparr>"
    and ls: "get_logits api ''no logits at multi-seq batch position '' ctx (slice_ends 0 ss) [] = Inr ls"
    using dec by (auto simp: real_decode_seqs_def split: if_splits prod.splits)
  note cont = slices_contiguous [OF fit]
  have d: "distinct (map sl_seq_id ss)" and fits: "s \<in> set ss \<Longrightarrow> sl_tokens s \<noteq> []"
    "s \<in> set ss \<Longrightarrow> sl_pos_start s = length (?old (sl_seq_id s))" for s
    using fit by (auto simp: slices_fit_def list_all_iff)
  have after: "toks ctx (sl_seq_id s) = ?old (sl_seq_id s) @ sl_tokens s" if "s \<in> set ss" for s
    using llama_api_okD(1) [OF llama_model_okD(1) [OF m] cont ctx] seq_tokens_slices [OF d that] by simp
  have "get_logits api ''no logits at multi-seq batch position '' ctx (slice_ends (int (length ([] :: batch_item list))) ss) [] =
      Inr ([] @ map (\<lambda>s. model (?old (sl_seq_id s) @ sl_tokens s)) ss)"
  proof (rule slice_ends_read)
    show "list_all (\<lambda>s. sl_tokens s \<noteq> []) ss" using fits(1) by (simp add: list_all_iff)
    fix j s
    assume s: "s \<in> set ss" and j: "j < length ([] @ ?items)" "([] @ ?items) ! j = last (slice_items s)"
    have "take (Suc (bi_pos (?items ! j))) (toks ctx (bi_seq (?items ! j))) = ?old (sl_seq_id s) @ sl_tokens s"
      using j(2) last_slice_item(1,3) [OF fits(1) [OF s]] fits(2) [OF s] after [OF s] by simp
    then show "\<exists>l. llama_get_logits_ith api ctx (int j) = Some l \<and> take (nat (llama_vocab_n_tokens api)) l =
        model (?old (sl_seq_id s) @ sl_tokens s)"
      using llama_model_okD(2) [OF m cont ctx, of j] j last_slice_item(2) [OF fits(1) [OF s]] by simp
  qed
  with ls after b' show ?thesis by simp
qed

lemma real_decode_seqs_frame:
  assumes m: "llama_model_ok api toks model" and i: "i \<notin> sl_seq_id ` set ss"
  shows "toks (rb_ctx (snd (real_decode_seqs api ss b))) i = toks (rb_ctx b) i"
proof -
  have "i \<notin> bi_seq ` set (concat (map slice_items ss))" using i by (auto dest: slice_items_seq)
  from llama_model_okD(3) [OF m this, of "rb_ctx b"] show ?thesis
    by (auto simp: real_decode_seqs_def split: prod.splits)
qed

lemma real_backend_seqs:
  assumes m: "llama_model_ok api toks model"
  shows "seq_backend (real_ops api) (\<lambda>b. toks (rb_ctx b)) model (llama_vocab_is_eog api)"
proof
  note laws = llama_api_okD [OF llama_model_okD(1) [OF m]]
  fix b b' :: "'a real_backend" and ss ls r i s src dst n
  show "ls = map (\<lambda>s. model (toks (rb_ctx b) (sl_seq_id s) @ sl_tokens s)) ss"
    if "slices_fit (toks (rb_ctx b)) ss" "bo_decode_seqs (real_ops api) ss b = (Inr ls, b')"
    using real_decode_seqs_ok [OF m that(1)] that(2) by (simp add: real_ops_def)
  show "toks (rb_ctx b') (sl_seq_id s) = toks (rb_ctx b) (sl_seq_id s) @ sl_tokens s"
    if "slices_fit (toks (rb_ctx b)) ss" "bo_decode_seqs (real_ops api) ss b = (Inr ls, b')" "s \<in> set ss"
    using real_decode_seqs_ok [OF m that(1)] that(2,3) by (simp add: real_ops_def)
  show "toks (rb_ctx b') i = toks (rb_ctx b) i"
    if "bo_decode_seqs (real_ops api) ss b = (r, b')" "i \<notin> sl_seq_id ` set ss"
    using real_decode_seqs_frame [OF m that(2), of b] that(1) by (simp add: real_ops_def)
  show "toks (rb_ctx (bo_copy_seq (real_ops api) src dst n b)) = (toks (rb_ctx b))(dst := take n (toks (rb_ctx b) src))"
    if "0 \<le> dst" "toks (rb_ctx b) dst = []"
    using laws(5) [OF that] by (simp add: real_ops_def real_copy_seq_def)
  show "toks (rb_ctx (bo_clear_seq (real_ops api) i b)) = (toks (rb_ctx b))(i := [])"
    by (simp add: real_ops_def real_clear_seq_def laws(3))
qed (simp add: real_ops_def)

section \<open>The reference context\<close>

lemma ref_model_ok: "llama_model_ok ref_api ref_toks (\<lambda>_. [1, 0])"
  unfolding llama_model_ok_def
proof (intro conjI allI impI ref_api_ok)
  fix items :: "batch_item list" and c s
  assume "s \<notin> bi_seq ` set items"
  then have "seq_tokens s items = []" by (auto simp: seq_tokens_def filter_empty_conv)
  then show "ref_toks (snd (llama_decode ref_api items c)) s = ref_toks c s"
    by (auto simp: ref_api_def ref_toks_def)
qed (simp add: ref_api_def)

text \<open>
  The contracts for the wrapper over any llama.cpp that computes a model: one assumption on the
  library gives both, and the reference instance satisfies it.
\<close>

locale llama_model =
  fixes api :: "'c llama_api" and toks :: "'c \<Rightarrow> int \<Rightarrow> token list" and model :: "token list \<Rightarrow> logits"
  assumes computes: "llama_model_ok api toks model"

sublocale llama_model \<subseteq> single: model_backend "real_ops api" "seq0 toks" "coherent toks" "snapshot_of api toks" model
    "llama_vocab_is_eog api"
  by (rule real_backend_model [OF computes])

sublocale llama_model \<subseteq> batched: seq_backend "real_ops api" "\<lambda>b. toks (rb_ctx b)" model "llama_vocab_is_eog api"
  by (rule real_backend_seqs [OF computes])

interpretation ref_llama: llama_model ref_api ref_toks "\<lambda>_. [1, 0]"
  by unfold_locales (rule ref_model_ok)

end
