(* ===== verification/Sampler.thy ===== *)
theory Sampler
  imports Llama_Backend "HOL-Library.Multiset"
begin

text \<open>
  The token sampler (\<open>src/src/core/sampler.cpp\<close>).  Floating-point numbers are idealised as
  reals.  \<open>std::nth_element\<close> and \<open>std::sort\<close> leave the order of equal elements open, so the
  arrangement of the vocabulary they produce is a parameter \<open>pick\<close> restricted by what the
  standard guarantees (\<open>order_ok\<close>); the generator is a state with a function giving the next
  uniform number in \<open>[0, 1)\<close>.
\<close>

section \<open>Model\<close>

record gen_config =
  gc_max_tokens :: int
  gc_temperature :: real
  gc_top_p :: real
  gc_repeat_penalty :: real
  gc_repeat_last_n :: int
  gc_seed :: int
  gc_echo_prompt :: bool

definition penalize :: "real \<Rightarrow> logits \<Rightarrow> token \<Rightarrow> logits" where
  "penalize penalty logits t =
     (if sint t < 0 \<or> int (length logits) \<le> sint t then logits
      else let i = nat (sint t)
           in logits[i := (if 0 < logits ! i then logits ! i / penalty else logits ! i * penalty)])"

definition repeat_penalty :: "gen_config \<Rightarrow> logits \<Rightarrow> token list \<Rightarrow> logits" where
  "repeat_penalty cfg logits recent =
     (if gc_repeat_penalty cfg \<noteq> 1 \<and> 0 < gc_repeat_last_n cfg then
        let window = min (length recent) (nat (gc_repeat_last_n cfg))
        in foldl (penalize (gc_repeat_penalty cfg)) logits (drop (length recent - window) recent)
      else logits)"

text \<open>\<open>std::max_element\<close>: the first of the largest.\<close>

function max_element :: "real list \<Rightarrow> nat \<Rightarrow> nat \<Rightarrow> nat" where
  "max_element xs best i =
     (if length xs \<le> i then best
      else max_element xs (if xs ! best < xs ! i then i else best) (i + 1))"
  by pat_completeness auto
termination
  by (relation "measure (\<lambda>(xs, best, i). length xs - i)") auto

declare max_element.simps [simp del]

definition argmax :: "real list \<Rightarrow> nat" where
  "argmax xs = max_element xs 0 1"

definition softmax :: "real \<Rightarrow> logits \<Rightarrow> real list" where
  "softmax temperature logits =
     (let max_logit = logits ! argmax logits;
          probs = map (\<lambda>l. exp ((l - max_logit) / temperature)) logits
      in map (\<lambda>p. p / sum_list probs) probs)"

fun keep_loop :: "real list \<Rightarrow> real \<Rightarrow> nat list \<Rightarrow> nat \<Rightarrow> real \<Rightarrow> nat \<times> real" where
  "keep_loop probs top_p [] keep cumulative = (keep, cumulative)"
| "keep_loop probs top_p (i # idxs) keep cumulative =
     (let c = cumulative + probs ! i
      in if top_p \<le> c then (keep + 1, c) else keep_loop probs top_p idxs (keep + 1) c)"

function nucleus_loop :: "(nat \<Rightarrow> nat list) \<Rightarrow> real list \<Rightarrow> real \<Rightarrow> nat \<Rightarrow> nat list \<times> nat \<times> real" where
  "nucleus_loop pick probs top_p k =
     (let order = pick k;
          (keep, cumulative) = keep_loop probs top_p (take k order) 0 0
      in if top_p \<le> cumulative \<or> length probs \<le> k \<or> k = 0 then (order, keep, cumulative)
         else nucleus_loop pick probs top_p (min (k * 4) (length probs)))"
  by pat_completeness auto
termination
  by (relation "measure (\<lambda>(pick, probs, top_p, k). length probs - k)") auto

declare nucleus_loop.simps [simp del]

definition nucleus :: "(real list \<Rightarrow> nat \<Rightarrow> nat list) \<Rightarrow> real list \<Rightarrow> real \<Rightarrow> real list" where
  "nucleus pick probs top_p =
     (case nucleus_loop (pick probs) probs top_p (min 512 (length probs)) of
        (order, keep, cumulative) \<Rightarrow>
          foldl (\<lambda>p i. p[i := p ! i / cumulative])
            (foldl (\<lambda>p i. p[i := 0]) probs (drop keep order)) (take keep order))"

definition distribution :: "(real list \<Rightarrow> nat \<Rightarrow> nat list) \<Rightarrow> gen_config \<Rightarrow> logits \<Rightarrow> token list \<Rightarrow> engine_exn + real list" where
  "distribution pick cfg logits recent =
     (if logits = [] then Inl (EngineError ''cannot sample from empty logits'')
      else let l = repeat_penalty cfg logits recent in
        if gc_temperature cfg \<le> 0 then Inr ((replicate (length l) 0)[argmax l := 1])
        else let probs = softmax (gc_temperature cfg) l;
                 top_p = max 0 (min 1 (gc_top_p cfg))
             in Inr (if top_p < 1 then nucleus pick probs top_p else probs))"

fun draw_loop :: "real list \<Rightarrow> nat \<Rightarrow> real \<Rightarrow> nat \<Rightarrow> nat" where
  "draw_loop [] i r last_nonzero = last_nonzero"
| "draw_loop (p # ps) i r last_nonzero =
     (if p \<le> 0 then draw_loop ps (i + 1) r last_nonzero
      else if r - p \<le> 0 then i
      else draw_loop ps (i + 1) (r - p) i)"

definition draw :: "('g \<Rightarrow> real \<times> 'g) \<Rightarrow> real list \<Rightarrow> 'g \<Rightarrow> (engine_exn + token) \<times> 'g" where
  "draw uniform probs g =
     (if probs = [] then (Inl (EngineError ''cannot draw from an empty distribution''), g)
      else case uniform g of (r, g') \<Rightarrow> (Inr (of_nat (draw_loop probs 0 r 0)), g'))"

definition sample :: "(real list \<Rightarrow> nat \<Rightarrow> nat list) \<Rightarrow> ('g \<Rightarrow> real \<times> 'g) \<Rightarrow> gen_config \<Rightarrow> logits \<Rightarrow> token list \<Rightarrow> 'g
    \<Rightarrow> (engine_exn + token) \<times> 'g" where
  "sample pick uniform cfg logits recent g =
     (case distribution pick cfg logits recent of
        Inl e \<Rightarrow> (Inl e, g)
      | Inr probs \<Rightarrow>
          if gc_temperature cfg \<le> 0 then (Inr (of_nat (argmax probs)), g) else draw uniform probs g)"

text \<open>
  A \<open>Sampler\<close> is its configuration and the state of its generator; what it takes from the C++
  library is the record \<open>sampler_env\<close>, and the constructor seeds the generator.
\<close>

record 'g sampler_env =
  se_pick :: "real list \<Rightarrow> nat \<Rightarrow> nat list"
  se_uniform :: "'g \<Rightarrow> real \<times> 'g"
  se_seed :: "u32 \<Rightarrow> 'g"

definition sampler_init :: "'g sampler_env \<Rightarrow> gen_config \<Rightarrow> 'g" where
  "sampler_init env cfg = se_seed env (of_int (gc_seed cfg))"

abbreviation sampler_sample :: "'g sampler_env \<Rightarrow> gen_config \<Rightarrow> logits \<Rightarrow> token list \<Rightarrow> 'g \<Rightarrow> (engine_exn + token) \<times> 'g" where
  "sampler_sample env \<equiv> sample (se_pick env) (se_uniform env)"

section \<open>The largest element\<close>

lemma max_element_spec:
  "best < i \<Longrightarrow> i \<le> length xs \<Longrightarrow> \<forall>j<i. xs ! j \<le> xs ! best \<Longrightarrow> \<forall>j<best. xs ! j < xs ! best \<Longrightarrow>
     max_element xs best i < length xs \<and> (\<forall>j<length xs. xs ! j \<le> xs ! max_element xs best i)
     \<and> (\<forall>j<max_element xs best i. xs ! j < xs ! max_element xs best i)"
proof (induction xs best i rule: max_element.induct)
  case (1 xs best i)
  show ?case
  proof (cases "length xs \<le> i")
    case True
    then have "max_element xs best i = best" by (subst max_element.simps) simp
    with "1.prems" True show ?thesis by simp
  next
    case False
    define b where "b = (if xs ! best < xs ! i then i else best)"
    have "b < i + 1" "i + 1 \<le> length xs" using False "1.prems"(1) by (auto simp: b_def)
    moreover have "\<forall>j<i + 1. xs ! j \<le> xs ! b"
      using "1.prems"(3) by (fastforce simp: b_def less_Suc_eq)
    moreover have "\<forall>j<b. xs ! j < xs ! b"
      using "1.prems"(3,4) by (fastforce simp: b_def)
    moreover have "max_element xs best i = max_element xs b (i + 1)"
      using False by (subst max_element.simps) (simp add: b_def)
    ultimately show ?thesis using "1.IH" [OF False] by (simp add: b_def)
  qed
qed

lemma argmax_spec:
  "xs \<noteq> [] \<Longrightarrow> argmax xs < length xs \<and> (\<forall>j<length xs. xs ! j \<le> xs ! argmax xs) \<and> (\<forall>j<argmax xs. xs ! j < xs ! argmax xs)"
  unfolding argmax_def by (rule max_element_spec) (auto simp: Suc_le_eq)

section \<open>Softmax\<close>

lemma sum_list_divide: "sum_list (map (\<lambda>x. x / c) xs) = sum_list xs / (c :: real)"
  by (induction xs) (simp_all add: add_divide_distrib)

lemma sum_list_exp_pos: "ls \<noteq> [] \<Longrightarrow> 0 < sum_list (map (\<lambda>l. exp (f l :: real)) ls)"
proof (induction ls)
  case (Cons l ls)
  then show ?case by (cases "ls = []") (auto intro: add_pos_pos)
qed simp

lemma softmax_spec:
  assumes "ls \<noteq> []"
  shows "length (softmax t ls) = length ls" "\<forall>p\<in>set (softmax t ls). 0 < p" "sum_list (softmax t ls) = 1"
proof -
  let ?ps = "map (\<lambda>l. exp ((l - ls ! argmax ls) / t)) ls"
  have pos: "0 < sum_list ?ps" by (rule sum_list_exp_pos [OF assms])
  then show "\<forall>p\<in>set (softmax t ls). 0 < p" by (auto simp: softmax_def Let_def)
  show "sum_list (softmax t ls) = 1" using pos by (simp add: softmax_def Let_def sum_list_divide del: map_map)
qed (simp add: softmax_def Let_def)

section \<open>The nucleus\<close>

text \<open>What \<open>std::nth_element\<close> and \<open>std::sort\<close> guarantee of the arrangement.\<close>

definition order_ok :: "real list \<Rightarrow> nat \<Rightarrow> nat list \<Rightarrow> bool" where
  "order_ok probs k order \<longleftrightarrow> mset order = mset [0..<length probs]
     \<and> sorted_wrt (\<lambda>a b. probs ! b \<le> probs ! a) (take k order)
     \<and> (\<forall>a\<in>set (take k order). \<forall>b\<in>set (drop k order). probs ! b \<le> probs ! a)"

definition picks_ok :: "(real list \<Rightarrow> nat \<Rightarrow> nat list) \<Rightarrow> bool" where
  "picks_ok pick \<longleftrightarrow> (\<forall>probs k. order_ok probs k (pick probs k))"

definition mass :: "real list \<Rightarrow> nat list \<Rightarrow> real" where
  "mass probs idxs = sum_list (map ((!) probs) idxs)"

lemma mass_simps [simp]: "mass probs [] = 0" "mass probs (i # idxs) = probs ! i + mass probs idxs"
  "mass probs (idxs @ jdxs) = mass probs idxs + mass probs jdxs"
  by (simp_all add: mass_def)

text \<open>No shorter non-empty prefix of the arrangement reaches the threshold.\<close>

definition short_of :: "real list \<Rightarrow> real \<Rightarrow> real \<Rightarrow> nat list \<Rightarrow> nat \<Rightarrow> bool" where
  "short_of probs top_p c0 idxs m \<longleftrightarrow> (\<forall>j. 0 < j \<and> j < m \<longrightarrow> c0 + mass probs (take j idxs) < top_p)"

lemma short_of_Cons:
  assumes "short_of probs top_p (c0 + probs ! i) idxs m" "c0 + probs ! i < top_p"
  shows "short_of probs top_p c0 (i # idxs) (Suc m)"
  unfolding short_of_def
proof (intro allI impI)
  fix j
  assume j: "0 < j \<and> j < Suc m"
  then obtain j' where j': "j = Suc j'" by (cases j) auto
  show "c0 + mass probs (take j (i # idxs)) < top_p"
  proof (cases "j' = 0")
    case True
    with assms(2) j' show ?thesis by simp
  next
    case False
    then have "c0 + probs ! i + mass probs (take j' idxs) < top_p" using assms(1) j j' unfolding short_of_def by blast
    with j' show ?thesis by simp
  qed
qed

lemma keep_loop_spec:
  "keep_loop probs top_p idxs k0 c0 = (keep, c) \<Longrightarrow>
     \<exists>m\<le>length idxs. keep = k0 + m \<and> c = c0 + mass probs (take m idxs) \<and> (idxs \<noteq> [] \<longrightarrow> 0 < m)
       \<and> (c < top_p \<longrightarrow> m = length idxs) \<and> short_of probs top_p c0 idxs m"
proof (induction idxs arbitrary: k0 c0)
  case (Cons i idxs)
  show ?case
  proof (cases "top_p \<le> c0 + probs ! i")
    case True
    with Cons.prems have "keep = k0 + 1" "c = c0 + probs ! i" by (auto simp: Let_def)
    with True show ?thesis by (intro exI [of _ 1]) (auto simp: short_of_def)
  next
    case False
    with Cons.prems have "keep_loop probs top_p idxs (k0 + 1) (c0 + probs ! i) = (keep, c)" by (simp add: Let_def)
    from Cons.IH [OF this] obtain m where m: "m \<le> length idxs" "keep = k0 + 1 + m"
      "c = c0 + probs ! i + mass probs (take m idxs)" "c < top_p \<longrightarrow> m = length idxs"
      "short_of probs top_p (c0 + probs ! i) idxs m" by blast
    have "short_of probs top_p c0 (i # idxs) (Suc m)" by (rule short_of_Cons [OF m(5)]) (use False in simp)
    moreover have "c = c0 + mass probs (take (Suc m) (i # idxs))" unfolding m(3) by simp
    moreover have "c < top_p \<longrightarrow> Suc m = length (i # idxs)" using m(4) by simp
    moreover have "Suc m \<le> length (i # idxs)" "keep = k0 + Suc m" using m(1,2) by simp_all
    ultimately show ?thesis by blast
  qed
qed (simp add: short_of_def)

lemma short_of_take: "m \<le> k \<Longrightarrow> short_of probs top_p c0 (take k idxs) m = short_of probs top_p c0 idxs m"
  unfolding short_of_def by (metis min.absorb1 less_imp_le less_le_trans take_take)

lemma nucleus_loop_spec:
  assumes "0 < k" "k \<le> length probs" "nucleus_loop pick probs top_p k = (order, keep, c)"
    and "\<And>k. length (pick k) = length probs"
  shows "\<exists>k'\<le>length probs. order = pick k' \<and> 0 < keep \<and> keep \<le> k' \<and> c = mass probs (take keep order)
    \<and> (top_p \<le> c \<or> keep = length probs) \<and> short_of probs top_p 0 order keep"
  using assms
proof (induction pick probs top_p k rule: nucleus_loop.induct)
  case (1 pick probs top_p k)
  obtain kp cm where kl: "keep_loop probs top_p (take k (pick k)) 0 0 = (kp, cm)" by fastforce
  have ne: "take k (pick k) \<noteq> []" and len: "length (take k (pick k)) = k"
    using "1.prems"(1,2) "1.prems"(4) [of k] by auto
  obtain m where m: "m \<le> k" "kp = m" "cm = mass probs (take m (take k (pick k)))" "0 < m" "cm < top_p \<longrightarrow> m = k"
    "short_of probs top_p 0 (take k (pick k)) m"
    using keep_loop_spec [OF kl] ne len unfolding len by (metis add_0)
  show ?case
  proof (cases "top_p \<le> cm \<or> length probs \<le> k \<or> k = 0")
    case True
    then have "order = pick k" "keep = m" "c = cm"
      using "1.prems"(3) kl m(2) by (auto simp: nucleus_loop.simps [of pick probs top_p k] Let_def)
    moreover have "top_p \<le> cm \<or> m = length probs"
      using True m(5) "1.prems"(1,2) by (cases "top_p \<le> cm") auto
    moreover have "cm = mass probs (take m (pick k))" using m(1,3) by (simp add: min_absorb1)
    ultimately show ?thesis
      using "1.prems"(2) m(1,4,6) short_of_take [OF m(1)] by (intro exI [of _ k]) simp
  next
    case False
    have "nucleus_loop pick probs top_p (min (k * 4) (length probs)) = (order, keep, c)"
      using "1.prems"(3) kl False by (simp add: nucleus_loop.simps [of pick probs top_p k] Let_def)
    moreover have "probs \<noteq> []" using "1.prems"(1,2) by auto
    ultimately show ?thesis using "1.IH" [OF refl refl kl [symmetric] False] "1.prems"(1,2,4) by simp
  qed
qed

lemma foldl_zero:
  "length (foldl (\<lambda>p i. p[i := 0]) probs idxs) = length probs"
  "i < length probs \<Longrightarrow> foldl (\<lambda>p i. p[i := 0]) probs idxs ! i = (if i \<in> set idxs then 0 else probs ! i)"
  by (induction idxs arbitrary: probs) (auto simp: nth_list_update)

lemma length_foldl_scale: "length (foldl (\<lambda>p i. p[i := p ! i / c]) probs idxs) = length probs"
  by (induction idxs arbitrary: probs) simp_all

lemma foldl_scale:
  "distinct idxs \<Longrightarrow> i < length probs \<Longrightarrow>
     foldl (\<lambda>p i. p[i := p ! i / c]) probs idxs ! i = (if i \<in> set idxs then probs ! i / (c :: real) else probs ! i)"
proof (induction idxs arbitrary: probs)
  case (Cons a idxs)
  then show ?case by (cases "a = i") simp_all
qed simp

text \<open>
  The nucleus: a set of tokens no less probable than any other, whose mass reaches the
  threshold, which it would not do without its least probable token.
\<close>

definition is_nucleus :: "real list \<Rightarrow> real \<Rightarrow> nat list \<Rightarrow> bool" where
  "is_nucleus probs top_p kept \<longleftrightarrow> kept \<noteq> [] \<and> distinct kept \<and> set kept \<subseteq> {..<length probs}
     \<and> (\<forall>i\<in>set kept. \<forall>j<length probs. j \<notin> set kept \<longrightarrow> probs ! j \<le> probs ! i)
     \<and> top_p \<le> mass probs kept
     \<and> (1 < length kept \<longrightarrow> mass probs (butlast kept) < top_p \<and> (\<forall>i\<in>set kept. probs ! last kept \<le> probs ! i))"

lemma order_ok_perm:
  assumes "order_ok probs k order"
  shows "distinct order" "set order = {..<length probs}" "length order = length probs"
proof -
  have "mset order = mset [0..<length probs]" using assms by (simp add: order_ok_def)
  from mset_eq_setD [OF this] mset_eq_length [OF this] mset_eq_imp_distinct_iff [OF this]
  show "distinct order" "set order = {..<length probs}" "length order = length probs"
    by (simp_all add: lessThan_atLeast0)
qed

lemma order_ok_prefix:
  assumes "order_ok probs k order" "m \<le> k" "i \<in> set (take m order)" "j < length probs" "j \<notin> set (take m order)"
  shows "probs ! j \<le> probs ! i"
proof -
  have j: "j \<in> set (drop m order)"
    using order_ok_perm(2) [OF assms(1)] assms(4,5) set_append [of "take m order" "drop m order"] by auto
  have "drop m order = drop m (take k order) @ drop k order"
  proof -
    have "drop k order = drop (k - m) (drop m order)" using assms(2) by simp
    then show ?thesis by (simp only: drop_take append_take_drop_id)
  qed
  with j consider "j \<in> set (drop m (take k order))" | "j \<in> set (drop k order)" by auto
  then show ?thesis
  proof cases
    case 1
    have "sorted_wrt (\<lambda>a b. probs ! b \<le> probs ! a) (take m (take k order) @ drop m (take k order))"
      using assms(1) unfolding append_take_drop_id by (simp add: order_ok_def)
    moreover have "take m (take k order) = take m order" using assms(2) by (simp add: min_absorb1)
    ultimately show ?thesis using 1 assms(3) by (simp add: sorted_wrt_append)
  next
    case 2
    have "i \<in> set (take k order)" using assms(2,3) by (meson set_take_subset_set_take subsetD)
    with 2 assms(1) show ?thesis by (simp add: order_ok_def)
  qed
qed

lemma mass_sum: "distinct idxs \<Longrightarrow> mass probs idxs = (\<Sum>i\<in>set idxs. probs ! i)"
  by (simp add: mass_def sum_list_distinct_conv_sum_set)

lemma sum_list_mass: "sum_list probs = (\<Sum>i<length probs. probs ! i)"
  by (simp add: sum_list_sum_nth lessThan_atLeast0)

lemma nucleus_spec:
  assumes "probs \<noteq> []" "\<forall>p\<in>set probs. 0 < p" "sum_list probs = 1" "top_p \<le> 1" "picks_ok pick"
  shows "\<exists>kept. is_nucleus probs top_p kept \<and> length (nucleus pick probs top_p) = length probs
    \<and> (\<forall>i<length probs. nucleus pick probs top_p ! i = (if i \<in> set kept then probs ! i / mass probs kept else 0))"
proof -
  obtain order keep c where loop: "nucleus_loop (pick probs) probs top_p (min 512 (length probs)) = (order, keep, c)"
    by (cases "nucleus_loop (pick probs) probs top_p (min 512 (length probs))")
  have ok: "order_ok probs k (pick probs k)" for k using assms(5) by (simp add: picks_ok_def)
  obtain k where k: "k \<le> length probs" "order = pick probs k" "0 < keep" "keep \<le> k" "c = mass probs (take keep order)"
    "top_p \<le> c \<or> keep = length probs" "short_of probs top_p 0 order keep"
    using nucleus_loop_spec [OF _ _ loop order_ok_perm(3) [OF ok]] assms(1) by auto
  note perm = order_ok_perm [OF ok [of k]]
  define kept where "kept = take keep order"
  have len: "length kept = keep" using k perm(3) by (simp add: kept_def)
  have dist: "distinct kept" using perm(1) k(2) by (simp add: kept_def)
  have sub: "set kept \<subseteq> {..<length probs}" using perm(2) k(2) set_take_subset [of keep order] by (auto simp: kept_def)
  have ne: "kept \<noteq> []" using len k(3) by auto
  have reach: "top_p \<le> mass probs kept"
  proof (cases "top_p \<le> c")
    case False
    then have "kept = order" using k(6) perm(3) k(2) by (simp add: kept_def)
    then have "mass probs kept = sum_list probs"
      using mass_sum [OF dist] perm(2) k(2) by (simp add: sum_list_mass)
    with assms(3,4) show ?thesis by simp
  qed (use k(5) kept_def in simp)
  have top: "\<forall>i\<in>set kept. \<forall>j<length probs. j \<notin> set kept \<longrightarrow> probs ! j \<le> probs ! i"
    using order_ok_prefix [OF ok [of k] k(4)] k(2) by (simp add: kept_def)
  have minimal: "mass probs (butlast kept) < top_p \<and> (\<forall>i\<in>set kept. probs ! last kept \<le> probs ! i)" if "1 < length kept"
  proof
    have "butlast kept = take (keep - 1) order" using len k perm(3) by (simp add: kept_def butlast_take)
    then show "mass probs (butlast kept) < top_p" using k(7) that len unfolding short_of_def by simp
    have "sorted_wrt (\<lambda>a b. probs ! b \<le> probs ! a) (butlast kept @ [last kept])"
      using ok [of k] k(2,4) ne sorted_wrt_take [of _ "take k order" keep]
      by (simp add: order_ok_def kept_def min_absorb1)
    moreover have "set kept = set (butlast kept @ [last kept])" using ne by simp
    ultimately show "\<forall>i\<in>set kept. probs ! last kept \<le> probs ! i" by (simp add: sorted_wrt_append)
  qed
  have "is_nucleus probs top_p kept" using ne dist sub top reach minimal by (simp add: is_nucleus_def)
  moreover have "set (drop keep order) = {..<length probs} - set kept"
    using perm(1,2) k(2) set_append [of "take keep order" "drop keep order"] distinct_append [of "take keep order" "drop keep order"]
    by (auto simp: kept_def)
  then have "nucleus pick probs top_p ! i = (if i \<in> set kept then probs ! i / mass probs kept else 0)" if "i < length probs" for i
    using that loop k(5) dist by (simp add: nucleus_def kept_def [symmetric] foldl_scale foldl_zero)
  moreover have "length (nucleus pick probs top_p) = length probs"
    using loop by (simp add: nucleus_def length_foldl_scale foldl_zero)
  ultimately show ?thesis by blast
qed

lemma length_repeat_penalty [simp]: "length (repeat_penalty cfg logits recent) = length logits"
proof -
  have "length (foldl (penalize p) l ts) = length l" for p l ts
    by (induction ts arbitrary: l) (simp_all add: penalize_def Let_def)
  then show ?thesis by (simp add: repeat_penalty_def Let_def)
qed

lemma sum_one_hot: "i < n \<Longrightarrow> sum_list ((replicate n 0)[i := 1 :: real]) = 1"
proof (induction n arbitrary: i)
  case (Suc n)
  then show ?case by (cases i) (simp_all add: sum_list_replicate)
qed simp

lemma is_nucleus_prob:
  assumes "is_nucleus probs top_p kept" "\<forall>p\<in>set probs. 0 < p" "length q = length probs"
    and "\<forall>i<length probs. q ! i = (if i \<in> set kept then probs ! i / mass probs kept else 0)"
  shows "(\<forall>x\<in>set q. 0 \<le> x) \<and> sum_list q = 1"
proof -
  have kept: "distinct kept" "set kept \<subseteq> {..<length probs}" "kept \<noteq> []" using assms(1) by (auto simp: is_nucleus_def)
  have pos: "0 < probs ! i" if "i \<in> set kept" for i using assms(2) kept(2) that by auto
  then have m: "0 < mass probs kept" unfolding mass_sum [OF kept(1)] using kept(3) by (intro sum_pos) auto
  have "sum_list q = (\<Sum>i<length probs. if i \<in> set kept then probs ! i / mass probs kept else 0)"
    using assms(3,4) by (simp add: sum_list_mass)
  also have "\<dots> = (\<Sum>i\<in>set kept. probs ! i / mass probs kept)"
    using kept(2) by (simp add: sum.inter_restrict [symmetric] Int_absorb1)
  also have "\<dots> = 1" using m by (simp add: mass_sum [OF kept(1)] sum_divide_distrib [symmetric])
  finally show ?thesis using assms(3,4) pos m by (auto simp: in_set_conv_nth less_imp_le)
qed

text \<open>A stable sort by decreasing probability is one such arrangement.\<close>

definition stable_pick :: "real list \<Rightarrow> nat \<Rightarrow> nat list" where
  "stable_pick probs k = sort_key (\<lambda>i. - probs ! i) [0..<length probs]"

lemma picks_ok_stable: "picks_ok stable_pick"
  unfolding picks_ok_def order_ok_def
proof (intro allI conjI ballI)
  fix probs :: "real list" and k
  let ?o = "stable_pick probs k"
  show "mset ?o = mset [0..<length probs]" by (simp add: stable_pick_def)
  have "sorted (map (\<lambda>i. - probs ! i) ?o)" by (simp add: stable_pick_def)
  then have srt: "sorted_wrt (\<lambda>a b. probs ! b \<le> probs ! a) (take k ?o @ drop k ?o)"
    by (simp add: sorted_wrt_map)
  then show "sorted_wrt (\<lambda>a b. probs ! b \<le> probs ! a) (take k ?o)" by (simp only: sorted_wrt_append)
  fix a b
  assume "a \<in> set (take k ?o)" "b \<in> set (drop k ?o)"
  with srt show "probs ! b \<le> probs ! a" by (simp only: sorted_wrt_append)
qed

definition demo_env :: "unit sampler_env" where
  "demo_env = \<lparr>se_pick = stable_pick, se_uniform = (\<lambda>g. (1/2, g)), se_seed = (\<lambda>_. ())\<rparr>"

definition sample_config :: gen_config where
  "sample_config = \<lparr>gc_max_tokens = 8, gc_temperature = 1, gc_top_p = 1/2, gc_repeat_penalty = 1,
     gc_repeat_last_n = 0, gc_seed = 0, gc_echo_prompt = False\<rparr>"

text \<open>
  What the sampler draws from is a probability distribution over the vocabulary, for
  every setting of the penalty, the temperature and the nucleus threshold (outside the valid
  range too), and whatever order the library's sort leaves equal probabilities in.
\<close>

theorem distribution_probability:
  assumes "logits \<noteq> []" "picks_ok pick"
  shows "\<exists>p. distribution pick cfg logits recent = Inr p \<and> length p = length logits
    \<and> (\<forall>x\<in>set p. 0 \<le> x) \<and> sum_list p = 1"
proof -
  let ?l = "repeat_penalty cfg logits recent" and ?top_p = "max 0 (min 1 (gc_top_p cfg))"
  have ne: "?l \<noteq> []" using length_repeat_penalty [of cfg logits recent] assms(1) by fastforce
  show ?thesis
  proof (cases "gc_temperature cfg \<le> 0")
    case True
    have "argmax ?l < length ?l" using argmax_spec [OF ne] by simp
    with True assms(1) show ?thesis
      by (auto simp: distribution_def Let_def sum_one_hot in_set_conv_nth nth_list_update)
  next
    case False
    let ?probs = "softmax (gc_temperature cfg) ?l"
    note soft = softmax_spec [OF ne, of "gc_temperature cfg"]
    have "?probs \<noteq> []" using soft(1) assms(1) by auto
    from nucleus_spec [OF this soft(2,3) _ assms(2), of ?top_p] obtain kept where
      "is_nucleus ?probs ?top_p kept" "length (nucleus pick ?probs ?top_p) = length ?probs"
      "\<forall>i<length ?probs. nucleus pick ?probs ?top_p ! i = (if i \<in> set kept then ?probs ! i / mass ?probs kept else 0)"
      by auto
    from is_nucleus_prob [OF this(1) soft(2) this(2,3)] this(2) False soft assms(1) show ?thesis
      by (auto simp: distribution_def Let_def less_imp_le)
  qed
qed

theorem distribution_probability_witness:
  "\<exists>p. distribution stable_pick sample_config [3, 1, 2] [1] = Inr p \<and> length p = 3 \<and> sum_list p = 1"
  using distribution_probability [OF _ picks_ok_stable, of "[3, 1, 2]" sample_config "[1]"] by auto

text \<open>
  C33: top-p keeps the smallest set of most probable tokens that reaches the threshold.
  With sampling on and a threshold below one, the tokens that keep a probability are no less
  probable than any dropped one, their mass reaches the threshold, which it does not without
  the last of them, and their probabilities are the softmax ones rescaled by that mass.  The
  partial selection of 512 candidates, widened as needed, does not change this.
\<close>

theorem distribution_top_p:
  assumes "logits \<noteq> []" "picks_ok pick" "0 < gc_temperature cfg" "0 \<le> gc_top_p cfg" "gc_top_p cfg < 1"
    and probs_def: "probs = softmax (gc_temperature cfg) (repeat_penalty cfg logits recent)"
  shows "\<exists>p kept. distribution pick cfg logits recent = Inr p \<and> is_nucleus probs (gc_top_p cfg) kept
    \<and> (\<forall>i<length logits. p ! i = (if i \<in> set kept then probs ! i / mass probs kept else 0))"
proof -
  have ne: "repeat_penalty cfg logits recent \<noteq> []"
    using length_repeat_penalty [of cfg logits recent] assms(1) by fastforce
  note soft = softmax_spec [OF ne, of "gc_temperature cfg", folded probs_def]
  have "probs \<noteq> []" using soft(1) assms(1) by auto
  from nucleus_spec [OF this soft(2,3) _ assms(2), of "gc_top_p cfg"] assms(5) soft(1)
  obtain kept where "is_nucleus probs (gc_top_p cfg) kept"
    "\<forall>i<length logits. nucleus pick probs (gc_top_p cfg) ! i = (if i \<in> set kept then probs ! i / mass probs kept else 0)"
    by auto
  with assms(1,3,4,5) show ?thesis
    by (auto simp: distribution_def Let_def probs_def max_def min_def)
qed

theorem distribution_top_p_witness:
  "\<exists>p kept. distribution stable_pick sample_config [3, 1, 2] [1] = Inr p
     \<and> is_nucleus (softmax 1 (repeat_penalty sample_config [3, 1, 2] [1])) (1/2) kept"
  using distribution_top_p [OF _ picks_ok_stable _ _ _ refl, of "[3, 1, 2]" sample_config "[1]"]
  by (auto simp: sample_config_def)

section \<open>Drawing\<close>

lemma draw_loop_spec:
  assumes "\<forall>p\<in>set ps. 0 \<le> p" "0 < r" "r \<le> sum_list ps"
  shows "\<exists>j<length ps. draw_loop ps i r l0 = i + j \<and> sum_list (take j ps) < r \<and> r \<le> sum_list (take (Suc j) ps)"
  using assms
proof (induction ps arbitrary: i r l0)
  case (Cons p ps)
  show ?case
  proof (cases "r \<le> p")
    case True
    with Cons.prems show ?thesis by (intro exI [of _ 0]) auto
  next
    case False
    then have "\<exists>j<length ps. draw_loop (p # ps) i r l0 = i + 1 + j \<and> sum_list (take j ps) < r - p
        \<and> r - p \<le> sum_list (take (Suc j) ps)"
      using Cons.prems Cons.IH [of "r - p" "i + 1" i] Cons.IH [of r "i + 1" l0] by (cases "p \<le> 0") auto
    then obtain j where "j < length ps" "draw_loop (p # ps) i r l0 = i + 1 + j" "sum_list (take j ps) < r - p"
      "r - p \<le> sum_list (take (Suc j) ps)" by blast
    then show ?thesis by (intro exI [of _ "Suc j"]) auto
  qed
qed simp

lemma sum_take_mono: "\<forall>p\<in>set ps. (0 :: real) \<le> p \<Longrightarrow> m \<le> n \<Longrightarrow> sum_list (take m ps) \<le> sum_list (take n ps)"
proof (induction ps arbitrary: m n)
  case (Cons p ps)
  then show ?case by (cases m; cases n) (auto intro!: add_nonneg_nonneg sum_list_nonneg dest: in_set_takeD)
qed simp

text \<open>
  The draw inverts the cumulative distribution.  For a uniform number \<open>r\<close> strictly
  between 0 and 1, token \<open>i\<close> is drawn exactly when \<open>r\<close> lies in the interval of length
  \<open>p ! i\<close> that token \<open>i\<close> has in the cumulative sum, so every token is drawn with exactly its
  probability and a token of probability zero never.
\<close>

theorem draw_inverts_cdf:
  assumes "\<forall>p\<in>set probs. 0 \<le> p" "sum_list probs = 1" "uniform g = (r, g')" "0 < r" "r < 1" "i < length probs"
    and "length probs < 2 ^ 31"
  shows "draw uniform probs g = (Inr (of_nat i), g') \<longleftrightarrow> sum_list (take i probs) < r \<and> r \<le> sum_list (take (Suc i) probs)"
proof -
  obtain j where j: "j < length probs" "draw_loop probs 0 r 0 = j" "sum_list (take j probs) < r"
    "r \<le> sum_list (take (Suc j) probs)"
    using draw_loop_spec [OF assms(1,4), of 0 0] assms(2,5) by auto
  have "probs \<noteq> []" using assms(6) by auto
  then have d: "draw uniform probs g = (Inr (of_nat j), g')" using assms(3) j(2) by (simp add: draw_def)
  have inj: "(of_nat j :: token) = of_nat i \<longleftrightarrow> j = i"
    using j(1) assms(6,7) by (auto simp: word_unat_eq_iff unat_of_nat take_bit_eq_mod)
  have "j = i" if "sum_list (take i probs) < r" "r \<le> sum_list (take (Suc i) probs)"
    using that j(3,4) sum_take_mono [OF assms(1), of "Suc i" j] sum_take_mono [OF assms(1), of "Suc j" i]
    by (metis not_less_eq_eq linorder_neqE_nat Suc_leI not_le order.strict_trans1)
  with d inj j(3,4) show ?thesis by auto
qed

theorem draw_inverts_cdf_witness:
  "draw (\<lambda>g. (1/2, Suc g)) [1/4, 0, 1/2, 1/4] 7 = (Inr 2, 8)"
  using draw_inverts_cdf [of "[1/4, 0, 1/2, 1/4]" "\<lambda>g. (1/2, Suc g)" 7 "1/2" 8 2] by simp

end
