(* ===== verification/Reference_Gen.thy ===== *)
theory Reference_Gen
  imports Model_Backend Sampler
begin

text \<open>
  The reference every generation loop of the program is compared with: one forward pass of the
  model and one sample per token, on the prompt and the tokens so far, with a generator seeded
  from the configuration.  \<open>ref_prefix\<close> are the token lists a loop may have delivered,
  \<open>ref_stop\<close> the reasons to stop after them; a complete run is unique, so two loops that are
  both shown to make complete runs deliver the same tokens.
\<close>

primrec ref_gen :: "'g sampler_env \<Rightarrow> (token list \<Rightarrow> logits) \<Rightarrow> gen_config \<Rightarrow> nat \<Rightarrow> token list \<times> 'g \<Rightarrow> (token list \<times> 'g) option" where
  "ref_gen env model gen 0 s = Some s"
| "ref_gen env model gen (Suc n) s =
     (case ref_gen env model gen n s of
        None \<Rightarrow> None
      | Some (h, g) \<Rightarrow> (case sampler_sample env gen (model h) h g of (Inl e, g') \<Rightarrow> None | (Inr t, g') \<Rightarrow> Some (h @ [t], g')))"

definition ref_after :: "'g sampler_env \<Rightarrow> (token list \<Rightarrow> logits) \<Rightarrow> gen_config \<Rightarrow> token list \<Rightarrow> nat \<Rightarrow> (token list \<times> 'g) option" where
  "ref_after env model gen prompt n = ref_gen env model gen n (prompt, sampler_init env gen)"

text \<open>No delivered token ends the generation, and none but the first was delivered past a limit.\<close>

definition ref_prefix :: "'g sampler_env \<Rightarrow> (token list \<Rightarrow> logits) \<Rightarrow> (token \<Rightarrow> bool) \<Rightarrow> gen_config \<Rightarrow> nat \<Rightarrow> token list \<Rightarrow> token list \<Rightarrow> bool" where
  "ref_prefix env model eog gen n_ctx prompt ts \<longleftrightarrow>
     (\<exists>g. ref_after env model gen prompt (length ts) = Some (prompt @ ts, g)) \<and> list_all (\<lambda>t. \<not> eog t) ts
     \<and> (1 < length ts \<longrightarrow> int (length ts) \<le> gc_max_tokens gen \<and> length prompt + length ts \<le> n_ctx)"

definition ref_stop :: "'g sampler_env \<Rightarrow> (token list \<Rightarrow> logits) \<Rightarrow> (token \<Rightarrow> bool) \<Rightarrow> gen_config \<Rightarrow> nat \<Rightarrow> token list \<Rightarrow> token list \<Rightarrow> bool" where
  "ref_stop env model eog gen n_ctx prompt ts \<longleftrightarrow>
     (\<exists>h g t g'. ref_after env model gen prompt (length ts) = Some (h, g)
        \<and> sampler_sample env gen (model h) h g = (Inr t, g') \<and> eog t)
     \<or> (ts \<noteq> [] \<and> (gc_max_tokens gen \<le> int (length ts) \<or> n_ctx \<le> length prompt + length ts))"

lemma ref_after_0 [simp]: "ref_after env model gen prompt 0 = Some (prompt, sampler_init env gen)"
  by (simp add: ref_after_def)

lemma ref_after_step:
  "ref_after env model gen prompt n = Some (h, g) \<Longrightarrow> sampler_sample env gen (model h) h g = (Inr t, g') \<Longrightarrow>
     ref_after env model gen prompt (Suc n) = Some (h @ [t], g')"
  by (simp add: ref_after_def)

lemma ref_after_defined: "ref_after env model gen prompt n = Some s \<Longrightarrow> m \<le> n \<Longrightarrow> ref_after env model gen prompt m \<noteq> None"
proof (induction n arbitrary: s)
  case (Suc n)
  then show ?case
    by (cases "m = Suc n") (auto simp: ref_after_def le_Suc_eq split: option.splits prod.splits)
qed simp

lemma ref_after_take:
  assumes "ref_after env model gen prompt (length ts) = Some (prompt @ ts, g)" "m \<le> length ts"
  shows "\<exists>g'. ref_after env model gen prompt m = Some (prompt @ take m ts, g')"
  using assms
proof (induction ts arbitrary: g rule: rev_induct)
  case (snoc t ts)
  obtain h g1 where h: "ref_after env model gen prompt (length ts) = Some (h, g1)"
    using ref_after_defined [OF snoc.prems(1), of "length ts"] by fastforce
  then have "h = prompt @ ts"
    using snoc.prems(1) by (auto simp: ref_after_def split: sum.splits prod.splits)
  with snoc h show ?case by (cases "m = Suc (length ts)") auto
qed simp

lemma ref_prefix_Nil [simp]: "ref_prefix env model eog gen n_ctx prompt []"
  by (simp add: ref_prefix_def)

text \<open>The next token of the reference after a proper initial segment of a delivered list is in the list.\<close>

lemma ref_next:
  assumes "ref_prefix env model eog gen n_ctx prompt ts" "m < length ts"
    and "ref_after env model gen prompt m = Some (h, g)" "sampler_sample env gen (model h) h g = (Inr t, g')"
  shows "ts ! m = t"
proof -
  obtain g1 g2 where "ref_after env model gen prompt m = Some (prompt @ take m ts, g1)"
    "ref_after env model gen prompt (Suc m) = Some (prompt @ take (Suc m) ts, g2)"
    using assms(1,2) ref_after_take [of env model gen prompt ts _ m] ref_after_take [of env model gen prompt ts _ "Suc m"]
    unfolding ref_prefix_def by (metis Suc_leI less_imp_le)
  with assms(3) ref_after_step [OF assms(3,4)] show ?thesis
    using assms(2) by (simp add: take_Suc_conv_app_nth)
qed

lemma ref_complete_le:
  assumes a: "ref_prefix env model eog gen n_ctx prompt ts" "ref_stop env model eog gen n_ctx prompt ts"
    and b: "ref_prefix env model eog gen n_ctx prompt us"
  shows "length us \<le> length ts"
proof (rule ccontr)
  assume "\<not> ?thesis"
  then have lt: "length ts < length us" by simp
  from a(2) show False unfolding ref_stop_def
  proof (elim disjE exE conjE)
    fix h g t g'
    assume h: "ref_after env model gen prompt (length ts) = Some (h, g)" "sampler_sample env gen (model h) h g = (Inr t, g')" "eog t"
    have "us ! length ts = t" by (rule ref_next [OF b lt h(1,2)])
    then show False using b h(3) lt by (auto simp: ref_prefix_def list_all_length)
  qed (use b lt in \<open>auto simp: ref_prefix_def Suc_le_eq neq_Nil_conv\<close>)
qed

lemma ref_complete_unique:
  assumes "ref_prefix env model eog gen n_ctx prompt ts" "ref_stop env model eog gen n_ctx prompt ts"
    and "ref_prefix env model eog gen n_ctx prompt us" "ref_stop env model eog gen n_ctx prompt us"
  shows "ts = us"
proof -
  have len: "length ts = length us"
    using ref_complete_le [OF assms(1,2,3)] ref_complete_le [OF assms(3,4,1)] by simp
  obtain g g' where "ref_after env model gen prompt (length ts) = Some (prompt @ ts, g)"
    "ref_after env model gen prompt (length us) = Some (prompt @ us, g')"
    using assms(1,3) unfolding ref_prefix_def by blast
  then show ?thesis by (metis len option.inject prod.inject same_append_eq)
qed

end
