(* ===== verification/Scheduler.thy ===== *)
theory Scheduler
  imports Reference_Gen
begin

text \<open>
  The interleaved multi-request scheduler (\<open>src/src/core/scheduler.cpp\<close>): requests wait in a
  queue, are admitted into sequence slots while they fit the context, share one forward pass
  per step, and are retired one by one.  Both public mutators hold the same mutex, so a run is
  a sequence of \<open>submit\<close>s and \<open>step\<close>s.  The two history fields \<open>sc_submitted\<close> and
  \<open>sc_log\<close> record what was submitted and which token callbacks were made; no decision of the
  code reads them, except that a callback, which may keep any state of its own, is a function
  of the callbacks made before it (the log grows at every call, so every sequence of answers is
  such a function).  Token counts and positions are natural numbers; the occupancy sum is
  computed in 32 bits and the request identifiers in 64 bits, as in the source.
\<close>

section \<open>Model\<close>

type_synonym token_callback = "(u64 \<times> token) list \<Rightarrow> token \<Rightarrow> engine_exn + bool"

record 'g request =
  rq_id :: u64
  rq_history :: "token list"
  rq_prompt_len :: nat
  rq_gen :: gen_config
  rq_on_token :: token_callback
  rq_sampler :: 'g
  rq_emitted :: int
  rq_seq_id :: int
  rq_n_past :: nat
  rq_needs_prefill :: bool

record ('b, 'g) scheduler =
  sc_backend :: 'b
  sc_n_parallel :: int
  sc_n_ctx :: nat
  sc_pending :: "'g request list"
  sc_active :: "'g request list"
  sc_slot_used :: "bool list"
  sc_done :: "u64 \<rightharpoonup> engine_exn option"
  sc_next_id :: u64
  sc_submitted :: "'g request list"
  sc_log :: "(u64 \<times> token) list"

definition scheduler_open :: "'b backend_ops \<Rightarrow> int \<Rightarrow> 'b \<Rightarrow> engine_exn + ('b, 'g) scheduler" where
  "scheduler_open ops n_parallel b =
     (if n_parallel < 1 then Inl (EngineError ''n_parallel must be >= 1'')
      else Inr \<lparr>sc_backend = b, sc_n_parallel = n_parallel, sc_n_ctx = bo_context_length ops b,
             sc_pending = [], sc_active = [], sc_slot_used = replicate (nat (max n_parallel 1)) False,
             sc_done = Map.empty, sc_next_id = 1, sc_submitted = [], sc_log = []\<rparr>)"

definition submit :: "'g sampler_env \<Rightarrow> token list \<Rightarrow> gen_config \<Rightarrow> token_callback option
    \<Rightarrow> ('b, 'g) scheduler \<Rightarrow> engine_exn + u64 \<times> ('b, 'g) scheduler" where
  "submit env prompt gen on_token st =
     (if prompt = [] then Inl (EngineError ''prompt is empty'')
      else if sc_n_ctx st < length prompt then
        Inl (EngineError (''prompt of '' @ show_nat (length prompt) @ '' tokens exceeds context length '' @ show_nat (sc_n_ctx st)))
      else case on_token of
        None \<Rightarrow> Inl (EngineError ''callback is null'')
      | Some cb \<Rightarrow>
          let r = \<lparr>rq_id = sc_next_id st, rq_history = prompt, rq_prompt_len = length prompt, rq_gen = gen,
                   rq_on_token = cb, rq_sampler = sampler_init env gen, rq_emitted = 0,
                   rq_seq_id = - 1, rq_n_past = 0, rq_needs_prefill = True\<rparr>
          in Inr (rq_id r, st\<lparr>sc_next_id := sc_next_id st + 1, sc_pending := sc_pending st @ [r],
                               sc_submitted := sc_submitted st @ [r]\<rparr>))"

definition cells_used :: "'g request list \<Rightarrow> u32" where
  "cells_used active = foldl (\<lambda>used r. used + of_nat (length (rq_history r))) 0 active"

definition finish :: "'b backend_ops \<Rightarrow> 'g request \<Rightarrow> engine_exn option \<Rightarrow> ('b, 'g) scheduler \<Rightarrow> ('b, 'g) scheduler" where
  "finish ops r err st =
     (let st1 = (if 0 \<le> rq_seq_id r
                 then st\<lparr>sc_backend := bo_clear_seq ops (rq_seq_id r) (sc_backend st),
                         sc_slot_used := (sc_slot_used st)[nat (rq_seq_id r) := False]\<rparr>
                 else st)
      in st1\<lparr>sc_done := (sc_done st1)(rq_id r \<mapsto> err)\<rparr>)"

definition find_donor :: "token list \<Rightarrow> 'g request list \<Rightarrow> 'g request option" where
  "find_donor prompt active =
     find (\<lambda>a. rq_prompt_len a = length prompt \<and> take (length prompt) (rq_history a) = prompt) active"

fun first_free :: "bool list \<Rightarrow> nat \<Rightarrow> nat option" where
  "first_free [] s = None"
| "first_free (used # slots) s = (if \<not> used then Some s else first_free slots (s + 1))"

definition admit_one :: "'b backend_ops \<Rightarrow> 'g request option \<Rightarrow> 'g request \<Rightarrow> ('b, 'g) scheduler \<Rightarrow> ('b, 'g) scheduler" where
  "admit_one ops donor r st =
     (let (r1, slots) = (case first_free (sc_slot_used st) 0 of
                           None \<Rightarrow> (r, sc_slot_used st)
                         | Some s \<Rightarrow> (r\<lparr>rq_seq_id := int s\<rparr>, (sc_slot_used st)[s := True]))
      in case donor of
           None \<Rightarrow> st\<lparr>sc_slot_used := slots, sc_active := sc_active st @ [r1]\<rparr>
         | Some d \<Rightarrow>
             let shared = rq_prompt_len r1 - 1;
                 r2 = r1\<lparr>rq_n_past := shared, rq_needs_prefill := False\<rparr>
             in st\<lparr>sc_slot_used := slots, sc_active := sc_active st @ [r2],
                   sc_backend := bo_copy_seq ops (rq_seq_id d) (rq_seq_id r1) shared (sc_backend st)\<rparr>)"

fun admit_loop :: "'b backend_ops \<Rightarrow> 'g request list \<Rightarrow> ('b, 'g) scheduler \<Rightarrow> ('b, 'g) scheduler" where
  "admit_loop ops [] st = st\<lparr>sc_pending := []\<rparr>"
| "admit_loop ops (r # rs) st =
     (if \<not> length (sc_active st) < nat (sc_n_parallel st) then st\<lparr>sc_pending := r # rs\<rparr>
      else if sc_n_ctx st < unat (cells_used (sc_active st) + of_nat (length (rq_history r))) then st\<lparr>sc_pending := r # rs\<rparr>
      else let donor = (if 1 < length (rq_history r) then find_donor (rq_history r) (sc_active st) else None)
           in case donor of
                None \<Rightarrow> admit_loop ops rs (admit_one ops None r st)
              | Some d \<Rightarrow> if rq_n_past d < rq_prompt_len d then st\<lparr>sc_pending := r # rs\<rparr>
                          else admit_loop ops rs (admit_one ops (Some d) r st))"

definition admit :: "'b backend_ops \<Rightarrow> ('b, 'g) scheduler \<Rightarrow> ('b, 'g) scheduler" where
  "admit ops st = admit_loop ops (sc_pending st) st"

definition slice_of :: "'g request \<Rightarrow> seq_slice" where
  "slice_of r =
     (if rq_needs_prefill r then \<lparr>sl_seq_id = rq_seq_id r, sl_tokens = rq_history r, sl_pos_start = 0\<rparr>
      else \<lparr>sl_seq_id = rq_seq_id r, sl_tokens = [last (rq_history r)], sl_pos_start = rq_n_past r\<rparr>)"

text \<open>The body of the sampling loop: the request after it, whether it is kept or retired, and the log.\<close>

datatype fate = Keep | Retire "engine_exn option"

definition advance_one :: "'b backend_ops \<Rightarrow> 'g sampler_env \<Rightarrow> 'b \<Rightarrow> nat \<Rightarrow> 'g request \<Rightarrow> seq_slice \<Rightarrow> logits \<Rightarrow> (u64 \<times> token) list
    \<Rightarrow> 'g request \<times> fate \<times> (u64 \<times> token) list" where
  "advance_one ops env b n_ctx r s logits calls =
     (let r1 = r\<lparr>rq_n_past := rq_n_past r + length (sl_tokens s), rq_needs_prefill := False\<rparr>
      in case sampler_sample env (rq_gen r1) logits (rq_history r1) (rq_sampler r1) of
           (Inl e, g) \<Rightarrow> (r1\<lparr>rq_sampler := g\<rparr>, Retire (Some e), calls)
         | (Inr t, g) \<Rightarrow>
             let r2 = r1\<lparr>rq_sampler := g\<rparr>
             in if bo_is_eog ops t b then (r2, Retire None, calls)
                else case rq_on_token r2 calls t of
                       Inl e \<Rightarrow> (r2, Retire (Some e), calls @ [(rq_id r2, t)])
                     | Inr keep_going \<Rightarrow>
                         let r3 = r2\<lparr>rq_history := rq_history r2 @ [t], rq_emitted := rq_emitted r2 + 1\<rparr>
                         in if \<not> keep_going \<or> gc_max_tokens (rq_gen r3) \<le> rq_emitted r3 \<or> n_ctx \<le> length (rq_history r3)
                            then (r3, Retire None, calls @ [(rq_id r3, t)])
                            else (r3, Keep, calls @ [(rq_id r3, t)]))"

fun advance_loop :: "'b backend_ops \<Rightarrow> 'g sampler_env \<Rightarrow> 'g request list \<Rightarrow> seq_slice list \<Rightarrow> logits list \<Rightarrow> 'g request list
    \<Rightarrow> ('b, 'g) scheduler \<Rightarrow> ('b, 'g) scheduler" where
  "advance_loop ops env [] ss ls still_active st = st\<lparr>sc_active := still_active\<rparr>"
| "advance_loop ops env (r # rs) ss ls still_active st =
     (case advance_one ops env (sc_backend st) (sc_n_ctx st) r (hd ss) (hd ls) (sc_log st) of
        (r', Keep, calls) \<Rightarrow> advance_loop ops env rs (tl ss) (tl ls) (still_active @ [r']) (st\<lparr>sc_log := calls\<rparr>)
      | (r', Retire err, calls) \<Rightarrow>
          advance_loop ops env rs (tl ss) (tl ls) still_active (finish ops r' err (st\<lparr>sc_log := calls\<rparr>)))"

definition sched_step :: "'b backend_ops \<Rightarrow> 'g sampler_env \<Rightarrow> ('b, 'g) scheduler \<Rightarrow> bool \<times> ('b, 'g) scheduler" where
  "sched_step ops env st0 =
     (let st = admit ops st0
      in if sc_active st = [] then (sc_pending st \<noteq> [], st)
         else let slices = map slice_of (sc_active st)
              in case bo_decode_seqs ops slices (sc_backend st) of
                   (Inl err, b) \<Rightarrow>
                     (sc_pending st \<noteq> [],
                      (foldl (\<lambda>st r. finish ops r (Some err) st) (st\<lparr>sc_backend := b\<rparr>) (sc_active st))\<lparr>sc_active := []\<rparr>)
                 | (Inr logits, b) \<Rightarrow>
                     let st' = advance_loop ops env (sc_active st) slices logits [] (st\<lparr>sc_backend := b\<rparr>)
                     in (sc_active st' \<noteq> [] \<or> sc_pending st' \<noteq> [], st'))"

partial_function (option) run_until_idle :: "'b backend_ops \<Rightarrow> 'g sampler_env \<Rightarrow> ('b, 'g) scheduler \<Rightarrow> ('b, 'g) scheduler option" where
  "run_until_idle ops env st =
     (case sched_step ops env st of (again, st') \<Rightarrow> if again then run_until_idle ops env st' else Some st')"

definition finished :: "('b, 'g) scheduler \<Rightarrow> u64 \<Rightarrow> bool" where
  "finished st i \<longleftrightarrow> sc_done st i \<noteq> None"

definition error_of :: "('b, 'g) scheduler \<Rightarrow> u64 \<Rightarrow> engine_exn option" where
  "error_of st i = (case sc_done st i of None \<Rightarrow> None | Some e \<Rightarrow> e)"

definition active_count :: "('b, 'g) scheduler \<Rightarrow> int" where
  "active_count st = int (length (sc_active st))"

definition idle :: "('b, 'g) scheduler \<Rightarrow> bool" where
  "idle st \<longleftrightarrow> sc_active st = [] \<and> sc_pending st = []"

text \<open>The states a scheduler can be in, for fewer than \<open>2^64\<close> requests.\<close>

inductive sched_reachable :: "'b backend_ops \<Rightarrow> 'g sampler_env \<Rightarrow> 'b \<Rightarrow> int \<Rightarrow> ('b, 'g) scheduler \<Rightarrow> bool"
  for ops env b n_parallel where
  opened: "scheduler_open ops n_parallel b = Inr st \<Longrightarrow> sched_reachable ops env b n_parallel st"
| submitted: "sched_reachable ops env b n_parallel st \<Longrightarrow> sc_next_id st \<noteq> - 1 \<Longrightarrow>
    submit env prompt gen on_token st = Inr (i, st') \<Longrightarrow> sched_reachable ops env b n_parallel st'"
| stepped: "sched_reachable ops env b n_parallel st \<Longrightarrow> sched_reachable ops env b n_parallel (snd (sched_step ops env st))"

section \<open>The invariant of the scheduler\<close>

text \<open>
  The invariant is stated over explicit lists of waiting and active requests, since both lists
  are rebuilt inside the loops of \<open>admit\<close> and \<open>step\<close>.
\<close>

definition pending_ok :: "nat \<Rightarrow> 'g request \<Rightarrow> bool" where
  "pending_ok n_ctx r \<longleftrightarrow> rq_history r \<noteq> [] \<and> length (rq_history r) \<le> n_ctx \<and> rq_prompt_len r = length (rq_history r)
     \<and> rq_n_past r = 0 \<and> rq_needs_prefill r \<and> rq_emitted r = 0"

definition active_ok :: "nat \<Rightarrow> 'g request \<Rightarrow> bool" where
  "active_ok n_ctx r \<longleftrightarrow> rq_history r \<noteq> [] \<and> length (rq_history r) \<le> n_ctx \<and> rq_prompt_len r \<le> length (rq_history r)
     \<and> rq_n_past r = (if rq_needs_prefill r then 0 else length (rq_history r) - 1)
     \<and> rq_emitted r = int (length (rq_history r) - rq_prompt_len r)"

definition slots_ok :: "'g request list \<Rightarrow> bool list \<Rightarrow> bool" where
  "slots_ok acts slots \<longleftrightarrow> distinct (map rq_seq_id acts)
     \<and> (\<forall>i. i \<in> rq_seq_id ` set acts \<longleftrightarrow> 0 \<le> i \<and> nat i < length slots \<and> slots ! nat i)"

definition ids_ok :: "'g request list \<Rightarrow> 'g request list \<Rightarrow> ('b, 'g) scheduler \<Rightarrow> bool" where
  "ids_ok waiting acts st \<longleftrightarrow> distinct (map rq_id (waiting @ acts))
     \<and> rq_id ` set (waiting @ acts) \<inter> dom (sc_done st) = {}
     \<and> rq_id ` set (sc_submitted st) = rq_id ` set (waiting @ acts) \<union> dom (sc_done st)
     \<and> distinct (map rq_id (sc_submitted st))
     \<and> (\<forall>r\<in>set (sc_submitted st). rq_id r < sc_next_id st)"

definition sched_ok :: "'g request list \<Rightarrow> 'g request list \<Rightarrow> ('b, 'g) scheduler \<Rightarrow> bool" where
  "sched_ok waiting acts st \<longleftrightarrow> 1 \<le> sc_n_parallel st \<and> length (sc_slot_used st) = nat (sc_n_parallel st)
     \<and> list_all (pending_ok (sc_n_ctx st)) waiting \<and> list_all (active_ok (sc_n_ctx st)) acts
     \<and> slots_ok acts (sc_slot_used st) \<and> ids_ok waiting acts st"

lemma sched_ok_open:
  "scheduler_open ops n b = Inr st \<Longrightarrow> sched_ok (sc_pending st) (sc_active st) st"
  by (auto simp: scheduler_open_def sched_ok_def slots_ok_def ids_ok_def split: if_splits)

lemma less_next_id:
  assumes "(n :: u64) \<noteq> - 1" "x \<le> n"
  shows "x < n + 1"
proof -
  have "unat (n + 1) = Suc (unat n)"
    using unatSuc [of n] assms(1) by (metis add.commute add_eq_0_iff)
  with assms(2) show ?thesis by (simp add: word_less_nat_alt word_le_nat_alt)
qed

lemma sched_ok_submit:
  assumes "sched_ok (sc_pending st) (sc_active st) st" "sc_next_id st \<noteq> - 1" "submit env prompt gen cb st = Inr (i, st')"
  shows "sched_ok (sc_pending st') (sc_active st') st'"
proof -
  obtain r where r: "st' = st\<lparr>sc_next_id := sc_next_id st + 1, sc_pending := sc_pending st @ [r], sc_submitted := sc_submitted st @ [r]\<rparr>"
    "rq_id r = sc_next_id st" "pending_ok (sc_n_ctx st) r"
    using assms(3) by (auto simp: submit_def Let_def pending_ok_def split: if_splits option.splits)
  have later: "x < sc_next_id st + 1" if "x \<le> sc_next_id st" for x
    using less_next_id [OF assms(2) that] .
  have ids: "ids_ok (sc_pending st) (sc_active st) st" using assms(1) by (simp add: sched_ok_def)
  then have fresh: "sc_next_id st \<notin> rq_id ` set (sc_submitted st)"
    unfolding ids_ok_def by fastforce
  have split: "rq_id ` set (sc_submitted st) = rq_id ` set (sc_pending st @ sc_active st) \<union> dom (sc_done st)"
    using ids by (simp add: ids_ok_def)
  with fresh have new: "sc_next_id st \<notin> rq_id ` set (sc_pending st)" "sc_next_id st \<notin> rq_id ` set (sc_active st)"
    "sc_next_id st \<notin> dom (sc_done st)" by (simp_all add: image_Un)
  have "ids_ok (sc_pending st @ [r]) (sc_active st) st'"
    using ids fresh new r(2) later less_imp_le
    unfolding ids_ok_def r(1) by (auto simp: image_Un)
  then show ?thesis using assms(1) r by (simp add: sched_ok_def)
qed

lemma slots_okD:
  "slots_ok acts slots \<Longrightarrow> r \<in> set acts \<Longrightarrow> 0 \<le> rq_seq_id r \<and> nat (rq_seq_id r) < length slots"
  by (auto simp: slots_ok_def)

lemma slots_ok_length:
  assumes "slots_ok acts slots"
  shows "length acts = length (filter id slots)"
proof -
  have "(\<lambda>i. int i) ` {i. i < length slots \<and> slots ! i} = rq_seq_id ` set acts"
  proof (intro set_eqI iffI)
    fix i
    assume "i \<in> rq_seq_id ` set acts"
    then have "0 \<le> i \<and> nat i < length slots \<and> slots ! nat i" using assms by (simp add: slots_ok_def)
    then show "i \<in> int ` {i. i < length slots \<and> slots ! i}" by (intro image_eqI [of _ _ "nat i"]) auto
  qed (use assms in \<open>auto simp: slots_ok_def\<close>)
  then have "card (set (map rq_seq_id acts)) = card {i. i < length slots \<and> slots ! i}"
    by (simp add: card_image [symmetric, of int])
  moreover have "distinct (map rq_seq_id acts)" using assms by (simp add: slots_ok_def)
  ultimately show ?thesis
    using distinct_card [of "map rq_seq_id acts"] by (simp add: length_filter_conv_card)
qed

lemma first_free_spec:
  "first_free slots k = None \<Longrightarrow> filter id slots = slots"
  "first_free slots k = Some s \<Longrightarrow> k \<le> s \<and> s < k + length slots \<and> \<not> slots ! (s - k)"
proof -
  show "first_free slots k = None \<Longrightarrow> filter id slots = slots"
    by (induction slots k rule: first_free.induct) (auto split: if_splits)
  show "first_free slots k = Some s \<Longrightarrow> k \<le> s \<and> s < k + length slots \<and> \<not> slots ! (s - k)"
    by (induction slots k rule: first_free.induct) (auto split: if_splits simp: nth_Cons' diff_Suc Suc_le_eq)
qed

lemma slots_ok_remove:
  assumes "slots_ok (xs @ r # ys) slots"
  shows "slots_ok (xs @ ys) (slots[nat (rq_seq_id r) := False])"
proof -
  have r: "0 \<le> rq_seq_id r" using slots_okD [OF assms, of r] by simp
  have rest: "i \<in> rq_seq_id ` set (xs @ ys) \<longleftrightarrow> i \<in> rq_seq_id ` set (xs @ r # ys) \<and> i \<noteq> rq_seq_id r" for i
    using assms by (simp add: slots_ok_def image_Un) blast
  have used: "i \<in> rq_seq_id ` set (xs @ r # ys) \<longleftrightarrow> 0 \<le> i \<and> nat i < length slots \<and> slots ! nat i" for i
    using assms unfolding slots_ok_def by blast
  have "i \<in> rq_seq_id ` set (xs @ ys) \<longleftrightarrow> 0 \<le> i \<and> nat i < length slots \<and> slots[nat (rq_seq_id r) := False] ! nat i" for i
    using r unfolding rest used by (cases "i = rq_seq_id r") (auto simp: nth_list_update)
  then show ?thesis using assms unfolding slots_ok_def by simp
qed

lemma slots_ok_add:
  assumes "slots_ok acts slots" "s < length slots" "\<not> slots ! s" "rq_seq_id r = int s"
  shows "slots_ok (acts @ [r]) (slots[s := True])"
proof -
  have "int s \<notin> rq_seq_id ` set acts" using assms(1,3) by (simp add: slots_ok_def)
  then show ?thesis using assms by (auto simp: slots_ok_def nth_list_update)
qed

lemma finish_simps [simp]:
  "sc_pending (finish ops r e st) = sc_pending st" "sc_active (finish ops r e st) = sc_active st"
  "sc_n_parallel (finish ops r e st) = sc_n_parallel st" "sc_n_ctx (finish ops r e st) = sc_n_ctx st"
  "sc_next_id (finish ops r e st) = sc_next_id st" "sc_submitted (finish ops r e st) = sc_submitted st"
  "sc_log (finish ops r e st) = sc_log st" "sc_done (finish ops r e st) = (sc_done st)(rq_id r \<mapsto> e)"
  "length (sc_slot_used (finish ops r e st)) = length (sc_slot_used st)"
  by (simp_all add: finish_def Let_def)

lemma ids_ok_finish:
  assumes "ids_ok w (xs @ r # ys) st" "sc_submitted st' = sc_submitted st" "sc_next_id st' = sc_next_id st"
    and "sc_done st' = (sc_done st)(rq_id r \<mapsto> e)"
  shows "ids_ok w (xs @ ys) st'"
proof -
  have "distinct (map rq_id (w @ xs @ r # ys))" using assms(1) by (simp add: ids_ok_def)
  then have "distinct (map rq_id (w @ xs @ ys))" "rq_id r \<notin> rq_id ` set (w @ xs @ ys)"
    "rq_id ` set (w @ xs @ r # ys) = insert (rq_id r) (rq_id ` set (w @ xs @ ys))" by auto
  then show ?thesis using assms unfolding ids_ok_def by auto
qed

lemma sched_ok_finish:
  assumes ok: "sched_ok w (xs @ r # ys) st" and same: "rq_id r' = rq_id r" "rq_seq_id r' = rq_seq_id r"
  shows "sched_ok w (xs @ ys) (finish ops r' e st)"
proof -
  have slots: "slots_ok (xs @ r # ys) (sc_slot_used st)" using ok by (simp add: sched_ok_def)
  then have "0 \<le> rq_seq_id r" using slots_okD by fastforce
  then have "sc_slot_used (finish ops r' e st) = (sc_slot_used st)[nat (rq_seq_id r) := False]"
    using same by (simp add: finish_def)
  moreover have "ids_ok w (xs @ ys) (finish ops r' e st)"
    using ok same(1) by (intro ids_ok_finish [of w xs r ys st]) (simp_all add: sched_ok_def)
  ultimately show ?thesis using ok slots_ok_remove [OF slots] by (simp add: sched_ok_def)
qed

lemma sched_ok_replace:
  assumes "sched_ok w (xs @ r # ys) st" "rq_id r' = rq_id r" "rq_seq_id r' = rq_seq_id r" "active_ok (sc_n_ctx st) r'"
  shows "sched_ok w (xs @ r' # ys) (st\<lparr>sc_log := calls\<rparr>)"
proof -
  have "ids_ok w (xs @ r' # ys) (st\<lparr>sc_log := calls\<rparr>)" using assms(1,2) by (simp add: sched_ok_def ids_ok_def)
  moreover have "slots_ok (xs @ r' # ys) (sc_slot_used st)" using assms(1,3) by (simp add: sched_ok_def slots_ok_def)
  ultimately show ?thesis using assms(1,4) by (simp add: sched_ok_def)
qed

lemma sched_ok_log: "sched_ok w acts (st\<lparr>sc_log := calls\<rparr>) = sched_ok w acts st"
  "sched_ok w acts (st\<lparr>sc_backend := b\<rparr>) = sched_ok w acts st"
  "sched_ok w acts (st\<lparr>sc_active := a\<rparr>) = sched_ok w acts st"
  "sched_ok w acts (st\<lparr>sc_pending := p\<rparr>) = sched_ok w acts st"
  by (simp_all add: sched_ok_def ids_ok_def)

lemma advance_one_same:
  "advance_one ops env b n r s l calls = (r', f, calls') \<Longrightarrow>
     rq_id r' = rq_id r \<and> rq_seq_id r' = rq_seq_id r \<and> rq_gen r' = rq_gen r \<and> rq_on_token r' = rq_on_token r
     \<and> rq_prompt_len r' = rq_prompt_len r"
  by (auto simp: advance_one_def Let_def split: prod.splits sum.splits if_splits)

lemma advance_one_Keep:
  assumes "advance_one ops env b n r (slice_of r) l calls = (r', Keep, calls')" "active_ok n r"
  shows "active_ok n r' \<and> \<not> rq_needs_prefill r' \<and> butlast (rq_history r') = rq_history r
    \<and> length (rq_history r') = Suc (length (rq_history r)) \<and> length (rq_history r') < n"
  using assms
  by (auto simp: advance_one_def Let_def active_ok_def slice_of_def Suc_diff_le split: prod.splits sum.splits if_splits)

lemma advance_loop_ok:
  assumes "sched_ok w (still @ rs) st"
  shows "sched_ok w (sc_active (advance_loop ops env rs (map slice_of rs) ls still st)) (advance_loop ops env rs (map slice_of rs) ls still st)"
  using assms
proof (induction rs arbitrary: ls still st)
  case Nil
  then show ?case by (simp add: sched_ok_log)
next
  case (Cons r rs)
  obtain r' f calls where one: "advance_one ops env (sc_backend st) (sc_n_ctx st) r (slice_of r) (hd ls) (sc_log st) = (r', f, calls)"
    by (rule prod_cases3)
  have r: "active_ok (sc_n_ctx st) r" using Cons.prems by (simp add: sched_ok_def)
  note same = advance_one_same [OF one]
  show ?case
  proof (cases f)
    case Keep
    have "sched_ok w ((still @ [r']) @ rs) (st\<lparr>sc_log := calls\<rparr>)"
      using sched_ok_replace [OF Cons.prems, of r'] same advance_one_Keep [OF one [unfolded Keep] r] by simp
    from Cons.IH [OF this] show ?thesis using one Keep by simp
  next
    case (Retire e)
    have "sched_ok w (still @ rs) (finish ops r' e (st\<lparr>sc_log := calls\<rparr>))"
      using Cons.prems same by (intro sched_ok_finish [of w still r rs]) (simp_all add: sched_ok_log)
    from Cons.IH [OF this] show ?thesis using one Retire by simp
  qed
qed

lemma advance_loop_frame [simp]:
  "sc_pending (advance_loop ops env rs ss ls still st) = sc_pending st"
  "sc_n_ctx (advance_loop ops env rs ss ls still st) = sc_n_ctx st"
  "sc_submitted (advance_loop ops env rs ss ls still st) = sc_submitted st"
  "sc_n_parallel (advance_loop ops env rs ss ls still st) = sc_n_parallel st"
  by (induction rs arbitrary: ss ls still st; simp split: prod.splits fate.splits)+

lemma fail_all_ok:
  "sched_ok w (xs @ rs) st \<Longrightarrow> sched_ok w xs (foldl (\<lambda>st r. finish ops r e st) st rs)"
proof (induction rs arbitrary: st)
  case (Cons r rs)
  from Cons.IH [OF sched_ok_finish [OF Cons.prems refl refl]] show ?case by simp
qed simp

lemma free_slot:
  assumes "sched_ok w (sc_active st) st" "length (sc_active st) < nat (sc_n_parallel st)"
  obtains s where "first_free (sc_slot_used st) 0 = Some s" "s < length (sc_slot_used st)" "\<not> sc_slot_used st ! s"
proof (cases "first_free (sc_slot_used st) 0")
  case None
  have "length (sc_active st) = length (sc_slot_used st)"
    using slots_ok_length first_free_spec(1) [OF None] assms(1) unfolding sched_ok_def by metis
  with assms show ?thesis by (simp add: sched_ok_def)
next
  case (Some s)
  with first_free_spec(2) [OF Some] that show ?thesis by simp
qed

lemma admit_one_frame [simp]:
  "sc_n_ctx (admit_one ops d r st) = sc_n_ctx st" "sc_n_parallel (admit_one ops d r st) = sc_n_parallel st"
  "sc_log (admit_one ops d r st) = sc_log st" "sc_submitted (admit_one ops d r st) = sc_submitted st"
  "sc_done (admit_one ops d r st) = sc_done st" "sc_pending (admit_one ops d r st) = sc_pending st"
  "sc_next_id (admit_one ops d r st) = sc_next_id st"
  by (auto simp: admit_one_def Let_def split: prod.splits option.splits)

definition admitted :: "nat \<Rightarrow> bool \<Rightarrow> 'g request \<Rightarrow> 'g request" where
  "admitted s cloned r = (let r1 = r\<lparr>rq_seq_id := int s\<rparr> in
     if cloned then r1\<lparr>rq_n_past := rq_prompt_len r1 - 1, rq_needs_prefill := False\<rparr> else r1)"

lemma admitted_simps [simp]:
  "rq_id (admitted s c r) = rq_id r" "rq_seq_id (admitted s c r) = int s" "rq_history (admitted s c r) = rq_history r"
  "rq_gen (admitted s c r) = rq_gen r" "rq_on_token (admitted s c r) = rq_on_token r" "rq_sampler (admitted s c r) = rq_sampler r"
  "rq_prompt_len (admitted s c r) = rq_prompt_len r" "pending_ok n r \<Longrightarrow> active_ok n (admitted s c r)"
  by (simp_all add: admitted_def Let_def pending_ok_def active_ok_def)

lemma admit_one_eq:
  assumes "first_free (sc_slot_used st) 0 = Some s"
  shows "sc_active (admit_one ops d r st) = sc_active st @ [admitted s (d \<noteq> None) r]"
    "sc_slot_used (admit_one ops d r st) = (sc_slot_used st)[s := True]"
    "sc_backend (admit_one ops d r st) = (case d of None \<Rightarrow> sc_backend st
       | Some d \<Rightarrow> bo_copy_seq ops (rq_seq_id d) (int s) (rq_prompt_len r - 1) (sc_backend st))"
  using assms by (simp_all add: admit_one_def admitted_def Let_def split: option.splits)

lemma admit_one_ok:
  assumes ok: "sched_ok (r # rs) (sc_active st) st" and room: "length (sc_active st) < nat (sc_n_parallel st)"
  shows "sched_ok rs (sc_active (admit_one ops d r st)) (admit_one ops d r st)"
proof -
  obtain s where s: "first_free (sc_slot_used st) 0 = Some s" "s < length (sc_slot_used st)" "\<not> sc_slot_used st ! s"
    using free_slot [OF ok room] .
  have "slots_ok (sc_active st @ [admitted s (d \<noteq> None) r]) ((sc_slot_used st)[s := True])"
    using ok s by (intro slots_ok_add) (simp_all add: sched_ok_def)
  moreover have "ids_ok rs (sc_active st @ [admitted s (d \<noteq> None) r]) (admit_one ops d r st)"
    using ok by (auto simp: sched_ok_def ids_ok_def)
  ultimately show ?thesis using ok admit_one_eq [OF s(1), of ops d r] by (simp add: sched_ok_def)
qed

definition donor_for :: "'g request \<Rightarrow> 'g request list \<Rightarrow> 'g request option" where
  "donor_for r acts = (if 1 < length (rq_history r) then find_donor (rq_history r) acts else None)"

lemma admit_loop_cases:
  obtains (stop) "admit_loop ops (r # rs) st = st\<lparr>sc_pending := r # rs\<rparr>"
      "length (sc_active st) < nat (sc_n_parallel st) \<longrightarrow>
         sc_n_ctx st < unat (cells_used (sc_active st) + of_nat (length (rq_history r))) \<or> donor_for r (sc_active st) \<noteq> None"
  | (admit) "length (sc_active st) < nat (sc_n_parallel st)"
      "\<And>d. donor_for r (sc_active st) = Some d \<Longrightarrow> rq_prompt_len d \<le> rq_n_past d"
      "admit_loop ops (r # rs) st = admit_loop ops rs (admit_one ops (donor_for r (sc_active st)) r st)"
proof -
  let ?full = "\<not> length (sc_active st) < nat (sc_n_parallel st)"
    and ?over = "sc_n_ctx st < unat (cells_used (sc_active st) + of_nat (length (rq_history r)))"
  have eq: "admit_loop ops (r # rs) st = (if ?full \<or> ?over then st\<lparr>sc_pending := r # rs\<rparr>
      else case donor_for r (sc_active st) of
        None \<Rightarrow> admit_loop ops rs (admit_one ops None r st)
      | Some d \<Rightarrow> if rq_n_past d < rq_prompt_len d then st\<lparr>sc_pending := r # rs\<rparr> else admit_loop ops rs (admit_one ops (Some d) r st))"
    by (simp add: donor_for_def Let_def)
  consider "?full \<or> ?over" | "\<not> ?full" "\<not> ?over" "donor_for r (sc_active st) = None"
    | d where "\<not> ?full" "\<not> ?over" "donor_for r (sc_active st) = Some d" by (cases "donor_for r (sc_active st)") blast+
  then show thesis
  proof cases
    case 1
    then show thesis by (intro stop) (auto simp only: eq if_True simp_thms)
  next
    case 2
    then show thesis using eq by (intro admit) simp_all
  next
    case 3
    show thesis
    proof (cases "rq_n_past d < rq_prompt_len d")
      case True
      then show thesis using 3 eq by (intro stop) simp_all
    next
      case False
      then show thesis using 3 eq by (intro admit) simp_all
    qed
  qed
qed

lemma admit_loop_ok:
  "sched_ok rs (sc_active st) st \<Longrightarrow> sched_ok (sc_pending (admit_loop ops rs st)) (sc_active (admit_loop ops rs st)) (admit_loop ops rs st)"
proof (induction rs arbitrary: st)
  case (Cons r rs)
  show ?case
  proof (cases rule: admit_loop_cases [of ops r rs st])
    case stop
    then show ?thesis using Cons.prems by (simp add: sched_ok_log)
  next
    case admit
    then show ?thesis using Cons.IH [OF admit_one_ok [OF Cons.prems admit(1)]] by simp
  qed
qed (simp add: sched_ok_log)

lemma sched_step_cases:
  assumes "sched_step ops env st = (again, st')"
  obtains (drained) "sc_active (admit ops st) = []" "st' = admit ops st" "again \<longleftrightarrow> sc_pending (admit ops st) \<noteq> []"
  | (failed) err b where "sc_active (admit ops st) \<noteq> []"
      "bo_decode_seqs ops (map slice_of (sc_active (admit ops st))) (sc_backend (admit ops st)) = (Inl err, b)"
      "st' = (foldl (\<lambda>st r. finish ops r (Some err) st) ((admit ops st)\<lparr>sc_backend := b\<rparr>) (sc_active (admit ops st)))\<lparr>sc_active := []\<rparr>"
      "again \<longleftrightarrow> sc_pending (admit ops st) \<noteq> []"
  | (advanced) logits b where "sc_active (admit ops st) \<noteq> []"
      "bo_decode_seqs ops (map slice_of (sc_active (admit ops st))) (sc_backend (admit ops st)) = (Inr logits, b)"
      "st' = advance_loop ops env (sc_active (admit ops st)) (map slice_of (sc_active (admit ops st))) logits [] ((admit ops st)\<lparr>sc_backend := b\<rparr>)"
      "again \<longleftrightarrow> sc_active st' \<noteq> [] \<or> sc_pending st' \<noteq> []"
proof -
  obtain res b where dec: "bo_decode_seqs ops (map slice_of (sc_active (admit ops st))) (sc_backend (admit ops st)) = (res, b)"
    by fastforce
  consider "sc_active (admit ops st) = []" | err where "sc_active (admit ops st) \<noteq> []" "res = Inl err"
    | logits where "sc_active (admit ops st) \<noteq> []" "res = Inr logits" by (cases res) auto
  then show thesis
  proof cases
    case 1
    then show thesis using assms by (intro drained) (auto simp: sched_step_def Let_def)
  next
    case 2
    then show thesis using assms dec by (intro failed) (auto simp: sched_step_def Let_def)
  next
    case 3
    then show thesis using assms dec by (intro advanced) (auto simp: sched_step_def Let_def)
  qed
qed

lemma fail_all_frame [simp]:
  "sc_pending (foldl (\<lambda>st r. finish ops r e st) st rs) = sc_pending st"
  "sc_n_ctx (foldl (\<lambda>st r. finish ops r e st) st rs) = sc_n_ctx st"
  "sc_submitted (foldl (\<lambda>st r. finish ops r e st) st rs) = sc_submitted st"
  "sc_n_parallel (foldl (\<lambda>st r. finish ops r e st) st rs) = sc_n_parallel st"
  "sc_log (foldl (\<lambda>st r. finish ops r e st) st rs) = sc_log st"
  "sc_next_id (foldl (\<lambda>st r. finish ops r e st) st rs) = sc_next_id st"
  by (induction rs arbitrary: st; simp)+

lemma admit_ok:
  "sched_ok (sc_pending st) (sc_active st) st \<Longrightarrow> sched_ok (sc_pending (admit ops st)) (sc_active (admit ops st)) (admit ops st)"
  unfolding admit_def by (rule admit_loop_ok)

lemma sched_step_ok:
  assumes ok: "sched_ok (sc_pending st) (sc_active st) st" and step: "sched_step ops env st = (again, st')"
  shows "sched_ok (sc_pending st') (sc_active st') st'"
  using step
proof (cases rule: sched_step_cases)
  case drained
  show ?thesis unfolding drained(2) by (rule admit_ok [OF ok])
next
  case (failed err b)
  have "sched_ok (sc_pending (admit ops st)) ([] @ sc_active (admit ops st)) ((admit ops st)\<lparr>sc_backend := b\<rparr>)"
    using admit_ok [OF ok] by (simp add: sched_ok_log)
  from fail_all_ok [OF this] failed show ?thesis by (simp add: sched_ok_log)
next
  case (advanced logits b)
  have "sched_ok (sc_pending (admit ops st)) ([] @ sc_active (admit ops st)) ((admit ops st)\<lparr>sc_backend := b\<rparr>)"
    using admit_ok [OF ok] by (simp add: sched_ok_log)
  from advance_loop_ok [OF this] advanced show ?thesis by simp
qed

lemma sched_reachable_ok:
  "sched_reachable ops env b n st \<Longrightarrow> sched_ok (sc_pending st) (sc_active st) st"
proof (induction rule: sched_reachable.induct)
  case (stepped st)
  then show ?case using sched_step_ok [OF stepped.IH, of ops env] by (cases "sched_step ops env st") auto
qed (auto intro: sched_ok_open sched_ok_submit)

section \<open>Progress\<close>

definition room :: "nat \<Rightarrow> 'g request list \<Rightarrow> nat" where
  "room n_ctx rs = sum_list (map (\<lambda>r. n_ctx + 1 - length (rq_history r)) rs)"

lemma room_simps [simp]:
  "room n [] = 0" "room n (r # rs) = (n + 1 - length (rq_history r)) + room n rs" "room n (xs @ ys) = room n xs + room n ys"
  by (simp_all add: room_def)

lemma room_admitted: "room n [admitted s c r] = room n [r]"
  by simp

lemma admit_loop_progress:
  assumes "sched_ok rs (sc_active st) st"
  shows "room n (sc_pending (admit_loop ops rs st)) + room n (sc_active (admit_loop ops rs st)) = room n rs + room n (sc_active st)
    \<and> length (sc_active st) \<le> length (sc_active (admit_loop ops rs st))"
  using assms
proof (induction rs arbitrary: st)
  case (Cons r rs)
  show ?case
  proof (cases rule: admit_loop_cases [of ops r rs st])
    case admit
    let ?st = "admit_one ops (donor_for r (sc_active st)) r st"
    from free_slot [OF Cons.prems admit(1)] obtain s where "first_free (sc_slot_used st) 0 = Some s" by metis
    then have "sc_active ?st = sc_active st @ [admitted s (donor_for r (sc_active st) \<noteq> None) r]" by (rule admit_one_eq)
    then show ?thesis
      using Cons.IH [OF admit_one_ok [OF Cons.prems admit(1)], of ops "donor_for r (sc_active st)"] admit(3) by simp
  qed simp
qed simp

lemma admit_loop_frame [simp]:
  "sc_n_ctx (admit_loop ops rs st) = sc_n_ctx st" "sc_submitted (admit_loop ops rs st) = sc_submitted st"
  "sc_n_parallel (admit_loop ops rs st) = sc_n_parallel st" "sc_log (admit_loop ops rs st) = sc_log st"
  "sc_done (admit_loop ops rs st) = sc_done st" "sc_next_id (admit_loop ops rs st) = sc_next_id st"
  by (induction rs arbitrary: st; simp add: Let_def split: option.splits)+

lemma admit_first:
  assumes "sched_ok (r # rs) [] st" "sc_active st = []"
  shows "sc_active (admit_loop ops (r # rs) st) \<noteq> []"
proof (cases rule: admit_loop_cases [of ops r rs st])
  case stop
  have "unat (of_nat (length (rq_history r)) :: u32) \<le> length (rq_history r)" by (simp add: unat_of_nat)
  moreover have "length (rq_history r) \<le> sc_n_ctx st" "0 < nat (sc_n_parallel st)"
    using assms(1) by (auto simp: sched_ok_def pending_ok_def)
  ultimately show ?thesis using stop(2) assms(2) by (simp add: cells_used_def donor_for_def find_donor_def split: if_splits)
next
  case admit
  have ok: "sched_ok (r # rs) (sc_active st) st" using assms by simp
  from free_slot [OF ok admit(1)] obtain s where "first_free (sc_slot_used st) 0 = Some s" by metis
  then have "0 < length (sc_active (admit_one ops (donor_for r (sc_active st)) r st))" by (simp add: admit_one_eq)
  with admit_loop_progress [OF admit_one_ok [OF ok admit(1)]] admit(3) show ?thesis
    by (metis length_greater_0_conv less_le_trans)
qed

lemma advance_loop_progress:
  assumes "list_all (active_ok (sc_n_ctx st)) rs"
  shows "room (sc_n_ctx st) (sc_active (advance_loop ops env rs (map slice_of rs) ls still st)) + length rs
    \<le> room (sc_n_ctx st) still + room (sc_n_ctx st) rs"
  using assms
proof (induction rs arbitrary: ls still st)
  case (Cons r rs)
  obtain r' f calls where one: "advance_one ops env (sc_backend st) (sc_n_ctx st) r (slice_of r) (hd ls) (sc_log st) = (r', f, calls)"
    by (rule prod_cases3)
  have r: "active_ok (sc_n_ctx st) r" "length (rq_history r) \<le> sc_n_ctx st" using Cons.prems by (auto simp: active_ok_def)
  show ?case
  proof (cases f)
    case Keep
    let ?st' = "advance_loop ops env rs (map slice_of rs) (tl ls) (still @ [r']) (st\<lparr>sc_log := calls\<rparr>)"
    have "length (rq_history r') = Suc (length (rq_history r))" "length (rq_history r') < sc_n_ctx st"
      using advance_one_Keep [OF one [unfolded Keep] r(1)] by auto
    then have "Suc (room (sc_n_ctx st) [r']) = room (sc_n_ctx st) [r]" by simp
    moreover have "room (sc_n_ctx st) (sc_active ?st') + length rs \<le> room (sc_n_ctx st) (still @ [r']) + room (sc_n_ctx st) rs"
      using Cons.IH [of "st\<lparr>sc_log := calls\<rparr>" "tl ls" "still @ [r']"] Cons.prems by simp
    ultimately have "room (sc_n_ctx st) (sc_active ?st') + length (r # rs) \<le> room (sc_n_ctx st) still + room (sc_n_ctx st) ([r] @ rs)"
      unfolding room_simps(3) by simp
    then show ?thesis using one Keep by simp
  next
    case (Retire e)
    from Cons.IH [of "finish ops r' e (st\<lparr>sc_log := calls\<rparr>)" "tl ls" still] Cons.prems r one Retire
    show ?thesis by simp
  qed
qed simp

lemma sched_step_progress:
  assumes ok: "sched_ok (sc_pending st) (sc_active st) st" and step: "sched_step ops env st = (again, st')"
  shows "sc_submitted st' = sc_submitted st \<and> sc_n_ctx st' = sc_n_ctx st
    \<and> (again \<longrightarrow> room (sc_n_ctx st) (sc_pending st' @ sc_active st') < room (sc_n_ctx st) (sc_pending st @ sc_active st))
    \<and> (\<not> again \<longrightarrow> idle st')"
proof -
  let ?a = "admit ops st" and ?n = "sc_n_ctx st"
  have work: "room ?n (sc_pending ?a) + room ?n (sc_active ?a) = room ?n (sc_pending st) + room ?n (sc_active st)"
    using admit_loop_progress [OF ok] by (simp add: admit_def)
  have acts: "list_all (active_ok ?n) (sc_active ?a)" using admit_ok [OF ok, of ops] by (simp add: sched_ok_def admit_def)
  have none: "sc_pending ?a = []" if "sc_active ?a = []"
  proof (cases "sc_pending st")
    case (Cons r rs)
    have "sc_active st = []" using admit_loop_progress [OF ok, of 0 ops] that by (simp add: admit_def)
    with admit_first [of r rs st ops] ok that Cons show ?thesis by (simp add: admit_def)
  qed (simp add: admit_def)
  have some: "0 < room ?n (sc_active ?a)" if "sc_active ?a \<noteq> []"
    using acts that by (cases "sc_active ?a") (auto simp: active_ok_def)
  show ?thesis
    using step
  proof (cases rule: sched_step_cases)
    case drained
    then show ?thesis using none by (simp add: admit_def idle_def)
  next
    case (failed err b)
    then show ?thesis using some work by (simp add: admit_def idle_def)
  next
    case (advanced logits b)
    have "room ?n (sc_active st') + length (sc_active ?a) \<le> room ?n (sc_active ?a)"
      using advance_loop_progress [of "?a\<lparr>sc_backend := b\<rparr>" "sc_active ?a" ops env logits "[]"] acts advanced(3)
      by (simp add: admit_def)
    moreover have "0 < length (sc_active ?a)" using advanced(1) by (rule length_greater_0_conv [THEN iffD2])
    ultimately have "room ?n (sc_pending ?a) + room ?n (sc_active st') < room ?n (sc_pending st) + room ?n (sc_active st)" using work by linarith
    moreover have "sc_pending st' = sc_pending ?a" using advanced(3) by simp
    ultimately have "room ?n (sc_pending st' @ sc_active st') < room ?n (sc_pending st @ sc_active st)" by simp
    moreover have "sc_submitted st' = sc_submitted st" "sc_n_ctx st' = ?n" using advanced(3) by (simp_all add: admit_def)
    ultimately show ?thesis using advanced(4) by (simp add: idle_def)
  qed
qed

lemma run_until_idle_total:
  assumes "sched_ok (sc_pending st) (sc_active st) st"
  shows "\<exists>st'. run_until_idle ops env st = Some st' \<and> idle st' \<and> sc_submitted st' = sc_submitted st
    \<and> sched_ok (sc_pending st') (sc_active st') st'"
  using assms
proof (induction "room (sc_n_ctx st) (sc_pending st @ sc_active st)" arbitrary: st rule: less_induct)
  case less
  obtain again st1 where step: "sched_step ops env st = (again, st1)" by fastforce
  note prog = sched_step_progress [OF less.prems step] and ok = sched_step_ok [OF less.prems step]
  show ?case
  proof (cases again)
    case True
    then obtain st' where "run_until_idle ops env st1 = Some st'" "idle st'" "sc_submitted st' = sc_submitted st1"
      "sched_ok (sc_pending st') (sc_active st') st'"
      using less.hyps [OF _ ok] prog by auto
    then show ?thesis using True prog step by (subst run_until_idle.simps) simp
  next
    case False
    then show ?thesis using prog ok step by (subst run_until_idle.simps) simp
  qed
qed

text \<open>
  C15: the scheduler drains.  From every reachable state, whatever the model generates and
  whatever the callbacks answer, the loop of \<open>run_until_idle\<close> terminates, and then every
  request that was ever submitted is finished: none is starved by the slot and context budgets.
\<close>

theorem run_until_idle_drains:
  assumes "sched_reachable ops env b n_parallel st"
  shows "\<exists>st'. run_until_idle ops env st = Some st' \<and> idle st' \<and> (\<forall>r\<in>set (sc_submitted st). finished st' (rq_id r))"
proof -
  obtain st' where st': "run_until_idle ops env st = Some st'" "idle st'" "sc_submitted st' = sc_submitted st"
    "ids_ok (sc_pending st') (sc_active st') st'"
    using run_until_idle_total [OF sched_reachable_ok [OF assms]] by (auto simp: sched_ok_def)
  then have "rq_id ` set (sc_submitted st) = dom (sc_done st')" by (simp add: ids_ok_def idle_def)
  then show ?thesis using st' by (auto simp: finished_def)
qed

lemma sched_step_n_parallel:
  assumes "sched_step ops env st = (again, st')"
  shows "sc_n_parallel st' = sc_n_parallel st"
  using assms by (cases rule: sched_step_cases) (simp_all add: admit_def)

lemma reachable_n_parallel: "sched_reachable ops env b n st \<Longrightarrow> sc_n_parallel st = n"
proof (induction rule: sched_reachable.induct)
  case (stepped st)
  then show ?case using sched_step_n_parallel [of ops env st] by (cases "sched_step ops env st") auto
qed (auto simp: scheduler_open_def submit_def Let_def split: if_splits option.splits)

lemma sched_step_n_ctx:
  assumes "sched_step ops env st = (again, st')"
  shows "sc_n_ctx st' = sc_n_ctx st"
  using assms by (cases rule: sched_step_cases) (simp_all add: admit_def)

lemma reachable_n_ctx: "sched_reachable ops env b n st \<Longrightarrow> sc_n_ctx st = bo_context_length ops b"
proof (induction rule: sched_reachable.induct)
  case (stepped st)
  then show ?case using sched_step_n_ctx [of ops env st] by (cases "sched_step ops env st") auto
qed (auto simp: scheduler_open_def submit_def Let_def split: if_splits option.splits)

lemma run_until_idle_reachable:
  assumes "run_until_idle ops env st = Some st'"
  shows "sched_reachable ops env b n st \<longrightarrow> sched_reachable ops env b n st'"
proof (rule run_until_idle.raw_induct [where P = "\<lambda>ops env st st'. sched_reachable ops env b n st \<longrightarrow> sched_reachable ops env b n st'", OF _ assms], rule impI)
  fix run ops env st st'
  assume IH: "\<And>ops env st st'. run ops env st = Some st' \<Longrightarrow> sched_reachable ops env b n st \<longrightarrow> sched_reachable ops env b n st'"
    and loop: "(case sched_step ops env st of (again, st') \<Rightarrow> if again then run ops env st' else Some st') = Some st'"
    and reach: "sched_reachable ops env b n st"
  obtain again st1 where step: "sched_step ops env st = (again, st1)" by fastforce
  have "sched_reachable ops env b n st1" using stepped [OF reach] step by simp
  with IH loop step show "sched_reachable ops env b n st'" by (auto split: if_splits)
qed

lemma run_until_idle_finished:
  assumes "run_until_idle ops env st = Some st'" "sched_reachable ops env b n st" "r \<in> set (sc_submitted st)"
  shows "finished st' (rq_id r) \<and> r \<in> set (sc_submitted st')"
proof -
  obtain st'' where st'': "run_until_idle ops env st = Some st''" "idle st''" "sc_submitted st'' = sc_submitted st"
    "ids_ok (sc_pending st'') (sc_active st'') st''"
    using run_until_idle_total [OF sched_reachable_ok [OF assms(2)]] by (auto simp: sched_ok_def)
  then have "rq_id ` set (sc_submitted st) = dom (sc_done st')" using assms(1) by (simp add: ids_ok_def idle_def)
  with st'' assms show ?thesis by (auto simp: finished_def)
qed

text \<open>
  C24: the bookkeeping of the scheduler.  In every reachable state at most \<open>n_parallel\<close>
  requests are active; they hold pairwise different sequence slots, a slot is marked used exactly
  when an active request holds it; every submitted request is in exactly one of the three
  places (waiting, active, finished); and no active history is longer than the context.
\<close>

theorem scheduler_invariant:
  assumes "sched_reachable ops env b n_parallel st"
  shows "active_count st \<le> n_parallel
    \<and> distinct (map rq_seq_id (sc_active st))
    \<and> (\<forall>i. i \<in> rq_seq_id ` set (sc_active st) \<longleftrightarrow> 0 \<le> i \<and> nat i < length (sc_slot_used st) \<and> sc_slot_used st ! nat i)
    \<and> distinct (map rq_id (sc_pending st @ sc_active st))
    \<and> rq_id ` set (sc_pending st @ sc_active st) \<inter> {i. finished st i} = {}
    \<and> rq_id ` set (sc_submitted st) = rq_id ` set (sc_pending st @ sc_active st) \<union> {i. finished st i}
    \<and> (\<forall>r\<in>set (sc_active st). length (rq_history r) \<le> sc_n_ctx st)"
proof -
  note ok = sched_reachable_ok [OF assms]
  have "length (sc_active st) \<le> length (sc_slot_used st)"
    using slots_ok_length [of "sc_active st" "sc_slot_used st"] length_filter_le [of id "sc_slot_used st"] ok
    unfolding sched_ok_def by metis
  moreover have "length (sc_slot_used st) = nat (sc_n_parallel st)" "1 \<le> sc_n_parallel st" using ok by (auto simp: sched_ok_def)
  ultimately have "active_count st \<le> n_parallel" using reachable_n_parallel [OF assms] by (simp add: active_count_def)
  moreover have "dom (sc_done st) = {i. finished st i}" by (auto simp: finished_def)
  ultimately show ?thesis using ok by (auto simp: sched_ok_def ids_ok_def slots_ok_def list_all_iff active_ok_def)
qed

section \<open>Every request gets the tokens it would get alone\<close>

definition delivered :: "u64 \<Rightarrow> (u64 \<times> token) list \<Rightarrow> token list" where
  "delivered i calls = map snd (filter (\<lambda>c. fst c = i) calls)"

lemma delivered_simps [simp]:
  "delivered i [] = []" "delivered i (xs @ ys) = delivered i xs @ delivered i ys"
  "delivered i [(j, t)] = (if i = j then [t] else [])"
  by (auto simp: delivered_def)

lemma delivered_other: "fst ` set new \<subseteq> {j} \<Longrightarrow> i \<noteq> j \<Longrightarrow> delivered i (calls @ new) = delivered i calls"
  by (auto simp: delivered_def filter_empty_conv)

text \<open>What was delivered to a request is a reference run of its own, and why it may end without an error.\<close>

definition follows :: "'g sampler_env \<Rightarrow> (token list \<Rightarrow> logits) \<Rightarrow> (token \<Rightarrow> bool) \<Rightarrow> nat \<Rightarrow> 'g request \<Rightarrow> token list \<Rightarrow> bool" where
  "follows env model eog n_ctx r0 ts \<longleftrightarrow> ref_prefix env model eog (rq_gen r0) n_ctx (rq_history r0) ts"

definition stop_cause :: "'g sampler_env \<Rightarrow> (token list \<Rightarrow> logits) \<Rightarrow> (token \<Rightarrow> bool) \<Rightarrow> nat \<Rightarrow> 'g request \<Rightarrow> token list \<Rightarrow> bool" where
  "stop_cause env model eog n_ctx r0 ts \<longleftrightarrow> ref_stop env model eog (rq_gen r0) n_ctx (rq_history r0) ts
     \<or> (\<exists>calls. ts \<noteq> [] \<and> rq_on_token r0 calls (last ts) = Inr False)"

definition tracked :: "'g sampler_env \<Rightarrow> (token list \<Rightarrow> logits) \<Rightarrow> (token \<Rightarrow> bool) \<Rightarrow> nat \<Rightarrow> (u64 \<times> token) list \<Rightarrow> 'g request \<Rightarrow> 'g request \<Rightarrow> bool" where
  "tracked env model eog n_ctx calls r0 r \<longleftrightarrow> rq_id r = rq_id r0 \<and> rq_gen r = rq_gen r0 \<and> rq_on_token r = rq_on_token r0
     \<and> rq_prompt_len r = length (rq_history r0) \<and> rq_history r = rq_history r0 @ delivered (rq_id r0) calls
     \<and> ref_after env model (rq_gen r0) (rq_history r0) (length (delivered (rq_id r0) calls)) = Some (rq_history r, rq_sampler r)
     \<and> list_all (\<lambda>t. \<not> eog t) (delivered (rq_id r0) calls)
     \<and> (delivered (rq_id r0) calls \<noteq> [] \<longrightarrow>
          int (length (delivered (rq_id r0) calls)) < gc_max_tokens (rq_gen r0)
          \<and> length (rq_history r0) + length (delivered (rq_id r0) calls) < n_ctx)"

lemma tracked_follows: "tracked env model eog n_ctx calls r0 r \<Longrightarrow> follows env model eog n_ctx r0 (delivered (rq_id r0) calls)"
  by (auto simp: tracked_def follows_def ref_prefix_def)

lemma advance_one_calls:
  "advance_one ops env b n r s l calls = (r', f, calls') \<Longrightarrow> \<exists>new. calls' = calls @ new \<and> fst ` set new \<subseteq> {rq_id r}"
  by (auto simp: advance_one_def Let_def split: prod.splits sum.splits if_splits)

lemma advance_one_tracked:
  assumes tr: "tracked env model eog n calls r0 r" and act: "active_ok n r"
    and one: "advance_one ops env b n r s (model (rq_history r)) calls = (r', f, calls')"
    and eog: "\<And>t. bo_is_eog ops t b = eog t"
  shows "f = Keep \<Longrightarrow> tracked env model eog n calls' r0 r'" "follows env model eog n r0 (delivered (rq_id r0) calls')"
    "f = Retire None \<Longrightarrow> stop_cause env model eog n r0 (delivered (rq_id r0) calls')"
proof -
  let ?ts = "delivered (rq_id r0) calls"
  have same: "rq_id r = rq_id r0" "rq_gen r = rq_gen r0" "rq_on_token r = rq_on_token r0"
    "rq_prompt_len r = length (rq_history r0)" "rq_history r = rq_history r0 @ ?ts"
    and run: "ref_after env model (rq_gen r0) (rq_history r0) (length ?ts) = Some (rq_history r, rq_sampler r)"
    and lim: "list_all (\<lambda>t. \<not> eog t) ?ts"
      "?ts \<noteq> [] \<Longrightarrow> int (length ?ts) < gc_max_tokens (rq_gen r0) \<and> length (rq_history r0) + length ?ts < n"
    using tr by (simp_all add: tracked_def)
  have emitted: "rq_emitted r = int (length ?ts)" using act same(4,5) by (simp add: active_ok_def)
  obtain res g where smp: "sampler_sample env (rq_gen r0) (model (rq_history r)) (rq_history r) (rq_sampler r) = (res, g)" by fastforce
  have next_tok: "ref_after env model (rq_gen r0) (rq_history r0) (Suc (length ?ts)) = Some (rq_history r @ [t], g)" if "res = Inr t" for t
    using ref_after_step [OF run] smp that by simp
  have more: "ref_prefix env model eog (rq_gen r0) n (rq_history r0) (?ts @ [t])" if "res = Inr t" "\<not> eog t" for t
    using next_tok [OF that(1)] that(2) same(5) lim by (auto simp: ref_prefix_def)
  show "tracked env model eog n calls' r0 r'" if "f = Keep"
    using one that smp same next_tok lim emitted
    by (auto simp: advance_one_def Let_def tracked_def eog split: sum.splits if_splits)
  show "follows env model eog n r0 (delivered (rq_id r0) calls')"
    using one smp same more tracked_follows [OF tr]
    by (auto simp: advance_one_def Let_def follows_def eog split: sum.splits if_splits)
  show "stop_cause env model eog n r0 (delivered (rq_id r0) calls')" if "f = Retire None"
    using one that smp same run emitted
    by (auto simp: advance_one_def Let_def stop_cause_def ref_stop_def eog split: sum.splits if_splits)
qed

definition trace_ok :: "'g sampler_env \<Rightarrow> (token list \<Rightarrow> logits) \<Rightarrow> (token \<Rightarrow> bool) \<Rightarrow> 'g request list \<Rightarrow> ('b, 'g) scheduler \<Rightarrow> bool" where
  "trace_ok env model eog live st \<longleftrightarrow>
     (\<forall>r\<in>set live. \<exists>r0\<in>set (sc_submitted st). tracked env model eog (sc_n_ctx st) (sc_log st) r0 r)
   \<and> (\<forall>r0\<in>set (sc_submitted st). follows env model eog (sc_n_ctx st) r0 (delivered (rq_id r0) (sc_log st)))
   \<and> (\<forall>r0\<in>set (sc_submitted st). sc_done st (rq_id r0) = Some None \<longrightarrow>
        stop_cause env model eog (sc_n_ctx st) r0 (delivered (rq_id r0) (sc_log st)))
   \<and> (\<forall>c\<in>set (sc_log st). fst c \<in> rq_id ` set (sc_submitted st))"

lemma trace_ok_frame:
  assumes "trace_ok env model eog live st" "sc_submitted st' = sc_submitted st" "sc_log st' = sc_log st"
    and "sc_done st' = sc_done st" "sc_n_ctx st' = sc_n_ctx st" "set live' \<subseteq> set live"
  shows "trace_ok env model eog live' st'"
  using assms unfolding trace_ok_def by auto

lemma tracked_cong:
  "delivered (rq_id r0) calls' = delivered (rq_id r0) calls \<Longrightarrow> tracked env model eog n calls' r0 r = tracked env model eog n calls r0 r"
  by (simp add: tracked_def)

lemma trace_ok_advance:
  fixes st :: "('b, 'g) scheduler"
  assumes ok: "trace_ok env model eog live st" and r: "r \<in> set live" and d: "distinct (map rq_id live)"
    and subs: "distinct (map rq_id (sc_submitted st))" and act: "active_ok (sc_n_ctx st) r"
    and one: "advance_one ops env b (sc_n_ctx st) r s (model (rq_history r)) (sc_log st) = (r', f, calls)"
    and eog: "\<And>t. bo_is_eog ops t b = eog t"
    and st': "sc_submitted st' = sc_submitted st" "sc_log st' = calls" "sc_n_ctx st' = sc_n_ctx st"
    and keep: "f = Keep \<Longrightarrow> sc_done st' = sc_done st \<and> set live' = insert r' (set live - {r})"
    and retire: "\<And>e. f = Retire e \<Longrightarrow> sc_done st' = (sc_done st)(rq_id r \<mapsto> e) \<and> set live' = set live - {r}"
    and open_r: "sc_done st (rq_id r) = None"
  shows "trace_ok env model eog live' (st' :: ('b, 'g) scheduler)"
proof -
  obtain r0 where r0: "r0 \<in> set (sc_submitted st)" "tracked env model eog (sc_n_ctx st) (sc_log st) r0 r"
    using ok r by (auto simp: trace_ok_def)
  then have id0: "rq_id r = rq_id r0" by (simp add: tracked_def)
  obtain new where new: "calls = sc_log st @ new" "fst ` set new \<subseteq> {rq_id r}"
    using advance_one_calls [OF one] by blast
  note one_r0 = advance_one_tracked [OF r0(2) act one eog]
  have other: "delivered (rq_id q) calls = delivered (rq_id q) (sc_log st)" if "rq_id q \<noteq> rq_id r" for q :: "'g request"
    using delivered_other [OF new(2) that] new(1) by simp
  have uniq: "q = r0" if "q \<in> set (sc_submitted st)" "rq_id q = rq_id r" for q
    using that subs r0(1) id0 by (auto simp: distinct_map dest: inj_onD)
  have rest: "\<exists>q0\<in>set (sc_submitted st). tracked env model eog (sc_n_ctx st) calls q0 q" if q: "q \<in> set live - {r}" for q
  proof -
    obtain q0 where q0: "q0 \<in> set (sc_submitted st)" "tracked env model eog (sc_n_ctx st) (sc_log st) q0 q" using ok q by (auto simp: trace_ok_def)
    have "rq_id q \<noteq> rq_id r" using q r d by (auto simp: distinct_map dest: inj_onD)
    then have "rq_id q0 \<noteq> rq_id r" using q0(2) by (simp add: tracked_def)
    from tracked_cong [OF other [OF this], of env model eog "sc_n_ctx st" q] q0 show ?thesis by auto
  qed
  have live: "\<exists>q0\<in>set (sc_submitted st). tracked env model eog (sc_n_ctx st) calls q0 q" if "q \<in> set live'" for q
    using that rest one_r0(1) r0(1) keep retire by (cases f) auto
  have follow: "follows env model eog (sc_n_ctx st) q (delivered (rq_id q) calls)" if "q \<in> set (sc_submitted st)" for q
    using that ok one_r0(2) other [of q] uniq [of q] by (cases "rq_id q = rq_id r") (auto simp: trace_ok_def)
  have cause: "stop_cause env model eog (sc_n_ctx st) q (delivered (rq_id q) calls)"
    if q: "q \<in> set (sc_submitted st)" "sc_done st' (rq_id q) = Some None" for q
  proof (cases "rq_id q = rq_id r")
    case True
    then have "f = Retire None" using q(2) keep retire open_r by (cases f) auto
    then show ?thesis using one_r0(3) uniq [OF q(1) True] eog by simp
  next
    case False
    then have "sc_done st (rq_id q) = Some None" using q(2) keep retire by (cases f) auto
    then show ?thesis using ok q(1) other [OF False] by (simp add: trace_ok_def)
  qed
  have "\<forall>c\<in>set calls. fst c \<in> rq_id ` set (sc_submitted st)"
    using ok new r0(1) id0 by (auto simp: trace_ok_def)
  with live follow cause st' show ?thesis by (simp add: trace_ok_def)
qed

section \<open>What the sequences of the context hold\<close>

text \<open>
  \<open>ready\<close> are requests between steps, whose sequence holds the history but the token still to
  be decoded; \<open>todo\<close> are requests whose slice was just decoded; free slots are empty.
\<close>

definition free_empty :: "(int \<Rightarrow> token list) \<Rightarrow> bool list \<Rightarrow> bool" where
  "free_empty held slots \<longleftrightarrow> (\<forall>i. 0 \<le> i \<and> nat i < length slots \<and> \<not> slots ! nat i \<longrightarrow> held i = [])"

definition kv_ok :: "(int \<Rightarrow> token list) \<Rightarrow> bool list \<Rightarrow> 'g request list \<Rightarrow> 'g request list \<Rightarrow> bool" where
  "kv_ok held slots ready todo \<longleftrightarrow> (\<forall>r\<in>set ready. held (rq_seq_id r) = take (rq_n_past r) (rq_history r))
     \<and> (\<forall>r\<in>set todo. held (rq_seq_id r) = rq_history r) \<and> free_empty held slots"

lemma free_empty_clear:
  assumes "free_empty held slots" "0 \<le> i"
  shows "free_empty (held(i := [])) (slots[nat i := False])"
  unfolding free_empty_def
proof (intro allI impI)
  fix j
  assume j: "0 \<le> j \<and> nat j < length (slots[nat i := False]) \<and> \<not> slots[nat i := False] ! nat j"
  show "(held(i := [])) j = []"
  proof (cases "j = i")
    case False
    then have "nat j \<noteq> nat i" using j assms(2) by auto
    with j False assms(1) show ?thesis by (simp add: free_empty_def)
  qed simp
qed

lemma take_last: "xs \<noteq> [] \<Longrightarrow> take (length xs - Suc 0) xs @ [last xs] = xs"
  by (metis One_nat_def append_butlast_last_id butlast_conv_take)

lemma kv_ok_clear:
  assumes "kv_ok held slots xs (r # ys)" "distinct (map rq_seq_id (xs @ r # ys))" "0 \<le> rq_seq_id r"
  shows "kv_ok (held(rq_seq_id r := [])) (slots[nat (rq_seq_id r) := False]) xs ys"
proof -
  have "rq_seq_id q \<noteq> rq_seq_id r" if "q \<in> set xs \<union> set ys" for q using assms(2) that by (auto simp: image_iff)
  then show ?thesis using assms(1) free_empty_clear [OF _ assms(3)] by (auto simp: kv_ok_def)
qed

lemma find_donorD: "find_donor p acts = Some d \<Longrightarrow> d \<in> set acts \<and> rq_prompt_len d = length p \<and> take (length p) (rq_history d) = p"
  unfolding find_donor_def by (blast dest: find_SomeD)

context seq_backend
begin

lemma finish_seqs:
  "0 \<le> rq_seq_id r \<Longrightarrow> seqs (sc_backend (finish ops r e st)) = (seqs (sc_backend st))(rq_seq_id r := [])
     \<and> sc_slot_used (finish ops r e st) = (sc_slot_used st)[nat (rq_seq_id r) := False]"
  by (simp add: finish_def Let_def clear_seqs)

lemma fail_all_free:
  "free_empty (seqs (sc_backend st)) (sc_slot_used st) \<Longrightarrow> list_all (\<lambda>r. 0 \<le> rq_seq_id r) rs \<Longrightarrow>
     free_empty (seqs (sc_backend (foldl (\<lambda>st r. finish ops r e st) st rs))) (sc_slot_used (foldl (\<lambda>st r. finish ops r e st) st rs))"
proof (induction rs arbitrary: st)
  case (Cons r rs)
  then have "free_empty (seqs (sc_backend (finish ops r e st))) (sc_slot_used (finish ops r e st))"
    using finish_seqs [of r e st] free_empty_clear [OF Cons.prems(1), of "rq_seq_id r"] by simp
  with Cons show ?case by simp
qed simp

lemma admit_one_kv:
  assumes ok: "sched_ok (r # rs) (sc_active st) st" and room: "length (sc_active st) < nat (sc_n_parallel st)"
    and kv: "kv_ok (seqs (sc_backend st)) (sc_slot_used st) (sc_active st) []"
    and donor: "\<And>d. donor_for r (sc_active st) = Some d \<Longrightarrow> rq_prompt_len d \<le> rq_n_past d"
  defines "st' \<equiv> admit_one ops (donor_for r (sc_active st)) r st"
  shows "kv_ok (seqs (sc_backend st')) (sc_slot_used st') (sc_active st') []"
proof -
  let ?held = "seqs (sc_backend st)" and ?d = "donor_for r (sc_active st)"
  obtain s where s: "first_free (sc_slot_used st) 0 = Some s" "s < length (sc_slot_used st)" "\<not> sc_slot_used st ! s"
    using free_slot [OF ok room] .
  have empty: "?held (int s) = []" using kv s by (simp add: kv_ok_def free_empty_def)
  have slots: "slots_ok (sc_active st) (sc_slot_used st)" and p: "pending_ok (sc_n_ctx st) r"
    using ok by (simp_all add: sched_ok_def)
  have used: "int s \<notin> rq_seq_id ` set (sc_active st)" using slots s(3) by (simp add: slots_ok_def)
  let ?new = "admitted s (?d \<noteq> None) r"
  have held': "seqs (sc_backend st') = ?held(int s := take (rq_n_past ?new) (rq_history r))"
  proof (cases ?d)
    case None
    then show ?thesis using p empty unfolding st'_def
      by (simp add: admit_one_eq(3) [OF s(1)] admitted_def pending_ok_def fun_upd_idem)
  next
    case (Some d)
    then have d: "d \<in> set (sc_active st)" "rq_prompt_len d = length (rq_history r)"
      "take (length (rq_history r)) (rq_history d) = rq_history r"
      using find_donorD [of "rq_history r" "sc_active st" d] by (auto simp: donor_for_def split: if_splits)
    have "take (length (rq_history r) - 1) (?held (rq_seq_id d)) = take (length (rq_history r) - 1) (take (rq_n_past d) (rq_history d))"
      using kv d(1) by (simp add: kv_ok_def)
    also have "\<dots> = take (length (rq_history r) - 1) (take (length (rq_history r)) (rq_history d))"
      using donor [OF Some] d(2) by (simp add: min_absorb1)
    finally have "take (length (rq_history r) - 1) (?held (rq_seq_id d)) = take (length (rq_history r) - 1) (rq_history r)"
      using d(3) by simp
    then show ?thesis using p empty Some unfolding st'_def
      by (simp add: admit_one_eq(3) [OF s(1)] admitted_def Let_def copy_seqs pending_ok_def)
  qed
  have slots': "sc_slot_used st' = (sc_slot_used st)[s := True]" and act': "sc_active st' = sc_active st @ [?new]"
    unfolding st'_def by (rule admit_one_eq [OF s(1)])+
  have "free_empty (seqs (sc_backend st')) (sc_slot_used st')"
    using kv s(2) unfolding held' slots' by (auto simp: kv_ok_def free_empty_def nth_list_update split: if_splits)
  moreover have "q \<in> set (sc_active st) \<Longrightarrow> rq_seq_id q \<noteq> int s" for q using used by (metis imageI)
  ultimately show ?thesis using kv unfolding kv_ok_def held' act' by auto
qed

lemma admit_loop_kv:
  assumes "sched_ok rs (sc_active st) st" "kv_ok (seqs (sc_backend st)) (sc_slot_used st) (sc_active st) []"
  shows "kv_ok (seqs (sc_backend (admit_loop ops rs st))) (sc_slot_used (admit_loop ops rs st)) (sc_active (admit_loop ops rs st)) []"
  using assms
proof (induction rs arbitrary: st)
  case (Cons r rs)
  show ?case
  proof (cases rule: admit_loop_cases [of ops r rs st])
    case stop
    then show ?thesis using Cons.prems by simp
  next
    case admit
    then show ?thesis
      using Cons.IH [OF admit_one_ok [OF Cons.prems(1) admit(1)] admit_one_kv [OF Cons.prems(1) admit(1) Cons.prems(2) admit(2)]]
      by simp
  qed
qed simp

lemma decode_ready:
  assumes ok: "sched_ok w acts st" and kv: "kv_ok (seqs (sc_backend st)) (sc_slot_used st) acts []"
    and dec: "bo_decode_seqs ops (map slice_of acts) (sc_backend st) = (Inr ls, b)"
  shows "ls = map (\<lambda>r. model (rq_history r)) acts" "kv_ok (seqs b) (sc_slot_used st) [] acts"
proof -
  let ?held = "seqs (sc_backend st)"
  have id: "sl_seq_id (slice_of r) = rq_seq_id r" for r :: "'d request" by (simp add: slice_of_def)
  have acts: "active_ok (sc_n_ctx st) r" "?held (rq_seq_id r) = take (rq_n_past r) (rq_history r)" if "r \<in> set acts" for r
    using ok kv that by (auto simp: sched_ok_def kv_ok_def list_all_iff)
  have whole: "?held (rq_seq_id r) @ sl_tokens (slice_of r) = rq_history r" "sl_tokens (slice_of r) \<noteq> []"
    "sl_pos_start (slice_of r) = length (?held (rq_seq_id r))" if "r \<in> set acts" for r
    using acts [OF that] by (auto simp: slice_of_def active_ok_def take_last)
  have slots: "slots_ok acts (sc_slot_used st)" using ok by (simp add: sched_ok_def)
  have fit: "slices_fit ?held (map slice_of acts)"
    using slots whole by (simp add: slices_fit_def slots_ok_def list_all_iff comp_def id)
  show "ls = map (\<lambda>r. model (rq_history r)) acts"
    using seqs_logits [OF fit dec] whole(1) by (simp add: comp_def id)
  have "seqs b (rq_seq_id r) = rq_history r" if "r \<in> set acts" for r
    using seqs_append [OF fit dec, of "slice_of r"] whole(1) that by (simp add: id)
  moreover have "seqs b i = []" if i: "0 \<le> i" "nat i < length (sc_slot_used st)" "\<not> sc_slot_used st ! nat i" for i
  proof -
    have "i \<notin> rq_seq_id ` set acts" using slots i by (simp add: slots_ok_def)
    then have "i \<notin> sl_seq_id ` set (map slice_of acts)" by (auto simp: id)
    from seqs_frame [OF dec this] kv i show ?thesis by (simp add: kv_ok_def free_empty_def)
  qed
  ultimately show "kv_ok (seqs b) (sc_slot_used st) [] acts" by (simp add: kv_ok_def free_empty_def)
qed

lemma advance_loop_trace:
  assumes "sched_ok w (still @ rs) st" "trace_ok env model eog (w @ still @ rs) st"
    and "kv_ok (seqs (sc_backend st)) (sc_slot_used st) still rs"
  defines "st' \<equiv> advance_loop ops env rs (map slice_of rs) (map (\<lambda>r. model (rq_history r)) rs) still st"
  shows "trace_ok env model eog (w @ sc_active st') st' \<and> kv_ok (seqs (sc_backend st')) (sc_slot_used st') (sc_active st') []"
  using assms(1-3) unfolding st'_def
proof (induction rs arbitrary: still st)
  case Nil
  then show ?case using trace_ok_frame [of env model eog "w @ still" st "st\<lparr>sc_active := still\<rparr>"] by simp
next
  case (Cons r rs)
  obtain r' f calls where one: "advance_one ops env (sc_backend st) (sc_n_ctx st) r (slice_of r) (model (rq_history r)) (sc_log st) = (r', f, calls)"
    by (rule prod_cases3)
  have act: "active_ok (sc_n_ctx st) r" and ids: "ids_ok w (still @ r # rs) st" and slots: "slots_ok (still @ r # rs) (sc_slot_used st)"
    using Cons.prems(1) by (simp_all add: sched_ok_def)
  have d: "distinct (map rq_id (w @ still @ r # rs))" "distinct (map rq_id (sc_submitted st))" "sc_done st (rq_id r) = None"
    using ids by (auto simp: ids_ok_def)
  have sid: "0 \<le> rq_seq_id r" "distinct (map rq_seq_id (still @ r # rs))"
    using slots slots_okD [OF slots, of r] by (simp_all add: slots_ok_def)
  have others: "set (w @ still @ rs) = set (w @ still @ r # rs) - {r}" using d(1) by auto
  note same = advance_one_same [OF one]
  note trace = trace_ok_advance [OF Cons.prems(2) _ d(1,2) act one eog_const]
  show ?case
  proof (cases f)
    case Keep
    let ?st = "st\<lparr>sc_log := calls\<rparr>"
    note kept = advance_one_Keep [OF one [unfolded Keep] act]
    have "trace_ok env model eog (w @ (still @ [r']) @ rs) ?st"
      using others Keep d(3) by (intro trace) auto
    moreover have "sched_ok w ((still @ [r']) @ rs) ?st"
      using sched_ok_replace [OF Cons.prems(1), of r'] same kept by simp
    moreover have "take (rq_n_past r') (rq_history r') = rq_history r"
      using kept unfolding active_ok_def by (metis butlast_conv_take)
    then have "kv_ok (seqs (sc_backend ?st)) (sc_slot_used ?st) (still @ [r']) rs"
      using Cons.prems(3) same by (auto simp: kv_ok_def)
    ultimately show ?thesis using Cons.IH [of "still @ [r']" ?st] one Keep by simp
  next
    case (Retire e)
    let ?st = "finish ops r' e (st\<lparr>sc_log := calls\<rparr>)"
    have "trace_ok env model eog (w @ still @ rs) ?st"
      using others Retire same d(3) by (intro trace) auto
    moreover have "sched_ok w (still @ rs) ?st"
      using Cons.prems(1) same by (intro sched_ok_finish [of w still r rs]) (simp_all add: sched_ok_log)
    moreover have "kv_ok (seqs (sc_backend ?st)) (sc_slot_used ?st) still rs"
      using kv_ok_clear [OF Cons.prems(3) sid(2,1)] finish_seqs [of r' e "st\<lparr>sc_log := calls\<rparr>"] same sid(1) by simp
    ultimately show ?thesis using Cons.IH [of still ?st] one Retire by simp
  qed
qed

lemma fail_all_trace:
  "trace_ok env model eog (w @ rs) st \<Longrightarrow> trace_ok env model eog w (foldl (\<lambda>st r. finish ops r (Some err) st) st rs)"
proof (induction rs arbitrary: st)
  case (Cons r rs)
  then have "trace_ok env model eog (w @ rs) (finish ops r (Some err) st)" by (auto simp: trace_ok_def)
  with Cons.IH show ?case by simp
qed simp

lemma admit_loop_live:
  assumes "\<forall>r\<in>set (rs @ sc_active st). \<exists>r0\<in>set subs. tracked env model eog n calls r0 r" "sched_ok rs (sc_active st) st"
  shows "\<forall>r\<in>set (sc_pending (admit_loop ops rs st) @ sc_active (admit_loop ops rs st)). \<exists>r0\<in>set subs. tracked env model eog n calls r0 r"
  using assms
proof (induction rs arbitrary: st)
  case (Cons r rs)
  show ?case
  proof (cases rule: admit_loop_cases [of ops r rs st])
    case stop
    then show ?thesis using Cons.prems by simp
  next
    case admit
    obtain s where s: "first_free (sc_slot_used st) 0 = Some s" using free_slot [OF Cons.prems(2) admit(1)] by metis
    have "tracked env model eog n calls r0 (admitted s c r) = tracked env model eog n calls r0 r" for r0 c by (simp add: tracked_def)
    then show ?thesis
      using Cons.IH [OF _ admit_one_ok [OF Cons.prems(2) admit(1)]] Cons.prems(1) admit(3) by (simp add: admit_one_eq [OF s])
  qed
qed simp

lemma sched_step_trace:
  assumes ok: "sched_ok (sc_pending st) (sc_active st) st" and tr: "trace_ok env model eog (sc_pending st @ sc_active st) st"
    and kv: "kv_ok (seqs (sc_backend st)) (sc_slot_used st) (sc_active st) []" and step: "sched_step ops env st = (again, st')"
  shows "trace_ok env model eog (sc_pending st' @ sc_active st') st'
    \<and> kv_ok (seqs (sc_backend st')) (sc_slot_used st') (sc_active st') []"
proof -
  let ?a = "admit ops st"
  note a_ok = admit_ok [OF ok, of ops]
  have a_kv: "kv_ok (seqs (sc_backend ?a)) (sc_slot_used ?a) (sc_active ?a) []" unfolding admit_def by (rule admit_loop_kv [OF ok kv])
  have a_tr: "trace_ok env model eog (sc_pending ?a @ sc_active ?a) ?a"
    using tr admit_loop_live [OF _ ok] by (simp add: trace_ok_def admit_def)
  show ?thesis
    using step
  proof (cases rule: sched_step_cases)
    case drained
    show ?thesis unfolding drained(2) using a_tr a_kv by simp
  next
    case (failed err b)
    let ?b = "?a\<lparr>sc_backend := b\<rparr>" and ?f = "foldl (\<lambda>st r. finish ops r (Some err) st)"
    have slots: "slots_ok (sc_active ?a) (sc_slot_used ?a)" using a_ok by (simp add: sched_ok_def)
    have "sl_seq_id (slice_of r) = rq_seq_id r" for r :: "'c request" by (simp add: slice_of_def)
    then have "i \<notin> sl_seq_id ` set (map slice_of (sc_active ?a))" if "\<not> sc_slot_used ?a ! nat i" for i
      using slots that by (auto simp: slots_ok_def)
    then have "free_empty (seqs (sc_backend ?b)) (sc_slot_used ?b)"
      using a_kv seqs_frame [OF failed(2)] by (simp add: kv_ok_def free_empty_def)
    moreover have "list_all (\<lambda>r. 0 \<le> rq_seq_id r) (sc_active ?a)" using slots_okD [OF slots] by (simp add: list_all_iff)
    ultimately have "free_empty (seqs (sc_backend (?f ?b (sc_active ?a)))) (sc_slot_used (?f ?b (sc_active ?a)))"
      by (rule fail_all_free)
    then have "free_empty (seqs (sc_backend st')) (sc_slot_used st')" unfolding failed(3) by simp
    moreover have "trace_ok env model eog (sc_pending ?a) (?f ?b (sc_active ?a))"
      using trace_ok_frame [OF a_tr, of ?b] by (intro fail_all_trace) simp
    then have "trace_ok env model eog (sc_pending ?a) st'" unfolding failed(3) by (rule trace_ok_frame) simp_all
    ultimately show ?thesis unfolding failed(3) by (simp add: kv_ok_def)
  next
    case (advanced logits b)
    let ?b = "?a\<lparr>sc_backend := b\<rparr>"
    note dec = decode_ready [OF a_ok a_kv advanced(2)]
    have "sched_ok (sc_pending ?a) ([] @ sc_active ?a) ?b" using a_ok by (simp add: sched_ok_log)
    moreover have "trace_ok env model eog (sc_pending ?a @ [] @ sc_active ?a) ?b" by (rule trace_ok_frame [OF a_tr]) simp_all
    moreover have "kv_ok (seqs (sc_backend ?b)) (sc_slot_used ?b) [] (sc_active ?a)" using dec(2) by simp
    ultimately show ?thesis using advance_loop_trace advanced(3) dec(1) by fastforce
  qed
qed

lemma submit_trace:
  assumes ok: "sched_ok (sc_pending st) (sc_active st) st" and tr: "trace_ok env model eog (sc_pending st @ sc_active st) st"
    and sub: "submit env prompt gen cb st = Inr (i, st')"
  shows "trace_ok env model eog (sc_pending st' @ sc_active st') st'"
proof -
  obtain r where r: "st' = st\<lparr>sc_next_id := sc_next_id st + 1, sc_pending := sc_pending st @ [r], sc_submitted := sc_submitted st @ [r]\<rparr>"
    "rq_id r = sc_next_id st" "rq_prompt_len r = length (rq_history r)" "rq_sampler r = sampler_init env (rq_gen r)"
    using sub by (auto simp: submit_def Let_def split: if_splits option.splits)
  have ids: "ids_ok (sc_pending st) (sc_active st) st" using ok by (simp add: sched_ok_def)
  then have fresh: "rq_id r \<notin> rq_id ` set (sc_submitted st)" using r(2) unfolding ids_ok_def by fastforce
  then have "sc_done st (rq_id r) = None" using ids unfolding ids_ok_def by blast
  moreover have none: "delivered (rq_id r) (sc_log st) = []"
    using tr fresh by (auto simp: trace_ok_def delivered_def filter_empty_conv)
  then have "tracked env model eog (sc_n_ctx st) (sc_log st) r r" using r(3,4) by (simp add: tracked_def)
  ultimately show ?thesis using tr tracked_follows [of env model eog "sc_n_ctx st" "sc_log st" r r] unfolding trace_ok_def r(1) by auto
qed

lemma reachable_trace:
  assumes "sched_reachable ops env b n st" "\<And>i. seqs b i = []"
  shows "trace_ok env model eog (sc_pending st @ sc_active st) st \<and> kv_ok (seqs (sc_backend st)) (sc_slot_used st) (sc_active st) []"
  using assms(1)
proof (induction rule: sched_reachable.induct)
  case (opened st)
  then show ?case using assms(2) by (auto simp: scheduler_open_def trace_ok_def kv_ok_def free_empty_def split: if_splits)
next
  case (submitted st prompt gen cb i st')
  have "sc_backend st' = sc_backend st \<and> sc_slot_used st' = sc_slot_used st \<and> sc_active st' = sc_active st"
    using submitted.hyps(3) by (auto simp: submit_def Let_def split: if_splits option.splits)
  then show ?case
    using submitted.IH submit_trace [OF sched_reachable_ok [OF submitted.hyps(1)] _ submitted.hyps(3)] by simp
next
  case (stepped st)
  then show ?case
    using sched_step_trace [OF sched_reachable_ok [OF stepped.hyps(1)]] by (cases "sched_step ops env st") auto
qed

end

text \<open>
  C4: batching changes nothing for the requests.  Over llama.cpp, starting from an empty
  context, in every reachable state the tokens that were delivered to a request are exactly
  the tokens it would have been given alone: sampled one by one, by a generator with its own
  seed, from the model's logits on its own prompt and tokens.  Neither the other requests in
  the batch, nor when it was admitted, nor whether its prompt was prefilled or cloned from a
  donor with the same prompt shows in the output.  And a request that finished without an error
  ended for one of the four reasons the code has: the next token ends the generation, its
  callback declined, its token budget or the context is used up.
\<close>

theorem scheduler_generates_alone:
  assumes "llama_model_ok api toks model" "sched_reachable (real_ops api) env b n_parallel st" "\<forall>i. toks (rb_ctx b) i = []"
    and "r \<in> set (sc_submitted st)"
  shows "follows env model (llama_vocab_is_eog api) (sc_n_ctx st) r (delivered (rq_id r) (sc_log st))
    \<and> (finished st (rq_id r) \<longrightarrow> error_of st (rq_id r) = None \<longrightarrow>
         stop_cause env model (llama_vocab_is_eog api) (sc_n_ctx st) r (delivered (rq_id r) (sc_log st)))"
proof -
  have "trace_ok env model (llama_vocab_is_eog api) (sc_pending st @ sc_active st) st"
    using seq_backend.reachable_trace [OF real_backend_seqs [OF assms(1)] assms(2)] assms(3) by simp
  then show ?thesis using assms(4) by (auto simp: trace_ok_def finished_def error_of_def split: option.splits)
qed

text \<open>
  A failed forward pass is contained.  It fails exactly the requests that were in the
  batch, with its own error; their slots are free again, every waiting request still waits,
  and no token callback was made.
\<close>

theorem decode_failure_contained:
  assumes "sched_reachable ops env b n_parallel st" "admit ops st = adm" "sc_active adm \<noteq> []"
    and "bo_decode_seqs ops (map slice_of (sc_active adm)) (sc_backend adm) = (Inl err, b')"
    and "sched_step ops env st = (again, st')"
  shows "sc_active st' = [] \<and> sc_pending st' = sc_pending adm \<and> again = (sc_pending adm \<noteq> []) \<and> sc_log st' = sc_log st
    \<and> list_all (\<lambda>used. \<not> used) (sc_slot_used st')
    \<and> (\<forall>i. sc_done st' i = (if i \<in> rq_id ` set (sc_active adm) then Some (Some err) else sc_done st i))"
proof -
  let ?f = "foldl (\<lambda>st r. finish ops r (Some err) st)"
  have st': "st' = (?f (adm\<lparr>sc_backend := b'\<rparr>) (sc_active adm))\<lparr>sc_active := []\<rparr>" "again = (sc_pending adm \<noteq> [])"
    using assms(2-5) by (auto simp: sched_step_def Let_def)
  have done_all: "sc_done (?f s rs) i = (if i \<in> rq_id ` set rs then Some (Some err) else sc_done s i)" for s rs i
    by (induction rs arbitrary: s) auto
  have "slots_ok (sc_active st') (sc_slot_used st')"
    using sched_step_ok [OF sched_reachable_ok [OF assms(1)] assms(5)] by (simp add: sched_ok_def)
  from slots_ok_length [OF this] have "list_all (\<lambda>used. \<not> used) (sc_slot_used st')"
    unfolding st'(1) by (simp add: list_all_iff filter_empty_conv)
  moreover have "sc_done adm = sc_done st" "sc_log adm = sc_log st" using assms(2) by (auto simp: admit_def)
  ultimately show ?thesis using st' by (simp add: done_all)
qed

section \<open>Examples\<close>

definition demo_cb :: token_callback where
  "demo_cb calls t = Inr True"

definition demo_open :: "token list list \<Rightarrow> (token list list real_backend, unit) scheduler" where
  "demo_open ctx = (case scheduler_open (real_ops ref_api) 2 \<lparr>rb_ctx = ctx, rb_n_past = 0\<rparr> of Inr st \<Rightarrow> st)"

definition demo_request :: "unit request" where
  "demo_request = \<lparr>rq_id = 1, rq_history = [7, 8], rq_prompt_len = 2, rq_gen = sample_config\<lparr>gc_temperature := 0\<rparr>,
     rq_on_token = demo_cb, rq_sampler = (), rq_emitted = 0, rq_seq_id = - 1, rq_n_past = 0, rq_needs_prefill = True\<rparr>"

definition demo_sched :: "token list list \<Rightarrow> (token list list real_backend, unit) scheduler" where
  "demo_sched ctx = (demo_open ctx)\<lparr>sc_next_id := 2, sc_pending := [demo_request], sc_submitted := [demo_request]\<rparr>"

lemma demo_reachable:
  "sched_reachable (real_ops ref_api) demo_env \<lparr>rb_ctx = ctx, rb_n_past = 0\<rparr> 2 (demo_sched ctx)"
proof (rule submitted)
  show "sched_reachable (real_ops ref_api) demo_env \<lparr>rb_ctx = ctx, rb_n_past = 0\<rparr> 2 (demo_open ctx)"
    by (rule opened) (simp add: demo_open_def scheduler_open_def)
  show "submit demo_env [7, 8] (sample_config\<lparr>gc_temperature := 0\<rparr>) (Some demo_cb) (demo_open ctx) = Inr (1, demo_sched ctx)"
    by (simp add: submit_def demo_open_def scheduler_open_def real_ops_def ref_api_def demo_sched_def demo_request_def
        sampler_init_def demo_env_def Let_def numeral_2_eq_2)
qed (simp add: demo_open_def scheduler_open_def)

theorem run_until_idle_drains_witness:
  "\<exists>st'. run_until_idle (real_ops ref_api) demo_env (demo_sched [[], []]) = Some st' \<and> finished st' 1"
  using run_until_idle_drains [OF demo_reachable, of "[[], []]"] by (auto simp: demo_sched_def demo_request_def)

theorem scheduler_invariant_witness:
  "active_count (snd (sched_step (real_ops ref_api) demo_env (demo_sched [[], []]))) \<le> 2"
  using scheduler_invariant [OF stepped [OF demo_reachable [of "[[], []]"]]] by blast

lemma ref_toks_empty: "ref_toks [[], []] i = []"
  by (simp add: ref_toks_def nth_Cons split: nat.splits)

theorem scheduler_generates_alone_witness:
  "follows demo_env (\<lambda>_. [1, 0]) (llama_vocab_is_eog ref_api)
     (sc_n_ctx (snd (sched_step (real_ops ref_api) demo_env (demo_sched [[], []])))) demo_request
     (delivered 1 (sc_log (snd (sched_step (real_ops ref_api) demo_env (demo_sched [[], []])))))"
proof -
  let ?st = "snd (sched_step (real_ops ref_api) demo_env (demo_sched [[], []]))"
  have "sc_submitted ?st = sc_submitted (demo_sched [[], []])"
    using sched_step_progress [OF sched_reachable_ok [OF demo_reachable [of "[[], []]"]], of "real_ops ref_api" demo_env]
    by (metis prod.collapse)
  then have "demo_request \<in> set (sc_submitted ?st)" by (simp add: demo_sched_def)
  moreover have "rq_id demo_request = 1" by (simp add: demo_request_def)
  ultimately show ?thesis
    using scheduler_generates_alone [OF ref_model_ok stepped [OF demo_reachable [of "[[], []]"]], of demo_request] ref_toks_empty
    by (simp only: real_backend.simps simp_thms)
qed

lemma ref_ops:
  "bo_context_length (real_ops api) b = llama_n_ctx api" "bo_decode_seqs (real_ops api) = real_decode_seqs api"
  "llama_n_ctx ref_api = 4096" "ref_seqs_ok [] (i # items) = False" "\<not> ref_seqs_ok c items \<Longrightarrow> llama_decode ref_api items c = (1, c)"
  by (simp_all add: real_ops_def ref_api_def ref_seqs_ok_def)

lemma demo_sched_eq:
  "demo_sched ctx = \<lparr>sc_backend = \<lparr>rb_ctx = ctx, rb_n_past = 0\<rparr>, sc_n_parallel = 2, sc_n_ctx = 4096,
     sc_pending = [demo_request], sc_active = [], sc_slot_used = [False, False],
     sc_done = Map.empty, sc_next_id = 2, sc_submitted = [demo_request], sc_log = []\<rparr>"
  by (simp add: demo_sched_def demo_open_def scheduler_open_def ref_ops eval_nat_numeral)

lemma demo_admit:
  "admit (real_ops ref_api) (demo_sched ctx) = (demo_sched ctx)\<lparr>sc_pending := [],
     sc_active := [demo_request\<lparr>rq_seq_id := 0\<rparr>], sc_slot_used := [True, False]\<rparr>"
  by (simp add: admit_def demo_sched_eq demo_request_def admit_one_def cells_used_def find_donor_def)

theorem decode_failure_contained_witness:
  "sc_done (snd (sched_step (real_ops ref_api) demo_env (demo_sched []))) 1 =
     Some (Some (ModelError (''llama_decode (multi-seq) failed with status '' @ show_int 1)))"
proof -
  let ?adm = "admit (real_ops ref_api) (demo_sched [])"
  obtain again st' where step: "sched_step (real_ops ref_api) demo_env (demo_sched []) = (again, st')" by fastforce
  have "bo_decode_seqs (real_ops ref_api) (map slice_of (sc_active ?adm)) (sc_backend ?adm) =
      (Inl (ModelError (''llama_decode (multi-seq) failed with status '' @ show_int 1)), sc_backend ?adm)"
    unfolding demo_admit by (simp add: ref_ops real_decode_seqs_def slice_of_def demo_request_def slice_items_def demo_sched_eq upt_Suc_shift)
  from decode_failure_contained [OF demo_reachable refl _ this step]
  have "\<forall>i. sc_done st' i = (if i \<in> rq_id ` set (sc_active ?adm)
      then Some (Some (ModelError (''llama_decode (multi-seq) failed with status '' @ show_int 1))) else sc_done (demo_sched []) i)"
    by (simp add: demo_admit)
  then show ?thesis using step by (simp add: demo_admit demo_request_def)
qed

end
