(* ===== verification/Draft_Sources.thy ===== *)
theory Draft_Sources
  imports Reame_Prelude
begin

text \<open>
  The two draft sources that need no model: n-gram lookup in the tokens already seen
  (\<open>src/src/speculative/prompt_lookup.cpp\<close>) and the structural continuation of lists
  (\<open>src/src/speculative/form_draft.cpp\<close>).
\<close>

section \<open>Prompt lookup\<close>

record lookup_config =
  lk_max_ngram :: int
  lk_min_ngram :: int

text \<open>The loop over \<open>start\<close> counts down from \<open>len - n\<close>, exclusive, to 0.\<close>

fun lookup_scan :: "token list \<Rightarrow> nat \<Rightarrow> nat \<Rightarrow> nat \<Rightarrow> token list option" where
  "lookup_scan history n n_draft 0 = None"
| "lookup_scan history n n_draft (Suc start) =
     (if take n (drop start history) = drop (length history - n) history then
        (let cont = start + n in Some (take (min (length history - cont) n_draft) (drop cont history)))
      else lookup_scan history n n_draft start)"

fun lookup_ngrams :: "token list \<Rightarrow> nat \<Rightarrow> nat list \<Rightarrow> token list" where
  "lookup_ngrams history n_draft [] = []"
| "lookup_ngrams history n_draft (n # ns) =
     (if length history < n + 1 then lookup_ngrams history n_draft ns
      else case lookup_scan history n n_draft (length history - n) of
             Some d \<Rightarrow> d
           | None \<Rightarrow> lookup_ngrams history n_draft ns)"

definition lookup_max :: "lookup_config \<Rightarrow> nat" where
  "lookup_max cfg = nat (max (lk_max_ngram cfg) 1)"

definition lookup_min :: "lookup_config \<Rightarrow> nat" where
  "lookup_min cfg = nat (max 1 (min (lk_min_ngram cfg) (max (lk_max_ngram cfg) 1)))"

definition find_draft :: "lookup_config \<Rightarrow> token list \<Rightarrow> int \<Rightarrow> token list" where
  "find_draft cfg history n_draft =
     (if n_draft \<le> 0 then []
      else lookup_ngrams history (nat n_draft) (rev [lookup_min cfg..<Suc (lookup_max cfg)]))"

text \<open>The last \<open>n\<close> tokens also stand at \<open>start\<close>, strictly before the end.\<close>

definition repeats_at :: "token list \<Rightarrow> nat \<Rightarrow> nat \<Rightarrow> bool" where
  "repeats_at h n start \<longleftrightarrow> start + n < length h \<and> take n (drop start h) = drop (length h - n) h"

lemma lookup_scan_spec:
  assumes "m + n \<le> length h"
  shows "case lookup_scan h n k m of
      None \<Rightarrow> \<forall>s<m. \<not> repeats_at h n s
    | Some d \<Rightarrow> \<exists>s<m. repeats_at h n s \<and> (\<forall>s'<m. s < s' \<longrightarrow> \<not> repeats_at h n s') \<and> d = take k (drop (s + n) h)"
  using assms
proof (induction m)
  case (Suc m)
  show ?case
  proof (cases "take n (drop m h) = drop (length h - n) h")
    case True
    then have "repeats_at h n m" using Suc.prems by (simp add: repeats_at_def)
    moreover have "take (min (length h - (m + n)) k) (drop (m + n) h) = take k (drop (m + n) h)"
      by (metis length_drop min.commute take_all_iff take_take le_refl)
    ultimately show ?thesis using True by (simp add: Let_def) (metis less_SucE less_Suc_eq less_asym)
  next
    case False
    then have "\<not> repeats_at h n m" by (simp add: repeats_at_def)
    then show ?thesis using Suc False by (auto split: option.splits simp: less_Suc_eq)
  qed
qed simp

lemma lookup_ngrams_spec:
  assumes "\<And>n. n \<in> set ns \<Longrightarrow> 0 < n" "sorted_wrt (>) ns"
  shows "(lookup_ngrams h k ns = [] \<or> (\<exists>n\<in>set ns. \<exists>s. repeats_at h n s \<and> lookup_ngrams h k ns = take k (drop (s + n) h)
       \<and> (\<forall>n'\<in>set ns. n < n' \<longrightarrow> (\<forall>s'. \<not> repeats_at h n' s')) \<and> (\<forall>s'>s. \<not> repeats_at h n s')))
    \<and> (0 < k \<longrightarrow> lookup_ngrams h k ns = [] \<longrightarrow> (\<forall>n\<in>set ns. \<forall>s. \<not> repeats_at h n s))"
  using assms
proof (induction ns)
  case (Cons n ns)
  have le: "s < length h - n" if "repeats_at h n s" for s using that by (auto simp: repeats_at_def)
  have below: "\<And>n'. n' \<in> set ns \<Longrightarrow> n' < n" using Cons.prems(2) by simp
  have none_ns: "lookup_ngrams h k (n # ns) = lookup_ngrams h k ns \<Longrightarrow> (\<forall>s. \<not> repeats_at h n s) \<Longrightarrow> ?case"
    using Cons.IH Cons.prems below by (auto dest: less_asym)
  show ?case
  proof (cases "length h < n + 1")
    case True
    then show ?thesis by (intro none_ns) (auto simp: repeats_at_def)
  next
    case False
    note scan = lookup_scan_spec [of "length h - n" n h k]
    show ?thesis
    proof (cases "lookup_scan h n k (length h - n)")
      case None
      then show ?thesis using False scan le by (intro none_ns) auto
    next
      case (Some d)
      then obtain s where s: "repeats_at h n s" "\<forall>s'<length h - n. s < s' \<longrightarrow> \<not> repeats_at h n s'" "d = take k (drop (s + n) h)"
        using scan False by auto
      have last: "\<forall>s'>s. \<not> repeats_at h n s'" using s(2) le by blast
      have "d \<noteq> []" if "0 < k" using that s(1,3) by (auto simp: repeats_at_def)
      moreover have "lookup_ngrams h k (n # ns) = d" using Some False by simp
      moreover have "\<forall>n'\<in>set (n # ns). n < n' \<longrightarrow> (\<forall>s'. \<not> repeats_at h n' s')" using below by (auto dest: less_asym)
      ultimately show ?thesis using s(1,3) last by (metis list.set_intros(1))
    qed
  qed
qed simp

text \<open>
  Prompt lookup proposes what followed the longest repeated n-gram, at its most recent
  earlier occurrence.  A non-empty draft is at most \<open>n_draft\<close> tokens of the history that
  directly follow an earlier copy of the last \<open>n\<close> tokens, where \<open>n\<close> is the largest pattern
  length in the configured range that repeats at all and the copy is the latest one; an
  empty draft means that no pattern length in the range repeats.
\<close>

theorem find_draft_longest_latest:
  assumes "0 < n_draft"
  shows "(find_draft cfg h n_draft = [] \<and> (\<forall>n\<in>{lookup_min cfg..lookup_max cfg}. \<forall>s. \<not> repeats_at h n s))
    \<or> (\<exists>n\<in>{lookup_min cfg..lookup_max cfg}. \<exists>s. repeats_at h n s \<and> find_draft cfg h n_draft = take (nat n_draft) (drop (s + n) h)
         \<and> (\<forall>n'\<in>{n<..lookup_max cfg}. \<forall>s'. \<not> repeats_at h n' s') \<and> (\<forall>s'>s. \<not> repeats_at h n s'))"
proof -
  let ?ns = "rev [lookup_min cfg..<Suc (lookup_max cfg)]"
  have pos: "0 < n" if "n \<in> set ?ns" for n using that by (auto simp: lookup_min_def)
  have sorted: "sorted_wrt (>) ?ns" by (simp add: sorted_wrt_rev sorted_wrt_upt del: upt_Suc)
  have range: "set ?ns = {lookup_min cfg..lookup_max cfg}" by auto
  have fd: "find_draft cfg h n_draft = lookup_ngrams h (nat n_draft) ?ns" using assms by (simp add: find_draft_def)
  note spec = lookup_ngrams_spec [OF pos sorted, of h "nat n_draft", folded fd, unfolded range]
  show ?thesis
  proof (cases "find_draft cfg h n_draft = []")
    case True
    then show ?thesis using spec assms by simp
  next
    case False
    then obtain n s where ns: "n \<in> {lookup_min cfg..lookup_max cfg}" "repeats_at h n s"
      "find_draft cfg h n_draft = take (nat n_draft) (drop (s + n) h)"
      "\<forall>n'\<in>{lookup_min cfg..lookup_max cfg}. n < n' \<longrightarrow> (\<forall>s'. \<not> repeats_at h n' s')" "\<forall>s'>s. \<not> repeats_at h n s'"
      using spec by blast
    then have "\<forall>n'\<in>{n<..lookup_max cfg}. \<forall>s'. \<not> repeats_at h n' s'" by simp
    with ns show ?thesis by blast
  qed
qed

theorem find_draft_longest_latest_witness:
  "find_draft \<lparr>lk_max_ngram = 3, lk_min_ngram = 1\<rparr> [1, 2, 7, 1, 2, 8, 1, 2] 2 = [8, 1]"
  using find_draft_longest_latest [of 2 "\<lparr>lk_max_ngram = 3, lk_min_ngram = 1\<rparr>" "[1, 2, 7, 1, 2, 8, 1, 2]"]
  by (simp add: find_draft_def lookup_min_def lookup_max_def eval_nat_numeral)

section \<open>Structural continuations\<close>

abbreviation LF :: char where
  "LF \<equiv> CHR 0x0A"

text \<open>\<open>std::string::rfind\<close> of one character: the last position not after \<open>pos\<close>.\<close>

fun rfind_char :: "bytes \<Rightarrow> char \<Rightarrow> nat \<Rightarrow> nat option" where
  "rfind_char s c 0 = (if s \<noteq> [] \<and> s ! 0 = c then Some 0 else None)"
| "rfind_char s c (Suc pos) = (if Suc pos < length s \<and> s ! Suc pos = c then Some (Suc pos) else rfind_char s c pos)"

definition last_completed_line :: "bytes \<Rightarrow> bytes" where
  "last_completed_line tail =
     (if tail = [] \<or> last tail \<noteq> LF then []
      else let end = length tail - 1;
               begin = rfind_char tail LF (end - (if 0 < end then 1 else 0));
               from = (case begin of None \<Rightarrow> 0 | Some b \<Rightarrow> b + 1)
           in substr tail from (end - from))"

definition parse_numbered_item :: "bytes \<Rightarrow> int \<times> char" where
  "parse_numbered_item line =
     (let i = length (takeWhile isdigit line) in
      if i = 0 \<or> 9 < i then (0, CHR ''.'')
      else if length line \<le> i \<or> line ! i \<noteq> CHR ''.'' \<and> line ! i \<noteq> CHR '')'' then (0, CHR ''.'')
      else if length line \<le> i + 1 \<or> line ! (i + 1) \<noteq> CHR '' '' then (0, CHR ''.'')
      else (case stol (take i line) of Inl _ \<Rightarrow> 0 | Inr (n, _) \<Rightarrow> n, line ! i))"

definition is_bullet_item :: "bytes \<Rightarrow> char option" where
  "is_bullet_item line =
     (if length line < 2 then None
      else if (line ! 0 = CHR ''-'' \<or> line ! 0 = CHR ''*'') \<and> line ! 1 = CHR '' '' then Some (line ! 0) else None)"

definition propose :: "bytes \<Rightarrow> bytes" where
  "propose tail =
     (let line = last_completed_line tail in
      if line = [] then []
      else case parse_numbered_item line of (n, sep) \<Rightarrow>
        if 0 < n then show_int (n + 1) @ [sep] @ '' ''
        else case is_bullet_item line of Some marker \<Rightarrow> [marker] @ '' '' | None \<Rightarrow> [])"

lemma rfind_char_None: "c \<notin> set (take (Suc pos) s) \<Longrightarrow> rfind_char s c pos = None"
proof (induction pos)
  case (Suc pos)
  have "set (take (Suc pos) s) \<subseteq> set (take (Suc (Suc pos)) s)" by (rule set_take_subset_set_take) simp
  moreover have "s ! Suc pos \<in> set (take (Suc (Suc pos)) s)" if "Suc pos < length s"
    using that by (metis lessI nth_mem length_take min_less_iff_conj nth_take)
  ultimately show ?case using Suc by auto
qed (cases s; auto)

lemma rfind_char_last:
  "c \<notin> set line \<Longrightarrow> rfind_char (pre @ c # line @ rest) c (length pre + length line) = Some (length pre)"
proof (induction line arbitrary: rest rule: rev_induct)
  case Nil
  then show ?case by (cases "length pre") (auto simp: nth_append)
next
  case (snoc x line)
  then have "rfind_char (pre @ c # line @ ([x] @ rest)) c (length pre + length line) = Some (length pre)" by auto
  with snoc.prems show ?case by (auto simp: nth_append)
qed

lemma last_completed_line_eq:
  assumes "LF \<notin> set line" "line \<noteq> []" "pre = [] \<or> last pre = LF"
  shows "last_completed_line (pre @ line @ [LF]) = line"
proof (cases "pre = []")
  case True
  have "rfind_char (line @ [LF]) LF (length line - 1) = None"
    using assms(1,2) by (intro rfind_char_None) (auto simp: Suc_diff_le dest: in_set_takeD)
  then show ?thesis using True assms(2) by (simp add: last_completed_line_def Let_def substr_def)
next
  case False
  then obtain p where p: "pre = p @ [LF]" using assms(3) by (metis append_butlast_last_id)
  have "rfind_char (p @ LF # line @ [LF]) LF (length p + length line) = Some (length p)"
    using assms(1) by (rule rfind_char_last)
  then show ?thesis using p by (simp add: last_completed_line_def Let_def substr_def)
qed

text \<open>
  The prompter continues lists.  After a line that is a numbered item, whatever came
  before it, it proposes the next number with the same separator, and after a bullet item
  the same bullet.
\<close>

theorem propose_continues_list:
  assumes "LF \<notin> set body" "pre = [] \<or> last pre = LF" "0 < n" "n < 10 ^ 9" "sep = CHR ''.'' \<or> sep = CHR '')''"
    and "marker = CHR ''-'' \<or> marker = CHR ''*''"
  shows "propose (pre @ show_nat n @ [sep] @ '' '' @ body @ [LF]) = show_nat (n + 1) @ [sep] @ '' ''
    \<and> propose (pre @ [marker] @ '' '' @ body @ [LF]) = [marker] @ '' ''"
proof
  let ?line = "show_nat n @ [sep] @ '' '' @ body"
  have digits: "list_all isdigit (show_nat n)" by (rule show_nat_digits)
  have sep: "\<not> isdigit sep" "sep \<noteq> LF" using assms(5) by (auto simp: isdigit_def code_def)
  have "LF \<notin> set (show_nat n)" using digits by (auto simp: list_all_iff isdigit_def code_def)
  then have "last_completed_line (pre @ ?line @ [LF]) = ?line"
    using assms(1,2) sep by (intro last_completed_line_eq) auto
  moreover have tw: "takeWhile isdigit ?line = show_nat n" using digits sep(1) by (simp add: takeWhile_append list_all_iff)
  have "length (show_nat n) \<le> 9" using show_nat_length_pow [of n 8] assms(4) by simp
  then have "parse_numbered_item ?line = (int n, sep)"
    using assms(4,5) sto_integer_digits [OF digits, of "- (2 ^ 63)" "2 ^ 63 - 1"]
    unfolding parse_numbered_item_def tw Let_def by (auto simp: nth_append)
  ultimately have "propose (pre @ ?line @ [LF]) = show_nat (n + 1) @ [sep] @ '' ''"
    using assms(3) by (simp add: propose_def Let_def show_int_def nat_add_distrib)
  then show "propose (pre @ show_nat n @ [sep] @ '' '' @ body @ [LF]) = show_nat (n + 1) @ [sep] @ '' ''" by simp
  have "\<not> isdigit marker" "marker \<noteq> LF" using assms(6) by (auto simp: isdigit_def code_def)
  moreover from this have "last_completed_line (pre @ ([marker] @ '' '' @ body) @ [LF]) = [marker] @ '' '' @ body"
    using assms(1,2) by (intro last_completed_line_eq) auto
  ultimately have "propose (pre @ ([marker] @ '' '' @ body) @ [LF]) = [marker] @ '' ''"
    using assms(6) by (auto simp: propose_def Let_def parse_numbered_item_def is_bullet_item_def)
  then show "propose (pre @ [marker] @ '' '' @ body @ [LF]) = [marker] @ '' ''" by simp
qed

theorem propose_continues_list_witness:
  "propose (''intro'' @ [LF] @ show_nat 9 @ '') first'' @ [LF]) = show_nat 10 @ '') ''"
  using propose_continues_list [of "''first''" "''intro'' @ [LF]" 9 "CHR '')''" "CHR ''-''"] by simp

end
