(* ===== verification/Std_Map.thy ===== *)
theory Std_Map
  imports Reame_Prelude
begin

text \<open>
  \<open>std::map\<close> as the sources use it: a list of key/value pairs ordered by a comparator.
  The operations take the comparator as an argument, the way the C++ template does; the
  locale \<open>std_compare\<close> states what the standard asks of it (a strict weak order) and
  proves the container's laws once, and the interpretations at the end give them for the
  comparators of the program: \<open>std::less\<close> on strings and on 64-bit keys.  The
  case-insensitive comparator of the HTTP headers is interpreted where it is defined.
\<close>

type_synonym ('k, 'v) smap = "('k \<times> 'v) list"

fun map_find :: "('k \<Rightarrow> 'k \<Rightarrow> bool) \<Rightarrow> 'k \<Rightarrow> ('k, 'v) smap \<Rightarrow> 'v option" where
  "map_find lt k [] = None"
| "map_find lt k ((k', v) # m) =
     (if lt k' k then map_find lt k m else if lt k k' then None else Some v)"

text \<open>\<open>m[k] = v\<close>: an equivalent key already present keeps its spelling.\<close>

fun map_put :: "('k \<Rightarrow> 'k \<Rightarrow> bool) \<Rightarrow> 'k \<Rightarrow> 'v \<Rightarrow> ('k, 'v) smap \<Rightarrow> ('k, 'v) smap" where
  "map_put lt k v [] = [(k, v)]"
| "map_put lt k v ((k', v') # m) =
     (if lt k' k then (k', v') # map_put lt k v m
      else if lt k k' then (k, v) # (k', v') # m else (k', v) # m)"

fun map_erase :: "('k \<Rightarrow> 'k \<Rightarrow> bool) \<Rightarrow> 'k \<Rightarrow> ('k, 'v) smap \<Rightarrow> ('k, 'v) smap" where
  "map_erase lt k [] = []"
| "map_erase lt k ((k', v') # m) =
     (if lt k' k then (k', v') # map_erase lt k m else if lt k k' then (k', v') # m else m)"

text \<open>\<open>m.emplace(k, v)\<close> does nothing when an equivalent key is present.\<close>

definition map_emplace :: "('k \<Rightarrow> 'k \<Rightarrow> bool) \<Rightarrow> 'k \<Rightarrow> 'v \<Rightarrow> ('k, 'v) smap \<Rightarrow> ('k, 'v) smap" where
  "map_emplace lt k v m = (if map_find lt k m = None then map_put lt k v m else m)"

definition map_wf :: "('k \<Rightarrow> 'k \<Rightarrow> bool) \<Rightarrow> ('k, 'v) smap \<Rightarrow> bool" where
  "map_wf lt m \<longleftrightarrow> sorted_wrt lt (map fst m)"

lemma map_wf_Nil [simp]: "map_wf lt []"
  by (simp add: map_wf_def)

lemma map_wf_Cons: "map_wf lt ((k, v) # m) \<longleftrightarrow> (\<forall>k'\<in>set (map fst m). lt k k') \<and> map_wf lt m"
  by (auto simp: map_wf_def)

lemma set_fst_map_put_subset: "set (map fst (map_put lt k v m)) \<subseteq> insert k (set (map fst m))"
  by (induction m) (force simp: image_subset_iff rev_image_eqI split: if_splits)+

lemma set_map_erase_subset: "set (map_erase lt k m) \<subseteq> set m"
  by (induction m) (auto split: if_splits)

lemma map_find_in: "map_find lt k m = Some v \<Longrightarrow> \<exists>k'. (k', v) \<in> set m \<and> \<not> lt k k' \<and> \<not> lt k' k"
  by (induction m) (auto split: if_splits)

locale std_compare =
  fixes lt :: "'k \<Rightarrow> 'k \<Rightarrow> bool"
  assumes lt_irrefl: "\<not> lt x x"
    and lt_trans: "lt x y \<Longrightarrow> lt y z \<Longrightarrow> lt x z"
    and equiv_trans: "\<not> lt x y \<Longrightarrow> \<not> lt y x \<Longrightarrow> \<not> lt y z \<Longrightarrow> \<not> lt z y \<Longrightarrow> \<not> lt x z \<and> \<not> lt z x"
begin

lemma lt_equiv_left: "lt x y \<Longrightarrow> \<not> lt x z \<Longrightarrow> \<not> lt z x \<Longrightarrow> lt z y"
  using equiv_trans lt_trans by metis

lemma lt_equiv_right: "lt x y \<Longrightarrow> \<not> lt y z \<Longrightarrow> \<not> lt z y \<Longrightarrow> lt x z"
  using equiv_trans lt_trans by metis

lemma wf_put: "map_wf lt m \<Longrightarrow> map_wf lt (map_put lt k v m)"
proof (induction m)
  case Nil
  then show ?case by (simp add: map_wf_def)
next
  case (Cons a m)
  obtain k' v' where a: "a = (k', v')" by (cases a)
  from Cons a have IH: "map_wf lt (map_put lt k v m)" and wf: "\<forall>x\<in>set (map fst m). lt k' x" "map_wf lt m"
    by (auto simp: map_wf_Cons)
  show ?case
  proof (cases "lt k' k")
    case True
    have "\<forall>x\<in>set (map fst (map_put lt k v m)). lt k' x"
      using set_fst_map_put_subset [of lt k v m] wf(1) True by blast
    with IH True a show ?thesis by (simp add: map_wf_Cons)
  next
    case False
    with wf a show ?thesis
      by (auto simp: map_wf_Cons intro: lt_trans)
  qed
qed

lemma wf_erase: "map_wf lt m \<Longrightarrow> map_wf lt (map_erase lt k m)"
proof (induction m)
  case (Cons a m)
  obtain k' v' where a: "a = (k', v')" by (cases a)
  have "set (map_erase lt k m) \<subseteq> set m" by (rule set_map_erase_subset)
  with Cons a show ?case by (fastforce simp: map_wf_Cons)
qed simp

lemma wf_emplace: "map_wf lt m \<Longrightarrow> map_wf lt (map_emplace lt k v m)"
  by (simp add: map_emplace_def wf_put)

lemma find_none_above: "\<forall>x\<in>set (map fst m). lt k x \<Longrightarrow> map_find lt k m = None"
  by (induction m) (auto dest: lt_trans simp: lt_irrefl)

lemma find_put:
  assumes "map_wf lt m"
  shows "map_find lt k (map_put lt k' v m) =
    (if \<not> lt k k' \<and> \<not> lt k' k then Some v else map_find lt k m)"
  using assms
proof (induction m)
  case Nil
  then show ?case by auto
next
  case (Cons a m)
  obtain k0 v0 where a: "a = (k0, v0)" by (cases a)
  with Cons have IH: "map_find lt k (map_put lt k' v m) =
      (if \<not> lt k k' \<and> \<not> lt k' k then Some v else map_find lt k m)"
    by (simp add: map_wf_Cons)
  consider (below) "lt k0 k'" | (above) "\<not> lt k0 k'" "lt k' k0" | (same) "\<not> lt k0 k'" "\<not> lt k' k0"
    by blast
  then show ?case
  proof cases
    case below
    have "\<not> lt k0 k \<Longrightarrow> lt k k'" using below lt_trans lt_equiv_left by metis
    with below IH a show ?thesis by auto
  next
    case above
    have "\<not> lt k k' \<Longrightarrow> \<not> lt k' k \<Longrightarrow> \<not> lt k0 k" using above lt_equiv_left lt_trans lt_irrefl by metis
    moreover have "lt k k' \<Longrightarrow> lt k k0" using above lt_trans by blast
    moreover have "lt k k' \<Longrightarrow> \<not> lt k0 k" using above lt_trans lt_irrefl by blast
    ultimately show ?thesis using above a by auto
  next
    case same
    then have "lt k0 k \<longleftrightarrow> lt k' k" "lt k k0 \<longleftrightarrow> lt k k'"
      using lt_equiv_left lt_equiv_right by blast+
    with same a show ?thesis by auto
  qed
qed

lemma find_erase:
  assumes "map_wf lt m"
  shows "map_find lt k (map_erase lt k' m) =
    (if \<not> lt k k' \<and> \<not> lt k' k then None else map_find lt k m)"
  using assms
proof (induction m)
  case Nil
  then show ?case by auto
next
  case (Cons a m)
  obtain k0 v0 where a: "a = (k0, v0)" by (cases a)
  with Cons have IH: "map_find lt k (map_erase lt k' m) =
      (if \<not> lt k k' \<and> \<not> lt k' k then None else map_find lt k m)"
    and above: "\<forall>x\<in>set (map fst m). lt k0 x"
    by (auto simp: map_wf_Cons)
  have none: "\<not> lt k k0 \<Longrightarrow> \<not> lt k0 k \<Longrightarrow> map_find lt k m = None"
    by (rule find_none_above) (use above lt_equiv_left in blast)
  have none': "lt k k0 \<Longrightarrow> map_find lt k m = None"
    by (rule find_none_above) (use above lt_trans in blast)
  consider (below) "lt k0 k'" | (above) "\<not> lt k0 k'" "lt k' k0" | (same) "\<not> lt k0 k'" "\<not> lt k' k0"
    by blast
  then show ?case
  proof cases
    case below
    have "\<not> lt k0 k \<Longrightarrow> lt k k'" using below lt_trans lt_equiv_left by metis
    with below IH a show ?thesis by auto
  next
    case above
    have "\<not> lt k k' \<Longrightarrow> \<not> lt k' k \<Longrightarrow> lt k k0 \<and> \<not> lt k0 k"
      using above lt_equiv_left lt_trans lt_irrefl by metis
    with above a show ?thesis by auto
  next
    case same
    then have "lt k0 k \<longleftrightarrow> lt k' k" "lt k k0 \<longleftrightarrow> lt k k'"
      using lt_equiv_left lt_equiv_right by blast+
    with same a none none' show ?thesis by auto
  qed
qed

lemma find_mem:
  assumes "map_wf lt m" "(k, v) \<in> set m"
  shows "map_find lt k m = Some v"
  using assms
proof (induction m)
  case (Cons a m)
  obtain k0 v0 where a: "a = (k0, v0)" by (cases a)
  show ?case
  proof (cases "(k, v) \<in> set m")
    case True
    with Cons.prems a have "lt k0 k" by (force simp: map_wf_Cons)
    with True Cons a show ?thesis by (simp add: map_wf_Cons)
  next
    case False
    with Cons.prems a show ?thesis by (simp add: lt_irrefl)
  qed
qed simp

lemma length_erase:
  assumes "map_find lt k m = Some v"
  shows "Suc (length (map_erase lt k m)) = length m"
  using assms by (induction m) (auto split: if_splits)

lemma wf_distinct: "map_wf lt m \<Longrightarrow> distinct (map fst m)"
  using lt_irrefl by (induction m) (fastforce simp: map_wf_Cons)+

end

text \<open>With a total order, equivalence of keys is equality.\<close>

locale std_less = std_compare +
  assumes lt_total: "x \<noteq> y \<Longrightarrow> lt x y \<or> lt y x"
begin

lemma equiv_iff_eq: "\<not> lt x y \<and> \<not> lt y x \<longleftrightarrow> x = y"
  using lt_total lt_irrefl by blast

lemma find_put_eq:
  "map_wf lt m \<Longrightarrow> map_find lt k (map_put lt k' v m) = (if k = k' then Some v else map_find lt k m)"
  using find_put [of m k k' v] equiv_iff_eq by presburger

lemma find_erase_eq:
  "map_wf lt m \<Longrightarrow> map_find lt k (map_erase lt k' m) = (if k = k' then None else map_find lt k m)"
  using find_erase [of m k k'] equiv_iff_eq by presburger

lemma find_emplace_eq:
  "map_wf lt m \<Longrightarrow> map_find lt k (map_emplace lt k' v m) =
     (if k = k' \<and> map_find lt k m = None then Some v else map_find lt k m)"
  by (auto simp: map_emplace_def find_put_eq)

lemma find_Some_iff: "map_wf lt m \<Longrightarrow> map_find lt k m = Some v \<longleftrightarrow> (k, v) \<in> set m"
  using map_find_in [of lt k m v] find_mem [of m k v] equiv_iff_eq by metis

lemma find_None_iff: "map_wf lt m \<Longrightarrow> map_find lt k m = None \<longleftrightarrow> k \<notin> set (map fst m)"
proof -
  assume wf: "map_wf lt m"
  have "map_find lt k m \<noteq> None \<longleftrightarrow> (\<exists>v. (k, v) \<in> set m)"
    using find_Some_iff [OF wf, of k] by auto
  also have "\<dots> \<longleftrightarrow> k \<in> set (map fst m)" by force
  finally show ?thesis by blast
qed

lemma set_put: "map_wf lt m \<Longrightarrow> set (map_put lt k v m) = insert (k, v) {p \<in> set m. fst p \<noteq> k}"
proof -
  assume wf: "map_wf lt m"
  show ?thesis
  proof (intro set_eqI iffI)
    fix p assume "p \<in> set (map_put lt k v m)"
    then show "p \<in> insert (k, v) {p \<in> set m. fst p \<noteq> k}"
      using find_Some_iff [OF wf_put [OF wf], of "fst p" k v "snd p"] find_put_eq [OF wf, of "fst p" k v]
        find_Some_iff [OF wf, of "fst p" "snd p"] by (cases p) (auto split: if_splits)
  next
    fix p assume "p \<in> insert (k, v) {p \<in> set m. fst p \<noteq> k}"
    then show "p \<in> set (map_put lt k v m)"
      using find_Some_iff [OF wf_put [OF wf], of "fst p" k v "snd p"] find_put_eq [OF wf, of "fst p" k v]
        find_Some_iff [OF wf, of "fst p" "snd p"] by (cases p) (auto split: if_splits)
  qed
qed

lemma set_erase: "map_wf lt m \<Longrightarrow> set (map_erase lt k m) = {p \<in> set m. fst p \<noteq> k}"
proof -
  assume wf: "map_wf lt m"
  have "p \<in> set (map_erase lt k m) \<longleftrightarrow> p \<in> set m \<and> fst p \<noteq> k" for p
    using find_Some_iff [OF wf_erase [OF wf], of "fst p" k "snd p"] find_erase_eq [OF wf, of "fst p" k]
      find_Some_iff [OF wf, of "fst p" "snd p"] by (cases p) (auto split: if_splits)
  then show ?thesis by blast
qed

lemma sum_put_fresh:
  "map_find lt k m = None \<Longrightarrow>
     sum_list (map f (map_put lt k v m)) = f (k, v) + (sum_list (map f m) :: nat)"
  by (induction m) (auto split: if_splits simp: lt_irrefl dest: lt_total)

lemma sum_put_present:
  "map_find lt k m = Some v' \<Longrightarrow> map_wf lt m \<Longrightarrow>
     sum_list (map f (map_put lt k v m)) + f (k, v') = f (k, v) + (sum_list (map f m) :: nat)"
proof (induction m)
  case (Cons a m)
  obtain k0 v0 where a: "a = (k0, v0)" by (cases a)
  have "\<not> lt k0 k \<Longrightarrow> \<not> lt k k0 \<Longrightarrow> k0 = k" using equiv_iff_eq by blast
  with Cons a show ?case by (auto simp: map_wf_Cons split: if_splits)
qed simp

lemma sum_erase:
  "map_find lt k m = Some v \<Longrightarrow>
     sum_list (map f (map_erase lt k m)) + f (k, v) = (sum_list (map f m) :: nat)"
proof (induction m)
  case (Cons a m)
  obtain k0 v0 where a: "a = (k0, v0)" by (cases a)
  have "\<not> lt k0 k \<Longrightarrow> \<not> lt k k0 \<Longrightarrow> k0 = k" using equiv_iff_eq by blast
  with Cons a show ?case by (auto split: if_splits)
qed simp

end

interpretation str_map: std_less "(<) :: bytes \<Rightarrow> bytes \<Rightarrow> bool"
  by unfold_locales auto

interpretation u64_map: std_less "(<) :: u64 \<Rightarrow> u64 \<Rightarrow> bool"
  by unfold_locales auto

end
