(* ===== verification/Corpus_Index.thy ===== *)
theory Corpus_Index
  imports Std_Map Cache_Serializer
begin

text \<open>
  The Palimpsest generation memory (\<open>src/src/palimpsest/corpus_index.cpp\<close>): a flat token log
  cut into streams, an n-gram index of continuation sites, a budget that drops the oldest
  streams, and a framed log file.  The \<open>std::unordered_map\<close> of sites is kept as an ordered
  map (its iteration order is never used); the log file is a byte string, absent before the
  first write; writes to it succeed.  The n-gram length and the number of sites kept are
  non-negative integers.  A read outside the log is the error \<open>OutOfBounds\<close>.
\<close>

section \<open>Model\<close>

record corpus =
  ci_ngram :: nat
  ci_max_log_bytes :: u64
  ci_max_sites :: nat
  ci_log :: "token list"
  ci_ends :: "nat list"
  ci_flushed :: nat
  ci_index :: "(u64, u32 list) smap"
  ci_file :: "bytes option"

datatype cpp_ub = OutOfBounds

definition ngram_byte :: "token \<Rightarrow> u64 \<Rightarrow> nat \<Rightarrow> u64" where
  "ngram_byte v h b = (h XOR ucast (drop_bit (8 * b) v AND 0xFF)) * 0x100000001b3"

definition ngram_key :: "token list \<Rightarrow> u64" where
  "ngram_key tokens = foldl (\<lambda>h v. foldl (ngram_byte v) h [0..<4]) 0xcbf29ce484222325 tokens"

definition max_tokens :: "corpus \<Rightarrow> nat" where
  "max_tokens c = unat (ci_max_log_bytes c) div 4"

text \<open>\<open>std::upper_bound\<close> over the ascending stream ends.\<close>

definition stream_end_for :: "corpus \<Rightarrow> nat \<Rightarrow> nat" where
  "stream_end_for c offset =
     (case find (\<lambda>e. offset < e) (ci_ends c) of None \<Rightarrow> length (ci_log c) | Some e \<Rightarrow> e)"

fun trim_sites :: "nat \<Rightarrow> u32 list \<Rightarrow> u32 list" where
  "trim_sites m [] = []"
| "trim_sites m (s # sites) = (if m < length (s # sites) then trim_sites m sites else s # sites)"

definition index_site :: "corpus \<Rightarrow> nat \<Rightarrow> (u64, u32 list) smap \<Rightarrow> (u64, u32 list) smap" where
  "index_site c i idx =
     (let n = ci_ngram c;
          key = ngram_key (take n (drop i (ci_log c)));
          sites = (case map_find (<) key idx of None \<Rightarrow> [] | Some sites \<Rightarrow> sites)
      in map_put (<) key (trim_sites (ci_max_sites c) (sites @ [of_nat (i + n)])) idx)"

definition index_stream :: "nat \<Rightarrow> nat \<Rightarrow> corpus \<Rightarrow> corpus" where
  "index_stream beg fin c =
     (if fin - beg < ci_ngram c + 1 then c
      else c\<lparr>ci_index := fold (index_site c) [beg..<fin - ci_ngram c] (ci_index c)\<rparr>)"

fun rebuild_loop :: "nat \<Rightarrow> nat list \<Rightarrow> corpus \<Rightarrow> corpus" where
  "rebuild_loop beg [] c = c"
| "rebuild_loop beg (fin # ends) c = rebuild_loop fin ends (index_stream beg fin c)"

definition rebuild_index :: "corpus \<Rightarrow> corpus" where
  "rebuild_index c = rebuild_loop 0 (ci_ends c) (c\<lparr>ci_index := []\<rparr>)"

text \<open>One framed record: \<open>u32\<close> length, then the raw tokens of \<open>log[begin, end)\<close>.\<close>

definition stream_frame :: "token list \<Rightarrow> nat \<Rightarrow> nat \<Rightarrow> bytes" where
  "stream_frame log beg fin =
     (let len = of_nat (fin - beg) :: u32
      in le_bytes 4 len @ concat (map (le_bytes 4) (take (unat len) (drop beg log))))"

fun rewrite_loop :: "token list \<Rightarrow> nat \<Rightarrow> nat list \<Rightarrow> bytes" where
  "rewrite_loop log beg [] = []"
| "rewrite_loop log beg (fin # ends) = stream_frame log beg fin @ rewrite_loop log fin ends"

definition rewrite_file :: "corpus \<Rightarrow> corpus" where
  "rewrite_file c = c\<lparr>ci_file := Some (rewrite_loop (ci_log c) 0 (ci_ends c)),
     ci_flushed := length (ci_ends c)\<rparr>"

fun evict_scan :: "nat \<Rightarrow> nat \<Rightarrow> nat list \<Rightarrow> nat \<Rightarrow> nat \<Rightarrow> nat \<times> nat" where
  "evict_scan tot budget [] drop_streams drop_tokens = (drop_streams, drop_tokens)"
| "evict_scan tot budget (e # ends) drop_streams drop_tokens =
     (if budget < tot - drop_tokens then evict_scan tot budget ends (drop_streams + 1) e
      else (drop_streams, drop_tokens))"

definition evict_oldest :: "corpus \<Rightarrow> corpus" where
  "evict_oldest c =
     (let (drop_streams, drop_tokens) = evict_scan (length (ci_log c)) (max_tokens c) (ci_ends c) 0 0
      in rewrite_file (rebuild_index (c\<lparr>ci_log := drop drop_tokens (ci_log c),
           ci_ends := map (\<lambda>e. e - drop_tokens) (drop drop_streams (ci_ends c))\<rparr>)))"

text \<open>The common step of \<open>observe\<close> and \<open>load\<close>: append a stream and index it.\<close>

definition append_stream :: "token list \<Rightarrow> corpus \<Rightarrow> corpus" where
  "append_stream tokens c =
     (let log = ci_log c @ tokens
      in index_stream (length (ci_log c)) (length log)
           (c\<lparr>ci_log := log, ci_ends := ci_ends c @ [length log]\<rparr>))"

definition observe :: "token list \<Rightarrow> corpus \<Rightarrow> corpus" where
  "observe tokens c =
     (if tokens = [] then c
      else let c1 = append_stream tokens c
           in if max_tokens c1 < length (ci_log c1) then evict_oldest c1 else c1)"

fun draft_scan :: "corpus \<Rightarrow> token list \<Rightarrow> nat \<Rightarrow> u32 list \<Rightarrow> cpp_ub + token list" where
  "draft_scan c gram k [] = Inr []"
| "draft_scan c gram k (s # sites) =
     (let n = ci_ngram c;
          start = unat s;
          fin = stream_end_for c (if 0 < start then start - 1 else 0)
      in if fin \<le> start then draft_scan c gram k sites
         else if start < n \<or> length (ci_log c) < start then Inl OutOfBounds
         else if take n (drop (start - n) (ci_log c)) \<noteq> gram then draft_scan c gram k sites
         else let took = min (fin - start) k
              in if length (ci_log c) < start + took then Inl OutOfBounds
                 else Inr (take took (drop start (ci_log c))))"

definition draft :: "corpus \<Rightarrow> token list \<Rightarrow> int \<Rightarrow> cpp_ub + token list" where
  "draft c tail k =
     (let n = ci_ngram c in
      if k \<le> 0 \<or> length tail < n then Inr []
      else let gram = drop (length tail - n) tail
           in case map_find (<) (ngram_key gram) (ci_index c) of
                None \<Rightarrow> Inr []
              | Some sites \<Rightarrow> draft_scan c gram (nat k) (rev sites))"

fun read_tokens :: "nat \<Rightarrow> bytes \<Rightarrow> token list" where
  "read_tokens 0 bs = []"
| "read_tokens (Suc n) bs = le_read (take 4 bs) # read_tokens n (drop 4 bs)"

function load_loop :: "bytes \<Rightarrow> corpus \<Rightarrow> corpus" where
  "load_loop bs c =
     (if length bs < 4 then c
      else let len = unat (le_read (take 4 bs) :: u32) in
        if len = 0 \<or> 2 ^ 26 < len then c
        else if length (drop 4 bs) < 4 * len then c
        else load_loop (drop (4 + 4 * len) bs) (append_stream (read_tokens len (drop 4 bs)) c))"
  by pat_completeness auto
termination
  by (relation "measure (length \<circ> fst)") auto

declare load_loop.simps [simp del]

definition load :: "corpus \<Rightarrow> corpus" where
  "load c =
     (case ci_file c of
        None \<Rightarrow> c
      | Some bs \<Rightarrow>
          let c1 = load_loop bs c;
              c2 = c1\<lparr>ci_flushed := length (ci_ends c1)\<rparr>
          in if max_tokens c2 < length (ci_log c2) then evict_oldest c2 else c2)"

definition corpus_open :: "nat \<Rightarrow> u64 \<Rightarrow> nat \<Rightarrow> bytes option \<Rightarrow> corpus" where
  "corpus_open ngram max_log_bytes max_sites file =
     load \<lparr>ci_ngram = ngram, ci_max_log_bytes = max_log_bytes, ci_max_sites = max_sites, ci_log = [],
           ci_ends = [], ci_flushed = 0, ci_index = [], ci_file = file\<rparr>"

definition flush_stream :: "corpus \<Rightarrow> nat \<Rightarrow> bytes" where
  "flush_stream c s =
     stream_frame (ci_log c) (if s = 0 then 0 else ci_ends c ! (s - 1)) (ci_ends c ! s)"

definition flush :: "corpus \<Rightarrow> corpus" where
  "flush c =
     (if length (ci_ends c) \<le> ci_flushed c then c
      else c\<lparr>ci_file := Some ((case ci_file c of None \<Rightarrow> [] | Some bs \<Rightarrow> bs) @
               concat (map (flush_stream c) [ci_flushed c..<length (ci_ends c)])),
             ci_flushed := length (ci_ends c)\<rparr>)"

definition key_count :: "corpus \<Rightarrow> nat" where
  "key_count c = length (ci_index c)"

definition log_size :: "corpus \<Rightarrow> nat" where
  "log_size c = length (ci_log c)"


section \<open>Streams\<close>

text \<open>
  The abstract content: the list of streams.  \<open>chain\<close> says the stream ends cut the log into
  non-empty streams.
\<close>

fun slices :: "'a list \<Rightarrow> nat \<Rightarrow> nat list \<Rightarrow> 'a list list" where
  "slices log b [] = []"
| "slices log b (e # es) = take (e - b) (drop b log) # slices log e es"

fun chain :: "nat \<Rightarrow> nat list \<Rightarrow> nat \<Rightarrow> bool" where
  "chain b [] tot \<longleftrightarrow> b = tot"
| "chain b (e # es) tot \<longleftrightarrow> b < e \<and> chain e es tot"

definition streams :: "corpus \<Rightarrow> token list list" where
  "streams c = slices (ci_log c) 0 (ci_ends c)"

lemma chain_le: "chain b es tot \<Longrightarrow> b \<le> tot \<and> (\<forall>e\<in>set es. b < e \<and> e \<le> tot)"
  by (induction es arbitrary: b) fastforce+

lemma chain_snoc: "chain b es tot \<Longrightarrow> tot < tot' \<Longrightarrow> chain b (es @ [tot']) tot'"
  by (induction es arbitrary: b) auto

lemma slices_append:
  "chain b es (length log) \<Longrightarrow> slices (log @ ext) b (es @ [length (log @ ext)]) = slices log b es @ [ext]"
proof (induction es arbitrary: b)
  case (Cons e es)
  then show ?case using chain_le [of e es "length log"] by simp
qed simp

lemma length_slices [simp]: "length (slices log b es) = length es"
  by (induction es arbitrary: b) auto

lemma concat_slices: "chain b es (length log) \<Longrightarrow> concat (slices log b es) = drop b log"
proof (induction es arbitrary: b)
  case (Cons e es)
  then have "take (e - b) (drop b log) @ drop (e - b) (drop b log) = drop b log" "b < e"
    by (simp_all only: append_take_drop_id) simp
  with Cons show ?case by simp
qed simp

fun running :: "nat \<Rightarrow> nat list \<Rightarrow> nat list" where
  "running b [] = []"
| "running b (n # ns) = (b + n) # running (b + n) ns"

lemma ends_of_slices: "chain b es (length log) \<Longrightarrow> running b (map length (slices log b es)) = es"
proof (induction es arbitrary: b)
  case (Cons e es)
  then have "min (length log - b) (e - b) = e - b"
    using chain_le [of e es "length log"] by (simp add: min_absorb2 diff_le_mono)
  with Cons show ?case by simp
qed simp

lemma slices_nonempty: "chain b es (length log) \<Longrightarrow> s \<in> set (slices log b es) \<Longrightarrow> s \<noteq> []"
proof (induction es arbitrary: b)
  case (Cons e es)
  then show ?case using chain_le [of e es "length log"] by auto
qed simp

lemma slices_nth:
  "i < length es \<Longrightarrow> slices log b es ! i = (let a = (b # es) ! i in take (es ! i - a) (drop a log))"
  by (induction es arbitrary: b i) (auto simp: Let_def nth_Cons split: nat.splits)

section \<open>The index\<close>

definition gram_at :: "nat \<Rightarrow> token list \<Rightarrow> nat \<Rightarrow> token list" where
  "gram_at n log s = take n (drop (s - n) log)"

definition last_n :: "nat \<Rightarrow> 'a list \<Rightarrow> 'a list" where
  "last_n m xs = drop (length xs - m) xs"

fun chain_sites :: "nat \<Rightarrow> nat \<Rightarrow> nat list \<Rightarrow> nat list" where
  "chain_sites n b [] = []"
| "chain_sites n b (e # es) = map (\<lambda>i. i + n) [b..<e - n] @ chain_sites n e es"

definition sites_for :: "nat \<Rightarrow> token list \<Rightarrow> nat list \<Rightarrow> u64 \<Rightarrow> nat list" where
  "sites_for n log ss key = filter (\<lambda>s. ngram_key (gram_at n log s) = key) ss"

definition index_spec :: "nat \<Rightarrow> nat \<Rightarrow> token list \<Rightarrow> nat list \<Rightarrow> (u64, u32 list) smap \<Rightarrow> bool" where
  "index_spec n m log ss idx \<longleftrightarrow> map_wf (<) idx \<and>
     (\<forall>key. map_find (<) key idx =
        (if sites_for n log ss key = [] then None else Some (map of_nat (last_n m (sites_for n log ss key)))))"

definition corpus_wf :: "corpus \<Rightarrow> bool" where
  "corpus_wf c \<longleftrightarrow> chain 0 (ci_ends c) (length (ci_log c)) \<and> ci_flushed c \<le> length (ci_ends c)
     \<and> index_spec (ci_ngram c) (ci_max_sites c) (ci_log c) (chain_sites (ci_ngram c) 0 (ci_ends c)) (ci_index c)"

lemma trim_sites_last: "trim_sites m xs = last_n m xs"
  unfolding last_n_def by (induction xs) (auto simp: Suc_diff_le)

lemma last_n_snoc: "last_n m (last_n m xs @ [x]) = last_n m (xs @ [x])"
  by (cases "m \<le> length xs") (auto simp: last_n_def Suc_diff_le)

lemma last_n_map: "last_n m (map f xs) = map f (last_n m xs)"
  by (simp add: last_n_def drop_map)

lemma last_n_Nil [simp]: "last_n m [] = []"
  by (simp add: last_n_def)

lemma set_last_n: "set (last_n m xs) \<subseteq> set xs"
  by (simp add: last_n_def set_drop_subset)

lemma last_last_n: "0 < m \<Longrightarrow> xs \<noteq> [] \<Longrightarrow> last_n m xs \<noteq> [] \<and> last (last_n m xs) = last xs"
  by (cases xs) (auto simp: last_n_def)

lemma index_spec_site:
  assumes "index_spec (ci_ngram c) (ci_max_sites c) (ci_log c) ss idx"
  shows "index_spec (ci_ngram c) (ci_max_sites c) (ci_log c) (ss @ [i + ci_ngram c]) (index_site c i idx)"
proof -
  let ?n = "ci_ngram c" and ?m = "ci_max_sites c"
  let ?key = "ngram_key (take ?n (drop i (ci_log c)))"
  let ?old = "sites_for ?n (ci_log c) ss"
  have wf: "map_wf (<) idx" and find: "\<And>key. map_find (<) key idx =
      (if ?old key = [] then None else Some (map of_nat (last_n ?m (?old key))))"
    using assms by (auto simp: index_spec_def)
  have new: "sites_for ?n (ci_log c) (ss @ [i + ?n]) key = ?old key @ (if key = ?key then [i + ?n] else [])" for key
    by (auto simp: sites_for_def gram_at_def)
  have "trim_sites ?m ((case map_find (<) ?key idx of None \<Rightarrow> [] | Some sites \<Rightarrow> sites) @ [of_nat (i + ?n)]) =
      map of_nat (last_n ?m (?old ?key @ [i + ?n]))"
  proof -
    have "(case map_find (<) ?key idx of None \<Rightarrow> [] | Some sites \<Rightarrow> sites) = map of_nat (last_n ?m (?old ?key))"
      by (simp add: find)
    moreover have "last_n ?m (map of_nat (last_n ?m (?old ?key)) @ [of_nat (i + ?n)]) =
        map of_nat (last_n ?m (last_n ?m (?old ?key) @ [i + ?n]))"
      by (simp add: last_n_map [symmetric])
    ultimately show ?thesis by (simp add: trim_sites_last last_n_snoc)
  qed
  then have "index_site c i idx = map_put (<) ?key (map of_nat (last_n ?m (?old ?key @ [i + ?n]))) idx"
    by (simp add: index_site_def Let_def)
  then show ?thesis
    unfolding index_spec_def new using wf
    by (auto simp: u64_map.wf_put u64_map.find_put_eq find)
qed

lemma index_spec_fold:
  "index_spec (ci_ngram c) (ci_max_sites c) (ci_log c) ss idx \<Longrightarrow>
     index_spec (ci_ngram c) (ci_max_sites c) (ci_log c) (ss @ map (\<lambda>i. i + ci_ngram c) is) (fold (index_site c) is idx)"
proof (induction "is" arbitrary: ss idx)
  case (Cons i "is")
  from Cons.IH [OF index_spec_site [OF Cons.prems, of i]] show ?case by simp
qed simp

lemma index_stream_frame [simp]:
  "ci_ngram (index_stream b e c) = ci_ngram c" "ci_max_sites (index_stream b e c) = ci_max_sites c"
  "ci_log (index_stream b e c) = ci_log c" "ci_ends (index_stream b e c) = ci_ends c"
  "ci_flushed (index_stream b e c) = ci_flushed c" "ci_file (index_stream b e c) = ci_file c"
  "ci_max_log_bytes (index_stream b e c) = ci_max_log_bytes c"
  by (simp_all add: index_stream_def)

lemma index_spec_stream:
  assumes "index_spec (ci_ngram c) (ci_max_sites c) (ci_log c) ss (ci_index c)"
  shows "index_spec (ci_ngram c) (ci_max_sites c) (ci_log c)
    (ss @ map (\<lambda>i. i + ci_ngram c) [b..<e - ci_ngram c]) (ci_index (index_stream b e c))"
  using assms index_spec_fold [OF assms, of "[b..<e - ci_ngram c]"] by (auto simp: index_stream_def)

lemma rebuild_loop_frame [simp]:
  "ci_ngram (rebuild_loop b es c) = ci_ngram c" "ci_max_sites (rebuild_loop b es c) = ci_max_sites c"
  "ci_log (rebuild_loop b es c) = ci_log c" "ci_ends (rebuild_loop b es c) = ci_ends c"
  "ci_max_log_bytes (rebuild_loop b es c) = ci_max_log_bytes c"
  by (induction b es c rule: rebuild_loop.induct) simp_all

lemma index_spec_rebuild:
  "index_spec (ci_ngram c) (ci_max_sites c) (ci_log c) ss (ci_index c) \<Longrightarrow>
   index_spec (ci_ngram c) (ci_max_sites c) (ci_log c) (ss @ chain_sites (ci_ngram c) b es) (ci_index (rebuild_loop b es c))"
proof (induction b es c arbitrary: ss rule: rebuild_loop.induct)
  case (2 b e es c)
  from "2.IH" [of "ss @ map (\<lambda>i. i + ci_ngram c) [b..<e - ci_ngram c]"] index_spec_stream [OF "2.prems", of b e]
  show ?case by simp
qed simp

lemma chain_sites_append: "chain_sites n b (es @ [e]) = chain_sites n b es @ map (\<lambda>i. i + n) [last (b # es)..<e - n]"
  by (induction es arbitrary: b) auto

lemma chain_last: "chain b es tot \<Longrightarrow> last (b # es) = tot"
  by (induction es arbitrary: b) auto

lemma chain_sites_bounds:
  "chain b es tot \<Longrightarrow> s \<in> set (chain_sites n b es) \<Longrightarrow> b + n \<le> s \<and> s < tot"
proof (induction es arbitrary: b)
  case (Cons e es)
  then show ?case using chain_le [of e es tot] by fastforce
qed simp

lemma index_spec_extend:
  assumes "index_spec n m log ss idx" "\<forall>s\<in>set ss. s \<le> length log \<and> n \<le> s"
  shows "index_spec n m (log @ ext) ss idx"
proof -
  have "sites_for n (log @ ext) ss key = sites_for n log ss key" for key
    unfolding sites_for_def by (rule filter_cong) (use assms(2) in \<open>auto simp: gram_at_def\<close>)
  with assms(1) show ?thesis by (simp add: index_spec_def)
qed


section \<open>Appending and evicting streams\<close>

lemma append_stream_frame [simp]:
  "ci_ngram (append_stream t c) = ci_ngram c" "ci_max_sites (append_stream t c) = ci_max_sites c"
  "ci_log (append_stream t c) = ci_log c @ t" "ci_ends (append_stream t c) = ci_ends c @ [length (ci_log c) + length t]"
  "ci_flushed (append_stream t c) = ci_flushed c" "ci_file (append_stream t c) = ci_file c"
  "max_tokens (append_stream t c) = max_tokens c"
  by (simp_all add: append_stream_def Let_def max_tokens_def)

lemma append_stream_wf:
  assumes "corpus_wf c" "t \<noteq> []"
  shows "corpus_wf (append_stream t c)"
proof -
  let ?n = "ci_ngram c" and ?m = "ci_max_sites c" and ?L = "length (ci_log c)"
  let ?c = "c\<lparr>ci_log := ci_log c @ t, ci_ends := ci_ends c @ [?L + length t]\<rparr>"
  have chain: "chain 0 (ci_ends c) ?L" using assms(1) by (simp add: corpus_wf_def)
  have "index_spec ?n ?m (ci_log c @ t) (chain_sites ?n 0 (ci_ends c)) (ci_index c)"
    using assms(1) chain_sites_bounds [OF chain, of _ ?n] by (intro index_spec_extend) (fastforce simp: corpus_wf_def)+
  then have "index_spec ?n ?m (ci_log c @ t)
      (chain_sites ?n 0 (ci_ends c) @ map (\<lambda>i. i + ?n) [?L..<?L + length t - ?n]) (ci_index (append_stream t c))"
    using index_spec_stream [of ?c "chain_sites ?n 0 (ci_ends c)" ?L "?L + length t"]
    by (simp add: append_stream_def Let_def)
  moreover have "last (0 # ci_ends c) = ?L" by (rule chain_last [OF chain])
  ultimately show ?thesis
    using assms chain_snoc [OF chain, of "?L + length t"]
    by (simp add: corpus_wf_def chain_sites_append del: last.simps)
qed

lemma streams_append: "corpus_wf c \<Longrightarrow> streams (append_stream t c) = streams c @ [t]"
  using slices_append [of 0 "ci_ends c" "ci_log c" t] by (simp add: streams_def corpus_wf_def)

text \<open>The abstract eviction: the longest suffix of whole streams that fits the budget.\<close>

fun fit_suffix :: "nat \<Rightarrow> 'a list list \<Rightarrow> 'a list list" where
  "fit_suffix budget [] = []"
| "fit_suffix budget (x # xs) =
     (if budget < sum_list (map length (x # xs)) then fit_suffix budget xs else x # xs)"

lemma fit_suffix_fits: "sum_list (map length xs) \<le> budget \<Longrightarrow> fit_suffix budget xs = xs"
  by (cases xs) auto

lemma fit_suffix_drop: "\<exists>j\<le>length xs. fit_suffix budget xs = drop j xs"
proof (induction xs)
  case (Cons x xs)
  then obtain j where "j \<le> length xs" "fit_suffix budget xs = drop j xs" by blast
  then show ?case
    by (cases "budget < sum_list (map length (x # xs))")
      (auto intro: exI [of _ "Suc j"] exI [of _ 0])
qed simp

lemma fit_suffix_le: "sum_list (map length (fit_suffix budget xs)) \<le> budget"
  by (induction xs) auto

lemma sum_slices: "chain b es (length log) \<Longrightarrow> sum_list (map length (slices log b es)) = length log - b"
  using concat_slices [of b es log] length_concat [of "slices log b es"] by simp

lemma slices_shift: "d \<le> b \<Longrightarrow> \<forall>e\<in>set es. d \<le> e \<Longrightarrow>
    slices (drop d log) (b - d) (map (\<lambda>e. e - d) es) = slices log b es"
  by (induction es arbitrary: b) auto

lemma slices_drop: "j \<le> length es \<Longrightarrow> drop j (slices log b es) = slices log ((b # es) ! j) (drop j es)"
proof (induction es arbitrary: b j)
  case (Cons e es)
  then show ?case by (cases j) auto
qed simp

lemma chain_drop: "j \<le> length es \<Longrightarrow> chain b es tot \<Longrightarrow> chain ((b # es) ! j) (drop j es) tot"
proof (induction es arbitrary: b j)
  case (Cons e es)
  then show ?case by (cases j) auto
qed simp

lemma chain_shift: "d \<le> b \<Longrightarrow> chain b es tot \<Longrightarrow> chain (b - d) (map (\<lambda>e. e - d) es) (tot - d)"
  by (induction es arbitrary: b) auto

lemma evict_scan_fit:
  "chain b es (length log) \<Longrightarrow> \<exists>j\<le>length es. evict_scan (length log) budget es ds b = (ds + j, (b # es) ! j)
     \<and> drop j (slices log b es) = fit_suffix budget (slices log b es)"
proof (induction es arbitrary: b ds)
  case (Cons e es)
  have sum: "sum_list (map length (slices log b (e # es))) = length log - b" by (rule sum_slices [OF Cons.prems])
  show ?case
  proof (cases "budget < length log - b")
    case True
    obtain j where "j \<le> length es" "evict_scan (length log) budget es (ds + 1) e = (ds + 1 + j, (e # es) ! j)"
      "drop j (slices log e es) = fit_suffix budget (slices log e es)"
      using Cons.IH [of e "ds + 1"] Cons.prems by auto
    with True sum show ?thesis by (intro exI [of _ "Suc j"]) auto
  next
    case False
    with sum show ?thesis by (intro exI [of _ 0]) auto
  qed
qed simp

lemma evict_oldest_frame [simp]:
  "ci_ngram (evict_oldest c) = ci_ngram c" "ci_max_sites (evict_oldest c) = ci_max_sites c"
  "max_tokens (evict_oldest c) = max_tokens c" "ci_flushed (evict_oldest c) = length (ci_ends (evict_oldest c))"
  "ci_file (evict_oldest c) = Some (rewrite_loop (ci_log (evict_oldest c)) 0 (ci_ends (evict_oldest c)))"
  by (simp_all add: evict_oldest_def rewrite_file_def rebuild_index_def max_tokens_def split: prod.splits)

lemma evict_oldest_wf:
  assumes "chain 0 (ci_ends c) (length (ci_log c))"
  shows "corpus_wf (evict_oldest c)" "streams (evict_oldest c) = fit_suffix (max_tokens c) (streams c)"
proof -
  let ?log = "ci_log c" and ?es = "ci_ends c"
  obtain j where j: "j \<le> length ?es"
    and scan: "evict_scan (length ?log) (max_tokens c) ?es 0 0 = (j, (0 # ?es) ! j)"
    and fit: "drop j (slices ?log 0 ?es) = fit_suffix (max_tokens c) (slices ?log 0 ?es)"
    using evict_scan_fit [OF assms, of "max_tokens c" 0] by auto
  define d where "d = (0 # ?es) ! j"
  define c1 where "c1 = c\<lparr>ci_log := drop d ?log, ci_ends := map (\<lambda>e. e - d) (drop j ?es), ci_index := []\<rparr>"
  have ev: "evict_oldest c = rewrite_file (rebuild_loop 0 (ci_ends c1) c1)"
    using scan by (simp add: evict_oldest_def rebuild_index_def c1_def d_def)
  have chain: "chain d (drop j ?es) (length ?log)" unfolding d_def by (rule chain_drop [OF j assms])
  then have chain1: "chain 0 (ci_ends c1) (length (ci_log c1))"
    using chain_shift [of d d "drop j ?es" "length ?log"] by (simp add: c1_def)
  have "index_spec (ci_ngram c1) (ci_max_sites c1) (ci_log c1) [] (ci_index c1)"
    by (simp add: c1_def index_spec_def sites_for_def)
  from index_spec_rebuild [OF this, of 0 "ci_ends c1"] chain1 show "corpus_wf (evict_oldest c)"
    by (simp add: ev rewrite_file_def corpus_wf_def)
  have "slices (drop d ?log) (d - d) (map (\<lambda>e. e - d) (drop j ?es)) = slices ?log d (drop j ?es)"
    by (rule slices_shift) (use chain_le [OF chain] in auto)
  with fit slices_drop [OF j, of ?log 0] show "streams (evict_oldest c) = fit_suffix (max_tokens c) (streams c)"
    by (simp add: ev rewrite_file_def streams_def c1_def d_def)
qed

lemma length_log_streams: "corpus_wf c \<Longrightarrow> length (ci_log c) = sum_list (map length (streams c))"
  using sum_slices [of 0 "ci_ends c" "ci_log c"] by (simp add: streams_def corpus_wf_def)

lemma corpus_wf_chain: "corpus_wf c \<Longrightarrow> chain 0 (ci_ends c) (length (ci_log c))"
  by (simp add: corpus_wf_def)

lemma observe_frame [simp]:
  "ci_ngram (observe t c) = ci_ngram c" "ci_max_sites (observe t c) = ci_max_sites c"
  "max_tokens (observe t c) = max_tokens c"
  by (simp_all add: observe_def Let_def)

lemma observe_wf: "corpus_wf c \<Longrightarrow> corpus_wf (observe t c)"
  using evict_oldest_wf(1) [OF corpus_wf_chain [OF append_stream_wf, of c t]] append_stream_wf [of c t]
  by (simp add: observe_def Let_def)

lemma streams_observe:
  assumes "corpus_wf c"
  shows "streams (observe t c) = (if t = [] then streams c else fit_suffix (max_tokens c) (streams c @ [t]))"
proof (cases "t = []")
  case False
  have wf: "corpus_wf (append_stream t c)" by (rule append_stream_wf [OF assms False])
  have "\<not> max_tokens c < length (ci_log c @ t) \<Longrightarrow> fit_suffix (max_tokens c) (streams c @ [t]) = streams c @ [t]"
    by (rule fit_suffix_fits) (use length_log_streams [OF assms] in simp)
  with False show ?thesis
    using evict_oldest_wf(2) [OF corpus_wf_chain [OF wf]] streams_append [OF assms, of t]
    by (auto simp: observe_def Let_def)
qed (simp add: observe_def)

section \<open>Drafting\<close>

text \<open>
  The abstract draft: the continuations of an n-gram inside the streams, oldest first.
\<close>

definition continuations :: "nat \<Rightarrow> token list \<Rightarrow> token list \<Rightarrow> token list list" where
  "continuations n gram s = map (\<lambda>i. drop (i + n) s) (filter (\<lambda>i. take n (drop i s) = gram) [0..<length s - n])"

definition occurrences :: "nat \<Rightarrow> token list \<Rightarrow> token list list \<Rightarrow> token list list" where
  "occurrences n gram ss = concat (map (continuations n gram) ss)"

definition cont :: "token list \<Rightarrow> nat list \<Rightarrow> nat \<Rightarrow> token list" where
  "cont log es s = (case find (\<lambda>e. s - 1 < e) es of None \<Rightarrow> [] | Some e \<Rightarrow> take (e - s) (drop s log))"

lemma chain_site_end:
  "chain b es tot \<Longrightarrow> 0 < n \<Longrightarrow> s \<in> set (chain_sites n b es) \<Longrightarrow>
     \<exists>e. find (\<lambda>e. s - 1 < e) es = Some e \<and> s < e \<and> e \<le> tot"
proof (induction es arbitrary: b)
  case (Cons e es)
  show ?case
  proof (cases "s \<in> set (chain_sites n e es)")
    case True
    then have "e + n \<le> s" using chain_sites_bounds [of e es tot s n] Cons.prems by simp
    then show ?thesis using Cons.IH [of e] Cons.prems True by auto
  next
    case False
    then show ?thesis using Cons.prems chain_le [of e es tot] by auto
  qed
qed simp

lemma continuations_slice:
  assumes "b < e" "e \<le> length log"
  shows "continuations n gram (take (e - b) (drop b log)) =
    map (\<lambda>s. take (e - s) (drop s log)) (filter (\<lambda>s. gram_at n log s = gram) (map (\<lambda>i. i + n) [b..<e - n]))"
proof -
  let ?s = "take (e - b) (drop b log)"
  have len: "length ?s = e - b" using assms by (simp add: min_absorb2 diff_le_mono)
  have upt: "[b..<e - n] = map ((+) b) [0..<length ?s - n]"
    unfolding len by (rule nth_equalityI) simp_all
  have gram: "gram_at n log (b + i + n) = take n (drop i ?s)" if "i < length ?s - n" for i
  proof -
    have "min n (e - b - i) = n" using that unfolding len by simp
    then show ?thesis by (simp add: gram_at_def drop_take add.commute)
  qed
  have cont: "take (e - (b + i + n)) (drop (b + i + n) log) = drop (i + n) ?s" for i
    by (simp add: drop_take add.commute add.left_commute)
  show ?thesis
    unfolding upt continuations_def filter_map map_map comp_def
    by (rule map_cong) (use gram cont in \<open>auto intro!: filter_cong\<close>)
qed

lemma occurrences_sites:
  "chain b es (length log) \<Longrightarrow> 0 < n \<Longrightarrow>
     occurrences n gram (slices log b es) =
       map (cont log es) (filter (\<lambda>s. gram_at n log s = gram) (chain_sites n b es))"
proof (induction es arbitrary: b)
  case (Cons e es)
  note le = chain_le [of e es "length log"]
  have "map (cont log (e # es)) (filter (\<lambda>s. gram_at n log s = gram) (chain_sites n e es)) =
      map (cont log es) (filter (\<lambda>s. gram_at n log s = gram) (chain_sites n e es))"
    using chain_sites_bounds [of e es "length log" _ n] Cons.prems by (fastforce simp: cont_def)
  moreover have "map (cont log (e # es)) (filter (\<lambda>s. gram_at n log s = gram) (map (\<lambda>i. i + n) [b..<e - n])) =
      continuations n gram (take (e - b) (drop b log))"
    using Cons.prems le by (subst continuations_slice) (auto simp: cont_def)
  ultimately show ?case using Cons.IH [of e] Cons.prems by (simp add: occurrences_def)
qed (simp add: occurrences_def)

lemma site_gram:
  assumes "chain b es (length log)" "0 < n" "s \<in> set (chain_sites n b es)"
  shows "\<exists>x\<in>set (slices log b es). \<exists>i. i + n < length x \<and> take n (drop i x) = gram_at n log s"
proof -
  have "cont log es s \<in> set (occurrences n (gram_at n log s) (slices log b es))"
    using assms by (simp add: occurrences_sites)
  then show ?thesis by (auto simp: occurrences_def continuations_def less_diff_conv)
qed

definition find_cont :: "corpus \<Rightarrow> token list \<Rightarrow> nat \<Rightarrow> nat list \<Rightarrow> token list" where
  "find_cont c gram k ss =
     (case find (\<lambda>s. gram_at (ci_ngram c) (ci_log c) s = gram) ss of
        None \<Rightarrow> [] | Some s \<Rightarrow> take k (cont (ci_log c) (ci_ends c) s))"

text \<open>The states in which drafting is specified: an index key length, and sites that fit 32 bits.\<close>

definition corpus_sane :: "corpus \<Rightarrow> bool" where
  "corpus_sane c \<longleftrightarrow> corpus_wf c \<and> 0 < ci_ngram c \<and> length (ci_log c) < 2 ^ 32"

lemma draft_scan_find:
  assumes "corpus_sane c" "set ss \<subseteq> set (chain_sites (ci_ngram c) 0 (ci_ends c))"
  shows "draft_scan c gram k (map of_nat ss) = Inr (find_cont c gram k ss)"
  using assms(2)
proof (induction ss)
  case (Cons s ss)
  let ?n = "ci_ngram c" and ?L = "length (ci_log c)"
  have wf: "chain 0 (ci_ends c) ?L" and n: "0 < ?n" and L: "?L < 2 ^ 32"
    using assms(1) by (auto simp: corpus_sane_def corpus_wf_def)
  have s: "s \<in> set (chain_sites ?n 0 (ci_ends c))" using Cons.prems by simp
  obtain e where e: "find (\<lambda>e. s - 1 < e) (ci_ends c) = Some e" "s < e" "e \<le> ?L"
    using chain_site_end [OF wf n s] by blast
  have b: "?n \<le> s" "s < ?L" using chain_sites_bounds [OF wf s] by auto
  have u: "unat (of_nat s :: u32) = s" using b(2) L by (simp add: unat_of_nat take_bit_eq_mod)
  have fin: "stream_end_for c (s - 1) = e" using e(1) by (simp add: stream_end_for_def)
  have pos: "0 < s" using n b(1) by simp
  have t: "s + min (e - s) k \<le> ?L" using e by linarith
  show ?case
    using Cons.IH Cons.prems e b u fin pos t
    by (simp add: find_cont_def Let_def gram_at_def cont_def min.commute not_le)
qed (simp add: find_cont_def)

lemma draft_eq:
  assumes "corpus_sane c" "0 < k" "ci_ngram c \<le> length tail"
  defines "gram \<equiv> drop (length tail - ci_ngram c) tail"
  shows "draft c tail k = Inr (find_cont c gram (nat k) (rev (last_n (ci_max_sites c)
    (sites_for (ci_ngram c) (ci_log c) (chain_sites (ci_ngram c) 0 (ci_ends c)) (ngram_key gram)))))"
proof -
  let ?sites = "sites_for (ci_ngram c) (ci_log c) (chain_sites (ci_ngram c) 0 (ci_ends c)) (ngram_key gram)"
  have idx: "map_find (<) (ngram_key gram) (ci_index c) =
      (if ?sites = [] then None else Some (map of_nat (last_n (ci_max_sites c) ?sites)))"
    using assms(1) by (simp add: corpus_sane_def corpus_wf_def index_spec_def)
  have sub: "set (rev (last_n (ci_max_sites c) ?sites)) \<subseteq> set (chain_sites (ci_ngram c) 0 (ci_ends c))"
    using set_last_n [of "ci_max_sites c" ?sites] by (auto simp: sites_for_def)
  have "draft_scan c gram (nat k) (rev (map of_nat (last_n (ci_max_sites c) ?sites))) =
      Inr (find_cont c gram (nat k) (rev (last_n (ci_max_sites c) ?sites)))"
    using draft_scan_find [OF assms(1) sub] by (simp add: rev_map)
  then show ?thesis
    using assms(2,3) idx by (auto simp: draft_def Let_def gram_def find_cont_def)
qed

lemma draft_trivial: "k \<le> 0 \<or> length tail < ci_ngram c \<Longrightarrow> draft c tail k = Inr []"
  by (auto simp: draft_def Let_def)

lemma draft_defined:
  assumes "corpus_sane c"
  shows "\<exists>d. draft c tail k = Inr d"
proof (cases "k \<le> 0 \<or> length tail < ci_ngram c")
  case False
  then show ?thesis using draft_eq [OF assms, of k tail] by auto
qed (simp add: draft_trivial)

lemma occurrences_streams:
  "corpus_sane c \<Longrightarrow> occurrences (ci_ngram c) gram (streams c) =
     map (cont (ci_log c) (ci_ends c))
       (filter (\<lambda>s. gram_at (ci_ngram c) (ci_log c) s = gram) (chain_sites (ci_ngram c) 0 (ci_ends c)))"
  by (simp add: corpus_sane_def corpus_wf_def streams_def occurrences_sites)

lemma find_cont_occurs:
  assumes "corpus_sane c" "set ss \<subseteq> set (chain_sites (ci_ngram c) 0 (ci_ends c))" "find_cont c gram k ss \<noteq> []"
  shows "\<exists>rest\<in>set (occurrences (ci_ngram c) gram (streams c)). find_cont c gram k ss = take k rest"
proof -
  obtain s where s: "find (\<lambda>s. gram_at (ci_ngram c) (ci_log c) s = gram) ss = Some s"
    using assms(3) by (auto simp: find_cont_def split: option.splits)
  then have "s \<in> set ss" "gram_at (ci_ngram c) (ci_log c) s = gram" by (auto dest: find_SomeD)
  then have "cont (ci_log c) (ci_ends c) s \<in> set (occurrences (ci_ngram c) gram (streams c))"
    using assms(2) by (auto simp: occurrences_streams [OF assms(1)])
  with s show ?thesis by (auto simp: find_cont_def)
qed

text \<open>
  A draft never reads outside the log, and whatever it proposes really followed the last
  n-gram of the tail inside one recorded stream: it is the beginning of one of the n-gram's
  continuations, at most \<open>k\<close> tokens long, whatever hash collisions the index holds.
\<close>

theorem draft_genuine:
  assumes "corpus_sane c"
  shows "\<exists>d. draft c tail k = Inr d \<and>
    (d = [] \<or> ci_ngram c \<le> length tail \<and>
      (\<exists>rest\<in>set (occurrences (ci_ngram c) (drop (length tail - ci_ngram c) tail) (streams c)).
         d = take (nat k) rest))"
proof (cases "k \<le> 0 \<or> length tail < ci_ngram c")
  case True
  then show ?thesis by (simp add: draft_trivial)
next
  case False
  let ?gram = "drop (length tail - ci_ngram c) tail"
  let ?sites = "chain_sites (ci_ngram c) 0 (ci_ends c)"
  let ?ss = "rev (last_n (ci_max_sites c) (sites_for (ci_ngram c) (ci_log c) ?sites (ngram_key ?gram)))"
  have sub: "set ?ss \<subseteq> set ?sites"
    using set_last_n [of "ci_max_sites c" "sites_for (ci_ngram c) (ci_log c) ?sites (ngram_key ?gram)"]
    by (auto simp: sites_for_def)
  have "draft c tail k = Inr (find_cont c ?gram (nat k) ?ss)"
    using False by (intro draft_eq [OF assms]) auto
  then show ?thesis
    using False find_cont_occurs [OF assms sub, of ?gram "nat k"]
    by (cases "find_cont c ?gram (nat k) ?ss = []") auto
qed

text \<open>
  C21: when no other recorded n-gram has the hash of the tail's, the draft is exactly the
  continuation of the most recent occurrence, cut to \<open>k\<close> tokens, and empty only if the
  n-gram never occurred with a continuation.
\<close>

theorem draft_most_recent:
  assumes "corpus_sane c" "0 < ci_max_sites c" "0 < k" "ci_ngram c \<le> length tail"
    and "gram = drop (length tail - ci_ngram c) tail"
    and "\<And>s i. s \<in> set (streams c) \<Longrightarrow> i + ci_ngram c < length s \<Longrightarrow>
      ngram_key (take (ci_ngram c) (drop i s)) = ngram_key gram \<Longrightarrow> take (ci_ngram c) (drop i s) = gram"
  shows "draft c tail k = Inr (if occurrences (ci_ngram c) gram (streams c) = [] then []
    else take (nat k) (last (occurrences (ci_ngram c) gram (streams c))))"
proof -
  let ?n = "ci_ngram c" and ?sites = "chain_sites (ci_ngram c) 0 (ci_ends c)"
  define fs where "fs = filter (\<lambda>s. gram_at ?n (ci_log c) s = gram) ?sites"
  have wf: "chain 0 (ci_ends c) (length (ci_log c))" "0 < ?n"
    using assms(1) by (auto simp: corpus_sane_def corpus_wf_def)
  have "ngram_key (gram_at ?n (ci_log c) s) = ngram_key gram \<longleftrightarrow> gram_at ?n (ci_log c) s = gram"
    if "s \<in> set ?sites" for s
    using site_gram [OF wf that] assms(6) by (auto simp: streams_def) metis
  then have "sites_for ?n (ci_log c) ?sites (ngram_key gram) = fs"
    unfolding sites_for_def fs_def by (intro filter_cong) auto
  then have d: "draft c tail k = Inr (find_cont c gram (nat k) (rev (last_n (ci_max_sites c) fs)))"
    using draft_eq [OF assms(1,3,4)] assms(5) by simp
  have occ: "occurrences ?n gram (streams c) = map (cont (ci_log c) (ci_ends c)) fs"
    by (simp add: occurrences_streams [OF assms(1)] fs_def)
  show ?thesis
  proof (cases "fs = []")
    case True
    with d occ show ?thesis by (simp add: find_cont_def)
  next
    case False
    with last_last_n [OF assms(2), of fs] obtain zs where "last_n (ci_max_sites c) fs = zs @ [last fs]"
      by (metis append_butlast_last_id)
    moreover have "gram_at ?n (ci_log c) (last fs) = gram" using False last_in_set [of fs] by (auto simp: fs_def)
    ultimately show ?thesis using d occ False by (simp add: find_cont_def last_map)
  qed
qed

text \<open>
  C34: recording a stream keeps the corpus well formed and within its token budget, and what
  is kept is the longest suffix of whole streams that fits: the oldest streams go first, and
  none goes that could stay.
\<close>

theorem observe_keeps_budget:
  assumes "corpus_wf c" "tokens \<noteq> []"
  shows "corpus_wf (observe tokens c) \<and> log_size (observe tokens c) \<le> max_tokens c
    \<and> streams (observe tokens c) = fit_suffix (max_tokens c) (streams c @ [tokens])"
proof -
  have s: "streams (observe tokens c) = fit_suffix (max_tokens c) (streams c @ [tokens])"
    using streams_observe [OF assms(1), of tokens] assms(2) by simp
  moreover have "log_size (observe tokens c) \<le> max_tokens c"
    using length_log_streams [OF observe_wf [OF assms(1), of tokens]] fit_suffix_le s
    by (simp add: log_size_def)
  ultimately show ?thesis using observe_wf [OF assms(1), of tokens] by simp
qed

section \<open>Persistence\<close>

definition frame :: "token list \<Rightarrow> bytes" where
  "frame tokens = le_bytes 4 (of_nat (length tokens) :: u32) @ concat (map (le_bytes 4) tokens)"

definition frames :: "token list list \<Rightarrow> bytes" where
  "frames ss = concat (map frame ss)"

lemma frames_simps [simp]: "frames [] = []" "frames (s # ss) = frame s @ frames ss" "frames (ss @ ts) = frames ss @ frames ts"
  by (simp_all add: frames_def)

definition loadable :: "token list \<Rightarrow> bool" where
  "loadable t \<longleftrightarrow> t \<noteq> [] \<and> length t \<le> 2 ^ 26"

lemma length_concat_le_bytes [simp]: "length (concat (map (le_bytes n) ts)) = n * length ts"
  by (induction ts) auto

lemma length_frame: "length (frame t) = 4 + 4 * length t"
  by (simp add: frame_def)

lemma frame_neq_Nil [simp]: "frame t \<noteq> []"
  using length_frame [of t] by auto

lemma read_tokens_frame: "read_tokens (length ts) (concat (map (le_bytes 4) ts) @ rest) = ts"
  by (induction ts) auto

lemma frame_header: "loadable t \<Longrightarrow> unat (le_read (take 4 (frame t @ rest)) :: u32) = length t"
  by (simp add: frame_def loadable_def unat_of_nat take_bit_eq_mod)

lemma load_loop_frame:
  assumes "loadable t"
  shows "load_loop (frame t @ rest) c = load_loop rest (append_stream t c)"
proof -
  have "drop (4 + 4 * length t) (frame t @ rest) = rest" by (simp add: length_frame)
  moreover have "read_tokens (length t) (drop 4 (frame t @ rest)) = t"
    by (simp add: frame_def read_tokens_frame)
  ultimately show ?thesis
    using frame_header [OF assms, of rest] assms length_frame [of t]
    by (subst load_loop.simps) (simp add: Let_def loadable_def)
qed

lemma load_loop_frames:
  "\<forall>s\<in>set ss. loadable s \<Longrightarrow> load_loop (frames ss @ rest) c = load_loop rest (fold append_stream ss c)"
  by (induction ss arbitrary: c) (auto simp: load_loop_frame)

lemma load_loop_torn:
  assumes "loadable t" "p < length (frame t)" "length rest < length (frame t) - p" "4 \<le> p \<or> rest = []"
  shows "load_loop (take p (frame t) @ rest) c = c"
proof (cases "4 \<le> p")
  case True
  then have "take 4 (take p (frame t) @ rest) = take 4 (frame t @ [])" using assms(2) by (simp add: min_def)
  then have "unat (le_read (take 4 (take p (frame t) @ rest)) :: u32) = length t"
    using frame_header [OF assms(1), of "[]"] by simp
  then show ?thesis
    using True assms length_frame [of t] by (subst load_loop.simps) (auto simp: Let_def)
next
  case False
  with assms show ?thesis by (subst load_loop.simps) auto
qed

lemma load_loop_cut: "loadable t \<Longrightarrow> p < length (frame t) \<Longrightarrow> load_loop (take p (frame t)) c = c"
  using load_loop_torn [of t p "[]"] by simp

lemma stream_frame_slice:
  assumes "b < e" "e \<le> length log" "e - b < 2 ^ 32"
  shows "stream_frame log b e = frame (take (e - b) (drop b log))"
proof -
  have "length (take (e - b) (drop b log)) = e - b" using assms by (simp add: min_absorb2 diff_le_mono)
  moreover have "unat (of_nat (e - b) :: u32) = e - b"
    using assms(3) by (simp add: unat_of_nat take_bit_eq_mod)
  ultimately show ?thesis by (simp add: stream_frame_def frame_def Let_def)
qed

lemma rewrite_loop_frames:
  "chain b es (length log) \<Longrightarrow> \<forall>s\<in>set (slices log b es). loadable s \<Longrightarrow> rewrite_loop log b es = frames (slices log b es)"
proof (induction es arbitrary: b)
  case (Cons e es)
  have le: "b < e" "e \<le> length log" using Cons.prems(1) chain_le [of e es "length log"] by auto
  moreover have "e - b < 2 ^ 32"
    using Cons.prems(2) le by (auto simp: loadable_def min_absorb2 diff_le_mono)
  ultimately show ?case using Cons by (simp add: stream_frame_slice)
qed simp

lemma flush_stream_frame:
  assumes "corpus_wf c" "\<forall>s\<in>set (streams c). loadable s" "i < length (ci_ends c)"
  shows "flush_stream c i = frame (streams c ! i)"
proof -
  let ?b = "(0 # ci_ends c) ! i" and ?e = "ci_ends c ! i"
  have b: "?b = (if i = 0 then 0 else ci_ends c ! (i - 1))" by (cases i) auto
  have chain: "chain ?b (drop i (ci_ends c)) (length (ci_log c))"
    using chain_drop [OF _ corpus_wf_chain [OF assms(1)], of i] assms(3) by simp
  then have le: "?b < ?e" "?e \<le> length (ci_log c)"
    using chain_le [OF chain] assms(3) by (auto simp: Cons_nth_drop_Suc [symmetric] dest: chain_le)
  have nth: "streams c ! i = take (?e - ?b) (drop ?b (ci_log c))"
    using slices_nth [OF assms(3), of "ci_log c" 0] by (simp add: streams_def Let_def)
  then have "loadable (take (?e - ?b) (drop ?b (ci_log c)))"
    using assms(2,3) nth_mem [of i "streams c"] by (simp add: streams_def)
  then have "?e - ?b < 2 ^ 32" using le by (auto simp: loadable_def min_absorb2 diff_le_mono)
  from stream_frame_slice [OF le this] show ?thesis
    unfolding flush_stream_def b [symmetric] nth by simp
qed

text \<open>The file holds the streams flushed so far.\<close>

definition file_bytes :: "corpus \<Rightarrow> bytes" where
  "file_bytes c = (case ci_file c of None \<Rightarrow> [] | Some bs \<Rightarrow> bs)"

definition corpus_saved :: "corpus \<Rightarrow> bool" where
  "corpus_saved c \<longleftrightarrow> corpus_wf c \<and> (\<forall>s\<in>set (streams c). loadable s)
     \<and> file_bytes c = frames (take (ci_flushed c) (streams c))
     \<and> log_size c \<le> max_tokens c"

lemma file_flush:
  assumes "corpus_wf c" "\<forall>s\<in>set (streams c). loadable s" "file_bytes c = junk @ frames (take (ci_flushed c) (streams c))"
  shows "file_bytes (flush c) = junk @ frames (streams c)"
proof (cases "length (ci_ends c) \<le> ci_flushed c")
  case True
  moreover have "length (streams c) = length (ci_ends c)" by (simp add: streams_def)
  ultimately show ?thesis using assms(3) by (simp add: flush_def)
next
  case False
  have len: "length (streams c) = length (ci_ends c)" by (simp add: streams_def)
  have "map (flush_stream c) [ci_flushed c..<length (ci_ends c)] =
      map (\<lambda>i. frame (streams c ! i)) [ci_flushed c..<length (streams c)]"
    by (simp add: len flush_stream_frame [OF assms(1,2)])
  also have "\<dots> = map frame (drop (ci_flushed c) (streams c))"
    by (rule nth_equalityI) simp_all
  finally have "concat (map (flush_stream c) [ci_flushed c..<length (ci_ends c)]) =
      frames (drop (ci_flushed c) (streams c))" by (simp add: frames_def)
  with False assms(3) have "file_bytes (flush c) =
      junk @ frames (take (ci_flushed c) (streams c) @ drop (ci_flushed c) (streams c))"
    by (simp add: file_bytes_def flush_def del: append_take_drop_id)
  then show ?thesis by simp
qed

lemma flush_frame [simp]:
  "ci_log (flush c) = ci_log c" "ci_ends (flush c) = ci_ends c" "ci_index (flush c) = ci_index c"
  "ci_ngram (flush c) = ci_ngram c" "ci_max_sites (flush c) = ci_max_sites c" "max_tokens (flush c) = max_tokens c"
  "streams (flush c) = streams c"
  by (simp_all add: flush_def max_tokens_def streams_def)

lemma flush_saved:
  assumes "corpus_saved c"
  shows "corpus_saved (flush c) \<and> ci_flushed (flush c) = length (streams c)"
proof -
  have f: "ci_flushed (flush c) = length (streams c)"
    using assms by (auto simp: flush_def streams_def corpus_saved_def corpus_wf_def)
  then show ?thesis
    using assms file_flush [of c "[]"] by (simp add: corpus_saved_def log_size_def corpus_wf_def streams_def)
qed

lemma loadable_nonempty: "loadable s \<Longrightarrow> s \<noteq> []"
  by (simp add: loadable_def)

lemma evict_oldest_saved:
  assumes "corpus_wf c" "\<forall>s\<in>set (streams c). loadable s"
  shows "corpus_saved (evict_oldest c)"
proof -
  note wf = evict_oldest_wf [OF corpus_wf_chain [OF assms(1)]]
  obtain j where "fit_suffix (max_tokens c) (streams c) = drop j (streams c)"
    using fit_suffix_drop [of "streams c" "max_tokens c"] by blast
  then have load: "\<forall>s\<in>set (streams (evict_oldest c)). loadable s"
    using assms(2) wf(2) by (auto dest: in_set_dropD)
  have "log_size (evict_oldest c) \<le> max_tokens c"
    using length_log_streams [OF wf(1)] wf(2) fit_suffix_le [of "max_tokens c" "streams c"]
    by (simp add: log_size_def)
  moreover have "file_bytes (evict_oldest c) = frames (streams (evict_oldest c))"
    using rewrite_loop_frames [OF corpus_wf_chain [OF wf(1)]] load
    by (simp add: file_bytes_def streams_def)
  ultimately show ?thesis using wf(1) load by (simp add: corpus_saved_def streams_def)
qed

lemma observe_saved:
  assumes "corpus_saved c" "length t \<le> 2 ^ 26"
  shows "corpus_saved (observe t c)"
proof (cases "t = []")
  case False
  have wf: "corpus_wf (append_stream t c)" using assms(1) False by (simp add: corpus_saved_def append_stream_wf)
  have str: "streams (append_stream t c) = streams c @ [t]"
    using assms(1) by (simp add: corpus_saved_def streams_append)
  have load: "\<forall>s\<in>set (streams (append_stream t c)). loadable s"
    using assms False by (auto simp: str corpus_saved_def loadable_def)
  have "ci_flushed c \<le> length (streams c)" using assms(1) by (simp add: corpus_saved_def corpus_wf_def streams_def)
  then have "\<not> max_tokens c < length (ci_log c) + length t \<Longrightarrow> corpus_saved (append_stream t c)"
    using wf load assms(1) by (simp add: corpus_saved_def str file_bytes_def log_size_def)
  then show ?thesis using False evict_oldest_saved [OF wf load] by (simp add: observe_def Let_def)
qed (use assms in \<open>simp add: observe_def\<close>)

lemma fold_append_stream:
  "corpus_wf c \<Longrightarrow> \<forall>s\<in>set ss. s \<noteq> [] \<Longrightarrow>
     corpus_wf (fold append_stream ss c) \<and> streams (fold append_stream ss c) = streams c @ ss
     \<and> ci_ngram (fold append_stream ss c) = ci_ngram c \<and> ci_max_sites (fold append_stream ss c) = ci_max_sites c
     \<and> max_tokens (fold append_stream ss c) = max_tokens c \<and> ci_file (fold append_stream ss c) = ci_file c"
proof (induction ss arbitrary: c)
  case (Cons t ss)
  from Cons.prems have wf: "corpus_wf (append_stream t c)" by (simp add: append_stream_wf)
  with Cons show ?case by (simp add: streams_append)
qed simp

lemma corpus_open_frames:
  assumes "\<forall>s\<in>set ss. loadable s" "sum_list (map length ss) \<le> unat mb div 4"
    and "(case f of None \<Rightarrow> [] | Some bs \<Rightarrow> bs) = frames ss @ junk" "\<And>c. load_loop junk c = c"
  shows "corpus_wf (corpus_open n mb m f) \<and> streams (corpus_open n mb m f) = ss
    \<and> ci_ngram (corpus_open n mb m f) = n \<and> ci_max_sites (corpus_open n mb m f) = m
    \<and> max_tokens (corpus_open n mb m f) = unat mb div 4 \<and> ci_flushed (corpus_open n mb m f) = length ss
    \<and> ci_file (corpus_open n mb m f) = f"
proof -
  define c0 where "c0 = \<lparr>ci_ngram = n, ci_max_log_bytes = mb, ci_max_sites = m, ci_log = [],
           ci_ends = [], ci_flushed = 0, ci_index = [], ci_file = f\<rparr>"
  have c0: "corpus_wf c0" "streams c0 = []" "max_tokens c0 = unat mb div 4"
    by (simp_all add: c0_def corpus_wf_def streams_def max_tokens_def index_spec_def sites_for_def)
  have op: "corpus_open n mb m f = load c0" by (simp add: corpus_open_def c0_def)
  show ?thesis
  proof (cases f)
    case None
    then have "ss = []" using assms(1,3) by (cases ss) simp_all
    then show ?thesis using None c0 op by (simp add: load_def c0_def)
  next
    case (Some bs)
    let ?c1 = "fold append_stream ss c0"
    have c1: "corpus_wf ?c1" "streams ?c1 = ss" "ci_ngram ?c1 = n" "ci_max_sites ?c1 = m"
      "max_tokens ?c1 = unat mb div 4" "ci_file ?c1 = f"
      using fold_append_stream [OF c0(1), of ss] assms(1) loadable_nonempty c0 by (auto simp: c0_def)
    have "load_loop bs c0 = ?c1" using Some assms(1,3,4) by (simp add: load_loop_frames)
    moreover have "length (ci_ends ?c1) = length ss" using c1(2) by (metis streams_def length_slices)
    moreover have "length (ci_log ?c1) \<le> unat mb div 4" using length_log_streams [OF c1(1)] c1(2) assms(2) by simp
    ultimately have "load c0 = ?c1\<lparr>ci_flushed := length ss\<rparr>"
      using Some c1 by (simp add: load_def c0_def max_tokens_def)
    then show ?thesis
      using c1 \<open>length (ci_ends ?c1) = length ss\<close> op
      by (simp add: corpus_wf_def streams_def max_tokens_def)
  qed
qed

lemma draft_scan_cong:
  assumes "ci_ngram c = ci_ngram c'" "ci_log c = ci_log c'" "ci_ends c = ci_ends c'"
  shows "draft_scan c gram k ss = draft_scan c' gram k ss"
proof (induction ss)
  case (Cons s ss)
  have "stream_end_for c x = stream_end_for c' x" for x by (simp only: stream_end_for_def assms)
  with assms Cons show ?case by (simp only: draft_scan.simps)
qed simp

text \<open>What a corpus answers depends only on its streams and its two parameters.\<close>

lemma draft_streams_cong:
  assumes "corpus_wf c" "corpus_wf c'" "streams c = streams c'" "ci_ngram c = ci_ngram c'"
    and "ci_max_sites c = ci_max_sites c'"
  shows "draft c tail k = draft c' tail k"
proof -
  have log: "ci_log c = ci_log c'" and ends: "ci_ends c = ci_ends c'"
    using concat_slices [OF corpus_wf_chain [OF assms(1)]] concat_slices [OF corpus_wf_chain [OF assms(2)]]
      ends_of_slices [OF corpus_wf_chain [OF assms(1)]] ends_of_slices [OF corpus_wf_chain [OF assms(2)]] assms(3)
    by (simp_all add: streams_def)
  then have "map_find (<) key (ci_index c) = map_find (<) key (ci_index c')" for key
    using assms by (simp add: corpus_wf_def index_spec_def)
  moreover have "draft_scan c gram j ss = draft_scan c' gram j ss" for gram j ss
    by (rule draft_scan_cong) (use log ends assms(4) in simp_all)
  ultimately show ?thesis using assms(4) by (simp only: draft_def)
qed

datatype corpus_op = Observe "token list" | Flush

fun corpus_step :: "corpus_op \<Rightarrow> corpus \<Rightarrow> corpus" where
  "corpus_step (Observe t) c = observe t c"
| "corpus_step Flush c = flush c"

fun op_loadable :: "corpus_op \<Rightarrow> bool" where
  "op_loadable (Observe t) \<longleftrightarrow> length t \<le> 2 ^ 26"
| "op_loadable Flush \<longleftrightarrow> True"

lemma corpus_step_saved:
  "corpus_saved c \<Longrightarrow> op_loadable op \<Longrightarrow> corpus_saved (corpus_step op c)
     \<and> ci_ngram (corpus_step op c) = ci_ngram c \<and> ci_max_sites (corpus_step op c) = ci_max_sites c
     \<and> max_tokens (corpus_step op c) = max_tokens c"
  using flush_saved [of c] by (cases op) (simp_all add: observe_saved)

lemma corpus_run_saved:
  "corpus_saved c \<Longrightarrow> list_all op_loadable ops \<Longrightarrow> corpus_saved (fold corpus_step ops c)
     \<and> ci_ngram (fold corpus_step ops c) = ci_ngram c \<and> ci_max_sites (fold corpus_step ops c) = ci_max_sites c
     \<and> max_tokens (fold corpus_step ops c) = max_tokens c"
proof (induction ops arbitrary: c)
  case (Cons op ops)
  with corpus_step_saved [of c op] Cons.IH [of "corpus_step op c"] show ?case by simp
qed simp

lemma load_loop_Nil [simp]: "load_loop [] c = c"
  by (simp add: load_loop.simps)

lemma corpus_fresh_saved:
  "corpus_saved (corpus_open n mb m None) \<and> ci_ngram (corpus_open n mb m None) = n
     \<and> ci_max_sites (corpus_open n mb m None) = m \<and> max_tokens (corpus_open n mb m None) = unat mb div 4"
  using corpus_open_frames [of "[]" mb None "[]" n m] length_log_streams [of "corpus_open n mb m None"]
  by (simp add: corpus_saved_def file_bytes_def log_size_def)

text \<open>
  C20: the memory survives restarts.  After any history of observed streams and flushes from
  an empty directory, flushing and reopening gives a corpus with the same streams that drafts
  the same continuation for every tail.
\<close>

theorem corpus_restart:
  assumes "list_all op_loadable ops"
    and "c = fold corpus_step ops (corpus_open n mb m None)"
    and "c' = corpus_open n mb m (ci_file (flush c))"
  shows "streams c' = streams c \<and> draft c' tail k = draft c tail k"
proof -
  have c: "corpus_saved c" "ci_ngram c = n" "ci_max_sites c = m" "max_tokens c = unat mb div 4"
    using corpus_run_saved [OF _ assms(1)] corpus_fresh_saved assms(2) by auto
  have wf: "corpus_wf c" and load: "\<forall>s\<in>set (streams c). loadable s" using c(1) by (auto simp: corpus_saved_def)
  have "sum_list (map length (streams c)) \<le> unat mb div 4"
    using length_log_streams [OF wf] c by (simp add: corpus_saved_def log_size_def)
  moreover have "(case ci_file (flush c) of None \<Rightarrow> [] | Some bs \<Rightarrow> bs) = frames (streams c) @ []"
    using file_flush [OF wf load, of "[]"] c(1) by (simp add: file_bytes_def corpus_saved_def)
  ultimately have "corpus_wf c' \<and> streams c' = streams c \<and> ci_ngram c' = n \<and> ci_max_sites c' = m"
    using corpus_open_frames [OF load, of mb "ci_file (flush c)" "[]" n m] assms(3) by simp
  with wf c show ?thesis using draft_streams_cong [of c' c tail k] by simp
qed

text \<open>
  A crash in the middle of a flush costs at most the stream being written.  Opening a file
  that holds whole records followed by a proper prefix of one gives exactly the whole ones.
\<close>

theorem corpus_crash_keeps_whole_records:
  assumes "\<forall>s\<in>set ss. loadable s" "loadable t" "p < length (frame t)"
    and "sum_list (map length ss) \<le> unat mb div 4"
  shows "streams (corpus_open n mb m (Some (frames ss @ take p (frame t)))) = ss"
  using corpus_open_frames [of ss mb "Some (frames ss @ take p (frame t))" "take p (frame t)" n m]
    load_loop_cut [OF assms(2,3)] assms by simp

lemma fold_observe_fits:
  assumes "corpus_wf c" "\<forall>v\<in>set vs. loadable v" "sum_list (map length (streams c @ vs)) \<le> max_tokens c"
  shows "corpus_wf (fold observe vs c) \<and> streams (fold observe vs c) = streams c @ vs
    \<and> ci_flushed (fold observe vs c) = ci_flushed c \<and> ci_file (fold observe vs c) = ci_file c"
  using assms
proof (induction vs arbitrary: c)
  case (Cons v vs)
  have fits: "length (ci_log c) + length v \<le> max_tokens c"
    using Cons.prems(1,3) length_log_streams [of c] by simp
  then have ob: "observe v c = append_stream v c"
    using Cons.prems(2) loadable_nonempty [of v] by (simp add: observe_def Let_def)
  have "corpus_wf (append_stream v c)" "streams (append_stream v c) = streams c @ [v]"
    using Cons.prems loadable_nonempty by (auto simp: append_stream_wf streams_append)
  with Cons.IH [of "append_stream v c"] Cons.prems(2,3) ob show ?case by simp
qed simp

text \<open>
  But the torn record stays in the file, and later flushes append after it.  If the crash
  cut the record inside its tokens and the streams \<open>us\<close> flushed afterwards are shorter than
  what was cut off, the next start loses all of them, although they were flushed.
\<close>

theorem corpus_torn_record_hides_flushed:
  assumes "\<forall>s\<in>set ss. loadable s" "loadable t" "4 \<le> p" "p < length (frame t)"
    and "\<forall>u\<in>set us. loadable u" "sum_list (map length (ss @ us)) \<le> unat mb div 4"
    and "p + length (frames us) < length (frame t)"
    and "c = fold observe us (corpus_open n mb m (Some (frames ss @ take p (frame t))))"
  shows "streams (flush c) = ss @ us \<and> streams (corpus_open n mb m (ci_file (flush c))) = ss"
proof -
  let ?torn = "take p (frame t)"
  let ?c0 = "corpus_open n mb m (Some (frames ss @ ?torn))"
  have sum: "sum_list (map length ss) \<le> unat mb div 4" using assms(6) by simp
  have c0: "corpus_wf ?c0 \<and> streams ?c0 = ss \<and> max_tokens ?c0 = unat mb div 4
      \<and> ci_flushed ?c0 = length ss \<and> ci_file ?c0 = Some (frames ss @ ?torn)"
    using corpus_open_frames [of ss mb "Some (frames ss @ ?torn)" ?torn n m]
      load_loop_cut [OF assms(2,4)] assms(1) sum by simp
  have c: "corpus_wf c" "streams c = ss @ us" "ci_flushed c = length ss" "ci_file c = Some (frames ss @ ?torn)"
    using fold_observe_fits [of ?c0 us] c0 assms(5,6,8) by auto
  have "file_bytes (flush c) = (frames ss @ ?torn) @ frames us"
  proof (cases us)
    case Nil
    then show ?thesis using c by (simp add: flush_def file_bytes_def streams_def) (metis length_slices le_refl)
  next
    case (Cons u us')
    have len: "length (ci_ends c) = length ss + length us" using c(2) by (metis streams_def length_slices length_append)
    have "map (flush_stream c) [length ss..<length (ci_ends c)] = map frame us"
    proof (rule nth_equalityI)
      have "flush_stream c (length ss + i) = frame (us ! i)" if "i < length us" for i
        using flush_stream_frame [OF c(1), of "length ss + i"] that assms(1,5) c(2) len
        by (simp add: nth_append ball_Un)
      then show "map (flush_stream c) [length ss..<length (ci_ends c)] ! i = map frame us ! i"
        if "i < length (map (flush_stream c) [length ss..<length (ci_ends c)])" for i
        using that len by simp
    qed (simp add: len)
    then show ?thesis using c len Cons by (simp add: flush_def file_bytes_def frames_def)
  qed
  moreover have "ci_file (flush c) \<noteq> None" using c(4) by (auto simp: flush_def)
  ultimately have f: "ci_file (flush c) = Some (frames ss @ ?torn @ frames us)"
    by (auto simp: file_bytes_def split: option.splits)
  have "load_loop (?torn @ frames us) c = c" for c
    by (rule load_loop_torn [OF assms(2,4)]) (use assms(3,7) in auto)
  then have "streams (corpus_open n mb m (ci_file (flush c))) = ss"
    using corpus_open_frames [of ss mb "ci_file (flush c)" "?torn @ frames us" n m] f assms(1) sum by simp
  with c show ?thesis by simp
qed

section \<open>Witnesses\<close>

definition demo_corpus :: corpus where
  "demo_corpus = observe [1, 2, 3] (corpus_open 2 400 4 None)"

lemma fresh_corpus: "corpus_wf (corpus_open 2 400 4 None)" "streams (corpus_open 2 400 4 None) = []"
  "max_tokens (corpus_open 2 400 4 None) = 100" "ci_ngram (corpus_open 2 400 4 None) = 2"
  "ci_max_sites (corpus_open 2 400 4 None) = 4"
  using corpus_open_frames [of "[]" 400 None "[]" 2 4] by simp_all

lemma demo_corpus_simps:
  "corpus_wf demo_corpus" "streams demo_corpus = [[1, 2, 3]]" "ci_ngram demo_corpus = 2"
  "ci_max_sites demo_corpus = 4"
  using observe_wf [OF fresh_corpus(1)] streams_observe [OF fresh_corpus(1)]
  by (simp_all add: demo_corpus_def fresh_corpus)

lemma demo_corpus_sane: "corpus_sane demo_corpus"
  using length_log_streams [OF demo_corpus_simps(1)] by (simp add: corpus_sane_def demo_corpus_simps)

theorem draft_genuine_witness: "\<exists>d. draft demo_corpus [1, 2] 5 = Inr d"
  using draft_genuine [OF demo_corpus_sane, of "[1, 2]" 5] by auto

theorem draft_most_recent_witness: "draft demo_corpus [9, 1, 2] 5 = Inr [3]"
proof -
  have occ: "occurrences 2 [1, 2] [[1, 2, 3 :: token]] = [[3]]"
    by (simp add: occurrences_def continuations_def upt_rec)
  show ?thesis
    using draft_most_recent [OF demo_corpus_sane, of 5 "[9, 1, 2]" "[1, 2]"]
    by (simp add: demo_corpus_simps occ)
qed

theorem observe_keeps_budget_witness:
  "log_size (observe [1, 2, 3] (corpus_open 2 400 4 None)) \<le> 100"
  using observe_keeps_budget [OF fresh_corpus(1), of "[1, 2, 3]"] by (simp add: fresh_corpus)

theorem corpus_restart_witness:
  "streams (corpus_open 2 400 4 (ci_file (flush (fold corpus_step [Observe [1, 2, 3]] (corpus_open 2 400 4 None)))))
     = [[1, 2, 3]]"
  using corpus_restart [of "[Observe [1, 2, 3]]", OF _ refl refl, of 2 400 4] demo_corpus_simps(2)
  by (simp add: demo_corpus_def)

theorem corpus_crash_keeps_whole_records_witness:
  "streams (corpus_open 2 400 4 (Some (frames [[1, 2]] @ take 6 (frame [3, 4])))) = [[1, 2]]"
  by (rule corpus_crash_keeps_whole_records) (simp_all add: loadable_def length_frame)

theorem corpus_torn_record_hides_flushed_witness:
  "streams (corpus_open 2 400 4 (ci_file (flush (fold observe [[8]]
     (corpus_open 2 400 4 (Some (frames [[1, 2]] @ take 6 (frame [3, 4, 5, 6])))))))) = [[1, 2]]"
  using corpus_torn_record_hides_flushed [of "[[1, 2]]" "[3, 4, 5, 6]" 6 "[[8]]" 400, OF _ _ _ _ _ _ _ refl]
  by (simp add: loadable_def length_frame)

end
