(* ===== verification/Speculative.thy ===== *)
theory Speculative
  imports Reference_Gen Draft_Sources Corpus_Index
begin

text \<open>
  Speculative decoding: the acceptance arithmetic (\<open>src/src/speculative/acceptance.cpp\<close> and
  \<open>acceptance.hpp\<close>), the draft rollout (\<open>draft_generator.cpp\<close>), the batched verification
  (\<open>batch_verifier.cpp\<close>) and the decoder that composes them
  (\<open>speculative_decoder.cpp\<close>).  Times are not modelled, the counters of the metrics are
  natural numbers, floating-point numbers are reals.  Reading a probability vector out of range
  is the outcome \<open>Undefined\<close>.  The history field \<open>sp_out\<close> records the callbacks made; a
  callback is a function of the callbacks before it.
\<close>

section \<open>Acceptance\<close>

definition accept_token :: "real \<Rightarrow> real \<Rightarrow> real \<Rightarrow> bool" where
  "accept_token target_prob draft_prob r \<longleftrightarrow> r * draft_prob < target_prob"

definition residual_distribution :: "real list \<Rightarrow> real list \<Rightarrow> real list" where
  "residual_distribution target_probs draft_probs =
     (let residual = map (\<lambda>i. max (target_probs ! i - (if i < length draft_probs then draft_probs ! i else 0)) 0) [0..<length target_probs];
          sum = sum_list residual
      in if sum \<le> 0 then target_probs else map (\<lambda>v. v / sum) residual)"

definition draw_from :: "('g \<Rightarrow> real \<times> 'g) \<Rightarrow> real list \<Rightarrow> 'g \<Rightarrow> token \<times> 'g" where
  "draw_from uniform probs g = (case uniform g of (r, g') \<Rightarrow> (of_nat (draw_loop probs 0 r 0), g'))"

section \<open>Drafting and verifying\<close>

datatype spec_fault = Threw engine_exn | LengthError | Undefined cpp_ub

record draft_result =
  dr_tokens :: "token list"
  dr_probs :: "real list list"

record verification_result =
  vr_accepted_tokens :: "token list"
  vr_rejected_count :: int
  vr_corrected_token :: "token option"

definition prob_at :: "real list \<Rightarrow> token \<Rightarrow> real option" where
  "prob_at probs t = (if sint t < 0 \<or> int (length probs) \<le> sint t then None else Some (probs ! nat (sint t)))"

fun draft_loop :: "'d backend_ops \<Rightarrow> 'g sampler_env \<Rightarrow> gen_config \<Rightarrow> token \<Rightarrow> nat \<Rightarrow> token \<Rightarrow> token list \<Rightarrow> 'g \<Rightarrow> 'd
    \<Rightarrow> draft_result \<Rightarrow> (engine_exn + draft_result) \<times> 'g \<times> 'd" where
  "draft_loop ops env gen eos 0 cur history g b res = (Inr res, g, b)"
| "draft_loop ops env gen eos (Suc n) cur history g b res =
     (case bo_decode_append ops [cur] b of
        (Inl e, b1) \<Rightarrow> (Inl e, g, b1)
      | (Inr logits, b1) \<Rightarrow>
          (case distribution (se_pick env) gen logits history of
             Inl e \<Rightarrow> (Inl e, g, b1)
           | Inr probs \<Rightarrow>
               (case draw (se_uniform env) probs g of
                  (Inl e, g1) \<Rightarrow> (Inl e, g1, b1)
                | (Inr t, g1) \<Rightarrow>
                    let res1 = \<lparr>dr_tokens = dr_tokens res @ [t], dr_probs = dr_probs res @ [probs]\<rparr>
                    in if t = eos then (Inr res1, g1, b1)
                       else draft_loop ops env gen eos n t (history @ [t]) g1 b1 res1)))"

definition generate_draft :: "'d backend_ops \<Rightarrow> 'g sampler_env \<Rightarrow> gen_config \<Rightarrow> int \<Rightarrow> token \<Rightarrow> token list \<Rightarrow> int \<Rightarrow> 'g \<Rightarrow> 'd
    \<Rightarrow> (engine_exn + draft_result) \<times> 'g \<times> 'd" where
  "generate_draft ops env gen cfg_draft_tokens last_token recent n_tokens g b =
     (let n = (if 0 < n_tokens then n_tokens else cfg_draft_tokens)
      in draft_loop ops env gen (bo_eos_token ops b) (nat n) last_token recent g b \<lparr>dr_tokens = [], dr_probs = []\<rparr>)"

fun verify_loop :: "'g sampler_env \<Rightarrow> gen_config \<Rightarrow> token list \<Rightarrow> real list list \<Rightarrow> logits list \<Rightarrow> token list \<Rightarrow> token list \<Rightarrow> 'g
    \<Rightarrow> (spec_fault + token list \<times> token option) \<times> 'g" where
  "verify_loop env gen [] qs ls history accepted g = (Inr (accepted, None), g)"
| "verify_loop env gen (d # ds) qs ls history accepted g =
     (case distribution (se_pick env) gen (hd ls) history of
        Inl e \<Rightarrow> (Inl (Threw e), g)
      | Inr target_probs \<Rightarrow>
          (case (prob_at target_probs d, prob_at (hd qs) d) of
             (Some p, Some q) \<Rightarrow>
               (case se_uniform env g of (r, g1) \<Rightarrow>
                  if accept_token p q r then verify_loop env gen ds (tl qs) (tl ls) (history @ [d]) (accepted @ [d]) g1
                  else (case draw_from (se_uniform env) (residual_distribution target_probs (hd qs)) g1 of
                          (t, g2) \<Rightarrow> (Inr (accepted, Some t), g2)))
           | _ \<Rightarrow> (Inl (Undefined OutOfBounds), g)))"

definition verify_batch :: "'t backend_ops \<Rightarrow> 'g sampler_env \<Rightarrow> gen_config \<Rightarrow> token \<Rightarrow> draft_result \<Rightarrow> token list \<Rightarrow> 'g \<Rightarrow> 't
    \<Rightarrow> (spec_fault + verification_result) \<times> 'g \<times> 't" where
  "verify_batch ops env gen last_token dr recent g b =
     (if dr_tokens dr = [] then (Inl (Threw (EngineError ''verify_batch called with an empty draft'')), g, b)
      else case bo_decode_batch ops (last_token # butlast (dr_tokens dr)) b of
             (Inl e, b1) \<Rightarrow> (Inl (Threw e), g, b1)
           | (Inr all_logits, b1) \<Rightarrow>
               (case verify_loop env gen (dr_tokens dr) (dr_probs dr) all_logits recent [] g of
                  (Inl f, g1) \<Rightarrow> (Inl f, g1, b1)
                | (Inr (accepted, corrected), g1) \<Rightarrow>
                    (Inr \<lparr>vr_accepted_tokens = accepted, vr_rejected_count = int (length (dr_tokens dr)) - int (length accepted),
                          vr_corrected_token = corrected\<rparr>, g1, b1)))"

section \<open>The decoder\<close>

datatype spec_mode = ModelDraft | PromptLookup

record spec_config =
  sd_mode :: spec_mode
  sd_draft_tokens :: int
  sd_min_draft_tokens :: int
  sd_max_draft_tokens :: int
  sd_lookup_max_ngram :: int
  sd_lookup_min_ngram :: int
  sd_use_speculative :: bool
  sd_disable_after_drafted :: nat
  sd_disable_below_acceptance :: real

record spec_metrics =
  sm_total_draft_tokens :: nat
  sm_total_accepted_tokens :: nat
  sm_total_rejected_tokens :: nat
  sm_generated_tokens :: nat

definition acceptance_rate :: "spec_metrics \<Rightarrow> real" where
  "acceptance_rate m =
     (if sm_total_draft_tokens m = 0 then 0 else real (sm_total_accepted_tokens m) / real (sm_total_draft_tokens m))"

text \<open>
  The decoder object (backends, corpus, metrics, adaptive length, activity) and the local
  variables of one generation.
\<close>

record ('t, 'd, 'g) decoder =
  sp_target :: 't
  sp_draft :: 'd
  sp_corpus :: "corpus option"
  sp_metrics :: spec_metrics
  sp_current_draft_tokens :: int
  sp_active :: bool
  sp_history :: "token list"
  sp_cur :: token
  sp_base :: nat
  sp_emitted :: nat
  sp_lookup_skip :: bool
  sp_sampler :: 'g
  sp_accept_rng :: 'g
  sp_out :: "token list"

definition clamp_int :: "int \<Rightarrow> int \<Rightarrow> int \<Rightarrow> int" where
  "clamp_int x lo hi = (if x < lo then lo else if hi < x then hi else x)"

definition decoder_open :: "spec_config \<Rightarrow> 't backend_ops \<Rightarrow> 'd backend_ops option \<Rightarrow> 't \<Rightarrow> 'd \<Rightarrow> corpus option \<Rightarrow> 'g
    \<Rightarrow> engine_exn + ('t, 'd, 'g) decoder" where
  "decoder_open cfg tops dops t d corpus g =
     (let st = \<lparr>sp_target = t, sp_draft = d, sp_corpus = corpus,
            sp_metrics = \<lparr>sm_total_draft_tokens = 0, sm_total_accepted_tokens = 0, sm_total_rejected_tokens = 0, sm_generated_tokens = 0\<rparr>,
            sp_current_draft_tokens = clamp_int (sd_draft_tokens cfg) (sd_min_draft_tokens cfg) (sd_max_draft_tokens cfg),
            sp_active = (sd_use_speculative cfg \<and> (sd_mode cfg = PromptLookup \<or> dops \<noteq> None)),
            sp_history = [], sp_cur = 0, sp_base = 0, sp_emitted = 0, sp_lookup_skip = False,
            sp_sampler = g, sp_accept_rng = g, sp_out = []\<rparr>
      in case dops of
           None \<Rightarrow> Inr st
         | Some ops \<Rightarrow>
             if 128 < \<bar>bo_vocab_size ops d - bo_vocab_size tops t\<bar> then
               Inl (EngineError (''draft and target vocabularies differ ('' @ show_int (bo_vocab_size ops d) @ '' vs '' @
                 show_int (bo_vocab_size tops t) @ ''): speculative decoding requires a shared tokenizer''))
             else Inr st)"

definition adapt_draft_length :: "spec_config \<Rightarrow> nat \<Rightarrow> nat \<Rightarrow> ('t, 'd, 'g) decoder \<Rightarrow> ('t, 'd, 'g) decoder" where
  "adapt_draft_length cfg accepted drafted st =
     (if drafted = 0 then st
      else let rate = real accepted / real drafted
           in if 9/10 \<le> rate then st\<lparr>sp_current_draft_tokens := min (sp_current_draft_tokens st + 2) (sd_max_draft_tokens cfg)\<rparr>
              else if rate \<le> 4/10 then st\<lparr>sp_current_draft_tokens := max (sp_current_draft_tokens st - 2) (sd_min_draft_tokens cfg)\<rparr>
              else st)"

definition maybe_auto_disable :: "spec_config \<Rightarrow> ('t, 'd, 'g) decoder \<Rightarrow> ('t, 'd, 'g) decoder" where
  "maybe_auto_disable cfg st =
     (if \<not> sp_active st then st
      else if sm_total_draft_tokens (sp_metrics st) < sd_disable_after_drafted cfg then st
      else if acceptance_rate (sp_metrics st) < sd_disable_below_acceptance cfg then st\<lparr>sp_active := False\<rparr>
      else st)"

text \<open>The proposals of prompt-lookup mode, and the one-hot vectors that go with them.\<close>

definition lookup_tokens :: "spec_config \<Rightarrow> 't backend_ops \<Rightarrow> int \<Rightarrow> ('t, 'd, 'g) decoder \<Rightarrow> spec_fault + token list" where
  "lookup_tokens cfg tops n_draft st =
     (let h = sp_history st;
          d1 = find_draft \<lparr>lk_max_ngram = sd_lookup_max_ngram cfg, lk_min_ngram = sd_lookup_min_ngram cfg\<rparr> h n_draft
      in if d1 \<noteq> [] then Inr d1
         else case (case sp_corpus st of None \<Rightarrow> Inr [] | Some c \<Rightarrow> draft c h n_draft) of
                Inl ub \<Rightarrow> Inl (Undefined ub)
              | Inr d2 \<Rightarrow>
                  if d2 \<noteq> [] then Inr d2
                  else let tail_tokens = min (length h) 48
                       in case bo_detokenize tops (drop (length h - tail_tokens) h) (sp_target st) of
                            Inl e \<Rightarrow> Inl (Threw e)
                          | Inr tail_text \<Rightarrow>
                              let proposal = propose tail_text
                              in if proposal = [] then (if n_draft < 0 then Inl LengthError else Inr [])
                                 else case bo_tokenize tops proposal False (sp_target st) of
                                        Inl e \<Rightarrow> Inl (Threw e)
                                      | Inr ts \<Rightarrow> if n_draft < int (length ts)
                                                  then (if n_draft < 0 then Inl LengthError else Inr (take (nat n_draft) ts))
                                                  else Inr ts)"

definition one_hot :: "nat \<Rightarrow> token \<Rightarrow> real list" where
  "one_hot n t = (replicate n 0)[nat (sint t) := 1]"

definition lookup_draft :: "spec_config \<Rightarrow> 't backend_ops \<Rightarrow> int \<Rightarrow> ('t, 'd, 'g) decoder \<Rightarrow> spec_fault + draft_result" where
  "lookup_draft cfg tops n_draft st =
     (case lookup_tokens cfg tops n_draft st of
        Inl f \<Rightarrow> Inl f
      | Inr ts \<Rightarrow>
          let n_vocab = nat (bo_vocab_size tops (sp_target st))
          in if list_all (\<lambda>t. 0 \<le> sint t \<and> sint t < int n_vocab) ts
             then Inr \<lparr>dr_tokens = ts, dr_probs = map (one_hot n_vocab) ts\<rparr>
             else Inl (Undefined OutOfBounds))"

text \<open>The result of an iteration is a fault, or whether the generation is over.\<close>

fun emit_loop :: "'t backend_ops \<Rightarrow> (token list \<Rightarrow> token \<Rightarrow> engine_exn + bool) \<Rightarrow> nat \<Rightarrow> nat \<Rightarrow> token list \<Rightarrow> ('t, 'd, 'g) decoder
    \<Rightarrow> (spec_fault + bool) \<times> ('t, 'd, 'g) decoder" where
  "emit_loop tops callback max_toks n_ctx [] st = (Inr False, st)"
| "emit_loop tops callback max_toks n_ctx (t # ts) st =
     (if bo_is_eog tops t (sp_target st) then (Inr True, st)
      else let st1 = st\<lparr>sp_out := sp_out st @ [t]\<rparr>
           in case callback (sp_out st) t of
                Inl e \<Rightarrow> (Inl (Threw e), st1)
              | Inr keep_going \<Rightarrow>
                  if \<not> keep_going then (Inr True, st1)
                  else let st2 = st1\<lparr>sp_history := sp_history st1 @ [t], sp_emitted := sp_emitted st1 + 1,
                                     sp_metrics := (sp_metrics st1)\<lparr>sm_generated_tokens := sm_generated_tokens (sp_metrics st1) + 1\<rparr>,
                                     sp_cur := t\<rparr>
                       in if max_toks \<le> sp_emitted st2 \<or> n_ctx \<le> length (sp_history st2) then (Inr False, st2)
                          else emit_loop tops callback max_toks n_ctx ts st2)"

text \<open>After a rejection both models roll back to the accepted prefix.\<close>

definition kv_sync :: "spec_config \<Rightarrow> 't backend_ops \<Rightarrow> 'd backend_ops option \<Rightarrow> verification_result \<Rightarrow> nat \<Rightarrow> ('t, 'd, 'g) decoder
    \<Rightarrow> (engine_exn + unit) \<times> ('t, 'd, 'g) decoder" where
  "kv_sync cfg tops dops vr n st =
     (if vr_corrected_token vr = None then (Inr (), st\<lparr>sp_base := sp_base st + n\<rparr>)
      else let keep = sp_base st + 1 + length (vr_accepted_tokens vr)
           in case bo_truncate_to tops keep (sp_target st) of
                (Inl e, b) \<Rightarrow> (Inl e, st\<lparr>sp_target := b\<rparr>)
              | (Inr _, b) \<Rightarrow>
                  if sd_mode cfg = ModelDraft \<and> dops \<noteq> None then
                    (case bo_truncate_to (the dops) keep (sp_draft st) of
                       (Inl e, d) \<Rightarrow> (Inl e, st\<lparr>sp_target := b, sp_draft := d\<rparr>)
                     | (Inr _, d) \<Rightarrow> (Inr (), st\<lparr>sp_target := b, sp_draft := d, sp_base := keep\<rparr>))
                  else (Inr (), st\<lparr>sp_target := b, sp_base := keep\<rparr>))"

definition spec_verify_emit :: "spec_config \<Rightarrow> 't backend_ops \<Rightarrow> 'd backend_ops option \<Rightarrow> 'g sampler_env \<Rightarrow> gen_config
    \<Rightarrow> (token list \<Rightarrow> token \<Rightarrow> engine_exn + bool) \<Rightarrow> nat \<Rightarrow> nat \<Rightarrow> draft_result \<Rightarrow> ('t, 'd, 'g) decoder
    \<Rightarrow> (spec_fault + bool) \<times> ('t, 'd, 'g) decoder" where
  "spec_verify_emit cfg tops dops env gen callback max_toks n_ctx dr st =
     (case verify_batch tops env gen (sp_cur st) dr (sp_history st) (sp_accept_rng st) (sp_target st) of
        (Inl f, g, b) \<Rightarrow> (Inl f, st\<lparr>sp_accept_rng := g, sp_target := b\<rparr>)
      | (Inr vr, g, b) \<Rightarrow>
          let n = length (dr_tokens dr); acc = length (vr_accepted_tokens vr); m = sp_metrics st;
              st1 = st\<lparr>sp_accept_rng := g, sp_target := b,
                       sp_metrics := m\<lparr>sm_total_draft_tokens := sm_total_draft_tokens m + n,
                         sm_total_accepted_tokens := sm_total_accepted_tokens m + acc,
                         sm_total_rejected_tokens := sm_total_rejected_tokens m + nat (vr_rejected_count vr)\<rparr>\<rparr>
          in case kv_sync cfg tops dops vr n st1 of
               (Inl e, st2) \<Rightarrow> (Inl (Threw e), st2)
             | (Inr _, st2) \<Rightarrow>
                 let new_tokens = vr_accepted_tokens vr @ (case vr_corrected_token vr of None \<Rightarrow> [] | Some t \<Rightarrow> [t])
                 in case emit_loop tops callback max_toks n_ctx new_tokens st2 of
                      (Inr False, st3) \<Rightarrow> (Inr False, maybe_auto_disable cfg (adapt_draft_length cfg acc n st3))
                    | r \<Rightarrow> r)"

text \<open>
  In model-draft mode without a draft backend the decoder is never active (\<open>decoder_open\<close>);
  the first branch of \<open>spec_round\<close> is there only to make it total.
\<close>

definition spec_round :: "spec_config \<Rightarrow> 't backend_ops \<Rightarrow> 'd backend_ops option \<Rightarrow> 'g sampler_env \<Rightarrow> gen_config
    \<Rightarrow> (token list \<Rightarrow> token \<Rightarrow> engine_exn + bool) \<Rightarrow> nat \<Rightarrow> nat \<Rightarrow> ('t, 'd, 'g) decoder
    \<Rightarrow> (spec_fault + bool) \<times> ('t, 'd, 'g) decoder" where
  "spec_round cfg tops dops env gen callback max_toks n_ctx st =
     (let room = int (n_ctx - length (sp_history st));
          n_draft = min (sp_current_draft_tokens st) room
      in case sd_mode cfg of
           ModelDraft \<Rightarrow>
             (case dops of
                None \<Rightarrow> (Inr False, st\<lparr>sp_active := False\<rparr>)
              | Some ops \<Rightarrow>
                  (case generate_draft ops env gen (sd_draft_tokens cfg) (sp_cur st) (sp_history st) n_draft (sp_sampler st) (sp_draft st) of
                     (Inl e, g, d) \<Rightarrow> (Inr False, st\<lparr>sp_sampler := g, sp_draft := d, sp_active := False\<rparr>)
                   | (Inr dr, g, d) \<Rightarrow>
                       let st1 = st\<lparr>sp_sampler := g, sp_draft := d\<rparr>
                       in if dr_tokens dr = [] then (Inr False, st1\<lparr>sp_active := False\<rparr>)
                          else spec_verify_emit cfg tops dops env gen callback max_toks n_ctx dr st1))
         | PromptLookup \<Rightarrow>
             (case lookup_draft cfg tops n_draft st of
                Inl f \<Rightarrow> (Inl f, st)
              | Inr dr \<Rightarrow>
                  if dr_tokens dr = [] then (Inr False, st\<lparr>sp_lookup_skip := True\<rparr>)
                  else spec_verify_emit cfg tops dops env gen callback max_toks n_ctx dr st))"

definition plain_round :: "'t backend_ops \<Rightarrow> 'g sampler_env \<Rightarrow> gen_config \<Rightarrow> (token list \<Rightarrow> token \<Rightarrow> engine_exn + bool)
    \<Rightarrow> ('t, 'd, 'g) decoder \<Rightarrow> (spec_fault + bool) \<times> ('t, 'd, 'g) decoder" where
  "plain_round tops env gen callback st0 =
     (let st = st0\<lparr>sp_lookup_skip := False\<rparr>
      in case bo_decode_append tops [sp_cur st] (sp_target st) of
           (Inl e, b) \<Rightarrow> (Inl (Threw e), st\<lparr>sp_target := b\<rparr>)
         | (Inr logits, b) \<Rightarrow>
             let st1 = st\<lparr>sp_target := b, sp_base := sp_base st + 1\<rparr>
             in case sampler_sample env gen logits (sp_history st1) (sp_sampler st1) of
                  (Inl e, g) \<Rightarrow> (Inl (Threw e), st1\<lparr>sp_sampler := g\<rparr>)
                | (Inr t, g) \<Rightarrow>
                    let st2 = st1\<lparr>sp_sampler := g\<rparr>
                    in if bo_is_eog tops t (sp_target st2) then (Inr True, st2)
                       else let st3 = st2\<lparr>sp_out := sp_out st2 @ [t]\<rparr>
                            in case callback (sp_out st2) t of
                                 Inl e \<Rightarrow> (Inl (Threw e), st3)
                               | Inr keep_going \<Rightarrow>
                                   if \<not> keep_going then (Inr True, st3)
                                   else (Inr False, st3\<lparr>sp_history := sp_history st3 @ [t], sp_emitted := sp_emitted st3 + 1,
                                     sp_metrics := (sp_metrics st3)\<lparr>sm_generated_tokens := sm_generated_tokens (sp_metrics st3) + 1\<rparr>,
                                     sp_cur := t\<rparr>))"

definition draft_vocab :: "spec_config \<Rightarrow> 't backend_ops \<Rightarrow> 'd backend_ops option \<Rightarrow> ('t, 'd, 'g) decoder \<Rightarrow> int" where
  "draft_vocab cfg tops dops st =
     (case (sd_mode cfg, dops) of
        (ModelDraft, Some ops) \<Rightarrow> bo_vocab_size ops (sp_draft st)
      | _ \<Rightarrow> bo_vocab_size tops (sp_target st))"

definition spec_iteration :: "spec_config \<Rightarrow> 't backend_ops \<Rightarrow> 'd backend_ops option \<Rightarrow> 'g sampler_env \<Rightarrow> gen_config
    \<Rightarrow> (token list \<Rightarrow> token \<Rightarrow> engine_exn + bool) \<Rightarrow> nat \<Rightarrow> nat \<Rightarrow> int \<Rightarrow> ('t, 'd, 'g) decoder
    \<Rightarrow> (spec_fault + bool) \<times> ('t, 'd, 'g) decoder" where
  "spec_iteration cfg tops dops env gen callback max_toks n_ctx vocab st =
     (let st1 = (if sp_active st \<and> sd_mode cfg = ModelDraft \<and> vocab \<le> sint (sp_cur st) then st\<lparr>sp_active := False\<rparr> else st)
      in if sp_active st1 \<and> \<not> sp_lookup_skip st1
         then spec_round cfg tops dops env gen callback max_toks n_ctx st1
         else plain_round tops env gen callback st1)"

partial_function (option) spec_loop :: "spec_config \<Rightarrow> 't backend_ops \<Rightarrow> 'd backend_ops option \<Rightarrow> 'g sampler_env \<Rightarrow> gen_config
    \<Rightarrow> (token list \<Rightarrow> token \<Rightarrow> engine_exn + bool) \<Rightarrow> nat \<Rightarrow> nat \<Rightarrow> int \<Rightarrow> ('t, 'd, 'g) decoder
    \<Rightarrow> ((spec_fault + unit) \<times> ('t, 'd, 'g) decoder) option" where
  "spec_loop cfg tops dops env gen callback max_toks n_ctx vocab st =
     (if \<not> (sp_emitted st < max_toks \<and> length (sp_history st) < n_ctx) then Some (Inr (), st)
      else case spec_iteration cfg tops dops env gen callback max_toks n_ctx vocab st of
             (res, st') \<Rightarrow>
               (case res of
                  Inl f \<Rightarrow> Some (Inl f, st')
                | Inr over \<Rightarrow> if over then Some (Inr (), st')
                              else spec_loop cfg tops dops env gen callback max_toks n_ctx vocab st'))"

definition prefill_seq :: "'b backend_ops \<Rightarrow> token list \<Rightarrow> 'b \<Rightarrow> (engine_exn + unit) \<times> 'b" where
  "prefill_seq ops ts b =
     (let b1 = bo_reset ops b
      in if ts = [] then (Inr (), b1)
         else case bo_decode_append ops ts b1 of (Inl e, b2) \<Rightarrow> (Inl e, b2) | (Inr _, b2) \<Rightarrow> (Inr (), b2))"

text \<open>The destructor of the observe guard, on every exit path.\<close>

definition observe_guard :: "spec_config \<Rightarrow> ('t, 'd, 'g) decoder \<Rightarrow> ('t, 'd, 'g) decoder" where
  "observe_guard cfg st =
     (case (sd_mode cfg, sp_corpus st) of
        (PromptLookup, Some c) \<Rightarrow> st\<lparr>sp_corpus := Some (observe (sp_history st) c)\<rparr>
      | _ \<Rightarrow> st)"

definition prefill_draft :: "spec_config \<Rightarrow> 'd backend_ops option \<Rightarrow> token list \<Rightarrow> ('t, 'd, 'g) decoder \<Rightarrow> ('t, 'd, 'g) decoder" where
  "prefill_draft cfg dops ts st =
     (if sp_active st \<and> sd_mode cfg = ModelDraft then
        (case dops of
           None \<Rightarrow> st
         | Some ops \<Rightarrow>
             (case prefill_seq ops ts (sp_draft st) of
                (Inl _, d) \<Rightarrow> st\<lparr>sp_draft := d, sp_active := False\<rparr>
              | (Inr _, d) \<Rightarrow> st\<lparr>sp_draft := d\<rparr>))
      else st)"

definition generate_stream :: "spec_config \<Rightarrow> 't backend_ops \<Rightarrow> 'd backend_ops option \<Rightarrow> 'g sampler_env \<Rightarrow> token list
    \<Rightarrow> (token list \<Rightarrow> token \<Rightarrow> engine_exn + bool) \<Rightarrow> gen_config \<Rightarrow> ('t, 'd, 'g) decoder
    \<Rightarrow> ((spec_fault + unit) \<times> ('t, 'd, 'g) decoder) option" where
  "generate_stream cfg tops dops env prompt callback gen st0 =
     (if prompt = [] then Some (Inl (Threw (EngineError ''prompt is empty'')), st0)
      else let n_ctx = bo_context_length tops (sp_target st0)
      in if n_ctx < length prompt then
           Some (Inl (Threw (EngineError (''prompt of '' @ show_nat (length prompt) @ '' tokens exceeds context length '' @ show_nat n_ctx))), st0)
         else let base = length prompt - 1;
                  st1 = st0\<lparr>sp_sampler := sampler_init env gen, sp_accept_rng := se_seed env (of_int (gc_seed gen) XOR 0x9E3779B9),
                            sp_history := prompt, sp_cur := last prompt, sp_base := base, sp_emitted := 0,
                            sp_lookup_skip := False, sp_out := []\<rparr>
              in case prefill_seq tops (take base prompt) (sp_target st1) of
                   (Inl e, b) \<Rightarrow> Some (Inl (Threw e), observe_guard cfg (st1\<lparr>sp_target := b\<rparr>))
                 | (Inr _, b) \<Rightarrow>
                     let st3 = prefill_draft cfg dops (take base prompt) (st1\<lparr>sp_target := b\<rparr>)
                     in map_option (map_prod id (observe_guard cfg))
                          (spec_loop cfg tops dops env gen callback (nat (max (gc_max_tokens gen) 0)) n_ctx
                             (draft_vocab cfg tops dops st3) st3))"

definition generate :: "spec_config \<Rightarrow> 't backend_ops \<Rightarrow> 'd backend_ops option \<Rightarrow> 'g sampler_env \<Rightarrow> token list \<Rightarrow> gen_config
    \<Rightarrow> ('t, 'd, 'g) decoder \<Rightarrow> ((spec_fault + token list) \<times> ('t, 'd, 'g) decoder) option" where
  "generate cfg tops dops env prompt gen st =
     (case generate_stream cfg tops dops env prompt (\<lambda>_ _. Inr True) gen st of
        None \<Rightarrow> None
      | Some (Inl f, st') \<Rightarrow> Some (Inl f, st')
      | Some (Inr _, st') \<Rightarrow> Some (Inr (sp_out st'), st'))"

section \<open>Every generation ends\<close>

definition spec_measure :: "nat \<Rightarrow> ('t, 'd, 'g) decoder \<Rightarrow> nat" where
  "spec_measure max_toks st = 2 * (max_toks - sp_emitted st) + (if sp_active st \<and> \<not> sp_lookup_skip st then 1 else 0)"

lemma tune_frame [simp]:
  "sp_emitted (maybe_auto_disable cfg (adapt_draft_length cfg a n st)) = sp_emitted st"
  "sp_history (maybe_auto_disable cfg (adapt_draft_length cfg a n st)) = sp_history st"
  "sp_target (maybe_auto_disable cfg (adapt_draft_length cfg a n st)) = sp_target st"
  "sp_out (maybe_auto_disable cfg (adapt_draft_length cfg a n st)) = sp_out st"
  "sp_cur (maybe_auto_disable cfg (adapt_draft_length cfg a n st)) = sp_cur st"
  "sp_base (maybe_auto_disable cfg (adapt_draft_length cfg a n st)) = sp_base st"
  "sp_lookup_skip (maybe_auto_disable cfg (adapt_draft_length cfg a n st)) = sp_lookup_skip st"
  by (simp_all add: maybe_auto_disable_def adapt_draft_length_def Let_def)

lemma emit_loop_frame:
  "emit_loop tops cb m n ts st = (r, st') \<Longrightarrow>
     sp_emitted st \<le> sp_emitted st' \<and> (ts \<noteq> [] \<and> r = Inr False \<longrightarrow> sp_emitted st < sp_emitted st')
     \<and> sp_target st' = sp_target st \<and> sp_base st' = sp_base st"
proof (induction ts arbitrary: st)
  case (Cons t ts)
  then show ?case by (auto simp: Let_def split: if_splits sum.splits dest!: Cons.IH)
qed simp

lemma verify_loop_result:
  "verify_loop env gen ds qs ls h acc g = (Inr (acc', c), g') \<Longrightarrow> ds \<noteq> [] \<or> acc \<noteq> [] \<Longrightarrow> acc' \<noteq> [] \<or> c \<noteq> None"
proof (induction ds arbitrary: qs ls h acc g)
  case (Cons d ds)
  then show ?case by (auto split: sum.splits option.splits prod.splits if_splits)
qed simp

lemma verify_batch_result:
  assumes "verify_batch ops env gen t dr h g b = (Inr vr, g', b')"
  shows "vr_accepted_tokens vr @ (case vr_corrected_token vr of None \<Rightarrow> [] | Some t \<Rightarrow> [t]) \<noteq> []"
proof -
  obtain ls where "dr_tokens dr \<noteq> []" "verify_loop env gen (dr_tokens dr) (dr_probs dr) ls h [] g =
      (Inr (vr_accepted_tokens vr, vr_corrected_token vr), g')"
    using assms by (auto simp: verify_batch_def split: if_splits prod.splits sum.splits)
  from verify_loop_result [OF this(2)] this(1) show ?thesis by (auto split: option.splits)
qed

lemma kv_sync_frame:
  "kv_sync cfg tops dops vr n st = (r, st') \<Longrightarrow> sp_out st' = sp_out st \<and> sp_history st' = sp_history st
     \<and> sp_emitted st' = sp_emitted st \<and> sp_lookup_skip st' = sp_lookup_skip st \<and> sp_active st' = sp_active st \<and> sp_cur st' = sp_cur st"
  by (auto simp: kv_sync_def Let_def split: if_splits prod.splits sum.splits)

lemma kv_sync_base:
  assumes "kv_sync cfg tops dops vr n st = (Inr u, st')"
  shows "vr_corrected_token vr = None \<Longrightarrow> sp_target st' = sp_target st \<and> sp_base st' = sp_base st + n"
    "vr_corrected_token vr \<noteq> None \<Longrightarrow> bo_truncate_to tops (sp_base st + 1 + length (vr_accepted_tokens vr)) (sp_target st) = (Inr (), sp_target st')
       \<and> sp_base st' = sp_base st + 1 + length (vr_accepted_tokens vr)"
  using assms by (auto simp: kv_sync_def Let_def split: if_splits prod.splits sum.splits)

lemma spec_verify_emit_cases:
  assumes "spec_verify_emit cfg tops dops env gen cb m n dr st = (r, st')"
  obtains (fault) f where "r = Inl f" "sp_out st' = sp_out st" "sp_history st' = sp_history st"
  | (emit) vr g b st2 r3 st3 where
      "verify_batch tops env gen (sp_cur st) dr (sp_history st) (sp_accept_rng st) (sp_target st) = (Inr vr, g, b)"
      "sp_out st2 = sp_out st" "sp_history st2 = sp_history st" "sp_emitted st2 = sp_emitted st"
      "vr_corrected_token vr = None \<Longrightarrow> sp_target st2 = b \<and> sp_base st2 = sp_base st + length (dr_tokens dr)"
      "vr_corrected_token vr \<noteq> None \<Longrightarrow> bo_truncate_to tops (sp_base st + 1 + length (vr_accepted_tokens vr)) b = (Inr (), sp_target st2)
         \<and> sp_base st2 = sp_base st + 1 + length (vr_accepted_tokens vr)"
      "emit_loop tops cb m n (vr_accepted_tokens vr @ (case vr_corrected_token vr of None \<Rightarrow> [] | Some t \<Rightarrow> [t])) st2 = (r3, st3)"
      "r = r3" "st' = (if r3 = Inr False
         then maybe_auto_disable cfg (adapt_draft_length cfg (length (vr_accepted_tokens vr)) (length (dr_tokens dr)) st3) else st3)"
      "sp_cur st2 = sp_cur st"
proof -
  obtain res g b where vb: "verify_batch tops env gen (sp_cur st) dr (sp_history st) (sp_accept_rng st) (sp_target st) = (res, g, b)"
    by (rule prod_cases3)
  show thesis
  proof (cases res)
    case (Inl f)
    then show thesis using assms vb by (intro fault) (auto simp: spec_verify_emit_def)
  next
    case (Inr vr)
    define st1 where "st1 = st\<lparr>sp_accept_rng := g, sp_target := b, sp_metrics := (sp_metrics st)
      \<lparr>sm_total_draft_tokens := sm_total_draft_tokens (sp_metrics st) + length (dr_tokens dr),
       sm_total_accepted_tokens := sm_total_accepted_tokens (sp_metrics st) + length (vr_accepted_tokens vr),
       sm_total_rejected_tokens := sm_total_rejected_tokens (sp_metrics st) + nat (vr_rejected_count vr)\<rparr>\<rparr>"
    have st1: "sp_out st1 = sp_out st" "sp_history st1 = sp_history st" "sp_emitted st1 = sp_emitted st" "sp_target st1 = b"
      "sp_base st1 = sp_base st" "sp_cur st1 = sp_cur st" by (simp_all add: st1_def)
    obtain ks st2 where sync: "kv_sync cfg tops dops vr (length (dr_tokens dr)) st1 = (ks, st2)" by fastforce
    note frame = kv_sync_frame [OF sync]
    show thesis
    proof (cases ks)
      case (Inl e)
      then show thesis using assms vb Inr sync frame st1
        by (intro fault) (auto simp: spec_verify_emit_def Let_def st1_def [symmetric])
    next
      case (Inr u)
      obtain r3 st3 where em: "emit_loop tops cb m n (vr_accepted_tokens vr @ (case vr_corrected_token vr of None \<Rightarrow> [] | Some t \<Rightarrow> [t])) st2 = (r3, st3)"
        by fastforce
      have eq: "(r, st') = (case (r3, st3) of
          (Inr False, st3) \<Rightarrow> (Inr False, maybe_auto_disable cfg (adapt_draft_length cfg (length (vr_accepted_tokens vr)) (length (dr_tokens dr)) st3))
        | r \<Rightarrow> r)"
        using assms vb \<open>res = Inr vr\<close> sync Inr em by (simp add: spec_verify_emit_def Let_def st1_def [symmetric])
      show thesis
      proof (rule emit [of vr g b st2 r3 st3])
        show "r = r3" "st' = (if r3 = Inr False
            then maybe_auto_disable cfg (adapt_draft_length cfg (length (vr_accepted_tokens vr)) (length (dr_tokens dr)) st3) else st3)"
          using eq by (auto split: sum.splits bool.splits)
      qed (use vb \<open>res = Inr vr\<close> frame st1 em kv_sync_base [OF sync [unfolded Inr]] in auto)
    qed
  qed
qed

lemma spec_verify_emit_progress:
  assumes "spec_verify_emit cfg tops dops env gen cb m n dr st = (Inr False, st')"
  shows "sp_emitted st < sp_emitted st'"
  using assms
proof (cases rule: spec_verify_emit_cases)
  case (emit vr g b st2 r3 st3)
  then show ?thesis using emit_loop_frame [OF emit(7)] verify_batch_result [OF emit(1)] by auto
qed simp

definition same_run :: "('t, 'd, 'g) decoder \<Rightarrow> ('t, 'd, 'g) decoder \<Rightarrow> bool" where
  "same_run st st' \<longleftrightarrow> sp_target st' = sp_target st \<and> sp_history st' = sp_history st \<and> sp_cur st' = sp_cur st
     \<and> sp_base st' = sp_base st \<and> sp_emitted st' = sp_emitted st \<and> sp_out st' = sp_out st"

definition drafted_by :: "spec_config \<Rightarrow> 't backend_ops \<Rightarrow> 'd backend_ops option \<Rightarrow> 'g sampler_env \<Rightarrow> gen_config \<Rightarrow> ('t, 'd, 'g) decoder
    \<Rightarrow> draft_result \<Rightarrow> bool" where
  "drafted_by cfg tops dops env gen st dr \<longleftrightarrow>
     (\<exists>k. lookup_draft cfg tops k st = Inr dr)
     \<or> (\<exists>ops k g d. dops = Some ops \<and> generate_draft ops env gen (sd_draft_tokens cfg) (sp_cur st) (sp_history st) k (sp_sampler st) (sp_draft st) = (Inr dr, g, d))"

lemma spec_round_cases:
  assumes "spec_round cfg tops dops env gen cb m n st = (r, st')"
  obtains (off) "r = Inr False" "same_run st st'" "\<not> sp_active st' \<or> sp_lookup_skip st'"
  | (fault) f where "r = Inl f" "same_run st st'"
  | (verify) dr st1 where "spec_verify_emit cfg tops dops env gen cb m n dr st1 = (r, st')" "same_run st st1"
      "drafted_by cfg tops dops env gen st dr"
proof (cases "sd_mode cfg")
  case ModelDraft
  show thesis
  proof (cases dops)
    case None
    then show thesis using assms ModelDraft by (intro off) (auto simp: spec_round_def same_run_def)
  next
    case (Some ops)
    let ?n = "min (sp_current_draft_tokens st) (int (n - length (sp_history st)))"
    obtain res g d where gd: "generate_draft ops env gen (sd_draft_tokens cfg) (sp_cur st) (sp_history st) ?n (sp_sampler st) (sp_draft st) = (res, g, d)"
      by (rule prod_cases3)
    show thesis
    proof (cases "\<exists>dr. res = Inr dr \<and> dr_tokens dr \<noteq> []")
      case True
      then obtain dr where dr: "res = Inr dr" "dr_tokens dr \<noteq> []" by blast
      then have "spec_verify_emit cfg tops dops env gen cb m n dr (st\<lparr>sp_sampler := g, sp_draft := d\<rparr>) = (r, st')"
        using assms ModelDraft Some gd by (simp add: spec_round_def Let_def)
      then show thesis
        using gd dr Some by (intro verify [of dr "st\<lparr>sp_sampler := g, sp_draft := d\<rparr>"]) (auto simp: same_run_def drafted_by_def)
    next
      case False
      then show thesis using assms ModelDraft Some gd
        by (intro off) (auto simp: spec_round_def same_run_def Let_def split: sum.splits)
    qed
  qed
next
  case PromptLookup
  let ?n = "min (sp_current_draft_tokens st) (int (n - length (sp_history st)))"
  show thesis
  proof (cases "lookup_draft cfg tops ?n st")
    case (Inl f)
    then show thesis using assms PromptLookup by (intro fault) (auto simp: spec_round_def same_run_def Let_def)
  next
    case (Inr dr)
    show thesis
    proof (cases "dr_tokens dr = []")
      case True
      then show thesis using assms PromptLookup Inr by (intro off) (auto simp: spec_round_def same_run_def Let_def)
    next
      case False
      then show thesis using assms PromptLookup Inr
        by (intro verify [of dr st]) (auto simp: spec_round_def same_run_def drafted_by_def Let_def)
    qed
  qed
qed

lemma spec_iteration_cases:
  assumes "spec_iteration cfg tops dops env gen cb m n v st = (r, st')"
  obtains (spec) "sp_active st" "\<not> sp_lookup_skip st" "spec_round cfg tops dops env gen cb m n st = (r, st')"
  | (plain) st1 where "same_run st st1" "plain_round tops env gen cb st1 = (r, st')"
proof -
  define st1 where "st1 = (if sp_active st \<and> sd_mode cfg = ModelDraft \<and> v \<le> sint (sp_cur st) then st\<lparr>sp_active := False\<rparr> else st)"
  have it: "(if sp_active st1 \<and> \<not> sp_lookup_skip st1 then spec_round cfg tops dops env gen cb m n st1
      else plain_round tops env gen cb st1) = (r, st')"
    using assms unfolding spec_iteration_def Let_def st1_def [symmetric] .
  show thesis
  proof (cases "sp_active st1 \<and> \<not> sp_lookup_skip st1")
    case True
    then have "st1 = st" by (auto simp: st1_def split: if_splits)
    with True it show thesis by (intro spec) auto
  next
    case False
    with it show thesis by (intro plain [of st1]) (auto simp: st1_def same_run_def)
  qed
qed

lemma spec_iteration_progress:
  assumes "spec_iteration cfg tops dops env gen cb m n v st = (Inr False, st')" "sp_emitted st < m"
  shows "spec_measure m st' < spec_measure m st"
proof -
  have grow: "spec_measure m st' < spec_measure m st" if "sp_emitted st < sp_emitted st'"
    using that assms(2) by (auto simp: spec_measure_def)
  show ?thesis
    using assms(1)
  proof (cases rule: spec_iteration_cases)
    case spec
    show ?thesis
      using spec(3)
    proof (cases rule: spec_round_cases)
      case off
      then show ?thesis using spec by (auto simp: spec_measure_def same_run_def)
    next
      case (verify dr st1)
      then show ?thesis using spec_verify_emit_progress [OF verify(1)] by (intro grow) (simp add: same_run_def)
    qed simp
  next
    case (plain st1)
    then have "sp_emitted st' = sp_emitted st1 + 1"
      unfolding plain_round_def Let_def by (auto split: prod.splits sum.splits if_splits)
    with plain(1) show ?thesis by (intro grow) (simp add: same_run_def)
  qed
qed

lemma spec_loop_total: "\<exists>r. spec_loop cfg tops dops env gen cb m n v st = Some r"
proof (induction "spec_measure m st" arbitrary: st rule: less_induct)
  case less
  obtain res st' where it: "spec_iteration cfg tops dops env gen cb m n v st = (res, st')" by fastforce
  show ?case
  proof (cases "sp_emitted st < m \<and> length (sp_history st) < n \<and> res = Inr False")
    case True
    then have "\<exists>r. spec_loop cfg tops dops env gen cb m n v st' = Some r"
      using less.hyps spec_iteration_progress [OF it [unfolded True [THEN conjunct2, THEN conjunct2]]] by blast
    then show ?thesis using True it by (subst spec_loop.simps) simp
  next
    case False
    then show ?thesis using it by (subst spec_loop.simps) (auto split: sum.splits)
  qed
qed

lemma generate_stream_total:
  "\<exists>res st'. generate_stream cfg tops dops env prompt callback gen st = Some (res, st')"
proof -
  have "spec_loop cfg tops dops env gen callback m n v st' \<noteq> None" for m n v st' using spec_loop_total by fastforce
  then have "generate_stream cfg tops dops env prompt callback gen st \<noteq> None"
    by (simp add: generate_stream_def Let_def split: prod.splits sum.splits)
  then show ?thesis by auto
qed

text \<open>
  Generation with speculation always ends: whatever the two models, the tokenizer, the
  corpus and the callback answer, \<open>generate_stream\<close> returns or throws after finitely many
  iterations.
\<close>

theorem generate_stream_terminates:
  "\<exists>res st'. generate_stream cfg tops dops env prompt callback gen st = Some (res, st')"
  by (rule generate_stream_total)

section \<open>What is delivered stays within the limits\<close>

definition out_ok :: "(token \<Rightarrow> bool) \<Rightarrow> nat \<Rightarrow> nat \<Rightarrow> token list \<Rightarrow> token list \<Rightarrow> bool" where
  "out_ok eog max_toks n_ctx prompt out \<longleftrightarrow> list_all (\<lambda>t. \<not> eog t) out \<and> length out \<le> max_toks
     \<and> (out \<noteq> [] \<longrightarrow> length (prompt @ out) \<le> n_ctx)"

definition lim_ok :: "(token \<Rightarrow> bool) \<Rightarrow> nat \<Rightarrow> nat \<Rightarrow> token list \<Rightarrow> ('t, 'd, 'g) decoder \<Rightarrow> bool" where
  "lim_ok eog max_toks n_ctx prompt st \<longleftrightarrow> sp_history st = prompt @ sp_out st \<and> sp_emitted st = length (sp_out st)
     \<and> out_ok eog max_toks n_ctx prompt (sp_out st)"

lemma lim_ok_same: "same_run st st' \<Longrightarrow> lim_ok eog m n prompt st' = lim_ok eog m n prompt st"
  by (simp add: same_run_def lim_ok_def)

lemma lim_ok_out: "lim_ok eog m n prompt st \<Longrightarrow> out_ok eog m n prompt (sp_out st)"
  by (simp add: lim_ok_def)

lemma emit_loop_limits:
  assumes eog: "\<And>t b. bo_is_eog tops t b = eog t"
  shows "lim_ok eog m n prompt st \<Longrightarrow> sp_emitted st < m \<Longrightarrow> length (sp_history st) < n \<Longrightarrow> emit_loop tops cb m n ts st = (r, st') \<Longrightarrow>
     out_ok eog m n prompt (sp_out st') \<and> (r = Inr False \<longrightarrow> lim_ok eog m n prompt st')"
proof (induction ts arbitrary: st)
  case (Cons t ts)
  define st2 where "st2 = st\<lparr>sp_out := sp_out st @ [t], sp_history := sp_history st @ [t], sp_emitted := sp_emitted st + 1,
     sp_metrics := (sp_metrics st)\<lparr>sm_generated_tokens := sm_generated_tokens (sp_metrics st) + 1\<rparr>, sp_cur := t\<rparr>"
  have lim2: "lim_ok eog m n prompt st2" if "\<not> eog t"
    using Cons.prems(1-3) that by (auto simp: lim_ok_def out_ok_def st2_def)
  show ?case
    using Cons.prems lim2 Cons.IH [of st2] lim_ok_out [of eog m n prompt st]
    by (auto simp: eog Let_def st2_def lim_ok_def split: if_splits sum.splits)
qed (simp add: lim_ok_def)

lemma spec_verify_emit_limits:
  assumes eog: "\<And>t b. bo_is_eog tops t b = eog t"
    and "lim_ok eog m n prompt st" "sp_emitted st < m" "length (sp_history st) < n"
    and "spec_verify_emit cfg tops dops env gen cb m n dr st = (r, st')"
  shows "out_ok eog m n prompt (sp_out st') \<and> (r = Inr False \<longrightarrow> lim_ok eog m n prompt st')"
  using assms(5)
proof (cases rule: spec_verify_emit_cases)
  case (fault f)
  then show ?thesis using assms(2) by (simp add: lim_ok_def)
next
  case (emit vr g b st2 r3 st3)
  have "lim_ok eog m n prompt st2" "sp_emitted st2 < m" "length (sp_history st2) < n"
    using assms(2-4) emit(2-4) by (simp_all add: lim_ok_def)
  from emit_loop_limits [OF eog this emit(7)] emit(8,9) show ?thesis
    by (auto simp: lim_ok_def)
qed

lemma plain_round_limits:
  assumes eog: "\<And>t b. bo_is_eog tops t b = eog t"
    and "lim_ok eog m n prompt st" "sp_emitted st < m" "length (sp_history st) < n"
    and "plain_round tops env gen cb st = (r, st')"
  shows "out_ok eog m n prompt (sp_out st') \<and> (r = Inr False \<longrightarrow> lim_ok eog m n prompt st')"
  using assms
  by (auto simp: plain_round_def Let_def eog lim_ok_def out_ok_def split: prod.splits sum.splits if_splits)

lemma spec_iteration_limits:
  assumes eog: "\<And>t b. bo_is_eog tops t b = eog t"
    and "lim_ok eog m n prompt st" "sp_emitted st < m" "length (sp_history st) < n"
    and "spec_iteration cfg tops dops env gen cb m n v st = (r, st')"
  shows "out_ok eog m n prompt (sp_out st') \<and> (r = Inr False \<longrightarrow> lim_ok eog m n prompt st')"
  using assms(5)
proof (cases rule: spec_iteration_cases)
  case spec
  show ?thesis
    using spec(3)
  proof (cases rule: spec_round_cases)
    case (verify dr st1)
    then show ?thesis using spec_verify_emit_limits [OF eog _ _ _ verify(1), of prompt] assms(2-4) lim_ok_same [OF verify(2)]
      by (simp add: same_run_def)
  next
    case off
    then show ?thesis using assms(2) lim_ok_same [OF off(2)] lim_ok_out by blast
  next
    case (fault f)
    then show ?thesis using assms(2) lim_ok_same [OF fault(2)] lim_ok_out by blast
  qed
next
  case (plain st1)
  then show ?thesis using plain_round_limits [OF eog _ _ _ plain(2), of m n prompt] assms(2-4) lim_ok_same [OF plain(1)]
    by (simp add: same_run_def)
qed

lemma spec_loop_limits:
  assumes eog: "\<And>t b. bo_is_eog tops t b = eog t"
    and "lim_ok eog m n prompt st" "spec_loop cfg tops dops env gen cb m n v st = Some (r, st')"
  shows "out_ok eog m n prompt (sp_out st')"
  using assms(2,3)
proof (induction "spec_measure m st" arbitrary: st rule: less_induct)
  case less
  obtain res st1 where it: "spec_iteration cfg tops dops env gen cb m n v st = (res, st1)" by fastforce
  show ?case
  proof (cases "sp_emitted st < m \<and> length (sp_history st) < n")
    case False
    then have "st' = st" using less.prems(2) by (auto simp: spec_loop.simps [of cfg tops dops env gen cb m n v st])
    then show ?thesis using less.prems(1) by (simp add: lim_ok_def)
  next
    case True
    note one = spec_iteration_limits [OF eog less.prems(1) conjunct1 [OF True] conjunct2 [OF True] it]
    show ?thesis
    proof (cases "res = Inr False")
      case False
      then show ?thesis using True it less.prems(2) one
        by (cases res) (auto simp: spec_loop.simps [of cfg tops dops env gen cb m n v st])
    next
      case go: True
      then have "spec_loop cfg tops dops env gen cb m n v st1 = Some (r, st')"
        using True it less.prems(2) by (simp add: spec_loop.simps [of cfg tops dops env gen cb m n v st])
      then show ?thesis using less.hyps [of st1] spec_iteration_progress [OF it [unfolded go]] True one go by blast
    qed
  qed
qed

lemma generate_stream_limits:
  fixes st :: "('t, 'd, 'g) decoder"
  assumes eog: "\<And>t b. bo_is_eog tops t b = eog t"
    and "prompt \<noteq> []" "length prompt \<le> bo_context_length tops (sp_target st)"
    and "generate_stream cfg tops dops env prompt cb gen st = Some (res, st')"
  shows "out_ok eog (nat (max (gc_max_tokens gen) 0)) (bo_context_length tops (sp_target st)) prompt (sp_out st')"
proof -
  let ?base = "length prompt - 1" and ?m = "nat (max (gc_max_tokens gen) 0)" and ?n = "bo_context_length tops (sp_target st)"
  define st1 where "st1 = st\<lparr>sp_sampler := sampler_init env gen, sp_accept_rng := se_seed env (of_int (gc_seed gen) XOR 0x9E3779B9),
    sp_history := prompt, sp_cur := last prompt, sp_base := ?base, sp_emitted := 0, sp_lookup_skip := False, sp_out := []\<rparr>"
  have guard: "sp_out (observe_guard cfg s) = sp_out s" for s :: "('t, 'd, 'g) decoder"
    by (simp add: observe_guard_def split: spec_mode.splits option.splits)
  obtain u b where pre: "prefill_seq tops (take ?base prompt) (sp_target st1) = (u, b)" by fastforce
  show ?thesis
  proof (cases u)
    case (Inl e)
    then have "st' = observe_guard cfg (st1\<lparr>sp_target := b\<rparr>)"
      using assms(2-4) pre by (auto simp: generate_stream_def Let_def st1_def)
    then show ?thesis by (simp add: guard st1_def out_ok_def)
  next
    case (Inr x)
    define st3 where "st3 = prefill_draft cfg dops (take ?base prompt) (st1\<lparr>sp_target := b\<rparr>)"
    obtain st4 where loop: "spec_loop cfg tops dops env gen cb ?m ?n (draft_vocab cfg tops dops st3) st3 = Some (res, st4)"
      and st': "st' = observe_guard cfg st4"
      using assms(2-4) pre Inr by (auto simp: generate_stream_def Let_def st1_def st3_def)
    have "lim_ok eog ?m ?n prompt st3"
      by (auto simp: st3_def st1_def prefill_draft_def lim_ok_def out_ok_def split: option.splits prod.splits sum.splits)
    from spec_loop_limits [OF eog this loop] show ?thesis unfolding st' guard .
  qed
qed

section \<open>Speculative sampling is exact\<close>

definition accept_prob :: "real \<Rightarrow> real \<Rightarrow> real" where
  "accept_prob p q = (if q \<le> p then 1 else p / q)"

lemma accept_token_prob:
  assumes "0 < q" "0 \<le> r" "r < 1"
  shows "accept_token p q r \<longleftrightarrow> r < accept_prob p q"
proof (cases "q \<le> p")
  case True
  have "r * q < q" using assms by simp
  then have "r * q < p" using True by linarith
  with True assms show ?thesis by (simp add: accept_token_def accept_prob_def)
qed (use assms in \<open>simp add: accept_token_def accept_prob_def pos_less_divide_eq\<close>)

lemma accepted_mass: "0 \<le> p \<Longrightarrow> 0 \<le> q \<Longrightarrow> q * accept_prob p q = min p q"
  by (auto simp: accept_prob_def min_def)

lemma residual_mass:
  assumes "length q = length p" "\<forall>x\<in>set p. 0 \<le> x" "\<forall>x\<in>set q. 0 \<le> x" "sum_list p = 1" "t < length p"
  shows "(1 - (\<Sum>d<length p. min (p ! d) (q ! d))) * residual_distribution p q ! t = p ! t - min (p ! t) (q ! t)"
proof -
  let ?res = "map (\<lambda>i. max (p ! i - (if i < length q then q ! i else 0)) 0) [0..<length p]"
  have nth: "?res ! i = p ! i - min (p ! i) (q ! i)" if "i < length p" for i using that assms(1) by auto
  have "sum_list ?res = (\<Sum>i<length p. ?res ! i)" by (simp add: sum_list_mass)
  also have "\<dots> = (\<Sum>i<length p. p ! i - min (p ! i) (q ! i))" using nth by (intro sum.cong) simp_all
  also have "\<dots> = 1 - (\<Sum>d<length p. min (p ! d) (q ! d))"
    using assms(4) by (simp add: sum_subtractf sum_list_mass)
  finally have mass: "sum_list ?res = 1 - (\<Sum>d<length p. min (p ! d) (q ! d))" .
  show ?thesis
  proof (cases "sum_list ?res \<le> 0")
    case True
    have "0 \<le> ?res ! i" if "i < length p" for i using nth [OF that] by simp
    then have "?res ! t \<le> sum_list ?res" using assms(5) by (intro member_le_sum_list) (auto simp: in_set_conv_nth)
    moreover have "0 \<le> ?res ! t" using nth [OF assms(5)] by simp
    moreover have "0 \<le> sum_list ?res" by (intro sum_list_nonneg) auto
    ultimately have "p ! t = min (p ! t) (q ! t)" "sum_list ?res = 0" using True nth [OF assms(5)] by linarith+
    then show ?thesis using mass by simp
  next
    case False
    then have "residual_distribution p q ! t = ?res ! t / sum_list ?res"
      using assms(5) by (simp add: residual_distribution_def Let_def del: upt_Suc)
    then show ?thesis using False nth [OF assms(5)] mass by simp
  qed
qed

text \<open>
  C14: acceptance and residual reproduce the target distribution exactly.  For a target
  distribution \<open>p\<close> and a draft distribution \<open>q\<close> over the same vocabulary: a draft token
  \<open>d\<close> is accepted for exactly the uniform numbers below \<open>min (1, p d / q d)\<close>, and
  the probability that token \<open>t\<close> comes out, either drafted and accepted or drawn from the
  residual after a rejection, is \<open>p t\<close>: speculation does not change what is sampled.
\<close>

theorem speculative_sampling_exact:
  assumes "length q = length p" "\<forall>x\<in>set p. 0 \<le> x" "\<forall>x\<in>set q. 0 \<le> x" "sum_list p = 1" "t < length p"
  shows "q ! t * accept_prob (p ! t) (q ! t)
      + (1 - (\<Sum>d<length p. q ! d * accept_prob (p ! d) (q ! d))) * residual_distribution p q ! t = p ! t
    \<and> (\<forall>d r. d < length p \<longrightarrow> 0 < q ! d \<longrightarrow> 0 \<le> r \<longrightarrow> r < 1 \<longrightarrow>
         accept_token (p ! d) (q ! d) r = (r < accept_prob (p ! d) (q ! d)))"
proof -
  have "q ! d * accept_prob (p ! d) (q ! d) = min (p ! d) (q ! d)" if "d < length p" for d
    using that assms(1-3) by (intro accepted_mass) auto
  then show ?thesis using residual_mass [OF assms] assms(5) accept_token_prob by simp
qed

theorem speculative_sampling_exact_witness:
  "1/2 * accept_prob (1/4) (1/2)
    + (1 - (\<Sum>d<2. [1/2, 1/2] ! d * accept_prob ([1/4, 3/4] ! d) ([1/2, 1/2] ! d))) * residual_distribution [1/4, 3/4] [1/2, 1/2] ! 0 = 1/4"
  using speculative_sampling_exact [of "[1/2, 1/2]" "[1/4, 3/4]" 0] by (simp add: numeral_2_eq_2)

section \<open>Greedy speculation is lossless\<close>

text \<open>The next token of greedy decoding, and the sequences it produces.\<close>

definition greedy_next :: "gen_config \<Rightarrow> (token list \<Rightarrow> logits) \<Rightarrow> token list \<Rightarrow> token" where
  "greedy_next gen model h = of_nat (argmax (repeat_penalty gen (model h) h))"

fun greedy_path :: "gen_config \<Rightarrow> (token list \<Rightarrow> logits) \<Rightarrow> token list \<Rightarrow> token list \<Rightarrow> bool" where
  "greedy_path gen model h [] \<longleftrightarrow> True"
| "greedy_path gen model h (t # ts) \<longleftrightarrow> t = greedy_next gen model h \<and> greedy_path gen model (h @ [t]) ts"

lemma greedy_path_append [simp]:
  "greedy_path gen model h (xs @ ys) \<longleftrightarrow> greedy_path gen model h xs \<and> greedy_path gen model (h @ xs) ys"
  by (induction xs arbitrary: h) simp_all

definition uniform_ok :: "'g sampler_env \<Rightarrow> bool" where
  "uniform_ok env \<longleftrightarrow> (\<forall>g. 0 \<le> fst (se_uniform env g) \<and> fst (se_uniform env g) < 1)"

definition peak :: "nat \<Rightarrow> nat \<Rightarrow> real list" where
  "peak n i = (replicate n 0)[i := 1]"

lemma peak_simps [simp]: "length (peak n i) = n" "j < n \<Longrightarrow> peak n i ! j = (if j = i then 1 else 0)"
  by (auto simp: peak_def nth_list_update)

lemma draw_loop_peak: "i < n \<Longrightarrow> r \<le> 1 \<Longrightarrow> draw_loop (peak n i) k r l = k + i"
proof (induction n arbitrary: i k)
  case (Suc n)
  then show ?case by (cases i) (simp_all add: peak_def)
qed simp

lemma residual_peak:
  assumes "a < n" "d \<noteq> a"
  shows "residual_distribution (peak n a) (peak m d) = peak n a"
proof -
  have "map (\<lambda>i. max (peak n a ! i - (if i < length (peak m d) then peak m d ! i else 0)) 0) [0..<n] = peak n a"
    using assms by (intro nth_equalityI) auto
  moreover have "sum_list (peak n a) = 1" using sum_one_hot [OF assms(1)] by (simp add: peak_def)
  ultimately show ?thesis by (simp add: residual_distribution_def Let_def)
qed

lemma sint_of_nat_token: "i < 2 ^ 31 \<Longrightarrow> sint (of_nat i :: token) = int i"
  by (simp add: sint_uint unsigned_of_nat signed_take_bit_int_eq_self take_bit_nat_eq_self)

definition short_model :: "(token list \<Rightarrow> logits) \<Rightarrow> bool" where
  "short_model model \<longleftrightarrow> (\<forall>h. model h \<noteq> [] \<and> length (model h) < 2 ^ 31)"

lemma greedy_index:
  assumes "l \<noteq> []"
  shows "argmax (repeat_penalty gen l h) < length l"
proof -
  have "repeat_penalty gen l h \<noteq> []" using assms length_repeat_penalty [of gen l h] by fastforce
  from argmax_spec [OF this] show ?thesis by simp
qed

lemma distribution_greedy:
  "gc_temperature gen \<le> 0 \<Longrightarrow> l \<noteq> [] \<Longrightarrow> distribution pick gen l h = Inr (peak (length l) (argmax (repeat_penalty gen l h)))"
  by (simp add: distribution_def Let_def peak_def)

definition peaked :: "token \<Rightarrow> real list \<Rightarrow> bool" where
  "peaked d q \<longleftrightarrow> (\<exists>n. 0 \<le> sint d \<and> nat (sint d) < n \<and> q = peak n (nat (sint d)))"

lemma verify_loop_greedy:
  assumes "gc_temperature gen \<le> 0" "uniform_ok env" "short_model model" "list_all2 peaked ds qs"
    and "verify_loop env gen ds qs (map (\<lambda>i. model (h @ take i ds)) [0..<length ds]) h acc g = (Inr (acc', c), g')"
  shows "\<exists>as. acc' = acc @ as \<and> (\<exists>rest. ds = as @ rest \<and> (rest = [] \<longleftrightarrow> c = None))
    \<and> greedy_path gen model h (as @ (case c of None \<Rightarrow> [] | Some t \<Rightarrow> [t]))"
  using assms(4,5)
proof (induction ds arbitrary: qs h acc g)
  case (Cons d ds)
  obtain q qs' where qs: "qs = q # qs'" and q: "peaked d q" and qs': "list_all2 peaked ds qs'"
    using Cons.prems(1) by (auto simp: list_all2_Cons1)
  obtain m where m: "0 \<le> sint d" "nat (sint d) < m" "q = peak m (nat (sint d))" using q by (auto simp: peaked_def)
  let ?l = "model h"
  define a where "a = argmax (repeat_penalty gen ?l h)"
  have l: "?l \<noteq> []" "length ?l < 2 ^ 31" using assms(3) by (auto simp: short_model_def)
  have a: "a < length ?l" "greedy_next gen model h = of_nat a" "sint (of_nat a :: token) = int a"
    using greedy_index [OF l(1), of gen h] l(2) sint_of_nat_token [of a] by (simp_all add: a_def greedy_next_def)
  have dist: "distribution (se_pick env) gen ?l h = Inr (peak (length ?l) a)"
    using distribution_greedy [OF assms(1) l(1)] by (simp add: a_def)
  have ls: "map (\<lambda>i. model (h @ take i (d # ds))) [0..<length (d # ds)] =
      ?l # map (\<lambda>i. model ((h @ [d]) @ take i ds)) [0..<length ds]"
    by (simp add: upt_Suc_shift comp_def del: upt_Suc)
  have qd: "prob_at q d = Some 1" using m by (simp add: prob_at_def)
  obtain r g1 where r: "se_uniform env g = (r, g1)" by fastforce
  have r01: "0 \<le> r" "r < 1" using assms(2) r unfolding uniform_ok_def by (metis fst_conv)+
  obtain t g2 where tg: "draw_from (se_uniform env) (peak (length ?l) a) g1 = (t, g2)" by fastforce
  have t: "t = of_nat a"
  proof -
    obtain r2 g3 where "se_uniform env g1 = (r2, g3)" by fastforce
    moreover from this have "r2 \<le> 1" using assms(2) unfolding uniform_ok_def by (metis fst_conv less_imp_le)
    ultimately show ?thesis using tg draw_loop_peak [OF a(1)] by (simp add: draw_from_def)
  qed
  show ?case
  proof (cases "nat (sint d) = a")
    case True
    then have d: "d = of_nat a" using m(1) a(3) by (metis int_nat_eq sint_0 signed_word_eqI)
    have p: "prob_at (peak (length ?l) a) d = Some 1" using True m(1) a(1) by (simp add: prob_at_def)
    have "verify_loop env gen ds qs' (map (\<lambda>i. model ((h @ [d]) @ take i ds)) [0..<length ds]) (h @ [d]) (acc @ [d]) g1 = (Inr (acc', c), g')"
      using Cons.prems(2) unfolding ls qs by (simp add: dist p qd r accept_token_def r01)
    from Cons.IH [OF qs' this] obtain as rest where
      "acc' = acc @ d # as" "ds = as @ rest" "rest = [] \<longleftrightarrow> c = None"
      "greedy_path gen model (h @ [d]) (as @ (case c of None \<Rightarrow> [] | Some t \<Rightarrow> [t]))" by auto
    then show ?thesis using d a(2) by (intro exI [of _ "d # as"]) auto
  next
    case False
    show ?thesis
    proof (cases "sint d < int (length ?l)")
      case True
      then have p: "prob_at (peak (length ?l) a) d = Some 0" using False m(1) by (simp add: prob_at_def)
      have "residual_distribution (peak (length ?l) a) q = peak (length ?l) a"
        using residual_peak [OF a(1)] False m(3) by simp
      moreover have "\<not> r < 0" using r01(1) by simp
      ultimately have "acc' = acc" "c = Some t"
        using Cons.prems(2) tg unfolding ls qs by (simp_all add: dist p qd r accept_token_def)
      then show ?thesis using t a(2) by (intro exI [of _ "[]"]) auto
    next
      case out: False
      then have "prob_at (peak (length ?l) a) d = None" by (simp add: prob_at_def)
      then show ?thesis using Cons.prems(2) unfolding ls qs by (simp add: dist)
    qed
  qed
qed simp

definition short_logits :: "'d backend_ops option \<Rightarrow> bool" where
  "short_logits dops \<longleftrightarrow> (\<forall>ops ts b l b'. dops = Some ops \<longrightarrow> bo_decode_append ops ts b = (Inr l, b') \<longrightarrow> length l < 2 ^ 31)"

lemma draft_loop_peaked:
  assumes "gc_temperature gen \<le> 0" "uniform_ok env" "short_logits (Some ops)"
    and "draft_loop ops env gen eos n cur h g b res = (Inr dr, g', b')" "list_all2 peaked (dr_tokens res) (dr_probs res)"
  shows "list_all2 peaked (dr_tokens dr) (dr_probs dr)"
  using assms(4,5)
proof (induction n arbitrary: cur h g b res)
  case (Suc n)
  obtain l b1 where l: "bo_decode_append ops [cur] b = (Inr l, b1)"
    using Suc.prems(1) by (cases "bo_decode_append ops [cur] b"; cases "fst (bo_decode_append ops [cur] b)") auto
  have len: "length l < 2 ^ 31" using assms(3) l unfolding short_logits_def by blast
  show ?case
  proof (cases "l = []")
    case True
    then show ?thesis using Suc.prems(1) l by (simp add: distribution_def)
  next
    case False
    define a where "a = argmax (repeat_penalty gen l h)"
    have a: "a < length l" using greedy_index [OF False, of gen h] by (simp add: a_def)
    have dist: "distribution (se_pick env) gen l h = Inr (peak (length l) a)"
      using distribution_greedy [OF assms(1) False] by (simp add: a_def)
    obtain r g1 where r: "se_uniform env g = (r, g1)" by fastforce
    then have "r \<le> 1" using assms(2) unfolding uniform_ok_def by (metis fst_conv less_imp_le)
    moreover have "peak (length l) a \<noteq> []" using a by (metis length_0_conv not_less_zero peak_simps(1))
    ultimately have dr: "draw (se_uniform env) (peak (length l) a) g = (Inr (of_nat a), g1)"
      using r draw_loop_peak [OF a] by (simp add: draw_def)
    have "sint (of_nat a :: token) = int a" using a len by (intro sint_of_nat_token) simp
    then have pk: "peaked (of_nat a) (peak (length l) a)" using a by (auto simp: peaked_def)
    let ?res = "\<lparr>dr_tokens = dr_tokens res @ [of_nat a], dr_probs = dr_probs res @ [peak (length l) a]\<rparr>"
    have grown: "list_all2 peaked (dr_tokens ?res) (dr_probs ?res)" using pk Suc.prems(2) by (simp add: list_all2_appendI)
    show ?thesis
    proof (cases "of_nat a = eos")
      case True
      then have "dr = ?res" using Suc.prems(1) l dist dr by simp
      with grown show ?thesis by simp
    next
      case False
      then have "draft_loop ops env gen eos n (of_nat a) (h @ [of_nat a]) g1 b1 ?res = (Inr dr, g', b')"
        using Suc.prems(1) l dist dr by simp
      then show ?thesis using Suc.IH grown by blast
    qed
  qed
qed simp

lemma drafted_peaked:
  assumes "gc_temperature gen \<le> 0" "uniform_ok env" "short_logits dops" "drafted_by cfg tops dops env gen st dr"
  shows "list_all2 peaked (dr_tokens dr) (dr_probs dr)"
  using assms(4) unfolding drafted_by_def
proof (elim disjE exE conjE)
  fix k
  assume "lookup_draft cfg tops k st = Inr dr"
  then obtain ts v where ts: "dr = \<lparr>dr_tokens = ts, dr_probs = map (one_hot v) ts\<rparr>" "\<forall>t\<in>set ts. 0 \<le> sint t \<and> sint t < int v"
    unfolding lookup_draft_def Let_def list_all_iff by (force split: sum.splits if_splits)
  have "peaked t (one_hot v t)" if "t \<in> set ts" for t
    unfolding peaked_def one_hot_def peak_def using ts(2) that by (intro exI [of _ v]) auto
  then show ?thesis using ts(1) by (auto simp: list_all2_map2 intro!: list.rel_refl_strong)
next
  fix ops k g d
  assume ops: "dops = Some ops"
    and "generate_draft ops env gen (sd_draft_tokens cfg) (sp_cur st) (sp_history st) k (sp_sampler st) (sp_draft st) = (Inr dr, g, d)"
  then have "draft_loop ops env gen (bo_eos_token ops (sp_draft st)) (nat (if 0 < k then k else sd_draft_tokens cfg)) (sp_cur st)
      (sp_history st) (sp_sampler st) (sp_draft st) \<lparr>dr_tokens = [], dr_probs = []\<rparr> = (Inr dr, g, d)"
    by (simp add: generate_draft_def Let_def)
  from draft_loop_peaked [OF assms(1,2) _ this] assms(3) ops show ?thesis by simp
qed

lemma greedy_sample:
  assumes "gc_temperature gen \<le> 0" "short_model model"
  shows "sampler_sample env gen (model h) h g = (Inr (greedy_next gen model h), g)"
proof -
  have ne: "model h \<noteq> []" using assms(2) by (auto simp: short_model_def)
  have "argmax (peak (length (model h)) a) = a" if "a < length (model h)" for a
  proof (rule ccontr)
    assume neq: "argmax (peak (length (model h)) a) \<noteq> a"
    have "peak (length (model h)) a \<noteq> []" using that by (metis length_0_conv not_less_zero peak_simps(1))
    from argmax_spec [OF this] have spec: "argmax (peak (length (model h)) a) < length (model h)"
      "\<forall>j<length (model h). peak (length (model h)) a ! j \<le> peak (length (model h)) a ! argmax (peak (length (model h)) a)"
      unfolding peak_simps(1) by blast+
    from spec(2) that have "peak (length (model h)) a ! a \<le> peak (length (model h)) a ! argmax (peak (length (model h)) a)" by blast
    with spec(1) that neq show False by simp
  qed
  then show ?thesis
    using distribution_greedy [OF assms(1) ne] assms(1) greedy_index [OF ne, of gen h]
    by (simp add: sample_def greedy_next_def)
qed

text \<open>A greedy sequence within the limits is a reference run.\<close>

lemma greedy_path_ref:
  assumes "gc_temperature gen \<le> 0" "short_model model"
  shows "greedy_path gen model prompt ts \<Longrightarrow>
    ref_after env model gen prompt (length ts) = Some (prompt @ ts, sampler_init env gen)"
proof (induction ts rule: rev_induct)
  case (snoc t ts)
  then have "ref_after env model gen prompt (length ts) = Some (prompt @ ts, sampler_init env gen)" by simp
  from ref_after_step [OF this greedy_sample [OF assms]] snoc.prems show ?case by simp
qed simp

lemma greedy_ref_prefix:
  assumes "gc_temperature gen \<le> 0" "short_model model" "greedy_path gen model prompt ts"
    and "out_ok eog (nat (max (gc_max_tokens gen) 0)) n_ctx prompt ts"
  shows "ref_prefix env model eog gen n_ctx prompt ts"
  using greedy_path_ref [OF assms(1-3), of env] assms(4) by (auto simp: ref_prefix_def out_ok_def)

text \<open>A run delivers a greedy sequence, and it stops for a reason.\<close>

definition spec_run :: "gen_config \<Rightarrow> (token list \<Rightarrow> logits) \<Rightarrow> token list \<Rightarrow> ('t, 'd, 'g) decoder \<Rightarrow> bool" where
  "spec_run gen model prompt st \<longleftrightarrow> sp_history st = prompt @ sp_out st \<and> greedy_path gen model prompt (sp_out st)
     \<and> sp_emitted st = length (sp_out st) \<and> prompt \<noteq> [] \<and> sp_cur st = last (sp_history st)"

definition spec_stop :: "gen_config \<Rightarrow> (token list \<Rightarrow> logits) \<Rightarrow> (token \<Rightarrow> bool) \<Rightarrow> (token list \<Rightarrow> token \<Rightarrow> engine_exn + bool)
    \<Rightarrow> nat \<Rightarrow> nat \<Rightarrow> token list \<Rightarrow> token list \<Rightarrow> bool" where
  "spec_stop gen model eog callback max_toks n_ctx prompt out \<longleftrightarrow> eog (greedy_next gen model (prompt @ out))
     \<or> out \<noteq> [] \<and> callback (butlast out) (last out) = Inr False \<or> max_toks \<le> length out \<or> n_ctx \<le> length (prompt @ out)"

lemma spec_stop_ref:
  assumes "gc_temperature gen \<le> 0" "short_model model" "greedy_path gen model prompt ts"
    and "spec_stop gen model eog cb (nat (max (gc_max_tokens gen) 0)) n_ctx prompt ts"
    and "0 < gc_max_tokens gen" "length prompt < n_ctx" "\<And>calls t. cb calls t \<noteq> Inr False"
  shows "ref_stop env model eog gen n_ctx prompt ts"
  using assms(4-7) greedy_path_ref [OF assms(1-3), of env] greedy_sample [OF assms(1,2), of env "prompt @ ts" "sampler_init env gen"]
  unfolding spec_stop_def ref_stop_def by (cases "ts = []") auto

lemma emit_loop_run:
  assumes "\<And>t b. bo_is_eog tops t b = eog t" "spec_run gen model prompt st" "greedy_path gen model (sp_history st) ts"
    and "emit_loop tops cb m n ts st = (r, st')"
  shows "greedy_path gen model prompt (sp_out st')"
    "r = Inr True \<Longrightarrow> spec_stop gen model eog cb m n prompt (sp_out st')"
    "r = Inr False \<Longrightarrow> spec_run gen model prompt st' \<and>
       (sp_history st' = sp_history st @ ts \<or> m \<le> sp_emitted st' \<or> n \<le> length (sp_history st'))"
proof -
  have "greedy_path gen model prompt (sp_out st') \<and> (r = Inr True \<longrightarrow> spec_stop gen model eog cb m n prompt (sp_out st'))
    \<and> (r = Inr False \<longrightarrow> spec_run gen model prompt st' \<and>
        (sp_history st' = sp_history st @ ts \<or> m \<le> sp_emitted st' \<or> n \<le> length (sp_history st')))"
    using assms(2-4)
  proof (induction ts arbitrary: st)
    case Nil
    then show ?case by (auto simp: spec_run_def)
  next
    case (Cons t ts)
    define st2 where "st2 = st\<lparr>sp_out := sp_out st @ [t], sp_history := sp_history st @ [t], sp_emitted := sp_emitted st + 1,
      sp_metrics := (sp_metrics st)\<lparr>sm_generated_tokens := sm_generated_tokens (sp_metrics st) + 1\<rparr>, sp_cur := t\<rparr>"
    have t: "t = greedy_next gen model (prompt @ sp_out st)" "greedy_path gen model prompt (sp_out st @ [t])"
      using Cons.prems(1,2) by (auto simp: spec_run_def)
    have run2: "spec_run gen model prompt st2" using Cons.prems(1) t(2) by (simp add: spec_run_def st2_def)
    have path2: "greedy_path gen model (sp_history st2) ts" using Cons.prems(2) by (auto simp: st2_def)
    consider "eog t" | e where "\<not> eog t" "cb (sp_out st) t = Inl e" | "\<not> eog t" "cb (sp_out st) t = Inr False"
      | "\<not> eog t" "cb (sp_out st) t = Inr True" by (cases "cb (sp_out st) t") auto
    then show ?case
    proof cases
      case 1
      then show ?thesis using Cons.prems t by (auto simp: assms(1) spec_run_def spec_stop_def)
    next
      case 2
      then show ?thesis using Cons.prems(3) t(2) by (auto simp: assms(1))
    next
      case 3
      then show ?thesis using Cons.prems(3) t(2) by (auto simp: assms(1) spec_stop_def)
    next
      case 4
      then have em: "(if m \<le> sp_emitted st2 \<or> n \<le> length (sp_history st2) then (Inr False, st2) else emit_loop tops cb m n ts st2) = (r, st')"
        using Cons.prems(3) by (auto simp: assms(1) Let_def st2_def split: if_splits)
      show ?thesis
      proof (cases "m \<le> sp_emitted st2 \<or> n \<le> length (sp_history st2)")
        case True
        then show ?thesis using em run2 by (auto simp: spec_run_def)
      next
        case False
        then have "emit_loop tops cb m n ts st2 = (r, st')" using em by simp
        from Cons.IH [OF run2 path2 this] show ?thesis by (auto simp: st2_def)
      qed
    qed
  qed
  then show "greedy_path gen model prompt (sp_out st')"
    "r = Inr True \<Longrightarrow> spec_stop gen model eog cb m n prompt (sp_out st')"
    "r = Inr False \<Longrightarrow> spec_run gen model prompt st' \<and>
       (sp_history st' = sp_history st @ ts \<or> m \<le> sp_emitted st' \<or> n \<le> length (sp_history st'))" by auto
qed

context model_backend
begin

text \<open>Between iterations the target holds the history but its newest token.\<close>

definition spec_kv :: "('b, 'd, 'g) decoder \<Rightarrow> bool" where
  "spec_kv st \<longleftrightarrow> ok (sp_target st) \<and> kv (sp_target st) = butlast (sp_history st) \<and> sp_base st = length (sp_history st) - 1"

lemma verify_batch_greedy:
  assumes "gc_temperature gen \<le> 0" "uniform_ok env" "short_model model" "list_all2 peaked (dr_tokens dr) (dr_probs dr)"
    and "ok b" "kv b = butlast h" "h \<noteq> []" "verify_batch ops env gen (last h) dr h g b = (Inr vr, g', b')"
  shows "ok b' \<and> kv b' = h @ butlast (dr_tokens dr)
    \<and> greedy_path gen model h (vr_accepted_tokens vr @ (case vr_corrected_token vr of None \<Rightarrow> [] | Some t \<Rightarrow> [t]))
    \<and> (\<exists>rest. dr_tokens dr = vr_accepted_tokens vr @ rest \<and> (rest = [] \<longleftrightarrow> vr_corrected_token vr = None))"
proof -
  let ?ds = "dr_tokens dr" and ?batch = "last h # butlast (dr_tokens dr)"
  obtain ls where ne: "?ds \<noteq> []" and dec: "bo_decode_batch ops ?batch b = (Inr ls, b')"
    and loop: "verify_loop env gen ?ds (dr_probs dr) ls h [] g = (Inr (vr_accepted_tokens vr, vr_corrected_token vr), g')"
    using assms(8) by (auto simp: verify_batch_def split: if_splits prod.splits sum.splits)
  have whole: "butlast h @ ?batch = h @ butlast ?ds" using assms(7) by simp
  have len: "length ?batch = length ?ds" using ne by (cases ?ds) simp_all
  have "ls = map (\<lambda>i. model (h @ take i ?ds)) [0..<length ?ds]"
  proof -
    have "kv b @ take (Suc i) ?batch = h @ take i ?ds" if "i < length ?ds" for i
      using assms(6,7) that by (simp add: take_butlast)
    then show ?thesis unfolding batch_logits [OF assms(5) dec] len by (intro map_cong) auto
  qed
  with loop have "verify_loop env gen ?ds (dr_probs dr) (map (\<lambda>i. model (h @ take i ?ds)) [0..<length ?ds]) h [] g =
      (Inr (vr_accepted_tokens vr, vr_corrected_token vr), g')" by simp
  from verify_loop_greedy [OF assms(1-4) this] batch_kv [OF assms(5) dec] assms(6) whole show ?thesis by auto
qed

lemma spec_verify_emit_greedy:
  assumes "gc_temperature gen \<le> 0" "uniform_ok env" "short_model model" "list_all2 peaked (dr_tokens dr) (dr_probs dr)"
    and run: "spec_run gen model prompt st" and kvs: "spec_kv st"
    and ve: "spec_verify_emit cfg ops dops env gen cb m n dr st = (r, st')"
  shows "greedy_path gen model prompt (sp_out st') \<and> (r = Inr True \<longrightarrow> spec_stop gen model eog cb m n prompt (sp_out st'))
    \<and> (r = Inr False \<longrightarrow> spec_run gen model prompt st' \<and> (spec_kv st' \<or> m \<le> sp_emitted st' \<or> n \<le> length (sp_history st')))"
  using ve
proof (cases rule: spec_verify_emit_cases)
  case (fault f)
  then show ?thesis using run by (simp add: spec_run_def)
next
  case (emit vr g b st2 r3 st3)
  let ?h = "sp_history st" and ?ds = "dr_tokens dr" and ?as = "vr_accepted_tokens vr"
  let ?new = "?as @ (case vr_corrected_token vr of None \<Rightarrow> [] | Some t \<Rightarrow> [t])"
  have h: "?h \<noteq> []" "sp_cur st = last ?h" using run by (auto simp: spec_run_def)
  have "verify_batch ops env gen (last ?h) dr ?h (sp_accept_rng st) (sp_target st) = (Inr vr, g, b)" using emit(1) h(2) by simp
  from verify_batch_greedy [OF assms(1-4) _ _ h(1) this] kvs
  obtain rest where b: "ok b" "kv b = ?h @ butlast ?ds" "greedy_path gen model ?h ?new"
    "?ds = ?as @ rest" "rest = [] \<longleftrightarrow> vr_corrected_token vr = None" by (auto simp: spec_kv_def)
  have run2: "spec_run gen model prompt st2" if "sp_cur st2 = sp_cur st"
    using run emit(2-4) that by (simp add: spec_run_def)
  have synced: "ok (sp_target st2) \<and> kv (sp_target st2) = butlast (?h @ ?new) \<and> sp_base st2 = length (?h @ ?new) - 1"
  proof (cases "vr_corrected_token vr")
    case None
    then have "?ds = ?as" using b(4,5) by simp
    moreover have "?ds \<noteq> []" using emit(1) by (auto simp: verify_batch_def)
    ultimately show ?thesis
      using None emit(5) b(1,2) kvs h(1) by (cases ?h rule: rev_cases) (auto simp: spec_kv_def butlast_append)
  next
    case (Some t)
    then have "rest \<noteq> []" using b(5) by simp
    then have "kv b = (?h @ ?as) @ butlast rest" using b(2,4) by (simp add: butlast_append)
    moreover have base: "sp_base st + 1 + length ?as = length (?h @ ?as)" using kvs h(1) by (cases ?h rule: rev_cases) (simp_all add: spec_kv_def)
    ultimately show ?thesis
      using Some truncate_kv [OF b(1), of "sp_base st + 1 + length ?as"] emit(6) by (auto simp: butlast_append)
  qed
  have cur2: "sp_cur st2 = sp_cur st" using emit(10) .
  note em = emit_loop_run [OF eog_same run2 [OF cur2] _ emit(7)]
  have path: "greedy_path gen model (sp_history st2) ?new" using b(3) emit(3) by simp
  have out: "sp_out st' = sp_out st3" "sp_history st' = sp_history st3" "sp_emitted st' = sp_emitted st3" "sp_cur st' = sp_cur st3"
    "sp_target st' = sp_target st3" "sp_base st' = sp_base st3"
    using emit(9) by (simp_all split: if_splits)
  have same: "sp_target st3 = sp_target st2" "sp_base st3 = sp_base st2" using emit_loop_frame [OF emit(7)] by auto
  have "spec_run gen model prompt st' = spec_run gen model prompt st3" by (simp add: spec_run_def out)
  moreover have "spec_kv st'" if "sp_history st3 = sp_history st2 @ ?new"
    using synced that emit(3) by (simp add: spec_kv_def out same)
  ultimately show ?thesis using em(1,2) [OF path] em(3) [OF path] emit(8) out by auto
qed

lemma spec_round_greedy:
  assumes "gc_temperature gen \<le> 0" "uniform_ok env" "short_model model" "short_logits dops"
    and run: "spec_run gen model prompt st" and kvs: "spec_kv st"
    and rd: "spec_round cfg ops dops env gen cb m n st = (r, st')"
  shows "greedy_path gen model prompt (sp_out st') \<and> (r = Inr True \<longrightarrow> spec_stop gen model eog cb m n prompt (sp_out st'))
    \<and> (r = Inr False \<longrightarrow> spec_run gen model prompt st' \<and> (spec_kv st' \<or> m \<le> sp_emitted st' \<or> n \<le> length (sp_history st')))"
  using rd
proof (cases rule: spec_round_cases)
  case off
  then show ?thesis using run kvs by (simp add: same_run_def spec_run_def spec_kv_def)
next
  case (fault f)
  then show ?thesis using run by (simp add: same_run_def spec_run_def)
next
  case (verify dr st1)
  have "spec_run gen model prompt st1" "spec_kv st1" using verify(2) run kvs by (simp_all add: same_run_def spec_run_def spec_kv_def)
  from spec_verify_emit_greedy [OF assms(1-3) drafted_peaked [OF assms(1,2,4) verify(3)] this verify(1)] show ?thesis .
qed

lemma plain_round_greedy:
  assumes "gc_temperature gen \<le> 0" "short_model model" and run: "spec_run gen model prompt st" and kvs: "spec_kv st"
    and rd: "plain_round ops env gen cb st = (r, st')"
  shows "greedy_path gen model prompt (sp_out st') \<and> (r = Inr True \<longrightarrow> spec_stop gen model eog cb m n prompt (sp_out st'))
    \<and> (r = Inr False \<longrightarrow> spec_run gen model prompt st' \<and> spec_kv st')"
proof -
  let ?h = "sp_history st"
  have h: "?h \<noteq> []" "sp_cur st = last ?h" "?h = prompt @ sp_out st" "greedy_path gen model prompt (sp_out st)"
    "sp_emitted st = length (sp_out st)" "prompt \<noteq> []"
    using run by (auto simp: spec_run_def)
  obtain res b where dec: "bo_decode_append ops [sp_cur st] (sp_target st) = (res, b)" by fastforce
  show ?thesis
  proof (cases res)
    case (Inl e)
    then show ?thesis using rd dec h(4) by (auto simp: plain_round_def Let_def)
  next
    case (Inr l)
    have l: "l = model ?h" "ok b" "kv b = ?h"
      using append_logits [OF _ dec [unfolded Inr]] append_kv [OF _ dec [unfolded Inr]] kvs h(1,2) by (simp_all add: spec_kv_def)
    have smp: "sampler_sample env gen l ?h (sp_sampler st) = (Inr (greedy_next gen model ?h), sp_sampler st)"
      using greedy_sample [OF assms(1,2)] l(1) by simp
    have path: "greedy_path gen model prompt (sp_out st @ [greedy_next gen model ?h])" using h(3,4) by simp
    show ?thesis
      using rd dec Inr smp path h l kvs
      by (auto simp: plain_round_def Let_def eog_same spec_stop_def spec_run_def spec_kv_def butlast_append split: if_splits sum.splits)
  qed
qed

lemma spec_loop_greedy:
  assumes "gc_temperature gen \<le> 0" "uniform_ok env" "short_model model" "short_logits dops"
    and "spec_run gen model prompt st" "spec_kv st \<or> m \<le> sp_emitted st \<or> n \<le> length (sp_history st)"
    and "spec_loop cfg ops dops env gen cb m n v st = Some (r, st')"
  shows "greedy_path gen model prompt (sp_out st') \<and> (r = Inr () \<longrightarrow> spec_stop gen model eog cb m n prompt (sp_out st'))"
  using assms(5-7)
proof (induction "spec_measure m st" arbitrary: st rule: less_induct)
  case less
  obtain res st1 where it: "spec_iteration cfg ops dops env gen cb m n v st = (res, st1)" by fastforce
  show ?case
  proof (cases "sp_emitted st < m \<and> length (sp_history st) < n")
    case False
    then have "r = Inr ()" "st' = st" using less.prems(3) by (auto simp: spec_loop.simps [of cfg ops dops env gen cb m n v st])
    then show ?thesis using False less.prems(1) by (auto simp: spec_run_def spec_stop_def)
  next
    case True
    then have kvs: "spec_kv st" using less.prems(2) by simp
    have one: "greedy_path gen model prompt (sp_out st1) \<and> (res = Inr True \<longrightarrow> spec_stop gen model eog cb m n prompt (sp_out st1))
        \<and> (res = Inr False \<longrightarrow> spec_run gen model prompt st1 \<and> (spec_kv st1 \<or> m \<le> sp_emitted st1 \<or> n \<le> length (sp_history st1)))"
      using it
    proof (cases rule: spec_iteration_cases)
      case spec
      show ?thesis by (rule spec_round_greedy [OF assms(1-4) less.prems(1) kvs spec(3)])
    next
      case (plain st0)
      have "spec_run gen model prompt st0" "spec_kv st0"
        using plain(1) less.prems(1) kvs by (simp_all add: same_run_def spec_run_def spec_kv_def)
      from plain_round_greedy [OF assms(1,3) this plain(2)] show ?thesis by blast
    qed
    show ?thesis
    proof (cases "res = Inr False")
      case False
      then show ?thesis using True it less.prems(3) one
        by (cases res) (auto simp: spec_loop.simps [of cfg ops dops env gen cb m n v st])
    next
      case go: True
      then have "spec_loop cfg ops dops env gen cb m n v st1 = Some (r, st')"
        using True it less.prems(3) by (simp add: spec_loop.simps [of cfg ops dops env gen cb m n v st])
      then show ?thesis using less.hyps [of st1] spec_iteration_progress [OF it [unfolded go]] True one go by blast
    qed
  qed
qed

end

lemma generate_stream_greedy:
  assumes "llama_model_ok api toks model" "short_model model" "short_logits dops" "uniform_ok env" "gc_temperature gen \<le> 0"
    and "prompt \<noteq> []" "length prompt \<le> llama_n_ctx api"
    and "generate_stream cfg (real_ops api) dops env prompt callback gen st = Some (res, st')"
  shows "greedy_path gen model prompt (sp_out st')
    \<and> out_ok (llama_vocab_is_eog api) (nat (max (gc_max_tokens gen) 0)) (llama_n_ctx api) prompt (sp_out st')
    \<and> (res = Inr () \<longrightarrow> spec_stop gen model (llama_vocab_is_eog api) callback (nat (max (gc_max_tokens gen) 0)) (llama_n_ctx api) prompt (sp_out st'))"
proof -
  let ?ops = "real_ops api" and ?kv = "seq0 toks" and ?ok = "coherent toks" and ?base = "length prompt - 1"
  let ?run = "spec_run gen model prompt :: ('a real_backend, 'b, 'c) decoder \<Rightarrow> bool"
  note mb = real_backend_model [OF assms(1)]
  note kvb = model_backend.axioms(1) [OF mb]
  define st1 where "st1 = st\<lparr>sp_sampler := sampler_init env gen, sp_accept_rng := se_seed env (of_int (gc_seed gen) XOR 0x9E3779B9),
    sp_history := prompt, sp_cur := last prompt, sp_base := ?base, sp_emitted := 0, sp_lookup_skip := False, sp_out := []\<rparr>"
  have guard: "sp_out (observe_guard cfg s) = sp_out s" for s :: "('a real_backend, 'b, 'c) decoder"
    by (simp add: observe_guard_def split: spec_mode.splits option.splits)
  have ctx: "bo_context_length ?ops b = llama_n_ctx api" for b by (simp add: real_ops_def)
  obtain u b where pre: "prefill_seq ?ops (take ?base prompt) (sp_target st1) = (u, b)" by fastforce
  have lim: "out_ok (llama_vocab_is_eog api) (nat (max (gc_max_tokens gen) 0)) (llama_n_ctx api) prompt (sp_out st')"
    using generate_stream_limits [of ?ops "llama_vocab_is_eog api", OF _ assms(6) _ assms(8)] assms(7)
    by (simp add: real_ops_def)
  have "greedy_path gen model prompt (sp_out st')
    \<and> (res = Inr () \<longrightarrow> spec_stop gen model (llama_vocab_is_eog api) callback (nat (max (gc_max_tokens gen) 0)) (llama_n_ctx api) prompt (sp_out st'))"
  proof (cases u)
    case (Inl e)
    then have "st' = observe_guard cfg (st1\<lparr>sp_target := b\<rparr>)" "res = Inl (Threw e)"
      using assms(6-8) pre by (auto simp: generate_stream_def Let_def ctx st1_def)
    then show ?thesis by (simp add: guard st1_def)
  next
    case (Inr x)
    define st3 where "st3 = prefill_draft cfg dops (take ?base prompt) (st1\<lparr>sp_target := b\<rparr>)"
    have b: "?ok b" "?kv b = butlast prompt"
      using pre Inr kv_backend.reset_kv [OF kvb, of "sp_target st1"]
        kv_backend.append_kv [OF kvb, of "bo_reset ?ops (sp_target st1)" "take ?base prompt"]
      by (auto simp: prefill_seq_def Let_def butlast_conv_take split: if_splits prod.splits sum.splits)
    have st3: "sp_history st3 = prompt" "sp_out st3 = []" "sp_emitted st3 = 0" "sp_cur st3 = last prompt" "sp_target st3 = b" "sp_base st3 = ?base"
      by (auto simp: st3_def st1_def prefill_draft_def split: option.splits prod.splits sum.splits)
    have run: "?run st3" "model_backend.spec_kv ?kv ?ok st3"
      using st3 b assms(6) by (simp_all add: spec_run_def model_backend.spec_kv_def [OF mb])
    obtain st4 where st4: "spec_loop cfg ?ops dops env gen callback (nat (max (gc_max_tokens gen) 0)) (llama_n_ctx api)
        (draft_vocab cfg ?ops dops st3) st3 = Some (res, st4)" "st' = observe_guard cfg st4"
      using assms(6-8) pre Inr unfolding generate_stream_def Let_def ctx st1_def [symmetric] by (auto simp: st3_def)
    from model_backend.spec_loop_greedy [OF mb assms(5,4,2,3) run(1) disjI1 [OF run(2)] st4(1)] st4(2)
    show ?thesis by (simp add: guard)
  qed
  with lim show ?thesis by blast
qed

text \<open>
  C3: greedy speculation is lossless.  Over llama.cpp, with the temperature off, and
  whatever is drafted (by a draft model, by prompt lookup, from the corpus or from list
  structure) and however the draft length adapts, the tokens delivered to the callback are
  those of plain greedy decoding of the target model; when the generation returns, the next
  greedy token ends it, or the callback declined, or the token budget or the context is used
  up.  No token that ends the generation is delivered, nor any beyond the token budget or the
  context.  If a component throws midway, all this still holds of what was delivered before.
\<close>

theorem speculative_greedy_lossless:
  assumes "llama_model_ok api toks model" "short_model model" "short_logits dops" "uniform_ok env" "gc_temperature gen \<le> 0"
    and "prompt \<noteq> []" "length prompt \<le> llama_n_ctx api"
    and "generate_stream cfg (real_ops api) dops env prompt callback gen st = Some (res, st')"
  shows "greedy_path gen model prompt (sp_out st')
    \<and> out_ok (llama_vocab_is_eog api) (nat (max (gc_max_tokens gen) 0)) (llama_n_ctx api) prompt (sp_out st')
    \<and> (res = Inr () \<longrightarrow> spec_stop gen model (llama_vocab_is_eog api) callback (nat (max (gc_max_tokens gen) 0)) (llama_n_ctx api) prompt (sp_out st'))"
  by (rule generate_stream_greedy [OF assms])

definition demo_decoder :: "(token list list real_backend, unit, unit) decoder" where
  "demo_decoder = \<lparr>sp_target = \<lparr>rb_ctx = [[]], rb_n_past = 0\<rparr>, sp_draft = (), sp_corpus = None,
     sp_metrics = \<lparr>sm_total_draft_tokens = 0, sm_total_accepted_tokens = 0, sm_total_rejected_tokens = 0, sm_generated_tokens = 0\<rparr>,
     sp_current_draft_tokens = 4, sp_active = True, sp_history = [], sp_cur = 0, sp_base = 0, sp_emitted = 0,
     sp_lookup_skip = False, sp_sampler = (), sp_accept_rng = (), sp_out = []\<rparr>"

definition demo_spec_config :: spec_config where
  "demo_spec_config = \<lparr>sd_mode = PromptLookup, sd_draft_tokens = 4, sd_min_draft_tokens = 2, sd_max_draft_tokens = 8,
     sd_lookup_max_ngram = 3, sd_lookup_min_ngram = 1, sd_use_speculative = True, sd_disable_after_drafted = 64,
     sd_disable_below_acceptance = 15/100\<rparr>"

theorem speculative_greedy_lossless_witness:
  "\<exists>res st'. generate_stream demo_spec_config (real_ops ref_api) None demo_env [5, 6, 5] (\<lambda>_ _. Inr True)
       (sample_config\<lparr>gc_temperature := 0\<rparr>) demo_decoder = Some (res, st')
     \<and> greedy_path (sample_config\<lparr>gc_temperature := 0\<rparr>) (\<lambda>_. [1, 0]) [5, 6, 5] (sp_out st')"
proof -
  obtain res st' where run: "generate_stream demo_spec_config (real_ops ref_api) None demo_env [5, 6, 5] (\<lambda>_ _. Inr True)
      (sample_config\<lparr>gc_temperature := 0\<rparr>) demo_decoder = Some (res, st')"
    using generate_stream_total by blast
  have hyps: "short_model (\<lambda>_. [1, 0])" "short_logits (None :: unit backend_ops option)" "uniform_ok demo_env"
    "length [5, 6, 5 :: token] \<le> llama_n_ctx ref_api"
    by (simp_all add: short_model_def short_logits_def uniform_ok_def demo_env_def ref_api_def)
  from speculative_greedy_lossless [OF ref_model_ok hyps(1-3) _ _ hyps(4) run] run show ?thesis by auto
qed

end
