(* ===== verification/Blob_Store.thy ===== *)
theory Blob_Store
  imports Reame_Prelude
begin

text \<open>
  The contract between the byte store and its clients (the archive daemon and the KV cache
  manager): a store that may forget entries at any time but never returns anything except the
  value last stored under the key.  The environment argument of \<open>put\<close> decides whether the
  write succeeds.  \<open>Disk_Store\<close> interprets it on the disk store.
\<close>

locale lossy_store =
  fixes inv :: "'s \<Rightarrow> bool"
    and fits :: "'s \<Rightarrow> 'k \<Rightarrow> 'd \<Rightarrow> bool"
    and put :: "'e \<Rightarrow> 's \<Rightarrow> 'k \<Rightarrow> 'd \<Rightarrow> bool \<times> 's"
    and get :: "'s \<Rightarrow> 'k \<Rightarrow> 'd option \<times> 's"
    and rem :: "'s \<Rightarrow> 'k \<Rightarrow> bool \<times> 's"
    and view :: "'s \<Rightarrow> 'k \<Rightarrow> 'd option"
  assumes put_inv: "inv s \<Longrightarrow> fits s k d \<Longrightarrow> inv (snd (put e s k d))"
    and get_inv: "inv s \<Longrightarrow> inv (snd (get s k))"
    and rem_inv: "inv s \<Longrightarrow> inv (snd (rem s k))"
    and put_stored: "inv s \<Longrightarrow> fits s k d \<Longrightarrow> fst (put e s k d) \<Longrightarrow> view (snd (put e s k d)) k = Some d"
    and put_other: "inv s \<Longrightarrow> fits s k d \<Longrightarrow> k' \<noteq> k \<Longrightarrow> view (snd (put e s k d)) k' = Some d' \<Longrightarrow> view s k' = Some d'"
    and get_view: "inv s \<Longrightarrow> fst (get s k) = view s k"
    and get_other: "inv s \<Longrightarrow> view (snd (get s k)) k' = Some d' \<Longrightarrow> view s k' = Some d'"
    and rem_other: "inv s \<Longrightarrow> view (snd (rem s k)) k' = Some d' \<Longrightarrow> k' \<noteq> k \<and> view s k' = Some d'"
begin

lemma stored_then_read:
  assumes "inv s" "fits s k d" "fst (put e s k d)"
  shows "fst (get (snd (put e s k d)) k) = Some d"
  using assms put_inv put_stored get_view by simp

lemma removed_then_missing:
  assumes "inv s"
  shows "fst (get (snd (rem s k)) k) = None"
proof (cases "view (snd (rem s k)) k")
  case None
  with assms show ?thesis by (simp add: rem_inv get_view)
next
  case (Some d)
  with rem_other [OF assms] show ?thesis by blast
qed

text \<open>
  Operations that do not store under \<open>k\<close> can only make its value disappear: whatever the other
  clients of the store do, a later read of \<open>k\<close> is the old value or a miss.
\<close>

lemma others_only_lose:
  assumes "(\<lambda>s s'. (\<exists>e k' d'. k' \<noteq> k \<and> fits s k' d' \<and> s' = snd (put e s k' d'))
      \<or> (\<exists>k'. s' = snd (get s k')) \<or> (\<exists>k'. s' = snd (rem s k')))\<^sup>*\<^sup>* s s'" (is "?R\<^sup>*\<^sup>* s s'")
    and "inv s"
  shows "inv s' \<and> (fst (get s' k) = None \<or> fst (get s' k) = view s k)"
proof -
  have "inv s' \<and> (\<forall>d. view s' k = Some d \<longrightarrow> view s k = Some d)"
    using assms
  proof (induction rule: rtranclp_induct)
    case (step t u)
    then have t: "inv t" "\<And>d. view t k = Some d \<Longrightarrow> view s k = Some d" by auto
    from step.hyps(2) consider (put) e k' d' where "k' \<noteq> k" "fits t k' d'" "u = snd (put e t k' d')"
      | (get) k' where "u = snd (get t k')" | (rem) k' where "u = snd (rem t k')" by blast
    then show ?case
    proof cases
      case put
      with t put_inv [of t k' d' e] put_other [of t k' d' k e] show ?thesis by auto
    next
      case get
      with t get_inv [of t k'] get_other [of t k' k] show ?thesis by auto
    next
      case rem
      with t rem_inv [of t k'] rem_other [of t k' k] show ?thesis by auto
    qed
  qed simp
  then show ?thesis using get_view [of s' k] by (cases "view s' k") auto
qed

end

end
