(* ===== verification/Disk_Store.thy ===== *)
theory Disk_Store
  imports Std_Map Cache_Serializer Blob_Store "HOL-Library.Product_Lexorder"
begin

text \<open>
  \<open>DiskCacheStore\<close> (\<open>src/src/cache/disk_cache_store.cpp\<close>): the LRU byte store on disk
  that backs both the KV snapshots and the ARCA responses.  The cache directory is the map
  \<open>ds_files\<close> from file names to contents; the in-memory index is a \<open>std::map\<close>; byte
  counts and recency stamps are 64-bit words.  Whether the writes of \<open>put\<close> succeed is the
  environment's choice (an argument); a file that is missing or too short is an open or a
  read that fails.  Integers in file headers are little-endian, as on the supported hosts.
\<close>

section \<open>Model\<close>

record ds_entry =
  de_path :: bytes
  de_size :: u64
  de_recency :: u64

record disk_store =
  ds_max_bytes :: u64
  ds_files :: "bytes \<Rightarrow> bytes option"
  ds_entries :: "(bytes, ds_entry) smap"
  ds_total_bytes :: u64
  ds_next_recency :: u64

definition kHeaderLen :: nat where
  "kHeaderLen = 4"

definition hex_digit :: "u64 \<Rightarrow> char" where
  "hex_digit v = ''0123456789abcdef'' ! unat (v AND 0xF)"

fun hex_loop :: "nat \<Rightarrow> u64 \<Rightarrow> bytes" where
  "hex_loop 0 v = []"
| "hex_loop (Suc i) v = hex_loop i (drop_bit 4 v) @ [hex_digit v]"

definition hex64 :: "u64 \<Rightarrow> bytes" where
  "hex64 v = hex_loop 16 v"

definition entry_size :: "bytes \<Rightarrow> nat \<Rightarrow> u64" where
  "entry_size key payload = of_nat (kHeaderLen + length key + payload)"

definition entry_path :: "bytes \<Rightarrow> bytes" where
  "entry_path key = hex64 (checksum key) @ ''.kvc''"

text \<open>What \<open>put\<close> writes, and the header read shared by \<open>get\<close> and the constructor.\<close>

definition file_image :: "bytes \<Rightarrow> bytes \<Rightarrow> bytes" where
  "file_image key data = le_bytes 4 (of_nat (length key) :: u32) @ key @ data"

definition read_key :: "bytes \<Rightarrow> bytes option" where
  "read_key content =
     (if length content < 4 then None
      else let key_len = unat (le_read (take 4 content) :: u32) in
        if length content < 4 + key_len then None
        else Some (take key_len (drop 4 content)))"

definition disk_contains :: "disk_store \<Rightarrow> bytes \<Rightarrow> bool" where
  "disk_contains st key \<longleftrightarrow> map_find (<) key (ds_entries st) \<noteq> None"

definition disk_remove :: "disk_store \<Rightarrow> bytes \<Rightarrow> bool \<times> disk_store" where
  "disk_remove st key =
     (case map_find (<) key (ds_entries st) of
        None \<Rightarrow> (False, st)
      | Some e \<Rightarrow> (True, st\<lparr>ds_files := (ds_files st)(de_path e := None),
          ds_total_bytes := ds_total_bytes st - de_size e,
          ds_entries := map_erase (<) key (ds_entries st)\<rparr>))"

text \<open>\<open>std::min_element\<close> by recency over the entries.\<close>

fun min_entry :: "bytes \<times> ds_entry \<Rightarrow> (bytes, ds_entry) smap \<Rightarrow> bytes \<times> ds_entry" where
  "min_entry best [] = best"
| "min_entry best (p # m) = min_entry (if de_recency (snd p) < de_recency (snd best) then p else best) m"

text \<open>
  The eviction loop.  Every round removes one entry, so as many rounds as there are entries
  are enough; \<open>evict_until_fits_fits\<close> below shows the loop condition false at the end.
\<close>

fun evict_loop :: "nat \<Rightarrow> u64 \<Rightarrow> disk_store \<Rightarrow> disk_store" where
  "evict_loop 0 incoming st = st"
| "evict_loop (Suc n) incoming st =
     (case ds_entries st of
        [] \<Rightarrow> st
      | p # m \<Rightarrow>
          if ds_max_bytes st < ds_total_bytes st + incoming
          then evict_loop n incoming (snd (disk_remove st (fst (min_entry p m))))
          else st)"

definition evict_until_fits :: "u64 \<Rightarrow> disk_store \<Rightarrow> disk_store" where
  "evict_until_fits incoming st =
     (if ds_max_bytes st = 0 then st else evict_loop (length (ds_entries st)) incoming st)"

definition disk_put :: "bool \<Rightarrow> disk_store \<Rightarrow> bytes \<Rightarrow> bytes \<Rightarrow> bool \<times> disk_store" where
  "disk_put write_ok st key data =
     (let incoming = entry_size key (length data) in
      if ds_max_bytes st \<noteq> 0 \<and> ds_max_bytes st < incoming then (False, st)
      else
        let st1 = evict_until_fits incoming (snd (disk_remove st key));
            path = entry_path key
        in if \<not> write_ok then (False, st1\<lparr>ds_files := (ds_files st1)(path := None)\<rparr>)
           else (True, st1\<lparr>ds_files := (ds_files st1)(path \<mapsto> file_image key data),
                  ds_total_bytes := ds_total_bytes st1 + incoming,
                  ds_entries := map_put (<) key
                    \<lparr>de_path = path, de_size = incoming, de_recency = ds_next_recency st1\<rparr>
                    (ds_entries st1),
                  ds_next_recency := ds_next_recency st1 + 1\<rparr>))"

definition disk_get :: "disk_store \<Rightarrow> bytes \<Rightarrow> bytes option \<times> disk_store" where
  "disk_get st key =
     (case map_find (<) key (ds_entries st) of
        None \<Rightarrow> (None, st)
      | Some e \<Rightarrow>
          (case ds_files st (de_path e) of
             None \<Rightarrow> (None, snd (disk_remove st key))
           | Some content \<Rightarrow>
               if read_key content \<noteq> Some key then (None, snd (disk_remove st key))
               else
                 let want = unat (de_size e - of_nat kHeaderLen - of_nat (length key));
                     rest = drop (kHeaderLen + length key) content
                 in if length rest < want then (None, snd (disk_remove st key))
                    else (Some (take want rest),
                      st\<lparr>ds_entries := map_put (<) key (e\<lparr>de_recency := ds_next_recency st\<rparr>) (ds_entries st),
                         ds_next_recency := ds_next_recency st + 1\<rparr>)))"

fun clear_loop :: "nat \<Rightarrow> disk_store \<Rightarrow> disk_store" where
  "clear_loop 0 st = st"
| "clear_loop (Suc n) st =
     (case ds_entries st of [] \<Rightarrow> st | (k, e) # m \<Rightarrow> clear_loop n (snd (disk_remove st k)))"

definition disk_clear :: "disk_store \<Rightarrow> disk_store" where
  "disk_clear st = clear_loop (length (ds_entries st)) st"

definition size_bytes :: "disk_store \<Rightarrow> u64" where
  "size_bytes st = ds_total_bytes st"

definition disk_count :: "disk_store \<Rightarrow> nat" where
  "disk_count st = length (ds_entries st)"

text \<open>
  The constructor: the directory is scanned in the order the iterator yields it, then the
  file times seed the recency order.
\<close>

record dir_item =
  di_name :: bytes
  di_regular :: bool
  di_mtime :: nat
  di_content :: bytes

definition kvc_extension :: "bytes \<Rightarrow> bool" where
  "kvc_extension name \<longleftrightarrow> 4 < length name \<and> drop (length name - 4) name = ''.kvc''"

fun open_scan :: "dir_item list \<Rightarrow> disk_store \<Rightarrow> (nat \<times> bytes) list \<Rightarrow> disk_store \<times> (nat \<times> bytes) list" where
  "open_scan [] st found = (st, found)"
| "open_scan (item # items) st found =
     (if \<not> di_regular item \<or> \<not> kvc_extension (di_name item) then open_scan items st found
      else if length (di_content item) < 4
        \<or> 4096 < unat (le_read (take 4 (di_content item)) :: u32) then open_scan items st found
      else case read_key (di_content item) of
             None \<Rightarrow> open_scan items st found
           | Some key \<Rightarrow>
               open_scan items
                 (st\<lparr>ds_total_bytes := ds_total_bytes st + of_nat (length (di_content item)),
                    ds_entries := map_emplace (<) key
                      \<lparr>de_path = di_name item, de_size = of_nat (length (di_content item)),
                       de_recency = 0\<rparr> (ds_entries st)\<rparr>)
                 (found @ [(di_mtime item, key)]))"

fun open_seed :: "(nat \<times> bytes) list \<Rightarrow> disk_store \<Rightarrow> disk_store" where
  "open_seed [] st = st"
| "open_seed ((mtime, key) # found) st =
     open_seed found
       (case map_find (<) key (ds_entries st) of
          None \<Rightarrow> st
        | Some e \<Rightarrow> st\<lparr>ds_entries := map_put (<) key (e\<lparr>de_recency := ds_next_recency st\<rparr>) (ds_entries st),
             ds_next_recency := ds_next_recency st + 1\<rparr>)"

definition disk_open :: "u64 \<Rightarrow> dir_item list \<Rightarrow> disk_store" where
  "disk_open max_bytes items =
     (let st0 = \<lparr>ds_max_bytes = max_bytes,
                 ds_files = map_of (map (\<lambda>i. (di_name i, di_content i)) items),
                 ds_entries = [], ds_total_bytes = 0, ds_next_recency = 1\<rparr>;
          (st1, found) = open_scan items st0 []
      in open_seed (sort found) st1)"

section \<open>Well-formedness\<close>

definition entry_ok :: "(bytes \<Rightarrow> bytes option) \<Rightarrow> bytes \<times> ds_entry \<Rightarrow> bool" where
  "entry_ok files = (\<lambda>(k, e). de_path e = entry_path k \<and> kHeaderLen + length k \<le> unat (de_size e)
     \<and> (\<forall>c. files (de_path e) = Some c \<longrightarrow> read_key c = Some k \<longrightarrow> length c = unat (de_size e)))"

definition entry_bytes :: "bytes \<times> ds_entry \<Rightarrow> nat" where
  "entry_bytes p = unat (de_size (snd p))"

definition store_wf :: "disk_store \<Rightarrow> bool" where
  "store_wf st \<longleftrightarrow> map_wf (<) (ds_entries st)
     \<and> sum_list (map entry_bytes (ds_entries st)) = unat (ds_total_bytes st)
     \<and> (\<forall>p\<in>set (ds_entries st). entry_ok (ds_files st) p)"

definition within_budget :: "disk_store \<Rightarrow> bool" where
  "within_budget st \<longleftrightarrow> ds_max_bytes st = 0 \<or> ds_total_bytes st \<le> ds_max_bytes st"

definition recency_ok :: "disk_store \<Rightarrow> bool" where
  "recency_ok st \<longleftrightarrow> (\<forall>p\<in>set (ds_entries st). de_recency (snd p) < ds_next_recency st)
     \<and> (\<forall>p\<in>set (ds_entries st). \<forall>q\<in>set (ds_entries st).
          de_recency (snd p) = de_recency (snd q) \<longrightarrow> p = q)"

lemma store_wf_map: "store_wf st \<Longrightarrow> map_wf (<) (ds_entries st)"
  by (simp add: store_wf_def)

text \<open>The payload a lookup would return, read off a well-formed store.\<close>

definition visible :: "disk_store \<Rightarrow> bytes \<Rightarrow> bytes option" where
  "visible st key =
     (case map_find (<) key (ds_entries st) of
        None \<Rightarrow> None
      | Some e \<Rightarrow>
          (case ds_files st (de_path e) of
             None \<Rightarrow> None
           | Some c \<Rightarrow> if read_key c = Some key then Some (drop (4 + length key) c) else None))"

lemma read_key_image [simp]: "length key < 2 ^ 32 \<Longrightarrow> read_key (file_image key data) = Some key"
  by (simp add: read_key_def file_image_def Let_def unat_of_nat take_bit_eq_mod)

lemma length_file_image: "length (file_image key data) = 4 + length key + length data"
  by (simp add: file_image_def)

lemma drop_file_image [simp]: "drop (4 + length key) (file_image key data) = data"
  by (simp add: file_image_def)

lemma unat_entry_size:
  "4 + length key + n < 2 ^ 64 \<Longrightarrow> unat (entry_size key n) = 4 + length key + n"
  by (simp add: entry_size_def kHeaderLen_def unat_of_nat take_bit_eq_mod del: of_nat_add of_nat_Suc)

lemma read_key_length: "read_key c = Some k \<Longrightarrow> 4 + length k \<le> length c"
  by (auto simp: read_key_def Let_def split: if_splits)

lemma disk_get_visible:
  assumes "store_wf st"
  shows "fst (disk_get st key) = visible st key"
proof (cases "map_find (<) key (ds_entries st)")
  case None
  then show ?thesis by (simp add: disk_get_def visible_def)
next
  case e: (Some e)
  then have "(key, e) \<in> set (ds_entries st)"
    using assms by (simp add: store_wf_def str_map.find_Some_iff)
  with assms have ok: "4 + length key \<le> unat (de_size e)"
    "\<And>c. ds_files st (de_path e) = Some c \<Longrightarrow> read_key c = Some key \<Longrightarrow> length c = unat (de_size e)"
    by (auto simp: store_wf_def entry_ok_def kHeaderLen_def)
  have "unat (de_size e - 4 - of_nat (length key)) = unat (de_size e) - 4 - length key"
  proof -
    have lt: "length key < 2 ^ 64" using ok(1) u64_bound [of "de_size e"] by simp
    have "unat (4 + of_nat (length key) :: u64) = 4 + length key"
      using ok(1) u64_bound [of "de_size e"] lt
      by (simp add: unat_word_ariths unat_of_nat take_bit_eq_mod)
    moreover have eq: "de_size e - 4 - of_nat (length key) = de_size e - (4 + of_nat (length key))"
      by (simp add: diff_diff_eq)
    ultimately show ?thesis
      unfolding eq using ok(1) by (subst unat_sub) (simp_all add: word_le_nat_alt)
  qed
  then show ?thesis
    using e ok by (auto simp: disk_get_def visible_def kHeaderLen_def Let_def split: option.splits)
qed

section \<open>Removal and eviction\<close>

lemma disk_remove_simps:
  "map_find (<) k (ds_entries st) = None \<Longrightarrow> disk_remove st k = (False, st)"
  by (simp add: disk_remove_def)

lemma disk_remove_frame [simp]:
  "ds_max_bytes (snd (disk_remove st k)) = ds_max_bytes st"
  "ds_next_recency (snd (disk_remove st k)) = ds_next_recency st"
  by (auto simp: disk_remove_def split: option.splits)

lemma entries_disk_remove:
  "map_wf (<) (ds_entries st) \<Longrightarrow> set (ds_entries (snd (disk_remove st k))) = {p \<in> set (ds_entries st). fst p \<noteq> k}"
  using str_map.set_erase [of "ds_entries st" k] str_map.find_None_iff [of "ds_entries st" k]
  by (auto simp: disk_remove_def split: option.splits)

lemma find_disk_remove:
  "map_wf (<) (ds_entries st) \<Longrightarrow>
     map_find (<) k (ds_entries (snd (disk_remove st k'))) = (if k = k' then None else map_find (<) k (ds_entries st))"
  by (auto simp: disk_remove_def str_map.find_erase_eq split: option.splits)

lemma store_wf_remove:
  assumes "store_wf st"
  shows "store_wf (snd (disk_remove st k))"
proof (cases "map_find (<) k (ds_entries st)")
  case None
  with assms show ?thesis by (simp add: disk_remove_def)
next
  case (Some e)
  have wf: "map_wf (<) (ds_entries st)" using assms by (simp add: store_wf_def)
  have sum: "sum_list (map entry_bytes (map_erase (<) k (ds_entries st))) + entry_bytes (k, e) =
      unat (ds_total_bytes st)"
    using str_map.sum_erase [OF Some, of entry_bytes] assms by (simp add: store_wf_def)
  then have "unat (ds_total_bytes st - de_size e) = unat (ds_total_bytes st) - unat (de_size e)"
    by (intro unat_sub) (simp add: word_le_nat_alt entry_bytes_def)
  with sum have "sum_list (map entry_bytes (map_erase (<) k (ds_entries st))) =
      unat (ds_total_bytes st - de_size e)"
    by (simp add: entry_bytes_def)
  moreover have "\<forall>p\<in>set (map_erase (<) k (ds_entries st)).
      entry_ok ((ds_files st)(de_path e := None)) p"
    using assms str_map.set_erase [OF wf, of k] by (auto simp: store_wf_def entry_ok_def)
  ultimately show ?thesis
    using Some str_map.wf_erase [OF wf, of k] by (simp add: disk_remove_def store_wf_def)
qed

lemma total_remove_le:
  assumes "store_wf st"
  shows "ds_total_bytes (snd (disk_remove st k)) \<le> ds_total_bytes st"
proof (cases "map_find (<) k (ds_entries st)")
  case (Some e)
  have "unat (de_size e) \<le> unat (ds_total_bytes st)"
    using str_map.sum_erase [OF Some, of entry_bytes] assms
    by (simp add: store_wf_def entry_bytes_def)
  then have "unat (ds_total_bytes st - de_size e) = unat (ds_total_bytes st) - unat (de_size e)"
    by (intro unat_sub) (simp add: word_le_nat_alt)
  with Some show ?thesis by (simp add: disk_remove_def word_le_nat_alt)
qed (simp add: disk_remove_def)

lemma visible_remove:
  assumes "store_wf st" "visible (snd (disk_remove st k')) k = Some d"
  shows "k \<noteq> k' \<and> visible st k = Some d"
proof -
  have wf: "map_wf (<) (ds_entries st)" using assms by (simp add: store_wf_def)
  have "ds_files (snd (disk_remove st k')) p = Some c \<Longrightarrow> ds_files st p = Some c" for p c
    by (auto simp: disk_remove_def split: option.splits if_splits)
  with assms(2) find_disk_remove [OF wf, of k k'] show ?thesis
    by (fastforce simp: visible_def split: option.splits if_splits)
qed

lemma recency_ok_remove: "store_wf st \<Longrightarrow> recency_ok st \<Longrightarrow> recency_ok (snd (disk_remove st k))"
  using entries_disk_remove [of st k] by (simp add: recency_ok_def store_wf_def)

lemma min_entry_in: "min_entry p m \<in> insert p (set m)"
  by (induction m arbitrary: p) auto

lemma min_entry_le: "q \<in> insert p (set m) \<Longrightarrow> de_recency (snd (min_entry p m)) \<le> de_recency (snd q)"
proof (induction m arbitrary: p q)
  case (Cons r m)
  let ?b = "if de_recency (snd r) < de_recency (snd p) then r else p"
  have "de_recency (snd (min_entry ?b m)) \<le> de_recency (snd ?b)" using Cons.IH [of ?b ?b] by simp
  moreover have "q \<in> set m \<Longrightarrow> de_recency (snd (min_entry ?b m)) \<le> de_recency (snd q)"
    using Cons.IH [of q ?b] by simp
  ultimately show ?case using Cons.prems by (auto split: if_splits)
qed simp

text \<open>A loop invariant that removals keep holds after the eviction.\<close>

lemma evict_loop_induct:
  assumes "P st" "\<And>st k. P st \<Longrightarrow> P (snd (disk_remove st k))"
  shows "P (evict_loop n incoming st)"
  using assms(1) by (induction n incoming st rule: evict_loop.induct) (auto split: list.splits intro: assms(2))

lemma evict_induct:
  assumes "P st" "\<And>st k. P st \<Longrightarrow> P (snd (disk_remove st k))"
  shows "P (evict_until_fits incoming st)"
  using evict_loop_induct [of P, OF assms] assms(1) by (simp add: evict_until_fits_def)

lemma evict_frame [simp]:
  "ds_max_bytes (evict_until_fits incoming st) = ds_max_bytes st"
  "ds_next_recency (evict_until_fits incoming st) = ds_next_recency st"
  by (rule evict_induct; simp)+

lemma store_wf_evict: "store_wf st \<Longrightarrow> store_wf (evict_until_fits incoming st)"
  by (rule evict_induct) (auto intro: store_wf_remove)

lemma evict_entries_subset:
  assumes "store_wf st"
  shows "set (ds_entries (evict_until_fits incoming st)) \<subseteq> set (ds_entries st)"
proof -
  have "store_wf (evict_until_fits incoming st) \<and>
      set (ds_entries (evict_until_fits incoming st)) \<subseteq> set (ds_entries st)"
    by (rule evict_induct) (use assms in \<open>auto simp: store_wf_remove entries_disk_remove store_wf_map\<close>)
  then show ?thesis ..
qed

lemma evict_loop_subset:
  assumes "store_wf st"
  shows "set (ds_entries (evict_loop n incoming st)) \<subseteq> set (ds_entries st)"
proof -
  have "store_wf (evict_loop n incoming st) \<and>
      set (ds_entries (evict_loop n incoming st)) \<subseteq> set (ds_entries st)"
    by (rule evict_loop_induct) (use assms in \<open>auto simp: store_wf_remove entries_disk_remove store_wf_map\<close>)
  then show ?thesis ..
qed

lemma total_evict_le:
  assumes "store_wf st"
  shows "ds_total_bytes (evict_until_fits incoming st) \<le> ds_total_bytes st"
proof -
  have "store_wf (evict_until_fits incoming st) \<and>
      ds_total_bytes (evict_until_fits incoming st) \<le> ds_total_bytes st"
    by (rule evict_induct) (use assms in \<open>auto intro: store_wf_remove order_trans [OF total_remove_le]\<close>)
  then show ?thesis ..
qed

lemma visible_evict:
  assumes "store_wf st" "visible (evict_until_fits incoming st) k = Some d"
  shows "visible st k = Some d"
proof -
  have "store_wf (evict_until_fits incoming st) \<and>
      (\<forall>d. visible (evict_until_fits incoming st) k = Some d \<longrightarrow> visible st k = Some d)"
    by (rule evict_induct) (use assms(1) in \<open>auto intro: store_wf_remove dest: visible_remove\<close>)
  with assms(2) show ?thesis by blast
qed

lemma length_disk_remove:
  "map_find (<) k (ds_entries st) = Some e \<Longrightarrow>
     Suc (length (ds_entries (snd (disk_remove st k)))) = length (ds_entries st)"
  using str_map.length_erase [of k "ds_entries st" e] by (simp add: disk_remove_def)

lemma find_min_entry:
  assumes "store_wf st" "ds_entries st = p # m"
  shows "map_find (<) (fst (min_entry p m)) (ds_entries st) = Some (snd (min_entry p m))"
  using assms min_entry_in [of p m] str_map.find_Some_iff [of "ds_entries st"]
  by (auto simp: store_wf_def)

lemma evict_loop_fits:
  assumes "store_wf st" "length (ds_entries st) \<le> n"
  shows "ds_entries (evict_loop n incoming st) = [] \<or>
    ds_total_bytes (evict_loop n incoming st) + incoming \<le> ds_max_bytes st"
  using assms
proof (induction n incoming st rule: evict_loop.induct)
  case (2 n incoming st)
  show ?case
  proof (cases "ds_entries st")
    case (Cons p m)
    show ?thesis
    proof (cases "ds_max_bytes st < ds_total_bytes st + incoming")
      case True
      let ?st = "snd (disk_remove st (fst (min_entry p m)))"
      have "length (ds_entries ?st) \<le> n"
        using length_disk_remove [OF find_min_entry [OF "2.prems"(1) Cons]] "2.prems"(2) by simp
      with "2.IH" [OF Cons True] "2.prems"(1) Cons True show ?thesis
        by (simp add: store_wf_remove)
    next
      case False
      with Cons show ?thesis by (simp add: leI)
    qed
  qed simp
qed simp

lemma evict_until_fits_fits:
  assumes "store_wf st" "ds_max_bytes st \<noteq> 0" "incoming \<le> ds_max_bytes st"
  shows "ds_total_bytes (evict_until_fits incoming st) + incoming \<le> ds_max_bytes st"
proof -
  have "store_wf (evict_until_fits incoming st)" by (rule store_wf_evict [OF assms(1)])
  then have "ds_entries (evict_until_fits incoming st) = [] \<Longrightarrow>
      ds_total_bytes (evict_until_fits incoming st) = 0"
    by (simp add: store_wf_def unat_eq_0 [symmetric])
  then show ?thesis
    using evict_loop_fits [OF assms(1) order_refl, of incoming] assms(2,3)
    by (auto simp: evict_until_fits_def)
qed

section \<open>Insertion and lookup\<close>

definition no_wrap :: "disk_store \<Rightarrow> bytes \<Rightarrow> bytes \<Rightarrow> bool" where
  "no_wrap st key data \<longleftrightarrow> length key < 2 ^ 32
     \<and> unat (ds_total_bytes st) + (4 + length key + length data) < 2 ^ 64"

definition put_base :: "disk_store \<Rightarrow> bytes \<Rightarrow> bytes \<Rightarrow> disk_store" where
  "put_base st key data = evict_until_fits (entry_size key (length data)) (snd (disk_remove st key))"

lemma disk_put_cases:
  assumes "disk_put ok st key data = (b, st')"
  obtains (refused) "\<not> b" "st' = st" "ds_max_bytes st \<noteq> 0" "ds_max_bytes st < entry_size key (length data)"
  | (failed) "\<not> b" "\<not> ok" "st' = (put_base st key data)
      \<lparr>ds_files := (ds_files (put_base st key data))(entry_path key := None)\<rparr>"
  | (stored) "b" "ok" "ds_max_bytes st = 0 \<or> entry_size key (length data) \<le> ds_max_bytes st"
      "st' = (put_base st key data)
        \<lparr>ds_files := (ds_files (put_base st key data))(entry_path key \<mapsto> file_image key data),
         ds_total_bytes := ds_total_bytes (put_base st key data) + entry_size key (length data),
         ds_entries := map_put (<) key \<lparr>de_path = entry_path key, de_size = entry_size key (length data),
           de_recency = ds_next_recency st\<rparr> (ds_entries (put_base st key data)),
         ds_next_recency := ds_next_recency st + 1\<rparr>"
  using assms by (auto simp: disk_put_def Let_def put_base_def not_less split: if_splits)

lemma put_base_frame [simp]:
  "ds_max_bytes (put_base st key data) = ds_max_bytes st"
  "ds_next_recency (put_base st key data) = ds_next_recency st"
  by (simp_all add: put_base_def)

lemma store_wf_put_base: "store_wf st \<Longrightarrow> store_wf (put_base st key data)"
  by (simp add: put_base_def store_wf_evict store_wf_remove)

lemma put_base_fresh:
  assumes "store_wf st"
  shows "map_find (<) key (ds_entries (put_base st key data)) = None"
proof -
  have "set (ds_entries (put_base st key data)) \<subseteq> {p \<in> set (ds_entries st). fst p \<noteq> key}"
    using evict_entries_subset [OF store_wf_remove [OF assms, of key]]
      entries_disk_remove [OF store_wf_map [OF assms], of key]
    by (simp add: put_base_def)
  then show ?thesis
    using str_map.find_None_iff [OF store_wf_map [OF store_wf_put_base [OF assms]]] by auto
qed

lemma total_put_base_le: "store_wf st \<Longrightarrow> ds_total_bytes (put_base st key data) \<le> ds_total_bytes st"
  unfolding put_base_def
  using total_evict_le [OF store_wf_remove] total_remove_le order_trans by blast

lemma entry_ok_files_None: "entry_ok files p \<Longrightarrow> entry_ok (files(q := None)) p"
  by (auto simp: entry_ok_def)

lemma entry_ok_files_image:
  assumes "entry_ok files p" "fst p \<noteq> key" "length key < 2 ^ 32"
  shows "entry_ok (files(q \<mapsto> file_image key data)) p"
  using assms by (auto simp: entry_ok_def)

lemma store_wf_put:
  assumes wf: "store_wf st" and nw: "no_wrap st key data" and put: "disk_put ok st key data = (b, st')"
  shows "store_wf st'"
  using put
proof (cases rule: disk_put_cases)
  case refused
  with wf show ?thesis by simp
next
  case failed
  with store_wf_put_base [OF wf, of key data] show ?thesis
    by (simp add: store_wf_def entry_ok_files_None)
next
  case stored
  let ?base = "put_base st key data" and ?e = "\<lparr>de_path = entry_path key,
      de_size = entry_size key (length data), de_recency = ds_next_recency st\<rparr>"
  note base = store_wf_put_base [OF wf, of key data]
  have size: "unat (entry_size key (length data)) = 4 + length key + length data"
    using nw by (intro unat_entry_size) (simp add: no_wrap_def)
  have tot: "unat (ds_total_bytes ?base) \<le> unat (ds_total_bytes st)"
    using total_put_base_le [OF wf] by (simp add: word_le_nat_alt)
  have "sum_list (map entry_bytes (ds_entries st')) =
      entry_bytes (key, ?e) + sum_list (map entry_bytes (ds_entries ?base))"
    using str_map.sum_put_fresh [OF put_base_fresh [OF wf], of entry_bytes] stored(4) by simp
  also have "\<dots> = unat (ds_total_bytes ?base + entry_size key (length data))"
    using base size tot nw by (simp add: store_wf_def entry_bytes_def no_wrap_def unat_word_ariths)
  finally have sum: "sum_list (map entry_bytes (ds_entries st')) = unat (ds_total_bytes st')"
    using stored(4) by simp
  have new: "entry_ok (ds_files st') (key, ?e)"
    using stored(4) size nw by (auto simp: entry_ok_def kHeaderLen_def no_wrap_def length_file_image)
  have "entry_ok (ds_files st') p" if "p \<in> set (ds_entries ?base)" "fst p \<noteq> key" for p
    using base that nw stored(4) by (simp add: store_wf_def no_wrap_def entry_ok_files_image)
  with new have "\<forall>p\<in>set (ds_entries st'). entry_ok (ds_files st') p"
    using stored(4) str_map.set_put [OF store_wf_map [OF base], of key ?e] by auto
  with sum show ?thesis
    using stored(4) str_map.wf_put [OF store_wf_map [OF base]] by (simp add: store_wf_def)
qed

lemma store_wf_get:
  assumes "store_wf st"
  shows "store_wf (snd (disk_get st key))"
proof (cases "fst (disk_get st key)")
  case None
  then have "snd (disk_get st key) = st \<or> snd (disk_get st key) = snd (disk_remove st key)"
    by (auto simp: disk_get_def Let_def split: option.splits if_splits)
  with store_wf_remove [OF assms, of key] assms show ?thesis by auto
next
  case (Some d)
  then obtain e where e: "map_find (<) key (ds_entries st) = Some e"
    and st': "snd (disk_get st key) = st\<lparr>ds_entries := map_put (<) key (e\<lparr>de_recency := ds_next_recency st\<rparr>)
      (ds_entries st), ds_next_recency := ds_next_recency st + 1\<rparr>"
    by (auto simp: disk_get_def Let_def split: option.splits if_splits)
  note wf = store_wf_map [OF assms]
  have "sum_list (map entry_bytes (map_put (<) key (e\<lparr>de_recency := ds_next_recency st\<rparr>) (ds_entries st))) =
      sum_list (map entry_bytes (ds_entries st))"
    using str_map.sum_put_present [OF e wf, of entry_bytes "e\<lparr>de_recency := ds_next_recency st\<rparr>"]
    by (simp add: entry_bytes_def)
  moreover have "entry_ok (ds_files st) (key, e)"
    using assms e str_map.find_Some_iff [OF wf] by (auto simp: store_wf_def)
  then have "entry_ok (ds_files st) (key, e\<lparr>de_recency := ds_next_recency st\<rparr>)"
    by (simp add: entry_ok_def)
  ultimately show ?thesis
    using assms str_map.wf_put [OF wf] str_map.set_put [OF wf] by (auto simp: st' store_wf_def)
qed

lemma visible_get:
  assumes "store_wf st" "visible (snd (disk_get st key)) k = Some d"
  shows "visible st k = Some d"
proof (cases "fst (disk_get st key)")
  case None
  then have "snd (disk_get st key) = st \<or> snd (disk_get st key) = snd (disk_remove st key)"
    by (auto simp: disk_get_def Let_def split: option.splits if_splits)
  with assms visible_remove [OF assms(1), of key k d] show ?thesis by auto
next
  case (Some d')
  then obtain e where e: "map_find (<) key (ds_entries st) = Some e"
    and st': "snd (disk_get st key) = st\<lparr>ds_entries := map_put (<) key (e\<lparr>de_recency := ds_next_recency st\<rparr>)
      (ds_entries st), ds_next_recency := ds_next_recency st + 1\<rparr>"
    by (auto simp: disk_get_def Let_def split: option.splits if_splits)
  with assms(2) str_map.find_put_eq [OF store_wf_map [OF assms(1)], of k key] show ?thesis
    by (auto simp: visible_def split: if_splits option.splits)
qed

lemma visible_put:
  assumes wf: "store_wf st" and key: "length key < 2 ^ 32"
    and put: "disk_put ok st key data = (b, st')"
    and vis: "visible st' k = Some d"
  shows "if b \<and> k = key then d = data else visible st k = Some d"
proof -
  have base: "visible st k = Some d" if "visible (put_base st key data) k = Some d"
    using that visible_evict [OF store_wf_remove [OF wf]] visible_remove [OF wf]
    unfolding put_base_def by blast
  show ?thesis
    using put
  proof (cases rule: disk_put_cases)
    case refused
    with vis show ?thesis by simp
  next
    case failed
    have "visible (put_base st key data) k = Some d"
      using vis failed(3) by (auto simp: visible_def split: option.splits if_splits)
    with base failed(1) show ?thesis by simp
  next
    case stored
    note find = str_map.find_put_eq [OF store_wf_map [OF store_wf_put_base [OF wf, of key data]]]
    show ?thesis
    proof (cases "k = key")
      case True
      with vis stored find key show ?thesis by (simp add: visible_def)
    next
      case False
      have "visible (put_base st key data) k = Some d"
        using vis stored(4) find False key by (auto simp: visible_def split: option.splits if_splits)
      with base False show ?thesis by simp
    qed
  qed
qed

lemma put_get:
  assumes "store_wf st" "no_wrap st key data" "disk_put True st key data = (True, st')"
  shows "fst (disk_get st' key) = Some data"
proof -
  have "visible st' key = Some data"
    using assms(3)
  proof (cases rule: disk_put_cases)
    case stored
    then show ?thesis
      using assms(2) str_map.find_put_eq [OF store_wf_map [OF store_wf_put_base [OF assms(1), of key data]]]
      by (simp add: visible_def no_wrap_def)
  qed simp_all
  with disk_get_visible [OF store_wf_put [OF assms]] show ?thesis by simp
qed

section \<open>The store as a lossy cache\<close>

text \<open>
  The abstract specification: a plain key/value map.  A successful insertion binds the key, a
  removal unbinds it, an insertion whose write failed unbinds it (the old value is gone), and
  an insertion that is refused for its size changes nothing.  A lookup may always miss,
  because the store evicts and drops unreadable files, but a hit must be the bound value.
\<close>

datatype store_op =
    OpPut bool bytes bytes
  | OpGet bytes
  | OpRemove bytes
  | OpClear

definition abs_put :: "bool \<Rightarrow> disk_store \<Rightarrow> bytes \<Rightarrow> bytes \<Rightarrow> (bytes \<rightharpoonup> bytes) \<Rightarrow> (bytes \<rightharpoonup> bytes)" where
  "abs_put ok st key data m =
     (if ds_max_bytes st \<noteq> 0 \<and> ds_max_bytes st < entry_size key (length data) then m
      else if ok then m(key \<mapsto> data) else m(key := None))"

fun abs_step :: "store_op \<Rightarrow> disk_store \<Rightarrow> (bytes \<rightharpoonup> bytes) \<Rightarrow> (bytes \<rightharpoonup> bytes)" where
  "abs_step (OpPut ok key data) st m = abs_put ok st key data m"
| "abs_step (OpGet key) st m = m"
| "abs_step (OpRemove key) st m = m(key := None)"
| "abs_step OpClear st m = Map.empty"

fun store_step :: "store_op \<Rightarrow> disk_store \<Rightarrow> disk_store" where
  "store_step (OpPut ok key data) st = snd (disk_put ok st key data)"
| "store_step (OpGet key) st = snd (disk_get st key)"
| "store_step (OpRemove key) st = snd (disk_remove st key)"
| "store_step OpClear st = disk_clear st"

fun op_fits :: "store_op \<Rightarrow> disk_store \<Rightarrow> bool" where
  "op_fits (OpPut ok key data) st = no_wrap st key data"
| "op_fits _ st = True"

fun run_store :: "store_op list \<Rightarrow> disk_store \<Rightarrow> disk_store" where
  "run_store [] st = st"
| "run_store (a # as) st = run_store as (store_step a st)"

fun run_abs :: "store_op list \<Rightarrow> disk_store \<Rightarrow> (bytes \<rightharpoonup> bytes) \<Rightarrow> (bytes \<rightharpoonup> bytes)" where
  "run_abs [] st m = m"
| "run_abs (a # as) st m = run_abs as (store_step a st) (abs_step a st m)"

fun ops_fit :: "store_op list \<Rightarrow> disk_store \<Rightarrow> bool" where
  "ops_fit [] st = True"
| "ops_fit (a # as) st = (op_fits a st \<and> ops_fit as (store_step a st))"

definition lossy :: "disk_store \<Rightarrow> (bytes \<rightharpoonup> bytes) \<Rightarrow> bool" where
  "lossy st m \<longleftrightarrow> (\<forall>k d. visible st k = Some d \<longrightarrow> m k = Some d)"

lemma store_wf_clear_loop: "store_wf st \<Longrightarrow> store_wf (clear_loop n st)"
  by (induction n arbitrary: st) (auto split: list.splits intro: store_wf_remove)

lemma clear_loop_empties:
  "store_wf st \<Longrightarrow> length (ds_entries st) \<le> n \<Longrightarrow> ds_entries (clear_loop n st) = []"
proof (induction n st rule: clear_loop.induct)
  case (2 n st)
  show ?case
  proof (cases "ds_entries st")
    case (Cons p m)
    obtain k e where p: "p = (k, e)" by (cases p)
    have "map_find (<) k (ds_entries st) = Some e"
      using Cons p by simp
    from length_disk_remove [OF this] "2.prems"(2)
    have "length (ds_entries (snd (disk_remove st k))) \<le> n" by simp
    with 2 Cons p show ?thesis by (simp add: store_wf_remove)
  qed simp
qed simp

lemma disk_clear_empty: "store_wf st \<Longrightarrow> store_wf (disk_clear st) \<and> ds_entries (disk_clear st) = []"
  by (simp add: disk_clear_def store_wf_clear_loop clear_loop_empties)

lemma store_step_wf: "store_wf st \<Longrightarrow> op_fits a st \<Longrightarrow> store_wf (store_step a st)"
proof (cases a)
  case (OpPut ok key data)
  assume "store_wf st" "op_fits a st"
  then show ?thesis
    using store_wf_put [of st key data ok] OpPut by (cases "disk_put ok st key data") auto
qed (auto simp: store_wf_get store_wf_remove disk_clear_empty)

lemma store_step_lossy:
  assumes "store_wf st" "op_fits a st" "lossy st m"
  shows "lossy (store_step a st) (abs_step a st m)"
proof (cases a)
  case (OpPut ok key data)
  obtain b st' where put: "disk_put ok st key data = (b, st')" by (cases "disk_put ok st key data")
  have key: "length key < 2 ^ 32" using assms(2) OpPut by (simp add: no_wrap_def)
  have b: "b \<longleftrightarrow> ok \<and> \<not> (ds_max_bytes st \<noteq> 0 \<and> ds_max_bytes st < entry_size key (length data))"
    using put by (auto simp: disk_put_def Let_def split: if_splits)
  have gone: "visible st' key = None"
    if "\<not> ok" "\<not> (ds_max_bytes st \<noteq> 0 \<and> ds_max_bytes st < entry_size key (length data))"
    using put that put_base_fresh [OF assms(1), of key data]
    by (auto simp: disk_put_def Let_def visible_def put_base_def split: if_splits)
  show ?thesis
    unfolding lossy_def
  proof (intro allI impI)
    fix k d assume "visible (store_step a st) k = Some d"
    then have vis: "visible st' k = Some d" using OpPut put by simp
    note * = visible_put [OF assms(1) key put this] assms(3)
    show "abs_step a st m k = Some d"
    proof (cases "ds_max_bytes st \<noteq> 0 \<and> ds_max_bytes st < entry_size key (length data)")
      case True
      with * b OpPut show ?thesis by (auto simp: abs_put_def lossy_def)
    next
      case False
      then have "\<not> ok \<Longrightarrow> k \<noteq> key" using gone vis by auto
      with * b OpPut False show ?thesis by (auto simp: abs_put_def lossy_def split: if_splits)
    qed
  qed
next
  case (OpGet key)
  then show ?thesis using assms visible_get by (auto simp: lossy_def)
next
  case (OpRemove key)
  then show ?thesis using assms visible_remove by (fastforce simp: lossy_def)
next
  case OpClear
  then show ?thesis using disk_clear_empty [OF assms(1)] by (simp add: lossy_def visible_def)
qed

lemma run_store_refines:
  "store_wf st \<Longrightarrow> ops_fit as st \<Longrightarrow> lossy st m \<Longrightarrow>
     store_wf (run_store as st) \<and> lossy (run_store as st) (run_abs as st m)"
proof (induction as arbitrary: st m)
  case (Cons a as)
  then show ?case using store_step_wf [of st a] store_step_lossy [of st a m] by auto
qed simp

text \<open>
  C7: the store refines a key/value map with loss.  After any sequence of insertions (that
  may fail or be refused), lookups, removals and clears, a lookup that hits returns exactly
  the value the last successful insertion under that very key stored: never another key's
  bytes, even when two keys hash to the same file name, and never a stale or truncated value.
\<close>

theorem disk_store_refines_map:
  assumes "store_wf st" "lossy st m" "ops_fit as st"
    and "fst (disk_get (run_store as st) key) = Some d"
  shows "run_abs as st m key = Some d"
  using run_store_refines [OF assms(1,3,2)] assms(4)
  by (auto simp: disk_get_visible lossy_def)

definition fresh_store :: "u64 \<Rightarrow> disk_store" where
  "fresh_store max_bytes = disk_open max_bytes []"

lemma fresh_store_wf: "store_wf (fresh_store n)" "lossy (fresh_store n) Map.empty"
  by (simp_all add: fresh_store_def disk_open_def store_wf_def lossy_def visible_def)

text \<open>
  Read your writes.  A lookup right after a successful insertion returns the inserted
  bytes, whatever was in the store and however many entries were evicted to make room.
\<close>

theorem disk_put_get:
  assumes "store_wf st" "no_wrap st key data" "disk_put True st key data = (True, st')"
  shows "fst (disk_get st' key) = Some data"
  using assms by (rule put_get)

lemma put_within_budget:
  assumes "store_wf st" "within_budget st" "disk_put ok st key data = (b, st')"
  shows "within_budget st' \<and> ds_max_bytes st' = ds_max_bytes st \<and>
    (ds_max_bytes st \<noteq> 0 \<and> ds_max_bytes st < entry_size key (length data) \<longrightarrow> \<not> b \<and> st' = st)"
  using assms(3)
proof (cases rule: disk_put_cases)
  case refused
  with assms(2) show ?thesis by simp
next
  case failed
  then show ?thesis
    using assms(2,3) total_put_base_le [OF assms(1), of key data]
    by (auto simp: within_budget_def disk_put_def Let_def split: if_splits)
next
  case stored
  then show ?thesis
    using evict_until_fits_fits [OF store_wf_remove [OF assms(1)], of key "entry_size key (length data)"]
    by (auto simp: within_budget_def put_base_def)
qed

lemma remove_within_budget:
  "store_wf st \<Longrightarrow> within_budget st \<Longrightarrow> within_budget (snd (disk_remove st k))"
  using total_remove_le [of st k] by (auto simp: within_budget_def)

lemma get_within_budget:
  assumes "store_wf st" "within_budget st"
  shows "within_budget (snd (disk_get st k)) \<and> ds_max_bytes (snd (disk_get st k)) = ds_max_bytes st
    \<and> ds_total_bytes (snd (disk_get st k)) \<le> ds_total_bytes st"
  using remove_within_budget [OF assms, of k] total_remove_le [OF assms(1), of k] assms(2)
  by (auto simp: disk_get_def Let_def within_budget_def split: option.splits)

text \<open>
  C25: the byte budget.  Every insertion leaves the bytes accounted for at or below the
  configured budget, and an entry that is larger than the whole budget is refused without
  touching the store.
\<close>

theorem disk_put_budget:
  assumes "store_wf st" "no_wrap st key data" "within_budget st"
    and "disk_put ok st key data = (b, st')"
  shows "within_budget st' \<and> sum_list (map entry_bytes (ds_entries st')) = unat (ds_total_bytes st')
    \<and> (ds_max_bytes st \<noteq> 0 \<and> unat (ds_max_bytes st) < 4 + length key + length data \<longrightarrow> \<not> b \<and> st' = st)"
proof -
  have "sum_list (map entry_bytes (ds_entries st')) = unat (ds_total_bytes st')"
    using store_wf_put [OF assms(1,2,4)] by (simp add: store_wf_def)
  moreover have "unat (entry_size key (length data)) = 4 + length key + length data"
    using assms(2) by (intro unat_entry_size) (simp add: no_wrap_def)
  ultimately show ?thesis
    using put_within_budget [OF assms(1,3,4)] by (simp add: word_less_nat_alt)
qed

section \<open>Least recently used first\<close>

lemma evict_loop_lru:
  assumes "store_wf st" "recency_ok st"
    and "p \<in> set (ds_entries st)" "p \<notin> set (ds_entries (evict_loop n incoming st))"
    and "q \<in> set (ds_entries (evict_loop n incoming st))"
  shows "de_recency (snd p) < de_recency (snd q)"
  using assms
proof (induction n incoming st rule: evict_loop.induct)
  case (2 n incoming st)
  show ?case
  proof (cases "ds_entries st")
    case (Cons r m)
    show ?thesis
    proof (cases "ds_max_bytes st < ds_total_bytes st + incoming")
      case True
      define v where "v = min_entry r m"
      let ?st = "snd (disk_remove st (fst v))"
      have loop: "evict_loop (Suc n) incoming st = evict_loop n incoming ?st"
        using Cons True by (simp add: v_def)
      note wf = store_wf_map [OF "2.prems"(1)]
      have v: "v \<in> set (ds_entries st)" "\<And>x. x \<in> set (ds_entries st) \<Longrightarrow> de_recency (snd v) \<le> de_recency (snd x)"
        using Cons min_entry_in [of r m] min_entry_le [of _ r m] by (auto simp: v_def)
      have keys: "x \<in> set (ds_entries st) \<Longrightarrow> fst x = fst v \<Longrightarrow> x = v" for x
        using v(1) str_map.wf_distinct [OF wf] by (metis eq_key_imp_eq_value prod.collapse)
      have sub: "set (ds_entries (evict_loop n incoming ?st)) \<subseteq> set (ds_entries ?st)"
        by (rule evict_loop_subset) (rule store_wf_remove [OF "2.prems"(1)])
      have q: "q \<in> set (ds_entries ?st)" "q \<in> set (ds_entries st)" "q \<noteq> v"
        using "2.prems"(5) loop sub entries_disk_remove [OF wf, of "fst v"] by auto
      show ?thesis
      proof (cases "p = v")
        case True
        have "de_recency (snd v) \<noteq> de_recency (snd q)"
          using "2.prems"(2) v(1) q by (auto simp: recency_ok_def)
        with v(2) [OF q(2)] True show ?thesis by simp
      next
        case False
        then have "p \<in> set (ds_entries ?st)"
          using "2.prems"(3) keys [of p] entries_disk_remove [OF wf, of "fst v"] by auto
        then show ?thesis
          using "2.IH" [OF Cons True] "2.prems" loop
          by (simp add: v_def store_wf_remove recency_ok_remove)
      qed
    next
      case False
      with Cons "2.prems" show ?thesis by simp
    qed
  next
    case Nil
    with "2.prems" show ?thesis by simp
  qed
qed simp

lemma recency_ok_put_base: "store_wf st \<Longrightarrow> recency_ok st \<Longrightarrow> recency_ok (put_base st key data)"
  using evict_entries_subset [of "snd (disk_remove st key)" "entry_size key (length data)"]
    store_wf_remove [of st key] recency_ok_remove [of st key]
  unfolding put_base_def recency_ok_def by (simp only: evict_frame) blast

text \<open>
  Least recently used first.  When an insertion evicts, every entry it drops (other than
  the old value of the key itself) was used less recently than every other entry it keeps.
\<close>

theorem disk_put_evicts_lru:
  assumes "store_wf st" "recency_ok st" "disk_put True st key data = (True, st')"
    and "p \<in> set (ds_entries st)" "fst p \<noteq> key" "p \<notin> set (ds_entries st')"
    and "q \<in> set (ds_entries st')" "fst q \<noteq> key"
  shows "de_recency (snd p) < de_recency (snd q)"
  using assms(3)
proof (cases rule: disk_put_cases)
  case stored
  let ?rm = "snd (disk_remove st key)" and ?base = "put_base st key data"
  note base = store_wf_map [OF store_wf_put_base [OF assms(1), of key data]]
  have "p \<in> set (ds_entries ?rm)"
    using assms(4,5) entries_disk_remove [OF store_wf_map [OF assms(1)], of key] by simp
  moreover have "p \<notin> set (ds_entries ?base)" "q \<in> set (ds_entries ?base)"
    using assms(5-8) stored(4) str_map.set_put [OF base] by auto
  ultimately show ?thesis
    using evict_loop_lru [OF store_wf_remove [OF assms(1)] recency_ok_remove [OF assms(1,2)]]
    by (auto simp: put_base_def evict_until_fits_def split: if_splits)
qed simp_all

section \<open>Restart\<close>

lemma length_hex_loop [simp]: "length (hex_loop n v) = n"
  by (induction n arbitrary: v) auto

lemma kvc_extension_entry_path [simp]: "kvc_extension (entry_path key)"
  by (simp add: kvc_extension_def entry_path_def hex64_def)

text \<open>
  Every file of the store belongs to an indexed key of at most 4096 bytes: what the
  operations keep true of a directory no other process writes to.
\<close>

definition owned :: "disk_store \<Rightarrow> bool" where
  "owned st \<longleftrightarrow> (\<forall>name c. ds_files st name = Some c \<longrightarrow>
     (\<exists>k d. c = file_image k d \<and> name = entry_path k \<and> length k \<le> 4096
        \<and> map_find (<) k (ds_entries st) \<noteq> None))"

definition listing :: "disk_store \<Rightarrow> dir_item list \<Rightarrow> bool" where
  "listing st items \<longleftrightarrow> distinct (map di_name items) \<and> (\<forall>i\<in>set items. di_regular i)
     \<and> map_of (map (\<lambda>i. (di_name i, di_content i)) items) = ds_files st"

definition item_key :: "dir_item \<Rightarrow> bytes \<Rightarrow> bool" where
  "item_key i k \<longleftrightarrow> di_regular i \<and> di_name i = entry_path k \<and> length k \<le> 4096
     \<and> (\<exists>d. di_content i = file_image k d)"

lemma item_key_read:
  assumes "item_key i k"
  shows "read_key (di_content i) = Some k" "\<not> length (di_content i) < 4"
    "\<not> 4096 < unat (le_read (take 4 (di_content i)) :: u32)"
    "kvc_extension (di_name i)" "di_regular i"
  using assms by (auto simp: item_key_def length_file_image)
    (auto simp: file_image_def unat_of_nat take_bit_eq_mod)

lemma open_scan_item:
  assumes "item_key i k"
  shows "open_scan (i # items) st found =
    open_scan items
      (st\<lparr>ds_total_bytes := ds_total_bytes st + of_nat (length (di_content i)),
        ds_entries := map_emplace (<) k \<lparr>de_path = di_name i,
          de_size = of_nat (length (di_content i)), de_recency = 0\<rparr> (ds_entries st)\<rparr>)
      (found @ [(di_mtime i, k)])"
  using item_key_read [OF assms] by simp

lemma open_scan_wf:
  assumes "\<forall>i\<in>set items. (\<exists>k. item_key i k) \<and> ds_files st (di_name i) = Some (di_content i)"
    and "distinct (map di_name items)"
    and "\<forall>i\<in>set items. \<forall>k. item_key i k \<longrightarrow> map_find (<) k (ds_entries st) = None"
    and "unat (ds_total_bytes st) + sum_list (map (length \<circ> di_content) items) < 2 ^ 64"
    and "store_wf st"
  shows "store_wf (fst (open_scan items st found)) \<and> ds_files (fst (open_scan items st found)) = ds_files st
    \<and> (\<forall>k. map_find (<) k (ds_entries (fst (open_scan items st found))) \<noteq> None \<longleftrightarrow>
          map_find (<) k (ds_entries st) \<noteq> None \<or> (\<exists>i\<in>set items. item_key i k))"
  using assms
proof (induction items arbitrary: st found)
  case (Cons i items)
  from Cons.prems(1) obtain k where k: "item_key i k" by auto
  define e where "e = \<lparr>de_path = di_name i, de_size = of_nat (length (di_content i)), de_recency = 0\<rparr>"
  define st1 where "st1 = st\<lparr>ds_total_bytes := ds_total_bytes st + of_nat (length (di_content i)),
      ds_entries := map_put (<) k e (ds_entries st)\<rparr>"
  note wf = store_wf_map [OF Cons.prems(5)]
  have fresh: "map_find (<) k (ds_entries st) = None" using Cons.prems(3) k by simp
  have scan: "open_scan (i # items) st found = open_scan items st1 (found @ [(di_mtime i, k)])"
    using open_scan_item [OF k] fresh by (simp add: map_emplace_def st1_def e_def)
  have len: "length (di_content i) < 2 ^ 64" using Cons.prems(4) by simp
  have size: "unat (of_nat (length (di_content i)) :: u64) = length (di_content i)"
    using len by (simp add: unat_of_nat take_bit_eq_mod)
  have tot: "unat (ds_total_bytes st1) = unat (ds_total_bytes st) + length (di_content i)"
    using Cons.prems(4) size by (simp add: st1_def unat_word_ariths)
  have files: "ds_files st (di_name i) = Some (di_content i)" using Cons.prems(1) by simp
  have image: "read_key (di_content i) = Some k" "di_name i = entry_path k"
    using item_key_read [OF k] k by (auto simp: item_key_def)
  have "entry_ok (ds_files st) (k, e)"
    using files image size read_key_length [OF image(1)] by (auto simp: entry_ok_def e_def kHeaderLen_def)
  then have wf1: "store_wf st1"
    using Cons.prems(5) tot str_map.sum_put_fresh [OF fresh, of entry_bytes e] str_map.set_put [OF wf]
      str_map.wf_put [OF wf, of k e] size
    by (auto simp: store_wf_def st1_def entry_bytes_def e_def)
  have keys: "item_key j k' \<Longrightarrow> j \<in> set items \<Longrightarrow> k' \<noteq> k" for j k'
    using Cons.prems(2) image(2) by (force simp: item_key_def)
  have only: "item_key i k' \<longleftrightarrow> k' = k" for k'
    using k item_key_read(1) [of i k'] image(1) by auto
  have "store_wf (fst (open_scan items st1 (found @ [(di_mtime i, k)]))) \<and>
      ds_files (fst (open_scan items st1 (found @ [(di_mtime i, k)]))) = ds_files st1 \<and>
      (\<forall>k'. map_find (<) k' (ds_entries (fst (open_scan items st1 (found @ [(di_mtime i, k)])))) \<noteq> None
        \<longleftrightarrow> map_find (<) k' (ds_entries st1) \<noteq> None \<or> (\<exists>i\<in>set items. item_key i k'))"
  proof (rule Cons.IH)
    show "\<forall>i\<in>set items. (\<exists>k. item_key i k) \<and> ds_files st1 (di_name i) = Some (di_content i)"
      using Cons.prems(1) by (simp add: st1_def)
    show "distinct (map di_name items)" using Cons.prems(2) by simp
    show "\<forall>i\<in>set items. \<forall>k. item_key i k \<longrightarrow> map_find (<) k (ds_entries st1) = None"
      using Cons.prems(3) keys by (auto simp: st1_def str_map.find_put_eq [OF wf])
    show "unat (ds_total_bytes st1) + sum_list (map (length \<circ> di_content) items) < 2 ^ 64"
      using Cons.prems(4) tot by (simp add: comp_def)
  qed (rule wf1)
  then show ?case
    unfolding scan by (auto simp: st1_def str_map.find_put_eq [OF wf] only)
qed simp

lemma open_seed_wf: "store_wf st \<Longrightarrow> store_wf (open_seed found st) \<and> ds_files (open_seed found st) = ds_files st
    \<and> (\<forall>k. (map_find (<) k (ds_entries (open_seed found st)) \<noteq> None) = (map_find (<) k (ds_entries st) \<noteq> None))"
proof (induction found st rule: open_seed.induct)
  case (2 mtime key found st)
  show ?case
  proof (cases "map_find (<) key (ds_entries st)")
    case None
    with 2 show ?thesis by simp
  next
    case (Some e)
    note wf = store_wf_map [OF "2.prems"]
    let ?st = "st\<lparr>ds_entries := map_put (<) key (e\<lparr>de_recency := ds_next_recency st\<rparr>) (ds_entries st),
        ds_next_recency := ds_next_recency st + 1\<rparr>"
    have "entry_ok (ds_files st) (key, e)"
      using "2.prems" Some str_map.find_Some_iff [OF wf] by (auto simp: store_wf_def)
    then have "store_wf ?st"
      using "2.prems" str_map.wf_put [OF wf] str_map.set_put [OF wf]
        str_map.sum_put_present [OF Some wf, of entry_bytes "e\<lparr>de_recency := ds_next_recency st\<rparr>"]
      by (auto simp: store_wf_def entry_ok_def entry_bytes_def)
    with 2 Some show ?thesis by (auto simp: str_map.find_put_eq [OF wf])
  qed
qed simp

lemma visible_intact:
  assumes "store_wf st" "ds_files st (entry_path k) = Some (file_image k d)" "length k < 2 ^ 32"
    "map_find (<) k (ds_entries st) \<noteq> None"
  shows "visible st k = Some d"
proof -
  obtain e where e: "map_find (<) k (ds_entries st) = Some e" using assms(4) by auto
  then have "de_path e = entry_path k"
    using assms(1) str_map.find_Some_iff [OF store_wf_map [OF assms(1)]]
    by (auto simp: store_wf_def entry_ok_def)
  with e assms show ?thesis by (simp add: visible_def)
qed

text \<open>
  Entries survive a restart.  Opening the directory a store left behind, in whatever
  order the file system lists it and whatever its file times are, gives a well-formed store
  that answers every lookup exactly as the old one did.
\<close>

theorem disk_reopen:
  assumes "store_wf st" "owned st" "listing st items"
    and "sum_list (map (length \<circ> di_content) items) < 2 ^ 64"
  shows "store_wf (disk_open m items) \<and> (\<forall>k. fst (disk_get (disk_open m items) k) = fst (disk_get st k))"
proof -
  define st0 where "st0 = \<lparr>ds_max_bytes = m, ds_files = map_of (map (\<lambda>i. (di_name i, di_content i)) items),
      ds_entries = [], ds_total_bytes = 0, ds_next_recency = 1\<rparr>"
  have files0: "ds_files st0 = ds_files st" using assms(3) by (simp add: st0_def listing_def)
  have at: "i \<in> set items \<Longrightarrow> ds_files st0 (di_name i) = Some (di_content i)" for i
    using assms(3) map_of_is_SomeI [of "map (\<lambda>i. (di_name i, di_content i)) items" "di_name i" "di_content i"]
    by (auto simp: st0_def listing_def comp_def)
  have key: "i \<in> set items \<Longrightarrow> \<exists>k. item_key i k" for i
    using at [of i] files0 assms(2,3) by (auto simp: owned_def item_key_def listing_def) metis
  define st1 where "st1 = fst (open_scan items st0 [])"
  have wf0: "store_wf st0" by (simp add: st0_def store_wf_def)
  have scan: "store_wf st1 \<and> ds_files st1 = ds_files st0 \<and>
      (\<forall>k. map_find (<) k (ds_entries st1) \<noteq> None \<longleftrightarrow>
        map_find (<) k (ds_entries st0) \<noteq> None \<or> (\<exists>i\<in>set items. item_key i k))"
    unfolding st1_def
    by (rule open_scan_wf) (use at key assms(3,4) wf0 in \<open>auto simp: listing_def st0_def\<close>)
  define st2 where "st2 = disk_open m items"
  have st2: "st2 = open_seed (sort (snd (open_scan items st0 []))) st1"
    by (simp add: st2_def disk_open_def st0_def st1_def Let_def split: prod.splits)
  have wf2: "store_wf st2" and files2: "ds_files st2 = ds_files st"
    and find2: "map_find (<) k (ds_entries st2) \<noteq> None \<longleftrightarrow> (\<exists>i\<in>set items. item_key i k)" for k
    using open_seed_wf [of st1] scan files0 by (auto simp: st2 st0_def)
  have "visible st2 k = visible st k" for k
  proof (cases "\<exists>i\<in>set items. item_key i k")
    case True
    then obtain i d where i: "i \<in> set items" "di_name i = entry_path k" "di_content i = file_image k d"
      "length k \<le> 4096" by (auto simp: item_key_def)
    then have f: "ds_files st (entry_path k) = Some (file_image k d)" using at files0 by metis
    moreover from f assms(2) i(4) have "map_find (<) k (ds_entries st) \<noteq> None"
    proof -
      obtain k' d' where "file_image k d = file_image k' d'" "length k' \<le> 4096"
        "map_find (<) k' (ds_entries st) \<noteq> None" using f assms(2) unfolding owned_def by blast
      moreover then have "k' = k"
        using i(4) read_key_image [of k d] read_key_image [of k' d'] by simp
      ultimately show ?thesis by simp
    qed
    ultimately show ?thesis
      using visible_intact [OF wf2, of k d] visible_intact [OF assms(1), of k d] find2 True i(4) files2
      by simp
  next
    case False
    have "visible st k = None"
    proof (rule ccontr)
      assume "visible st k \<noteq> None"
      then obtain e c where e: "map_find (<) k (ds_entries st) = Some e"
        "ds_files st (de_path e) = Some c" "read_key c = Some k"
        by (auto simp: visible_def split: option.splits if_splits)
      then obtain k' d' where c: "c = file_image k' d'" "de_path e = entry_path k'" "length k' \<le> 4096"
        using assms(2) unfolding owned_def by blast
      then have "k' = k" using e(3) read_key_image [of k' d'] by simp
      moreover obtain i where "i \<in> set items" "di_name i = de_path e" "di_content i = c"
      proof -
        have "(de_path e, c) \<in> set (map (\<lambda>i. (di_name i, di_content i)) items)"
          using e(2) assms(3) by (intro map_of_SomeD) (simp add: listing_def)
        then show ?thesis using that by auto
      qed
      ultimately show False using False c assms(3) by (auto simp: item_key_def listing_def)
    qed
    moreover have "map_find (<) k (ds_entries st2) = None" using False find2 [of k] by simp
    ultimately show ?thesis by (simp add: visible_def)
  qed
  with disk_get_visible [OF wf2] disk_get_visible [OF assms(1)] wf2 show ?thesis by (simp add: st2_def)
qed

text \<open>
  A key longer than 4096 bytes does not survive a restart: \<open>put\<close> stores it and a
  lookup finds it, but the constructor skips its file, which stays in the directory outside
  the index and outside the byte budget.
\<close>

theorem disk_reopen_forgets_long_keys:
  assumes "store_wf st" "no_wrap st k d" "disk_put True st k d = (True, st')" "4096 < length k"
    and "ds_files st' (entry_path k) = Some (di_content i)"
  shows "fst (disk_get st' k) = Some d \<and> ds_entries (disk_open m [i]) = []
    \<and> size_bytes (disk_open m [i]) = 0 \<and> fst (disk_get (disk_open m [i]) k) = None"
proof -
  have content: "di_content i = file_image k d"
    using assms(3,5) by (cases rule: disk_put_cases) auto
  have "4096 < unat (le_read (take 4 (di_content i)) :: u32)"
    using assms(2,4) content by (simp add: file_image_def no_wrap_def unat_of_nat take_bit_eq_mod)
  then have "disk_open m [i] = (disk_open m [])\<lparr>ds_files := [di_name i \<mapsto> di_content i]\<rparr>"
    by (simp add: disk_open_def Let_def)
  moreover have "ds_entries (disk_open m []) = []" "ds_total_bytes (disk_open m []) = 0"
    by (simp_all add: disk_open_def)
  ultimately show ?thesis
    using put_get [OF assms(1-3)] by (simp add: size_bytes_def disk_get_def)
qed

section \<open>The store contract\<close>

interpretation disk: lossy_store store_wf no_wrap disk_put disk_get disk_remove visible
proof unfold_locales
  fix st :: disk_store and ok k d k' d'
  assume wf: "store_wf st"
  show "store_wf (snd (disk_get st k))" by (rule store_wf_get [OF wf])
  show "store_wf (snd (disk_remove st k))" by (rule store_wf_remove [OF wf])
  show "fst (disk_get st k) = visible st k" by (rule disk_get_visible [OF wf])
  show "visible (snd (disk_get st k)) k' = Some d' \<Longrightarrow> visible st k' = Some d'"
    by (rule visible_get [OF wf])
  show "visible (snd (disk_remove st k)) k' = Some d' \<Longrightarrow> k' \<noteq> k \<and> visible st k' = Some d'"
    by (rule visible_remove [OF wf])
  assume nw: "no_wrap st k d"
  show put_wf: "store_wf (snd (disk_put ok st k d))"
    using store_wf_put [OF wf nw, of ok] by (metis prod.collapse)
  show "k' \<noteq> k \<Longrightarrow> visible (snd (disk_put ok st k d)) k' = Some d' \<Longrightarrow> visible st k' = Some d'"
    using visible_put [OF wf _ prod.collapse [symmetric], of k ok d k' d'] nw by (auto simp: no_wrap_def)
  show "fst (disk_put ok st k d) \<Longrightarrow> visible (snd (disk_put ok st k d)) k = Some d"
  proof -
    assume b: "fst (disk_put ok st k d)"
    then have "ok" by (auto simp: disk_put_def Let_def split: if_splits)
    with b put_get [OF wf nw prod.expand] disk_get_visible [OF put_wf, of k]
    show ?thesis by simp
  qed
qed

section \<open>Witnesses\<close>

definition demo_store :: disk_store where
  "demo_store = store_step (OpPut True ''k'' ''v'') (fresh_store 0)"

lemma fresh_store_simps [simp]:
  "ds_max_bytes (fresh_store n) = n" "ds_files (fresh_store n) = Map.empty"
  "ds_entries (fresh_store n) = []" "ds_total_bytes (fresh_store n) = 0"
  "ds_next_recency (fresh_store n) = 1"
  by (simp_all add: fresh_store_def disk_open_def)

lemma demo_put:
  "disk_put True (fresh_store 0) key data =
     (True, \<lparr>ds_max_bytes = 0, ds_files = [entry_path key \<mapsto> file_image key data],
        ds_entries = [(key, \<lparr>de_path = entry_path key, de_size = entry_size key (length data),
          de_recency = 1\<rparr>)],
        ds_total_bytes = entry_size key (length data), ds_next_recency = 2\<rparr>)"
  by (simp add: disk_put_def disk_remove_def evict_until_fits_def Let_def fresh_store_def disk_open_def)

lemma demo_no_wrap: "length key + length data < 10000 \<Longrightarrow> no_wrap (fresh_store n) key data"
  by (simp add: no_wrap_def)

theorem disk_put_get_witness:
  "fst (disk_get (snd (disk_put True (fresh_store 0) ''k'' ''v'')) ''k'') = Some ''v''"
  by (rule disk_put_get [of "fresh_store 0"])
    (simp_all add: fresh_store_wf demo_no_wrap demo_put)

theorem disk_store_refines_map_witness:
  "run_abs [OpPut True ''k'' ''v'', OpGet ''k''] (fresh_store 0) Map.empty ''k'' = Some ''v''"
proof (rule disk_store_refines_map)
  show "ops_fit [OpPut True ''k'' ''v'', OpGet ''k''] (fresh_store 0)"
    by (simp add: demo_no_wrap)
  show "fst (disk_get (run_store [OpPut True ''k'' ''v'', OpGet ''k''] (fresh_store 0)) ''k'') = Some ''v''"
    by (simp add: demo_put disk_get_def read_key_image kHeaderLen_def entry_size_def Let_def
        file_image_def read_key_def)
qed (rule fresh_store_wf)+

theorem disk_put_budget_witness:
  "within_budget (snd (disk_put True (fresh_store 5) ''k'' ''v''))
    \<and> \<not> fst (disk_put True (fresh_store 5) ''k'' ''v'')
    \<and> snd (disk_put True (fresh_store 5) ''k'' ''v'') = fresh_store 5"
  using disk_put_budget [OF _ _ _ prod.collapse [symmetric], of "fresh_store 5" "''k''" "''v''" True]
  by (simp add: fresh_store_wf(1) demo_no_wrap within_budget_def [of "fresh_store 5"])

definition two_entry_store :: disk_store where
  "two_entry_store = \<lparr>ds_max_bytes = 12,
     ds_files = [entry_path ''a'' \<mapsto> file_image ''a'' ''1'', entry_path ''b'' \<mapsto> file_image ''b'' ''2''],
     ds_entries = [(''a'', \<lparr>de_path = entry_path ''a'', de_size = 6, de_recency = 1\<rparr>),
                   (''b'', \<lparr>de_path = entry_path ''b'', de_size = 6, de_recency = 2\<rparr>)],
     ds_total_bytes = 12, ds_next_recency = 3\<rparr>"

lemma two_entry_store_ok: "store_wf two_entry_store" "recency_ok two_entry_store"
  by (auto simp: two_entry_store_def store_wf_def entry_ok_def entry_bytes_def kHeaderLen_def map_wf_def
      recency_ok_def length_file_image str_simps)

theorem disk_put_evicts_lru_witness:
  "disk_put True two_entry_store ''c'' ''3'' = (True, snd (disk_put True two_entry_store ''c'' ''3''))
    \<and> (1 :: u64) < 2"
proof
  let ?st = "snd (disk_put True two_entry_store ''c'' ''3'')"
  show put: "disk_put True two_entry_store ''c'' ''3'' = (True, ?st)"
    by (simp add: two_entry_store_def disk_put_def Let_def entry_size_def kHeaderLen_def)
  have entries: "ds_entries ?st = [(''b'', \<lparr>de_path = entry_path ''b'', de_size = 6, de_recency = 2\<rparr>),
      (''c'', \<lparr>de_path = entry_path ''c'', de_size = 6, de_recency = 3\<rparr>)]"
    by (simp add: two_entry_store_def disk_put_def disk_remove_def evict_until_fits_def Let_def
        entry_size_def kHeaderLen_def str_simps)
  show "(1 :: u64) < 2"
    using disk_put_evicts_lru [OF two_entry_store_ok put,
        of "(''a'', \<lparr>de_path = entry_path ''a'', de_size = 6, de_recency = 1\<rparr>)"
          "(''b'', \<lparr>de_path = entry_path ''b'', de_size = 6, de_recency = 2\<rparr>)"]
    unfolding entries by (simp add: two_entry_store_def)
qed

theorem disk_reopen_witness:
  "fst (disk_get (disk_open 0 [\<lparr>di_name = entry_path ''k'', di_regular = True, di_mtime = 7,
      di_content = file_image ''k'' ''v''\<rparr>]) ''k'') = fst (disk_get demo_store ''k'')"
proof -
  have st: "demo_store = snd (disk_put True (fresh_store 0) ''k'' ''v'')" by (simp add: demo_store_def)
  have wf: "store_wf demo_store"
    using store_wf_put [OF fresh_store_wf(1) demo_no_wrap demo_put, of "''k''" "''v''"]
    by (simp add: st demo_put)
  have "owned demo_store"
    unfolding owned_def
  proof (intro allI impI)
    fix name c
    assume "ds_files demo_store name = Some c"
    then have "name = entry_path ''k''" "c = file_image ''k'' ''v''"
      by (simp_all add: st demo_put split: if_splits)
    then show "\<exists>k d. c = file_image k d \<and> name = entry_path k \<and> length k \<le> 4096
        \<and> map_find (<) k (ds_entries demo_store) \<noteq> None"
      by (intro exI [of _ "''k''"] exI [of _ "''v''"]) (simp add: st demo_put)
  qed
  moreover have "listing demo_store [\<lparr>di_name = entry_path ''k'', di_regular = True, di_mtime = 7,
      di_content = file_image ''k'' ''v''\<rparr>]"
    by (simp add: st demo_put listing_def)
  ultimately show ?thesis
    using disk_reopen [OF wf] by (simp add: length_file_image)
qed

theorem disk_reopen_forgets_long_keys_witness:
  "let k = replicate 5000 (CHR ''x''); st' = snd (disk_put True (fresh_store 0) k ''v'');
       i = \<lparr>di_name = entry_path k, di_regular = True, di_mtime = 7, di_content = file_image k ''v''\<rparr>
   in fst (disk_get st' k) = Some ''v'' \<and> fst (disk_get (disk_open 0 [i]) k) = None"
proof -
  define k where "k = replicate 5000 (CHR ''x'')"
  have len: "length k = 5000" by (simp add: k_def)
  let ?st = "snd (disk_put True (fresh_store 0) k ''v'')"
  let ?i = "\<lparr>di_name = entry_path k, di_regular = True, di_mtime = 7, di_content = file_image k ''v''\<rparr>"
  have put: "disk_put True (fresh_store 0) k ''v'' = (True, ?st)" by (simp add: demo_put)
  have content: "ds_files ?st (entry_path k) = Some (di_content ?i)" by (simp add: demo_put)
  have "no_wrap (fresh_store 0) k ''v''" by (rule demo_no_wrap) (simp add: len)
  then have "fst (disk_get ?st k) = Some ''v'' \<and> fst (disk_get (disk_open 0 [?i]) k) = None"
    using disk_reopen_forgets_long_keys [OF fresh_store_wf(1) _ put _ content, of 0] len by simp
  then show ?thesis unfolding k_def by simp
qed

end
