(* ===== verification/Cache_Manager.thy ===== *)
theory Cache_Manager
  imports Disk_Store Llama_Backend
begin

text \<open>
  Named KV-cache snapshots (\<open>src/src/cache/cache_manager.cpp\<close>): the entry envelope, keys,
  and storing and loading a backend's state through the disk store.  The environment argument
  of \<open>store_state\<close> is the outcome of the store's write.
\<close>

section \<open>Model\<close>

definition kMagic :: bytes where
  "kMagic = ''SVK1''"

definition append_u32 :: "bytes \<Rightarrow> u32 \<Rightarrow> bytes" where
  "append_u32 out v = out @ map (\<lambda>i. byte_of (drop_bit (8 * i) v)) [0..<4]"

definition append_u64 :: "bytes \<Rightarrow> u64 \<Rightarrow> bytes" where
  "append_u64 out v = out @ map (\<lambda>i. byte_of (drop_bit (8 * i) v)) [0..<8]"

definition read_u32 :: "bytes \<Rightarrow> u32" where
  "read_u32 p = foldl (\<lambda>v i. push_bit 8 v OR word_of_byte (p ! i)) 0 (rev [0..<4])"

definition read_u64 :: "bytes \<Rightarrow> u64" where
  "read_u64 p = foldl (\<lambda>v i. push_bit 8 v OR word_of_byte (p ! i)) 0 (rev [0..<8])"

definition kEnvelopeHeader :: nat where
  "kEnvelopeHeader = 4 + 8 + 4"

record cache_stats =
  cs_hits :: u64
  cs_misses :: u64
  cs_stores :: u64

record cache_manager =
  cm_store :: disk_store
  cm_compress :: bool
  cm_stats :: cache_stats

definition cache_manager_open :: "u64 \<Rightarrow> bool \<Rightarrow> dir_item list \<Rightarrow> cache_manager" where
  "cache_manager_open max_bytes squeeze items =
     \<lparr>cm_store = disk_open max_bytes items, cm_compress = squeeze,
      cm_stats = \<lparr>cs_hits = 0, cs_misses = 0, cs_stores = 0\<rparr>\<rparr>"

text \<open>The bytes hashed for a token prefix under a model tag.\<close>

definition key_bytes :: "bytes \<Rightarrow> token list \<Rightarrow> bytes" where
  "key_bytes model_tag tokens =
     model_tag @ [CHR 0x00] @ concat (map (\<lambda>t. map (\<lambda>i. byte_of (drop_bit (8 * i) t)) [0..<4]) tokens)"

definition make_key :: "bytes \<Rightarrow> token list \<Rightarrow> bytes" where
  "make_key model_tag tokens =
     (let raw = key_bytes model_tag tokens;
          h1 = checksum raw;
          h2 = checksum (raw @ ''x'')
      in ''kv-'' @ show_nat (unat h1) @ ''-'' @ show_nat (unat h2) @ ''-n'' @ show_nat (length tokens))"

definition pack_state :: "zstd \<Rightarrow> bool \<Rightarrow> bytes \<Rightarrow> cache_error + bytes" where
  "pack_state z squeeze raw = (if squeeze then compress z raw else Inr (''R'' @ raw))"

definition envelope :: "bytes \<Rightarrow> u32 \<Rightarrow> bytes" where
  "envelope packed n_past = append_u32 (append_u64 kMagic (checksum packed)) n_past @ packed"

definition store_state :: "zstd \<Rightarrow> 'b backend_ops \<Rightarrow> bool \<Rightarrow> bytes \<Rightarrow> 'b \<Rightarrow> u32 \<Rightarrow> cache_manager
    \<Rightarrow> (engine_exn + bool) \<times> cache_manager" where
  "store_state z ops write_ok key backend n_past m =
     (case bo_state_data ops backend of
        Inl e \<Rightarrow> (Inl e, m)
      | Inr raw \<Rightarrow>
          (case pack_state z (cm_compress m) raw of
             Inl e \<Rightarrow> (Inl (CacheExn e), m)
           | Inr packed \<Rightarrow>
               (case disk_put write_ok (cm_store m) key (envelope packed n_past) of
                  (stored, st) \<Rightarrow>
                    if \<not> stored then (Inr False, m\<lparr>cm_store := st\<rparr>)
                    else (Inr True, m\<lparr>cm_store := st,
                      cm_stats := (cm_stats m)\<lparr>cs_stores := cs_stores (cm_stats m) + 1\<rparr>\<rparr>))))"

definition count_miss :: "cache_manager \<Rightarrow> cache_manager" where
  "count_miss m = m\<lparr>cm_stats := (cm_stats m)\<lparr>cs_misses := cs_misses (cm_stats m) + 1\<rparr>\<rparr>"

definition drop_entry :: "bytes \<Rightarrow> cache_manager \<Rightarrow> cache_manager" where
  "drop_entry key m = count_miss (m\<lparr>cm_store := snd (disk_remove (cm_store m) key)\<rparr>)"

definition load_state :: "zstd \<Rightarrow> 'b backend_ops \<Rightarrow> bytes \<Rightarrow> 'b \<Rightarrow> cache_manager \<Rightarrow> bool \<times> 'b \<times> cache_manager" where
  "load_state z ops key backend m =
     (case disk_get (cm_store m) key of
        (None, st) \<Rightarrow> (False, backend, count_miss (m\<lparr>cm_store := st\<rparr>))
      | (Some entry, st) \<Rightarrow>
          let m1 = m\<lparr>cm_store := st\<rparr> in
          if length entry < kEnvelopeHeader \<or> take 4 entry \<noteq> kMagic then (False, backend, drop_entry key m1)
          else
            let expected = read_u64 (drop 4 entry);
                n_past = read_u32 (drop 12 entry);
                packed = drop kEnvelopeHeader entry
            in if checksum packed \<noteq> expected then (False, backend, drop_entry key m1)
               else case decompress z packed of
                      Inl e \<Rightarrow> (False, backend, drop_entry key m1)
                    | Inr data \<Rightarrow>
                        (case bo_set_state ops data (unat n_past) backend of
                           (Inl e, b) \<Rightarrow> (False, b, drop_entry key m1)
                         | (Inr _, b) \<Rightarrow> (True, b,
                             m1\<lparr>cm_stats := (cm_stats m1)\<lparr>cs_hits := cs_hits (cm_stats m1) + 1\<rparr>\<rparr>)))"

section \<open>The envelope\<close>

lemma append_u64_le: "append_u64 out v = out @ le_bytes 8 v"
  by (simp add: append_u64_def le_bytes_map [symmetric])

lemma append_u32_le: "append_u32 out v = out @ le_bytes 4 v"
  by (simp add: append_u32_def le_bytes_map [symmetric])

lemma foldl_le_read:
  "foldl (\<lambda>v i. push_bit 8 v OR word_of_byte (p ! i)) 0 (rev [0..<n]) = (le_read (take n p) :: 'a::len word)"
  if "n \<le> length p"
  using that
proof (induction n arbitrary: p)
  case (Suc n)
  then obtain b q where p: "p = b # q" by (cases p) auto
  have "rev [0..<Suc n] = map Suc (rev [0..<n]) @ [0]"
    by (simp only: upt_Suc_shift rev.simps rev_map)
  with Suc.IH [of q] Suc.prems p show ?case by (simp add: foldl_map)
qed simp

lemma read_u32_le: "4 \<le> length p \<Longrightarrow> read_u32 p = le_read (take 4 p)"
  and read_u64_le: "8 \<le> length q \<Longrightarrow> read_u64 q = le_read (take 8 q)"
  by (simp_all only: read_u32_def read_u64_def foldl_le_read)

lemma envelope_parts:
  "length (envelope packed n) = 16 + length packed" "take 4 (envelope packed n) = kMagic"
  "read_u64 (drop 4 (envelope packed n)) = checksum packed" "read_u32 (drop 12 (envelope packed n)) = n"
  "drop 16 (envelope packed n) = packed"
  by (simp_all add: envelope_def append_u32_le append_u64_le read_u32_le read_u64_le kMagic_def)

section \<open>Keys\<close>

lemma show_nat_inject: "show_nat m = show_nat n \<longleftrightarrow> m = n"
  using read_show_nat by metis

lemma digits_dash_inject:
  assumes "CHR ''-'' \<notin> set s" "CHR ''-'' \<notin> set t" "s @ CHR ''-'' # x = t @ CHR ''-'' # y"
  shows "s = t \<and> x = y"
  using assms
proof (induction s arbitrary: t)
  case Nil
  then show ?case by (cases t) auto
next
  case (Cons c s)
  then show ?case by (cases t) auto
qed

lemma show_nat_no_dash: "CHR ''-'' \<notin> set (show_nat n)"
  using show_nat_digits [of n] by (auto simp: list_all_iff isdigit_def code_def)

text \<open>
  The second hash of a snapshot key adds nothing.  Hashing the bytes with one more
  character appended is a function of the first hash, so two prompts share a key exactly when
  their single 64-bit FNV hashes and their lengths agree.
\<close>

theorem make_key_single_hash:
  "make_key tag ts = make_key tag' ts' \<longleftrightarrow>
     checksum (key_bytes tag ts) = checksum (key_bytes tag' ts') \<and> length ts = length ts'"
proof
  let ?h = "checksum (key_bytes tag ts)" and ?h' = "checksum (key_bytes tag' ts')"
  assume "make_key tag ts = make_key tag' ts'"
  then have eq: "show_nat (unat ?h) @ CHR ''-'' # show_nat (unat (fnv_step ?h (CHR ''x''))) @ CHR ''-'' # CHR ''n'' # show_nat (length ts)
      = show_nat (unat ?h') @ CHR ''-'' # show_nat (unat (fnv_step ?h' (CHR ''x''))) @ CHR ''-'' # CHR ''n'' # show_nat (length ts')"
    by (simp add: make_key_def Let_def checksum_snoc)
  from digits_dash_inject [OF show_nat_no_dash show_nat_no_dash this]
  have "?h = ?h'" and rest: "show_nat (unat (fnv_step ?h (CHR ''x''))) @ CHR ''-'' # CHR ''n'' # show_nat (length ts)
      = show_nat (unat (fnv_step ?h' (CHR ''x''))) @ CHR ''-'' # CHR ''n'' # show_nat (length ts')"
    by (auto simp: show_nat_inject word_unat_eq_iff)
  moreover from digits_dash_inject [OF show_nat_no_dash show_nat_no_dash rest] have "length ts = length ts'"
    by (simp add: show_nat_inject)
  ultimately show "?h = ?h' \<and> length ts = length ts'" by simp
qed (simp add: make_key_def Let_def checksum_snoc)

section \<open>Storing and loading\<close>

definition manager_wf :: "cache_manager \<Rightarrow> bool" where
  "manager_wf m \<longleftrightarrow> store_wf (cm_store m)"

lemma pack_state_roundtrip:
  assumes "zstd_lossless z"
  shows "\<exists>packed. pack_state z squeeze raw = Inr packed \<and> decompress z packed = Inr raw"
proof (cases squeeze)
  case True
  then show ?thesis using decompress_compress [OF assms] by (simp add: pack_state_def)
next
  case False
  then show ?thesis using decompress_raw [of z raw] by (simp add: pack_state_def kFlagRaw_def)
qed

lemma load_envelope:
  assumes "manager_wf m" "visible (cm_store m) key = Some (envelope packed n)" "decompress z packed = Inr raw"
    and "bo_set_state ops raw (unat n) b = (Inr u, b')"
  shows "load_state z ops key b m = (True, b', m\<lparr>cm_store := snd (disk_get (cm_store m) key),
    cm_stats := (cm_stats m)\<lparr>cs_hits := cs_hits (cm_stats m) + 1\<rparr>\<rparr>)"
proof -
  have "fst (disk_get (cm_store m) key) = Some (envelope packed n)"
    using disk.get_view assms(1,2) by (simp add: manager_wf_def)
  then obtain st where "disk_get (cm_store m) key = (Some (envelope packed n), st)"
    by (cases "disk_get (cm_store m) key") auto
  then show ?thesis
    using assms(3,4) by (simp add: load_state_def kEnvelopeHeader_def envelope_parts Let_def)
qed

lemma manager_wf_load: "manager_wf m \<Longrightarrow> manager_wf (snd (snd (load_state z ops key b m)))"
  using store_wf_get [of "cm_store m" key] store_wf_remove [of "snd (disk_get (cm_store m) key)" key]
  by (auto simp: load_state_def manager_wf_def drop_entry_def count_miss_def Let_def
      split: prod.splits option.splits sum.splits)

lemma store_then_load:
  assumes "zstd_lossless z" "manager_wf m" "store_state z ops write_ok key b n m = (Inr True, m')"
    and "\<And>blob packed. bo_state_data ops b = Inr blob \<Longrightarrow> pack_state z (cm_compress m) blob = Inr packed \<Longrightarrow>
      no_wrap (cm_store m) key (envelope packed n)"
    and "bo_state_data ops b = Inr raw" "bo_set_state ops raw (unat n) b2 = (Inr u, b3)"
  shows "\<exists>m''. load_state z ops key b2 m' = (True, b3, m'')"
proof -
  obtain packed where p: "pack_state z (cm_compress m) raw = Inr packed" "decompress z packed = Inr raw"
    using pack_state_roundtrip [OF assms(1)] by blast
  note nw = assms(4) [OF assms(5) p(1)]
  have put: "fst (disk_put write_ok (cm_store m) key (envelope packed n))"
    and st: "cm_store m' = snd (disk_put write_ok (cm_store m) key (envelope packed n))"
    using assms(3,5) p(1) by (auto simp: store_state_def split: prod.splits if_splits)
  have wf: "store_wf (cm_store m)" using assms(2) by (simp add: manager_wf_def)
  have "visible (cm_store m') key = Some (envelope packed n)" "manager_wf m'"
    using disk.put_stored [OF wf nw put] disk.put_inv [OF wf nw] by (simp_all add: st manager_wf_def)
  then show ?thesis using load_envelope [OF _ _ p(2), of m' key n ops b2 u b3] assms(6) by auto
qed

text \<open>
  A snapshot comes back as it was.  If storing the backend's state under a key succeeds,
  then loading the key into any backend that accepts the blob restores exactly the stored
  token sequence and the position counter that goes with it.
\<close>

theorem store_load_state:
  assumes "kv_backend ops kv ok represents" "zstd_lossless z" "manager_wf m"
    and "ok b" "length (kv b) < 2 ^ 32"
    and "store_state z ops write_ok key b (of_nat (length (kv b))) m = (Inr True, m')"
    and "\<And>blob packed. bo_state_data ops b = Inr blob \<Longrightarrow> pack_state z (cm_compress m) blob = Inr packed \<Longrightarrow>
      no_wrap (cm_store m) key (envelope packed (of_nat (length (kv b))))"
    and "bo_state_data ops b = Inr raw" "bo_set_state ops raw (length (kv b)) b2 = (Inr u, b3)"
  shows "\<exists>m''. load_state z ops key b2 m' = (True, b3, m'') \<and> ok b3 \<and> kv b3 = kv b"
proof -
  have "unat (of_nat (length (kv b)) :: u32) = length (kv b)" using assms(5) by (simp add: unat_of_nat take_bit_eq_mod)
  then have "\<exists>m''. load_state z ops key b2 m' = (True, b3, m'')"
    by (intro store_then_load [OF assms(2,3,6,7,8)]) (simp_all add: assms(9))
  moreover have "represents raw (kv b)" by (rule kv_backend.snapshot [OF assms(1,4,8)])
  ultimately show ?thesis using kv_backend.restore [OF assms(1) _ assms(9)] by auto
qed

text \<open>
  A corrupted snapshot is never loaded.  If any single byte of an entry's compressed
  state has changed, loading the key reports a miss, leaves the backend untouched, counts the
  miss, and removes the entry from the store.
\<close>

theorem load_rejects_corruption:
  assumes "manager_wf m" "envelope (xs @ c # ys) n = hdr @ xs @ c # ys" "c \<noteq> d"
    and "visible (cm_store m) key = Some (hdr @ xs @ d # ys)"
  shows "\<exists>m'. load_state z ops key b m = (False, b, m') \<and> visible (cm_store m') key = None
    \<and> cs_misses (cm_stats m') = cs_misses (cm_stats m) + 1"
proof -
  let ?bad = "hdr @ xs @ d # ys"
  have wf: "store_wf (cm_store m)" using assms(1) by (simp add: manager_wf_def)
  obtain st where get: "disk_get (cm_store m) key = (Some ?bad, st)"
    using disk.get_view [OF wf, of key] assms(4) by (cases "disk_get (cm_store m) key") auto
  then have wf': "store_wf st" using store_wf_get [OF wf, of key] by simp
  have len: "length hdr = 16" using arg_cong [OF assms(2), of length] by (simp add: envelope_parts)
  have hdr: "hdr = append_u32 (append_u64 kMagic (checksum (xs @ c # ys))) n"
    using assms(2) by (simp add: envelope_def)
  have sum: "read_u64 (drop 4 ?bad) = checksum (xs @ c # ys)"
    by (simp add: hdr append_u32_le append_u64_le read_u64_le kMagic_def)
  have "load_state z ops key b m = (False, b, drop_entry key (m\<lparr>cm_store := st\<rparr>))"
    using get sum assms(3) checksum_byte_change [of xs d ys c] len
    by (simp add: load_state_def kEnvelopeHeader_def Let_def)
  moreover have "visible (snd (disk_remove st key)) key = None"
    using disk.rem_other [OF wf', of key key] by (cases "visible (snd (disk_remove st key)) key") auto
  ultimately show ?thesis by (simp add: drop_entry_def count_miss_def)
qed

section \<open>Witnesses\<close>

definition demo_manager :: cache_manager where
  "demo_manager = cache_manager_open 0 False []"

definition loaded_backend :: "token list list real_backend" where
  "loaded_backend = \<lparr>rb_ctx = [[1]], rb_n_past = 1\<rparr>"

lemma demo_manager_store: "cm_store demo_manager = fresh_store 0" "cm_compress demo_manager = False" "manager_wf demo_manager"
  using fresh_store_wf(1) [of 0] by (simp_all add: demo_manager_def cache_manager_open_def fresh_store_def manager_wf_def)

lemma loaded_state: "bo_state_data (real_ops ref_api) loaded_backend = Inr (ref_save [[1]])"
  by (simp add: real_ops_def real_state_data_def ref_api_def loaded_backend_def Let_def ref_save_def ref_save_seq_def)

theorem store_load_state_witness:
  "\<exists>b3 m''. load_state None (real_ops ref_api) ''k'' \<lparr>rb_ctx = [[]], rb_n_past = 0\<rparr>
      (snd (store_state None (real_ops ref_api) True ''k'' loaded_backend 1 demo_manager)) = (True, b3, m'')
    \<and> seq0 ref_toks b3 = [1]"
proof -
  let ?m = "snd (store_state None (real_ops ref_api) True ''k'' loaded_backend 1 demo_manager)"
  have kv: "coherent ref_toks loaded_backend" "seq0 ref_toks loaded_backend = [1]"
    by (simp_all add: coherent_def seq0_def loaded_backend_def ref_toks_def)
  have st: "store_state None (real_ops ref_api) True ''k'' loaded_backend 1 demo_manager = (Inr True, ?m)"
    by (simp add: store_state_def loaded_state pack_state_def demo_manager_store demo_put)
  have set: "bo_set_state (real_ops ref_api) (ref_save [[1]]) 1 \<lparr>rb_ctx = [[]], rb_n_past = 0\<rparr> =
      (Inr (), \<lparr>rb_ctx = [[1]], rb_n_past = 1\<rparr>)"
    using ref_load_save [of "[[1]]"]
    by (simp add: real_ops_def real_set_state_def ref_api_def ref_toks_def) (simp add: ref_save_def ref_save_seq_def)
  have len: "length (ref_save [[1]]) = 6" by (simp add: ref_save_def ref_save_seq_def ref_toks_def)
  show ?thesis
  proof -
    have "\<exists>m''. load_state None (real_ops ref_api) ''k'' \<lparr>rb_ctx = [[]], rb_n_past = 0\<rparr> ?m =
        (True, \<lparr>rb_ctx = [[1]], rb_n_past = 1\<rparr>, m'')
      \<and> coherent ref_toks \<lparr>rb_ctx = [[1]], rb_n_past = 1\<rparr>
      \<and> seq0 ref_toks \<lparr>rb_ctx = [[1]], rb_n_past = 1\<rparr> = seq0 ref_toks loaded_backend"
    proof (rule store_load_state [OF ref_kv.kv_backend_axioms _ demo_manager_store(3) kv(1) _ _ _ loaded_state])
      show "store_state None (real_ops ref_api) True ''k'' loaded_backend (of_nat (length (seq0 ref_toks loaded_backend)))
          demo_manager = (Inr True, ?m)" using st kv(2) by simp
      show "bo_set_state (real_ops ref_api) (ref_save [[1]]) (length (seq0 ref_toks loaded_backend))
          \<lparr>rb_ctx = [[]], rb_n_past = 0\<rparr> = (Inr (), \<lparr>rb_ctx = [[1]], rb_n_past = 1\<rparr>)" using set kv(2) by simp
    qed (use loaded_state len kv(2) in
        \<open>auto simp: zstd_lossless_def demo_manager_store pack_state_def no_wrap_def envelope_parts\<close>)
    with kv(2) show ?thesis by auto
  qed
qed

definition tampered_manager :: cache_manager where
  "tampered_manager = demo_manager\<lparr>cm_store := snd (disk_put True (fresh_store 0) ''k'' (take 16 (envelope ''R'' 0) @ ''Q''))\<rparr>"

theorem load_rejects_corruption_witness:
  "\<exists>m'. load_state None (real_ops ref_api) ''k'' loaded_backend tampered_manager = (False, loaded_backend, m')
    \<and> visible (cm_store m') ''k'' = None"
proof -
  let ?bad = "take 16 (envelope ''R'' 0) @ [] @ CHR ''Q'' # []"
  have nw: "no_wrap (fresh_store 0) ''k'' ?bad" by (rule demo_no_wrap) (simp add: envelope_parts)
  have put: "fst (disk_put True (fresh_store 0) ''k'' ?bad)" by (simp add: demo_put)
  have vis: "visible (cm_store tampered_manager) ''k'' = Some ?bad" "manager_wf tampered_manager"
    using disk.put_stored [OF fresh_store_wf(1) nw put] disk.put_inv [OF fresh_store_wf(1) nw, of True]
    by (simp_all add: tampered_manager_def manager_wf_def)
  have split: "envelope ([] @ CHR ''R'' # []) 0 = take 16 (envelope ''R'' 0) @ [] @ CHR ''R'' # []"
    by (simp add: envelope_def append_u32_le append_u64_le kMagic_def)
  show ?thesis
    using load_rejects_corruption [OF vis(2) split _ vis(1), of None "real_ops ref_api" loaded_backend] by auto
qed

end
