(* ===== verification/Prefix_Cache.thy ===== *)
theory Prefix_Cache
  imports Cache_Manager
begin

text \<open>
  The shared-prefix KV cache (\<open>src/src/cache/prefix_cache.cpp\<close>): prompts are cut into blocks,
  every block boundary has a snapshot key, and \<open>prefill\<close> restores the longest cached boundary
  and decodes the rest block by block.  Prompts are shorter than \<open>2^32\<close> tokens, so the 32-bit
  boundary counter does not wrap and is a natural number.  The outcome of each snapshot's
  disk write is given by the boundary.
\<close>

section \<open>Model\<close>

record prefix_cache =
  pc_model_tag :: bytes
  pc_block_tokens :: nat

definition prefix_cache_open :: "bytes \<Rightarrow> int \<Rightarrow> prefix_cache" where
  "prefix_cache_open model_tag block_tokens =
     \<lparr>pc_model_tag = model_tag, pc_block_tokens = nat (max block_tokens 1)\<rparr>"

function boundary_loop :: "nat \<Rightarrow> nat \<Rightarrow> nat \<Rightarrow> nat list" where
  "boundary_loop block b sz = (if b < sz \<and> 0 < block then b # boundary_loop block (b + block) sz else [])"
  by pat_completeness auto
termination
  by (relation "measure (\<lambda>(block, b, sz). sz - b)") auto

declare boundary_loop.simps [simp del]

definition boundaries :: "prefix_cache \<Rightarrow> nat \<Rightarrow> nat list" where
  "boundaries pc sz =
     boundary_loop (pc_block_tokens pc) (pc_block_tokens pc) sz @ (if 0 < sz then [sz] else [])"

definition key_for :: "prefix_cache \<Rightarrow> token list \<Rightarrow> nat \<Rightarrow> bytes" where
  "key_for pc prefix n =
     (let raw = key_bytes (pc_model_tag pc) (take n prefix);
          h1 = checksum raw;
          h2 = checksum (raw @ ''x'')
      in ''pfx-'' @ show_nat (unat h1) @ ''-'' @ show_nat (unat h2) @ ''-n'' @ show_nat n)"

fun restore_loop :: "zstd \<Rightarrow> 'b backend_ops \<Rightarrow> prefix_cache \<Rightarrow> token list \<Rightarrow> nat list \<Rightarrow> 'b \<Rightarrow> cache_manager
    \<Rightarrow> nat \<times> 'b \<times> cache_manager" where
  "restore_loop z ops pc prefix [] b m = (0, b, m)"
| "restore_loop z ops pc prefix (mark # marks) b m =
     (case load_state z ops (key_for pc prefix mark) b m of
        (hit, b', m') \<Rightarrow> if hit then (mark, b', m') else restore_loop z ops pc prefix marks b' m')"

fun decode_blocks :: "zstd \<Rightarrow> 'b backend_ops \<Rightarrow> prefix_cache \<Rightarrow> (nat \<Rightarrow> bool) \<Rightarrow> token list \<Rightarrow> nat \<Rightarrow> nat list \<Rightarrow> nat
    \<Rightarrow> 'b \<Rightarrow> cache_manager \<Rightarrow> (engine_exn + unit) \<times> 'b \<times> cache_manager" where
  "decode_blocks z ops pc write_ok prefix restored [] pos b m = (Inr (), b, m)"
| "decode_blocks z ops pc write_ok prefix restored (mark # marks) pos b m =
     (if mark \<le> restored then decode_blocks z ops pc write_ok prefix restored marks pos b m
      else case bo_decode_append ops (take (mark - pos) (drop pos prefix)) b of
             (Inl e, b1) \<Rightarrow> (Inl e, b1, m)
           | (Inr _, b1) \<Rightarrow>
               (case store_state z ops (write_ok mark) (key_for pc prefix mark) b1 (of_nat mark) m of
                  (Inl e, m1) \<Rightarrow> (Inl e, b1, m1)
                | (Inr _, m1) \<Rightarrow> decode_blocks z ops pc write_ok prefix restored marks mark b1 m1))"

definition prefill :: "zstd \<Rightarrow> 'b backend_ops \<Rightarrow> prefix_cache \<Rightarrow> (nat \<Rightarrow> bool) \<Rightarrow> token list \<Rightarrow> 'b \<Rightarrow> cache_manager
    \<Rightarrow> (engine_exn + nat) \<times> 'b \<times> cache_manager" where
  "prefill z ops pc write_ok prefix b m =
     (if prefix = [] then (Inr 0, bo_reset ops b, m)
      else
        let marks = boundaries pc (length prefix) in
        case restore_loop z ops pc prefix (rev marks) b m of
          (restored, b1, m1) \<Rightarrow>
            let b2 = (if restored = 0 then bo_reset ops b1 else b1) in
            (case decode_blocks z ops pc write_ok prefix restored marks restored b2 m1 of
               (Inl e, b3, m2) \<Rightarrow> (Inl e, b3, m2)
             | (Inr _, b3, m2) \<Rightarrow> (Inr restored, b3, m2)))"

section \<open>Boundaries\<close>

lemma boundary_loop_sorted:
  "sorted_wrt (<) (boundary_loop block b sz) \<and> (\<forall>x\<in>set (boundary_loop block b sz). b \<le> x \<and> x < sz)"
proof (induction block b sz rule: boundary_loop.induct)
  case (1 block b sz)
  show ?case
  proof (cases "b < sz \<and> 0 < block")
    case True
    with 1 have "sorted_wrt (<) (boundary_loop block (b + block) sz)"
      "\<forall>x\<in>set (boundary_loop block (b + block) sz). b + block \<le> x \<and> x < sz" by auto
    with True show ?thesis by (subst boundary_loop.simps, subst boundary_loop.simps) fastforce
  next
    case False
    then show ?thesis by (subst boundary_loop.simps, subst boundary_loop.simps) auto
  qed
qed

lemma boundaries_sorted: "sorted_wrt (<) (boundaries pc sz)" "x \<in> set (boundaries pc sz) \<Longrightarrow> x \<le> sz"
  "0 < sz \<Longrightarrow> boundaries pc sz \<noteq> [] \<and> last (boundaries pc sz) = sz"
  using boundary_loop_sorted [of "pc_block_tokens pc" "pc_block_tokens pc" sz]
  by (auto simp: boundaries_def sorted_wrt_append)

section \<open>Honest snapshots\<close>

definition prefix_key :: "prefix_cache \<Rightarrow> token list \<Rightarrow> bytes" where
  "prefix_key pc ts = key_for pc ts (length ts)"

lemma key_for_prefix_key: "n \<le> length prefix \<Longrightarrow> key_for pc prefix n = prefix_key pc (take n prefix)"
  by (simp add: prefix_key_def key_for_def min_absorb2)

text \<open>
  Every snapshot stored under the key of a prefix of interest really is a snapshot of that
  prefix.
\<close>

definition honest :: "zstd \<Rightarrow> (bytes \<Rightarrow> token list \<Rightarrow> bool) \<Rightarrow> prefix_cache \<Rightarrow> token list set \<Rightarrow> cache_manager \<Rightarrow> bool" where
  "honest z represents pc U m \<longleftrightarrow> (\<forall>ts\<in>U. \<forall>entry. visible (cm_store m) (prefix_key pc ts) = Some entry \<longrightarrow>
     (\<exists>packed raw. entry = envelope packed (of_nat (length ts)) \<and> decompress z packed = Inr raw \<and> represents raw ts))"

text \<open>A manager with a budget that leaves room in the 64-bit counters.\<close>

definition manager_fit :: "cache_manager \<Rightarrow> bool" where
  "manager_fit m \<longleftrightarrow> manager_wf m \<and> within_budget (cm_store m) \<and> ds_max_bytes (cm_store m) \<noteq> 0
     \<and> ds_max_bytes (cm_store m) \<le> 2 ^ 62"

definition small_states :: "zstd \<Rightarrow> 'b backend_ops \<Rightarrow> ('b \<Rightarrow> token list) \<Rightarrow> bool" where
  "small_states z ops kv \<longleftrightarrow> (\<forall>b raw squeeze packed. length (kv b) < 2 ^ 32 \<longrightarrow> bo_state_data ops b = Inr raw \<longrightarrow>
     pack_state z squeeze raw = Inr packed \<longrightarrow> length packed < 2 ^ 62)"

lemma show_nat_u64_length: "length (show_nat (unat (h :: u64))) \<le> 20"
  by (rule show_nat_length) (use u64_bound [of h] in simp)

lemma prefix_key_length:
  assumes "length ts < 2 ^ 32"
  shows "length (prefix_key pc ts) < 2 ^ 32"
proof -
  have "length (show_nat (length ts)) \<le> 20" by (rule show_nat_length) (use assms in simp)
  then show ?thesis
    using show_nat_u64_length [of "checksum (key_bytes (pc_model_tag pc) ts)"]
      show_nat_u64_length [of "checksum (key_bytes (pc_model_tag pc) ts @ ''x'')"]
    by (simp add: prefix_key_def key_for_def Let_def)
qed

lemma manager_fit_no_wrap:
  assumes "manager_fit m" "length ts < 2 ^ 32" "length packed < 2 ^ 62"
  shows "no_wrap (cm_store m) (prefix_key pc ts) (envelope packed n)"
proof -
  have "ds_total_bytes (cm_store m) \<le> 2 ^ 62"
    using assms(1) by (auto simp: manager_fit_def within_budget_def)
  then have "unat (ds_total_bytes (cm_store m)) \<le> 2 ^ 62" by (simp add: word_le_nat_alt)
  then show ?thesis
    using assms(3) prefix_key_length [OF assms(2), of pc] by (simp add: no_wrap_def envelope_parts)
qed

lemma load_store_effect:
  "cm_store (snd (snd (load_state z ops key b m))) = snd (disk_get (cm_store m) key) \<or>
   cm_store (snd (snd (load_state z ops key b m))) = snd (disk_remove (snd (disk_get (cm_store m) key)) key)"
  by (auto simp: load_state_def drop_entry_def count_miss_def Let_def split: prod.splits option.splits sum.splits)

lemma load_keeps:
  assumes "manager_wf m" "visible (cm_store (snd (snd (load_state z ops key b m)))) k = Some d"
  shows "visible (cm_store m) k = Some d"
proof -
  have wf: "store_wf (cm_store m)" using assms(1) by (simp add: manager_wf_def)
  note laws = disk.get_other [OF wf, of key k d] disk.rem_other [OF disk.get_inv [OF wf, of key], of key k d]
  from load_store_effect [of z ops key b m] assms(2) laws show ?thesis by auto
qed

lemma manager_fit_load: "manager_fit m \<Longrightarrow> manager_fit (snd (snd (load_state z ops key b m)))"
  using load_store_effect [of z ops key b m] manager_wf_load [of m z ops key b] get_within_budget [of "cm_store m" key]
    remove_within_budget [of "snd (disk_get (cm_store m) key)" key] store_wf_get [of "cm_store m" key]
  by (auto simp: manager_fit_def manager_wf_def)

lemma honest_load:
  "manager_wf m \<Longrightarrow> honest z represents pc U m \<Longrightarrow> honest z represents pc U (snd (snd (load_state z ops key b m)))"
  unfolding honest_def using load_keeps [of m z ops key b] by blast

text \<open>What a put does to the snapshots that can be seen afterwards.\<close>

lemma put_visible:
  assumes "store_wf st" "no_wrap st key d" "visible (snd (disk_put ok st key d)) k = Some x"
  shows "visible st k = Some x \<or> k = key \<and> x = d"
proof (cases "fst (disk_put ok st key d) \<and> k = key")
  case True
  then show ?thesis using disk.put_stored [OF assms(1,2), of ok] assms(3) by simp
next
  case False
  then show ?thesis
    using visible_put [OF assms(1) _ prod.collapse [symmetric] assms(3)] assms(2) by (auto simp: no_wrap_def)
qed

lemma store_state_effect:
  "store_state z ops write_ok key b n m = (r, m') \<Longrightarrow> m' = m \<or>
     (\<exists>raw packed. bo_state_data ops b = Inr raw \<and> pack_state z (cm_compress m) raw = Inr packed
        \<and> cm_store m' = snd (disk_put write_ok (cm_store m) key (envelope packed n)))"
  by (auto simp: store_state_def split: sum.splits prod.splits if_splits)

context kv_backend
begin

lemma load_hit:
  assumes "honest z represents pc U m" "manager_wf m" "ts \<in> U" "length ts < 2 ^ 32"
    and "load_state z ops (prefix_key pc ts) b m = (True, b', m')"
  shows "ok b' \<and> kv b' = ts"
proof -
  obtain entry st where get: "disk_get (cm_store m) (prefix_key pc ts) = (Some entry, st)"
    using assms(5) by (auto simp: load_state_def split: prod.splits option.splits)
  then have "visible (cm_store m) (prefix_key pc ts) = Some entry"
    using disk.get_view [of "cm_store m" "prefix_key pc ts"] assms(2) by (simp add: manager_wf_def)
  then obtain packed raw where e: "entry = envelope packed (of_nat (length ts))" "decompress z packed = Inr raw"
    "represents raw ts" using assms(1,3) unfolding honest_def by blast
  have "unat (of_nat (length ts) :: u32) = length ts" using assms(4) by (simp add: unat_of_nat take_bit_eq_mod)
  then obtain u where "bo_set_state ops raw (length ts) b = (Inr u, b')"
    using assms(5) get e(2) by (auto simp: load_state_def e(1) envelope_parts kEnvelopeHeader_def Let_def
        split: prod.splits sum.splits)
  then show ?thesis by (rule restore [OF e(3)])
qed

lemma store_honest:
  assumes "manager_fit m" "honest z represents pc U m" "inj_on (prefix_key pc) U" "ts \<in> U" "length ts < 2 ^ 32"
    and "zstd_lossless z" "small_states z ops kv" "ok b" "kv b = ts"
    and "store_state z ops write_ok (prefix_key pc ts) b (of_nat (length ts)) m = (r, m')"
  shows "manager_fit m' \<and> honest z represents pc U m'"
  using store_state_effect [OF assms(10)]
proof (elim disjE exE conjE)
  fix raw packed
  assume raw: "bo_state_data ops b = Inr raw" and packed: "pack_state z (cm_compress m) raw = Inr packed"
    and st: "cm_store m' = snd (disk_put write_ok (cm_store m) (prefix_key pc ts) (envelope packed (of_nat (length ts))))"
  have dec: "decompress z packed = Inr raw" using pack_state_roundtrip [OF assms(6), of "cm_compress m" raw] packed by auto
  have rep: "represents raw ts" using snapshot [OF assms(8) raw] assms(9) by simp
  have wf: "store_wf (cm_store m)" "within_budget (cm_store m)"
    using assms(1) by (auto simp: manager_fit_def manager_wf_def)
  have nw: "no_wrap (cm_store m) (prefix_key pc ts) (envelope packed (of_nat (length ts)))"
    by (rule manager_fit_no_wrap [OF assms(1,5)]) (use assms(5,7,9) raw packed in \<open>auto simp: small_states_def\<close>)
  have "manager_fit m'"
    using disk.put_inv [OF wf(1) nw, of write_ok] put_within_budget [OF wf prod.collapse [symmetric], of write_ok]
      assms(1) by (simp add: manager_fit_def manager_wf_def st)
  moreover have "honest z represents pc U m'"
    unfolding honest_def st
  proof (intro ballI allI impI)
    fix ts' entry
    assume ts': "ts' \<in> U" and "visible (snd (disk_put write_ok (cm_store m) (prefix_key pc ts)
        (envelope packed (of_nat (length ts))))) (prefix_key pc ts') = Some entry"
    then consider "visible (cm_store m) (prefix_key pc ts') = Some entry"
      | "prefix_key pc ts' = prefix_key pc ts" "entry = envelope packed (of_nat (length ts))"
      using put_visible [OF wf(1) nw] by blast
    then show "\<exists>packed raw. entry = envelope packed (of_nat (length ts')) \<and> decompress z packed = Inr raw \<and> represents raw ts'"
    proof cases
      case 1
      with assms(2) ts' show ?thesis unfolding honest_def by blast
    next
      case 2
      then have "ts' = ts" using assms(3,4) ts' by (auto dest: inj_onD)
      with 2 dec rep show ?thesis by blast
    qed
  qed
  ultimately show ?thesis by blast
qed (use assms(1,2) in simp)

lemma restore_loop_ok:
  assumes "\<forall>mark\<in>set marks. mark \<le> length prefix \<and> take mark prefix \<in> U" "length prefix < 2 ^ 32"
    and "manager_fit m" "honest z represents pc U m"
    and "restore_loop z ops pc prefix marks b m = (r, b', m')"
  shows "manager_fit m' \<and> honest z represents pc U m' \<and> (r = 0 \<or> r \<in> set marks \<and> ok b' \<and> kv b' = take r prefix)"
  using assms
proof (induction marks arbitrary: b m)
  case (Cons mark marks)
  let ?key = "key_for pc prefix mark"
  obtain hit b1 m1 where l: "load_state z ops ?key b m = (hit, b1, m1)" by (cases "load_state z ops ?key b m")
  have key: "?key = prefix_key pc (take mark prefix)" using Cons.prems(1) by (simp add: key_for_prefix_key)
  have m1: "manager_fit m1" "honest z represents pc U m1"
    using manager_fit_load [OF Cons.prems(3), of z ops ?key b] honest_load [OF _ Cons.prems(4), of ops ?key b]
      Cons.prems(3) l by (auto simp: manager_fit_def)
  show ?case
  proof (cases hit)
    case True
    have "ok b1 \<and> kv b1 = take mark prefix"
      by (rule load_hit [OF Cons.prems(4)]) (use Cons.prems(1,2,3) l key True in \<open>auto simp: manager_fit_def\<close>)
    with True l Cons.prems(5) m1 show ?thesis by auto
  next
    case False
    with Cons.IH [OF _ Cons.prems(2) m1] Cons.prems(1,5) l show ?thesis by auto
  qed
qed simp

lemma decode_blocks_ok:
  assumes "\<forall>mark\<in>set marks. mark \<le> length prefix \<and> take mark prefix \<in> U" "length prefix < 2 ^ 32"
    and "sorted_wrt (<) marks" "\<forall>mark\<in>set marks. restored < mark \<longrightarrow> pos < mark" "pos \<le> length prefix"
    and "inj_on (prefix_key pc) U" "zstd_lossless z" "small_states z ops kv"
    and "manager_fit m" "honest z represents pc U m" "ok b" "kv b = take pos prefix"
    and "decode_blocks z ops pc write_ok prefix restored marks pos b m = (Inr u, b', m')"
  shows "manager_fit m' \<and> honest z represents pc U m' \<and> ok b'
    \<and> kv b' = take (last (pos # filter ((<) restored) marks)) prefix"
  using assms
proof (induction marks arbitrary: pos b m)
  case (Cons mark marks)
  have rest: "\<forall>mark\<in>set marks. mark \<le> length prefix \<and> take mark prefix \<in> U" "sorted_wrt (<) marks"
    using Cons.prems(1,3) by auto
  show ?case
  proof (cases "mark \<le> restored")
    case True
    with Cons.IH [OF rest(1) Cons.prems(2) rest(2) _ Cons.prems(5-12)] Cons.prems(4,13) show ?thesis by auto
  next
    case False
    then have pos: "pos < mark" "mark \<le> length prefix" "take mark prefix \<in> U" using Cons.prems(1,4) by auto
    let ?blk = "take (mark - pos) (drop pos prefix)" and ?key = "key_for pc prefix mark"
    obtain l b1 where d: "bo_decode_append ops ?blk b = (Inr l, b1)"
      using False Cons.prems(13) by (auto split: prod.splits sum.splits)
    have "take pos prefix @ ?blk = take mark prefix"
      using pos(1) by (metis le_add_diff_inverse less_imp_le take_add)
    then have b1: "ok b1" "kv b1 = take mark prefix"
      using append_kv [OF Cons.prems(11) d] Cons.prems(12) by auto
    obtain r m1 where s: "store_state z ops (write_ok mark) ?key b1 (of_nat mark) m = (Inr r, m1)"
      and more: "decode_blocks z ops pc write_ok prefix restored marks mark b1 m1 = (Inr u, b', m')"
      using False Cons.prems(13) d by (auto split: prod.splits sum.splits)
    have len: "length (take mark prefix) = mark" using pos(2) by simp
    have m1: "manager_fit m1 \<and> honest z represents pc U m1"
      by (rule store_honest [OF Cons.prems(9,10,6) pos(3)])
        (use Cons.prems(2,7,8) b1 s pos len in \<open>auto simp: key_for_prefix_key\<close>)
    have "\<forall>mark'\<in>set marks. restored < mark' \<longrightarrow> mark < mark'" using Cons.prems(3) by simp
    from Cons.IH [OF rest(1) Cons.prems(2) rest(2) this pos(2) Cons.prems(6-8) _ _ b1 more] m1 False
    show ?thesis by simp
  qed
qed simp

lemma prefill_ok:
  assumes "\<forall>n\<le>length prefix. take n prefix \<in> U" "length prefix < 2 ^ 32"
    and "inj_on (prefix_key pc) U" "zstd_lossless z" "small_states z ops kv"
    and "manager_fit m" "honest z represents pc U m"
    and "prefill z ops pc write_ok prefix b m = (Inr restored, b', m')"
  shows "ok b' \<and> kv b' = prefix \<and> restored \<le> length prefix \<and> manager_fit m' \<and> honest z represents pc U m'"
proof (cases "prefix = []")
  case True
  with assms(6-8) reset_kv show ?thesis by (auto simp: prefill_def)
next
  case False
  let ?marks = "boundaries pc (length prefix)"
  obtain b1 m1 where r: "restore_loop z ops pc prefix (rev ?marks) b m = (restored, b1, m1)"
    and d: "\<exists>u. decode_blocks z ops pc write_ok prefix restored ?marks restored
      (if restored = 0 then bo_reset ops b1 else b1) m1 = (Inr u, b', m')"
    using assms(8) False by (auto simp: prefill_def Let_def split: prod.splits sum.splits)
  have marks: "\<forall>mark\<in>set ?marks. mark \<le> length prefix \<and> take mark prefix \<in> U"
    using boundaries_sorted(2) assms(1) by blast
  have r1: "manager_fit m1 \<and> honest z represents pc U m1 \<and>
      (restored = 0 \<or> restored \<in> set ?marks \<and> ok b1 \<and> kv b1 = take restored prefix)"
    using restore_loop_ok [OF _ assms(2,6,7) r] marks by simp
  let ?b2 = "if restored = 0 then bo_reset ops b1 else b1"
  have b2: "ok ?b2" "kv ?b2 = take restored prefix" using r1 reset_kv [of b1] by auto
  have le: "restored \<le> length prefix" using r1 marks by auto
  have dec: "manager_fit m' \<and> honest z represents pc U m' \<and> ok b'
      \<and> kv b' = take (last (restored # filter ((<) restored) ?marks)) prefix"
    using d decode_blocks_ok [OF marks assms(2) boundaries_sorted(1) _ le assms(3-5) _ _ b2] r1 by blast
  have "last ?marks = length prefix" "?marks \<noteq> []" using boundaries_sorted(3) [of "length prefix" pc] False by auto
  then have "last (restored # filter ((<) restored) ?marks) = length prefix"
  proof (cases "restored = length prefix")
    case True
    then have "filter ((<) restored) ?marks = []" using marks by (auto simp: filter_empty_conv)
    with True show ?thesis by simp
  next
    case False
    with le \<open>last ?marks = length prefix\<close> \<open>?marks \<noteq> []\<close> show ?thesis
      by (cases ?marks rule: rev_cases) auto
  qed
  with dec le show ?thesis by simp
qed

end

text \<open>
  C13: \<open>prefill\<close> leaves exactly the prompt in the KV cache.  Whatever subset of the prompt's
  block boundaries is in the store, and whatever snapshots of other prompts share it, as long
  as the hash keys of the prefixes in use do not collide, the sequence in the backend is the
  prompt afterwards, and every snapshot it leaves behind is one of the prefix it is filed
  under.
\<close>

theorem prefill_exact:
  assumes "kv_backend ops kv ok represents" "\<forall>n\<le>length prefix. take n prefix \<in> U" "length prefix < 2 ^ 32"
    and "inj_on (prefix_key pc) U" "zstd_lossless z" "small_states z ops kv"
    and "manager_fit m" "honest z represents pc U m"
    and "prefill z ops pc write_ok prefix b m = (Inr restored, b', m')"
  shows "ok b' \<and> kv b' = prefix \<and> restored \<le> length prefix \<and> manager_fit m' \<and> honest z represents pc U m'"
  using kv_backend.prefill_ok [OF assms(1-6)] assms(7-9) by blast

definition demo_prefix_cache :: prefix_cache where
  "demo_prefix_cache = prefix_cache_open ''m'' 4"

definition demo_prefix_manager :: cache_manager where
  "demo_prefix_manager = cache_manager_open 1000 False []"

definition demo_backend :: "token list list real_backend" where
  "demo_backend = \<lparr>rb_ctx = [[]], rb_n_past = 0\<rparr>"

lemma demo_small_states: "small_states None (real_ops ref_api) (seq0 ref_toks)"
  by (auto simp: small_states_def pack_state_def compress_def kFlagRaw_def real_ops_def real_state_data_def Let_def
      ref_api_def ref_save_def seq0_def ref_save_seq_def length_concat comp_def sum_list_triv split: if_splits)

lemma demo_load_miss: "load_state z ops key b demo_prefix_manager = (False, b, count_miss demo_prefix_manager)"
  by (simp add: load_state_def demo_prefix_manager_def cache_manager_open_def disk_get_def disk_open_def)

lemma demo_prefill:
  "fst (prefill None (real_ops ref_api) demo_prefix_cache (\<lambda>_. True) [1] demo_backend demo_prefix_manager) = Inr 0"
proof -
  have marks: "boundaries demo_prefix_cache (length [1 :: token]) = [1]"
    by (simp add: boundaries_def demo_prefix_cache_def prefix_cache_open_def boundary_loop.simps)
  have dec: "bo_decode_append (real_ops ref_api) [1] (bo_reset (real_ops ref_api) demo_backend) =
      (Inr [1, 0], \<lparr>rb_ctx = [[1]], rb_n_past = 1\<rparr>)"
    by (simp add: real_ops_def real_decode_append_def real_reset_def decode_impl_def append_batch_def last_logits_def
        ref_api_def demo_backend_def ref_seqs_ok_def seq_tokens_def)
  have "\<exists>r m'. store_state None (real_ops ref_api) ok key \<lparr>rb_ctx = [[1]], rb_n_past = 1\<rparr> n m = (Inr r, m')" for ok key n m
    by (auto simp: store_state_def real_ops_def real_state_data_def ref_api_def ref_save_def ref_save_seq_def Let_def
        pack_state_def compress_def split: prod.splits)
  then obtain r m' where st: "store_state None (real_ops ref_api) True (key_for demo_prefix_cache [1] 1)
      \<lparr>rb_ctx = [[1]], rb_n_past = 1\<rparr> 1 (count_miss demo_prefix_manager) = (Inr r, m')" by blast
  show ?thesis
    unfolding prefill_def Let_def marks using dec st by (simp add: demo_load_miss)
qed

theorem prefill_exact_witness:
  "seq0 ref_toks (fst (snd (prefill None (real_ops ref_api) demo_prefix_cache (\<lambda>_. True) [1] demo_backend demo_prefix_manager))) = [1]"
proof -
  let ?run = "prefill None (real_ops ref_api) demo_prefix_cache (\<lambda>_. True) [1] demo_backend demo_prefix_manager"
  have "fst ?run = Inr 0" by (rule demo_prefill)
  then have run: "?run = (Inr 0, fst (snd ?run), snd (snd ?run))" by (metis prod.collapse)
  have empty: "cm_store demo_prefix_manager = fresh_store 1000" by (simp add: demo_prefix_manager_def cache_manager_open_def fresh_store_def)
  have fit: "manager_fit demo_prefix_manager"
    using fresh_store_wf(1) [of 1000] by (simp add: manager_fit_def manager_wf_def empty within_budget_def)
  have hon: "honest None (snapshot_of ref_api ref_toks) demo_prefix_cache {[], [1]} demo_prefix_manager"
    by (simp add: honest_def empty visible_def)
  have inj: "inj_on (prefix_key demo_prefix_cache) {[], [1]}"
  proof -
    have "show_nat 0 = ''0''" "show_nat (Suc 0) = ''1''" by code_simp+
    then have "last (prefix_key demo_prefix_cache []) = CHR ''0''" "last (prefix_key demo_prefix_cache [1]) = CHR ''1''"
      by (simp_all add: prefix_key_def key_for_def Let_def)
    then show ?thesis by (auto simp: inj_on_def)
  qed
  show ?thesis
    using prefill_exact [OF ref_kv.kv_backend_axioms _ _ inj _ demo_small_states fit hon run]
    by (auto simp: zstd_lossless_def le_Suc_eq)
qed

end
