(* ===== verification/Conclave.thy ===== *)
theory Conclave
  imports Sampler
begin

text \<open>
  The election among several answers to one prompt (\<open>src/core/conclave.cpp\<close>): the words
  of an answer, the Jaccard similarity of two answers, the last number of an answer, the
  medoid, the numeric vote and the configuration of the attempts.  Scores are \<^typ>\<open>real\<close>
  where the source has \<open>double\<close>; \<open>int\<close> seeds are unbounded.
\<close>

section \<open>The code\<close>

fun word_scan :: "bytes \<Rightarrow> bytes set \<Rightarrow> bytes \<Rightarrow> bytes set" where
  "word_scan [] words cur = (if cur \<noteq> [] then insert cur words else words)"
| "word_scan (ch # s) words cur =
     (if isalnum ch then word_scan s words (cur @ [tolower ch])
      else if cur \<noteq> [] then word_scan s (insert cur words) []
      else word_scan s words cur)"

definition word_set :: "bytes \<Rightarrow> bytes set" where
  "word_set s = word_scan s {} []"

definition answer_similarity :: "bytes \<Rightarrow> bytes \<Rightarrow> real" where
  "answer_similarity a b =
     (let wa = word_set a; wb = word_set b
      in if wa = {} \<or> wb = {} then 0
         else let common = card (Set.filter (\<lambda>w. w \<in> wb) wa);
                  uni = card wa + card wb - common
              in if uni = 0 then 0 else real common / real uni)"

definition digit_at :: "bytes \<Rightarrow> nat \<Rightarrow> bool" where
  "digit_at s i \<longleftrightarrow> i < length s \<and> isdigit (s ! i)"

definition sign_at :: "bytes \<Rightarrow> nat \<Rightarrow> bool" where
  "sign_at s i \<longleftrightarrow> i < length s \<and> s ! i = CHR ''-'' \<and> digit_at s (Suc i)
     \<and> (i = 0 \<or> \<not> isalnum (s ! (i - 1)))"

text \<open>The inner loop: the digits of one number, with thousands separators skipped.\<close>

function number_scan :: "bytes \<Rightarrow> nat \<Rightarrow> bool \<Rightarrow> bytes \<Rightarrow> bytes \<times> nat" where
  "number_scan s i seen_dot cur =
     (if length s \<le> i then (cur, i)
      else let ch = s ! i
           in if isdigit ch then number_scan s (Suc i) seen_dot (cur @ [ch])
              else if ch = CHR '','' \<and> digit_at s (Suc i) then number_scan s (Suc i) seen_dot cur
              else if ch = CHR ''.'' \<and> \<not> seen_dot \<and> digit_at s (Suc i)
                   then number_scan s (Suc i) True (cur @ [CHR ''.''])
              else (cur, i))"
  by pat_completeness auto
termination
  by (relation "measure (\<lambda>(s, i, _, _). length s - i)") auto

declare number_scan.simps [simp del]

lemma number_scan_ge: "i \<le> snd (number_scan s i seen_dot cur)"
proof (induction s i seen_dot cur rule: number_scan.induct)
  case (1 s i seen_dot cur)
  then show ?case
    by (subst number_scan.simps) (auto simp: Let_def dest!: Suc_leD)
qed

lemma number_scan_gt: "digit_at s i \<Longrightarrow> i < snd (number_scan s i seen_dot cur)"
  using number_scan_ge [of "Suc i" s seen_dot "cur @ [s ! i]"]
  by (subst number_scan.simps) (auto simp: digit_at_def)

function final_number_loop :: "bytes \<Rightarrow> nat \<Rightarrow> bytes \<Rightarrow> bytes" where
  "final_number_loop s i found =
     (if length s \<le> i then found
      else if \<not> digit_at s i \<and> \<not> sign_at s i then final_number_loop s (Suc i) found
      else let r = (if sign_at s i then number_scan s (Suc i) False ''-''
                    else number_scan s i False '''')
           in final_number_loop s (snd r) (fst r))"
  by pat_completeness auto
termination
proof (relation "measure (\<lambda>(s, i, _). length s - i)", goal_cases)
  case (3 s i found r)
  have "i < snd r"
    using 3 number_scan_gt number_scan_ge [of "Suc i" s False "''-''"] by auto
  with 3 show ?case by auto
qed auto

declare final_number_loop.simps [simp del]

definition final_number :: "bytes \<Rightarrow> bytes" where
  "final_number s = final_number_loop s 0 []"

definition score_of :: "bytes list \<Rightarrow> nat \<Rightarrow> real" where
  "score_of cands i =
     foldl (\<lambda>score j. if i \<noteq> j then score + answer_similarity (cands ! i) (cands ! j) else score)
       0 [0..<length cands]"

definition elect :: "bytes list \<Rightarrow> nat" where
  "elect cands =
     (if length cands < 2 then 0
      else fst (foldl (\<lambda>(best, best_score) i.
             let score = score_of cands i in if best_score < score then (i, score) else (best, best_score))
           (0, -1) [0..<length cands]))"

definition votes_of :: "bytes list \<Rightarrow> nat \<Rightarrow> nat" where
  "votes_of numbers i =
     foldl (\<lambda>votes j. if numbers ! j = numbers ! i then Suc votes else votes) 0 [0..<length numbers]"

definition elect_numeric :: "bytes list \<Rightarrow> nat" where
  "elect_numeric cands =
     (if length cands < 2 then 0
      else let numbers = map final_number cands;
               numeric = length (filter (\<lambda>x. x \<noteq> []) numbers);
               best = fst (foldl (\<lambda>(best, best_votes) i.
                 if numbers ! i = [] then (best, best_votes)
                 else let votes = votes_of numbers i
                      in if best_votes < votes then (i, votes) else (best, best_votes))
                 (length cands, 1) [0..<length cands])
           in if length cands \<le> numeric * 2 \<and> best < length cands then best else elect cands)"

definition conclave_attempt :: "gen_config \<Rightarrow> int \<Rightarrow> gen_config" where
  "conclave_attempt gen i =
     (if i = 0 then gen
      else let g = gen\<lparr>gc_seed := gc_seed gen + i\<rparr>
           in if gc_temperature g < 7 / 10 then g\<lparr>gc_temperature := 7 / 10\<rparr> else g)"

section \<open>Words and similarity\<close>

text \<open>A word of a text is a maximal run of alphanumeric characters, lowercased.\<close>

definition word_run :: "bytes \<Rightarrow> bytes \<Rightarrow> bool" where
  "word_run s w \<longleftrightarrow> w \<noteq> [] \<and> (\<exists>pre mid post. s = pre @ mid @ post \<and> list_all isalnum mid
     \<and> (pre = [] \<or> \<not> isalnum (last pre)) \<and> (post = [] \<or> \<not> isalnum (hd post)) \<and> w = map tolower mid)"

lemma word_run_alnum: "list_all isalnum s \<Longrightarrow> word_run s w \<longleftrightarrow> s \<noteq> [] \<and> w = map tolower s"
proof
  assume all: "list_all isalnum s" and "word_run s w"
  then obtain pre mid post where *: "w \<noteq> []" "s = pre @ mid @ post"
    "pre = [] \<or> \<not> isalnum (last pre)" "post = [] \<or> \<not> isalnum (hd post)" "w = map tolower mid"
    by (auto simp: word_run_def)
  have "pre = []" "post = []"
    using all * by (metis list_all_append list_all_iff last_in_set, metis list_all_append list_all_iff hd_in_set)
  with * show "s \<noteq> [] \<and> w = map tolower s" by auto
next
  assume "list_all isalnum s" "s \<noteq> [] \<and> w = map tolower s"
  then show "word_run s w"
    unfolding word_run_def by (intro conjI exI [of _ "[]"] exI [of _ s]) auto
qed

lemma word_run_split:
  assumes run: "list_all isalnum run" and c: "\<not> isalnum c"
  shows "word_run (run @ c # s) w \<longleftrightarrow> (run \<noteq> [] \<and> w = map tolower run) \<or> word_run s w"
proof
  assume "word_run (run @ c # s) w"
  then obtain pre mid post where *: "w \<noteq> []" "run @ c # s = pre @ mid @ post" "list_all isalnum mid"
    "pre = [] \<or> \<not> isalnum (last pre)" "post = [] \<or> \<not> isalnum (hd post)" "w = map tolower mid"
    by (auto simp: word_run_def)
  consider us where "run = pre @ us" "us @ c # s = mid @ post"
    | us where "pre = run @ us" "c # s = us @ mid @ post"
    using *(2) by (auto simp: append_eq_append_conv2)
  then show "(run \<noteq> [] \<and> w = map tolower run) \<or> word_run s w"
  proof cases
    case (1 us)
    have "pre = []" using 1 run *(4) by (metis last_in_set list_all_append list_all_iff)
    moreover have "us = mid"
      using 1(2) *(3,5) run 1(1) c
      by (auto simp: append_eq_append_conv2 Cons_eq_append_conv list_all_append append_eq_Cons_conv
            hd_append list_all_iff split: if_splits)
    ultimately show ?thesis using 1 *(1,6) by auto
  next
    case (2 us)
    show ?thesis
    proof (cases us)
      case Nil
      with 2 *(1,3,6) c show ?thesis by (cases mid) auto
    next
      case (Cons d us')
      with 2 have "s = us' @ mid @ post" by simp
      moreover have "us' = [] \<or> \<not> isalnum (last us')" using *(4) 2 Cons by (auto split: if_splits)
      ultimately show ?thesis using * unfolding word_run_def by blast
    qed
  qed
next
  assume "(run \<noteq> [] \<and> w = map tolower run) \<or> word_run s w"
  then show "word_run (run @ c # s) w"
  proof
    assume "run \<noteq> [] \<and> w = map tolower run"
    then show ?thesis
      unfolding word_run_def using run c
      by (intro conjI exI [of _ "[]"] exI [of _ run] exI [of _ "c # s"]) auto
  next
    assume "word_run s w"
    then obtain pre mid post where *: "w \<noteq> []" "s = pre @ mid @ post" "list_all isalnum mid"
      "pre = [] \<or> \<not> isalnum (last pre)" "post = [] \<or> \<not> isalnum (hd post)" "w = map tolower mid"
      by (auto simp: word_run_def)
    then show ?thesis
      unfolding word_run_def using c
      by (intro conjI exI [of _ "run @ c # pre"] exI [of _ mid] exI [of _ post]) auto
  qed
qed

lemma word_scan_runs:
  "list_all isalnum run \<Longrightarrow> word_scan s words (map tolower run) = words \<union> {w. word_run (run @ s) w}"
proof (induction s arbitrary: words run)
  case Nil
  then show ?case by (auto simp: word_run_alnum)
next
  case (Cons ch s)
  show ?case
  proof (cases "isalnum ch")
    case True
    with Cons.prems Cons.IH [of "run @ [ch]" words] show ?thesis by simp
  next
    case False
    have "word_scan s ws [] = ws \<union> {w. word_run s w}" for ws
      using Cons.IH [of "[]" ws] by simp
    with False Cons.prems show ?thesis by (auto simp: word_run_split)
  qed
qed

lemma word_set_runs: "word_set s = {w. word_run s w}"
  using word_scan_runs [of "[]" s "{}"] by (simp add: word_set_def)

lemma finite_word_scan: "finite words \<Longrightarrow> finite (word_scan s words cur)"
  by (induction s words cur rule: word_scan.induct) auto

lemma finite_word_set [simp]: "finite (word_set s)"
  by (simp add: word_set_def finite_word_scan)

lemma answer_similarity_jaccard:
  "answer_similarity a b =
     (if word_set a = {} \<or> word_set b = {} then 0
      else real (card (word_set a \<inter> word_set b)) / real (card (word_set a \<union> word_set b)))"
proof -
  have common: "Set.filter (\<lambda>w. w \<in> word_set b) (word_set a) = word_set a \<inter> word_set b"
    by auto
  have uni: "card (word_set a) + card (word_set b) - card (word_set a \<inter> word_set b) = card (word_set a \<union> word_set b)"
    using card_Un_Int [of "word_set a" "word_set b"] by simp
  show ?thesis
    unfolding answer_similarity_def Let_def common uni by simp
qed

lemma answer_similarity_nonneg [simp]: "0 \<le> answer_similarity a b"
  by (simp add: answer_similarity_jaccard)

lemma answer_similarity_le_1: "answer_similarity a b \<le> 1"
  by (auto simp: answer_similarity_jaccard divide_le_eq_1 card_gt_0_iff intro!: card_mono)

lemma answer_similarity_commute: "answer_similarity a b = answer_similarity b a"
  by (auto simp: answer_similarity_jaccard Int_commute Un_commute)

lemma answer_similarity_eq_1_iff: "answer_similarity a b = 1 \<longleftrightarrow> word_set a \<noteq> {} \<and> word_set a = word_set b"
proof -
  have "card (word_set a \<inter> word_set b) = card (word_set a \<union> word_set b) \<longleftrightarrow> word_set a = word_set b"
  proof
    assume "card (word_set a \<inter> word_set b) = card (word_set a \<union> word_set b)"
    then have "word_set a \<inter> word_set b = word_set a \<union> word_set b"
      by (intro card_subset_eq) auto
    then show "word_set a = word_set b" by blast
  qed simp
  then show ?thesis
    by (auto simp: answer_similarity_jaccard)
qed

text \<open>
  \<open>answer_similarity\<close> is a similarity in the sense of its comment: it lies in [0,1], is
  symmetric, equals 1 exactly for two answers with the same, non-empty set of words, and is
  positive exactly when some maximal alphanumeric run, lowercased, occurs in both answers.
\<close>

theorem similarity_laws:
  "0 \<le> answer_similarity a b \<and> answer_similarity a b \<le> 1 \<and> answer_similarity a b = answer_similarity b a
   \<and> (answer_similarity a b = 1 \<longleftrightarrow> Collect (word_run a) \<noteq> {} \<and> Collect (word_run a) = Collect (word_run b))
   \<and> (0 < answer_similarity a b \<longleftrightarrow> (\<exists>w. word_run a w \<and> word_run b w))"
proof (intro conjI)
  show "answer_similarity a b = 1 \<longleftrightarrow> Collect (word_run a) \<noteq> {} \<and> Collect (word_run a) = Collect (word_run b)"
    by (simp only: answer_similarity_eq_1_iff word_set_runs)
  have "0 < answer_similarity a b \<longleftrightarrow> word_set a \<inter> word_set b \<noteq> {}"
    by (auto simp: answer_similarity_jaccard zero_less_divide_iff card_gt_0_iff)
  then show "0 < answer_similarity a b \<longleftrightarrow> (\<exists>w. word_run a w \<and> word_run b w)"
    by (auto simp: word_set_runs)
qed (rule answer_similarity_nonneg answer_similarity_le_1 answer_similarity_commute)+

section \<open>Elections\<close>

text \<open>The loop both elections share keeps the first index whose value beats every earlier one.\<close>

lemma first_argmax:
  fixes f :: "nat \<Rightarrow> 'a::linorder" and P :: "nat \<Rightarrow> bool" and b :: nat and s :: 'a
  defines "r n \<equiv> foldl (\<lambda>(best, top) i. if P i \<and> top < f i then (i, f i) else (best, top)) (b, s) [0..<n]"
  shows "if \<exists>i<n. P i \<and> s < f i
         then fst (r n) < n \<and> P (fst (r n)) \<and> snd (r n) = f (fst (r n)) \<and> s < snd (r n)
              \<and> (\<forall>i<n. P i \<longrightarrow> f i \<le> snd (r n)) \<and> (\<forall>i<fst (r n). P i \<longrightarrow> f i < snd (r n))
         else r n = (b, s)"
proof (induction n)
  case 0
  then show ?case by (simp add: r_def)
next
  case (Suc n)
  have step: "r (Suc n) = (if P n \<and> snd (r n) < f n then (n, f n) else r n)"
    by (simp add: r_def split_beta)
  show ?case
  proof (cases "\<exists>i<n. P i \<and> s < f i")
    case True
    with Suc have IH: "fst (r n) < n" "P (fst (r n))" "snd (r n) = f (fst (r n))" "s < snd (r n)"
      "\<forall>i<n. P i \<longrightarrow> f i \<le> snd (r n)" "\<forall>i<fst (r n). P i \<longrightarrow> f i < snd (r n)" by auto
    have "\<exists>i<Suc n. P i \<and> s < f i" using True less_Suc_eq by blast
    with IH show ?thesis
      by (force simp: step less_Suc_eq)
  next
    case False
    with Suc have "r n = (b, s)" by simp
    with False show ?thesis by (force simp: step less_Suc_eq not_less)
  qed
qed

definition medoid_score :: "bytes list \<Rightarrow> nat \<Rightarrow> real" where
  "medoid_score cands i = (\<Sum>j\<in>{..<length cands} - {i}. answer_similarity (cands ! i) (cands ! j))"

lemma score_of_medoid: "score_of cands i = medoid_score cands i"
proof -
  have "foldl (\<lambda>score j. if i \<noteq> j then score + g j else score) x [0..<n] = x + sum g ({..<n} - {i})"
    for g :: "nat \<Rightarrow> real" and x n
    by (induction n) (auto simp: lessThan_Suc insert_Diff_if)
  from this [of "\<lambda>j. answer_similarity (cands ! i) (cands ! j)" 0 "length cands"]
  show ?thesis by (simp add: score_of_def medoid_score_def)
qed

lemma medoid_score_nonneg: "0 \<le> medoid_score cands i"
  by (simp add: medoid_score_def sum_nonneg)

lemma elect_spec:
  assumes "2 \<le> length cands"
  shows "elect cands < length cands
    \<and> (\<forall>i<length cands. medoid_score cands i \<le> medoid_score cands (elect cands))
    \<and> (\<forall>i<elect cands. medoid_score cands i < medoid_score cands (elect cands))"
proof -
  have fold: "(\<lambda>(best, top) i. let score = score_of cands i in if top < score then (i, score) else (best, top))
    = (\<lambda>(best, top) i. if True \<and> top < medoid_score cands i then (i, medoid_score cands i) else (best, top))"
    by (simp add: score_of_medoid Let_def)
  have "\<exists>i<length cands. True \<and> -1 < medoid_score cands i"
    using assms medoid_score_nonneg [of cands 0] by (intro exI [of _ 0]) auto
  with first_argmax [where P = "\<lambda>_. True" and f = "medoid_score cands" and b = 0 and s = "-1" and n = "length cands"]
    assms
  show ?thesis
    unfolding elect_def fold by auto
qed

lemma elect_small: "length cands < 2 \<Longrightarrow> elect cands = 0"
  by (simp add: elect_def)

lemma votes_of_count: "i < length numbers \<Longrightarrow> votes_of numbers i = count_list numbers (numbers ! i)"
proof -
  have "foldl (\<lambda>votes j. if numbers ! j = x then Suc votes else votes) k [0..<n] = k + count_list (take n numbers) x"
    if "n \<le> length numbers" for x k n
    using that by (induction n) (auto simp: take_Suc_conv_app_nth)
  from this [of "length numbers"] show ?thesis by (simp add: votes_of_def)
qed

text \<open>The number on which most candidates agree, among those that end with a number.\<close>

definition carries_most :: "bytes list \<Rightarrow> nat \<Rightarrow> bool" where
  "carries_most numbers k \<longleftrightarrow> k < length numbers \<and> numbers ! k \<noteq> [] \<and> 2 \<le> count_list numbers (numbers ! k)
     \<and> (\<forall>x\<in>set numbers - {[]}. count_list numbers x \<le> count_list numbers (numbers ! k))
     \<and> (\<forall>i<k. numbers ! i \<noteq> [] \<longrightarrow> count_list numbers (numbers ! i) < count_list numbers (numbers ! k))"

lemma carries_most_unique: "carries_most numbers k \<Longrightarrow> carries_most numbers k' \<Longrightarrow> k = k'"
proof (induction k k' rule: linorder_wlog)
  case (le k k')
  then show ?case unfolding carries_most_def
    by (metis DiffI insertE empty_iff le_neq_implies_less nth_mem linorder_not_less)
qed auto

definition numeric_vote :: "bytes list \<Rightarrow> bool" where
  "numeric_vote numbers \<longleftrightarrow> length numbers \<le> 2 * length (filter (\<lambda>x. x \<noteq> []) numbers)
     \<and> (\<exists>x\<in>set numbers. x \<noteq> [] \<and> 2 \<le> count_list numbers x)"

lemma elect_numeric_spec:
  assumes "2 \<le> length cands"
  defines "numbers \<equiv> map final_number cands"
  shows "if numeric_vote numbers then carries_most numbers (elect_numeric cands)
         else elect_numeric cands = elect cands"
proof -
  define P where "P i \<longleftrightarrow> numbers ! i \<noteq> []" for i
  define r where "r = foldl (\<lambda>(best, top) i. if P i \<and> top < votes_of numbers i then (i, votes_of numbers i)
      else (best, top)) (length cands, 1) [0..<length cands]"
  have fold: "(\<lambda>(best, top) i. if numbers ! i = [] then (best, top)
      else let votes = votes_of numbers i in if top < votes then (i, votes) else (best, top))
    = (\<lambda>(best, top) i. if P i \<and> top < votes_of numbers i then (i, votes_of numbers i) else (best, top))"
    by (auto simp: P_def Let_def fun_eq_iff)
  have elect: "elect_numeric cands =
      (if length cands \<le> length (filter (\<lambda>x. x \<noteq> []) numbers) * 2 \<and> fst r < length cands then fst r else elect cands)"
    using assms(1) unfolding elect_numeric_def numbers_def [symmetric] Let_def fold [unfolded Let_def] r_def by simp
  have len: "length numbers = length cands" by (simp add: numbers_def)
  have some: "(\<exists>i<length cands. P i \<and> 1 < votes_of numbers i) \<longleftrightarrow> (\<exists>x\<in>set numbers. x \<noteq> [] \<and> 2 \<le> count_list numbers x)"
    by (force simp: P_def votes_of_count len in_set_conv_nth)
  note am = first_argmax [where P = P and f = "votes_of numbers" and b = "length cands" and s = 1
      and n = "length cands", folded r_def]
  show ?thesis
  proof (cases "\<exists>i<length cands. P i \<and> 1 < votes_of numbers i")
    case True
    with am have *: "fst r < length cands" "P (fst r)" "snd r = votes_of numbers (fst r)" "1 < snd r"
      "\<forall>i<length cands. P i \<longrightarrow> votes_of numbers i \<le> snd r" "\<forall>i<fst r. P i \<longrightarrow> votes_of numbers i < snd r"
      by auto
    then have "carries_most numbers (fst r)"
      unfolding carries_most_def
      by (auto simp: P_def votes_of_count len in_set_conv_nth)
    with True some * show ?thesis
      by (simp add: elect numeric_vote_def len mult.commute)
  next
    case False
    with am have "r = (length cands, 1)" by simp
    with False some show ?thesis by (auto simp: elect numeric_vote_def)
  qed
qed

text \<open>
  C37: \<open>elect\<close> returns the medoid: for two candidates or more, an index of the vector whose
  summed similarity to all the others is the highest, and the first such index; for fewer
  candidates it returns 0.
\<close>

theorem elect_medoid:
  "(length cands < 2 \<longrightarrow> elect cands = 0)
   \<and> (2 \<le> length cands \<longrightarrow> elect cands < length cands
       \<and> (\<forall>i<length cands. medoid_score cands i \<le> medoid_score cands (elect cands))
       \<and> (\<forall>i<elect cands. medoid_score cands i < medoid_score cands (elect cands)))"
  using elect_spec elect_small by blast

theorem elect_medoid_witness:
  "elect [''a b'', ''b c'', ''c b''] < 3 \<and> elect [''x''] = 0"
  using elect_medoid [of "[''a b'', ''b c'', ''c b'']"] elect_medoid [of "[''x'']"] by simp

text \<open>
  C39: the numeric vote.  When at least half of the candidates end with a number and some
  number has two votes, \<open>elect_numeric\<close> returns the first candidate that carries the number
  with the most votes; otherwise it falls back to the text medoid.  In both cases the index
  lies in the vector.
\<close>

theorem elect_numeric_plurality:
  assumes "2 \<le> length cands"
  shows "(numeric_vote (map final_number cands) \<longrightarrow> carries_most (map final_number cands) (elect_numeric cands))
    \<and> (\<not> numeric_vote (map final_number cands) \<longrightarrow> elect_numeric cands = elect cands)
    \<and> elect_numeric cands < length cands"
  using elect_numeric_spec [OF assms] elect_spec [OF assms]
  by (auto simp: carries_most_def split: if_splits)

theorem elect_numeric_plurality_witness:
  "elect_numeric [''so 3'', ''it is 4'', ''hence 4''] < 3"
  using elect_numeric_plurality [of "[''so 3'', ''it is 4'', ''hence 4'']"] by simp

section \<open>The last number\<close>

definition number_form :: "bytes \<Rightarrow> bool" where
  "number_form w \<longleftrightarrow> (\<exists>sg ip fp. w = sg @ ip @ fp \<and> sg \<in> {[], ''-''} \<and> ip \<noteq> [] \<and> list_all isdigit ip
     \<and> (fp = [] \<or> (\<exists>ds. fp = CHR ''.'' # ds \<and> ds \<noteq> [] \<and> list_all isdigit ds)))"

text \<open>What the inner loop has collected before index \<open>i\<close>, given that a digit comes next or has just come.\<close>

definition partial_number :: "bool \<Rightarrow> bytes \<Rightarrow> bool \<Rightarrow> bool" where
  "partial_number seen_dot cur pending \<longleftrightarrow> (\<exists>sg ip fp. cur = sg @ ip @ fp \<and> sg \<in> {[], ''-''} \<and> list_all isdigit ip
     \<and> (if seen_dot then ip \<noteq> [] \<and> (\<exists>ds. fp = CHR ''.'' # ds \<and> list_all isdigit ds \<and> (pending \<or> ds \<noteq> []))
        else fp = [] \<and> (pending \<or> ip \<noteq> [])))"

lemma partial_number_digit:
  assumes "partial_number d cur p" "isdigit c"
  shows "partial_number d (cur @ [c]) p'"
proof -
  obtain sg ip fp where *: "cur = sg @ ip @ fp" "sg \<in> {[], ''-''}" "list_all isdigit ip"
    "if d then ip \<noteq> [] \<and> (\<exists>ds. fp = CHR ''.'' # ds \<and> list_all isdigit ds \<and> (p \<or> ds \<noteq> []))
     else fp = [] \<and> (p \<or> ip \<noteq> [])"
    using assms(1) by (auto simp: partial_number_def)
  show ?thesis
  proof (cases d)
    case True
    with * assms(2) show ?thesis
      unfolding partial_number_def
      by (intro exI [of _ sg] exI [of _ ip] exI [of _ "fp @ [c]"]) auto
  next
    case False
    with * assms(2) show ?thesis
      unfolding partial_number_def
      by (intro exI [of _ sg] exI [of _ "ip @ [c]"] exI [of _ fp]) auto
  qed
qed

lemma partial_number_dot:
  assumes "partial_number False cur False"
  shows "partial_number True (cur @ ''.'') True"
proof -
  obtain sg ip where "cur = sg @ ip" "sg \<in> {[], ''-''}" "list_all isdigit ip" "ip \<noteq> []"
    using assms by (auto simp: partial_number_def)
  then show ?thesis
    unfolding partial_number_def by (intro exI [of _ sg] exI [of _ ip] exI [of _ "''.''"]) auto
qed

lemma partial_number_weaken: "partial_number d cur False \<Longrightarrow> partial_number d cur p"
  unfolding partial_number_def by (elim exE, rule exI, rule exI, rule exI) (auto split: if_splits)

lemma number_form_partial: "partial_number d cur False \<Longrightarrow> number_form cur"
  unfolding partial_number_def number_form_def
  by (elim exE, rule exI, rule exI, rule exI) (auto split: if_splits)

lemma number_scan_form:
  "partial_number d cur p \<Longrightarrow> p \<longrightarrow> digit_at s i \<Longrightarrow> number_form (fst (number_scan s i d cur))"
proof (induction s i d cur arbitrary: p rule: number_scan.induct)
  case (1 s i d cur)
  show ?case
  proof (cases "digit_at s i")
    case True
    then have c: "i < length s" "isdigit (s ! i)" by (auto simp: digit_at_def)
    with 1(1) [of "s ! i" False] partial_number_digit [OF 1(4) c(2)] show ?thesis
      by (subst number_scan.simps) auto
  next
    case False
    with 1(5) have p: "partial_number d cur False" using 1(4) by (cases p) auto
    from False have nd: "i < length s \<Longrightarrow> \<not> isdigit (s ! i)" by (auto simp: digit_at_def)
    consider (eos) "length s \<le> i" | (comma) "i < length s" "s ! i = CHR '','' \<and> digit_at s (Suc i)"
      | (dot) "i < length s" "s ! i \<noteq> CHR '',''" "s ! i = CHR ''.'' \<and> \<not> d \<and> digit_at s (Suc i)"
      | (stop) "i < length s" "\<not> (s ! i = CHR '','' \<and> digit_at s (Suc i))"
          "\<not> (s ! i = CHR ''.'' \<and> \<not> d \<and> digit_at s (Suc i))"
      using linorder_not_le by (cases "s ! i = CHR '',''") auto
    then show ?thesis
    proof cases
      case comma
      with 1(2) [of "s ! i" True] nd partial_number_weaken [OF p, of True] show ?thesis
        by (subst number_scan.simps) (simp add: Let_def)
    next
      case dot
      with p have "partial_number True (cur @ ''.'') True" by (simp add: partial_number_dot)
      with dot 1(3) [of "s ! i" True] nd show ?thesis
        by (subst number_scan.simps) (simp add: Let_def)
    next
      case stop
      with p nd show ?thesis
        by (subst number_scan.simps) (simp only: Let_def if_False simp_thms not_le fst_conv number_form_partial split: if_split)
    qed (use p in \<open>simp add: number_scan.simps number_form_partial\<close>)
  qed
qed

abbreviation number_at :: "bytes \<Rightarrow> nat \<Rightarrow> bytes \<times> nat" where
  "number_at s i \<equiv> if sign_at s i then number_scan s (Suc i) False ''-'' else number_scan s i False []"

lemma partial_number_start: "partial_number False [] True" "partial_number False ''-'' True"
  by (simp_all add: partial_number_def) (auto intro: exI [of _ "''-''"])

lemma number_at_form: "digit_at s i \<or> sign_at s i \<Longrightarrow> number_form (fst (number_at s i))"
  using partial_number_start number_scan_form by (auto simp: sign_at_def)

lemma number_form_nonempty: "number_form w \<Longrightarrow> w \<noteq> []"
  by (auto simp: number_form_def)

lemma final_number_loop_form:
  "found = [] \<or> number_form found \<Longrightarrow> final_number_loop s i found = [] \<or> number_form (final_number_loop s i found)"
proof (induction s i found rule: final_number_loop.induct)
  case (1 s i found)
  then show ?case
    using number_at_form [of s i] by (subst (1 2) final_number_loop.simps) (simp add: Let_def)
qed

lemma final_number_loop_keeps: "found \<noteq> [] \<Longrightarrow> final_number_loop s i found \<noteq> []"
proof (induction s i found rule: final_number_loop.induct)
  case (1 s i found)
  then show ?case
    using number_form_nonempty [OF number_at_form [of s i]]
    by (subst final_number_loop.simps) (simp add: Let_def)
qed

lemma final_number_loop_digit: "i \<le> j \<Longrightarrow> digit_at s j \<Longrightarrow> final_number_loop s i found \<noteq> []"
proof (induction s i found rule: final_number_loop.induct)
  case (1 s i found)
  then have i: "i < length s" by (auto simp: digit_at_def)
  show ?case
  proof (cases "digit_at s i \<or> sign_at s i")
    case True
    then show ?thesis
      using number_form_nonempty [OF number_at_form [OF True]] i
      by (subst final_number_loop.simps) (auto simp: Let_def final_number_loop_keeps)
  next
    case False
    with 1 have "Suc i \<le> j" by (metis Suc_leI le_neq_implies_less)
    with 1 i False show ?thesis
      by (subst final_number_loop.simps) simp
  qed
qed

lemma final_number_loop_no_digit:
  "\<forall>j\<ge>i. \<not> digit_at s j \<Longrightarrow> final_number_loop s i found = found"
proof (induction s i found rule: final_number_loop.induct)
  case (1 s i found)
  then have "\<not> digit_at s i" "\<not> sign_at s i" by (auto simp: sign_at_def)
  with 1 show ?case by (subst final_number_loop.simps) auto
qed

text \<open>A character at which a number being scanned ends and that cannot start one.\<close>

definition separator :: "char \<Rightarrow> bool" where
  "separator c \<longleftrightarrow> \<not> isalnum c \<and> c \<notin> {CHR ''.'', CHR '','', CHR ''-''}"

lemma number_scan_separator:
  "i \<le> j \<Longrightarrow> j < length s \<Longrightarrow> separator (s ! j) \<Longrightarrow> snd (number_scan s i d cur) \<le> j"
proof (induction s i d cur rule: number_scan.induct)
  case (1 s i d cur)
  show ?case
  proof (cases "i = j")
    case True
    with 1 show ?thesis
      by (subst number_scan.simps) (auto simp: separator_def isalnum_def)
  next
    case False
    with 1 show ?thesis
      by (subst number_scan.simps) (auto simp: Let_def)
  qed
qed

lemma final_number_loop_reach:
  "i \<le> k \<Longrightarrow> k \<le> length s \<Longrightarrow> k = 0 \<or> separator (s ! (k - 1)) \<Longrightarrow>
     \<exists>found'. final_number_loop s i found = final_number_loop s k found'"
proof (induction s i found rule: final_number_loop.induct)
  case (1 s i found)
  show ?case
  proof (cases "i = k")
    case False
    with 1 have i: "i < length s" "i \<le> k - 1" "k - 1 < length s" "separator (s ! (k - 1))" "Suc i \<le> k" by auto
    show ?thesis
    proof (cases "digit_at s i \<or> sign_at s i")
      case True
      have "i \<noteq> k - 1" using True i(4) by (auto simp: digit_at_def sign_at_def separator_def isalnum_def)
      with i have "snd (number_at s i) \<le> k - 1"
        by (auto intro!: number_scan_separator)
      with 1(2) [OF _ _ refl] 1(3-) i True show ?thesis
        by (subst final_number_loop.simps) (auto simp: Let_def)
    next
      case False
      with 1(1,3-) i show ?thesis by (subst final_number_loop.simps) simp
    qed
  qed blast
qed

lemma number_scan_digits:
  "list_all isdigit ds \<Longrightarrow> number_scan (pre @ ds @ post) (length pre) d cur
     = number_scan (pre @ ds @ post) (length pre + length ds) d (cur @ ds)"
proof (induction ds arbitrary: pre cur)
  case (Cons c ds)
  have "number_scan (pre @ (c # ds) @ post) (length pre) d cur
      = number_scan (pre @ (c # ds) @ post) (Suc (length pre)) d (cur @ [c])"
    using Cons.prems by (subst number_scan.simps) (simp add: nth_append)
  with Cons.IH [of "pre @ [c]" "cur @ [c]"] Cons.prems show ?case by simp
qed simp

lemma no_digit_after:
  "list_all (\<lambda>c. \<not> isdigit c) post \<Longrightarrow> length pre \<le> j \<Longrightarrow> \<not> digit_at (pre @ post) j"
  by (auto simp: digit_at_def nth_append list_all_length)

lemma number_scan_end:
  "list_all (\<lambda>c. \<not> isdigit c) post \<Longrightarrow> number_scan (pre @ post) (length pre) d cur = (cur, length pre)"
  using no_digit_after [of post pre "length pre"] no_digit_after [of post pre "Suc (length pre)"]
  by (subst number_scan.simps) (auto simp: Let_def digit_at_def)

lemma number_scan_number:
  assumes "list_all isdigit ip" and fp: "fp = [] \<or> (\<exists>ds. fp = CHR ''.'' # ds \<and> ds \<noteq> [] \<and> list_all isdigit ds)"
    and post: "list_all (\<lambda>c. \<not> isdigit c) post"
  shows "number_scan (pre @ ip @ fp @ post) (length pre) False cur
    = (cur @ ip @ fp, length pre + length ip + length fp)"
proof -
  note scan = number_scan_digits [OF assms(1), of pre _ False cur]
  show ?thesis
  proof (cases "fp = []")
    case True
    with scan [of post] number_scan_end [OF post, of "pre @ ip" False "cur @ ip"] show ?thesis by simp
  next
    case False
    then obtain ds where ds: "fp = CHR ''.'' # ds" "ds \<noteq> []" "list_all isdigit ds" using fp by blast
    let ?s = "(pre @ ip @ ''.'') @ ds @ post" and ?k = "length pre + length ip"
    have dot: "?s ! ?k = CHR ''.''" "?k < length ?s" by (simp_all add: nth_append)
    have "digit_at ?s (Suc ?k)" using ds(2,3) by (cases ds) (auto simp: digit_at_def nth_append)
    with dot have "number_scan ?s ?k False (cur @ ip) = number_scan ?s (Suc ?k) True (cur @ ip @ ''.'')"
      by (subst number_scan.simps) (simp add: Let_def isdigit_def code_def)
    with number_scan_digits [OF ds(3), of "pre @ ip @ ''.''" post True "cur @ ip @ ''.''"]
      number_scan_end [OF post, of "pre @ ip @ fp" True "cur @ ip @ fp"] scan [of "fp @ post"] ds(1)
    show ?thesis by (simp add: add.assoc)
  qed
qed

lemma number_at_number:
  assumes num: "number_form num" and post: "list_all (\<lambda>c. \<not> isdigit c) post"
    and pre: "pre = [] \<or> separator (last pre)"
  shows "(digit_at (pre @ num @ post) (length pre) \<or> sign_at (pre @ num @ post) (length pre))
    \<and> number_at (pre @ num @ post) (length pre) = (num, length pre + length num)"
proof -
  obtain sg ip fp where *: "num = sg @ ip @ fp" "sg \<in> {[], ''-''}" "ip \<noteq> []" "list_all isdigit ip"
    "fp = [] \<or> (\<exists>ds. fp = CHR ''.'' # ds \<and> ds \<noteq> [] \<and> list_all isdigit ds)"
    using num unfolding number_form_def by blast
  note scan = number_scan_number [OF *(4,5) post]
  obtain c ip' where ip: "ip = c # ip'" "isdigit c" using *(3,4) by (cases ip) auto
  show ?thesis
  proof (cases "sg = []")
    case True
    then have "digit_at (pre @ num @ post) (length pre)" using * ip by (simp add: digit_at_def)
    moreover from this have "\<not> sign_at (pre @ num @ post) (length pre)"
      by (auto simp: digit_at_def sign_at_def isdigit_def code_def)
    ultimately show ?thesis using scan [of pre "[]"] True * by simp
  next
    case False
    then have sg: "sg = ''-''" using * by simp
    have "pre = [] \<or> \<not> isalnum ((pre @ num @ post) ! (length pre - 1))"
      using pre by (auto simp: separator_def nth_append last_conv_nth)
    then have "sign_at (pre @ num @ post) (length pre)"
      using sg * ip by (auto simp: sign_at_def digit_at_def nth_append)
    then show ?thesis using scan [of "pre @ ''-''" "''-''"] sg * by simp
  qed
qed

text \<open>
  C38: \<open>final_number\<close> returns the last number of a text.  A number written plainly (an optional
  minus sign, digits, an optional fraction) after a separator and followed by no further digit
  is returned exactly as written; the result is empty only for a text without digits, and is
  otherwise always a number of that form.
\<close>

theorem final_number_last:
  "(number_form num \<and> list_all (\<lambda>c. \<not> isdigit c) post \<and> (pre = [] \<or> separator (last pre))
      \<longrightarrow> final_number (pre @ num @ post) = num)
   \<and> (final_number s = [] \<longleftrightarrow> list_all (\<lambda>c. \<not> isdigit c) s)
   \<and> (final_number s = [] \<or> number_form (final_number s))"
proof (intro conjI impI)
  assume a: "number_form num \<and> list_all (\<lambda>c. \<not> isdigit c) post \<and> (pre = [] \<or> separator (last pre))"
  let ?s = "pre @ num @ post"
  have "length pre = 0 \<or> separator (?s ! (length pre - 1))"
    using a by (cases "pre = []") (auto simp: nth_append last_conv_nth)
  with final_number_loop_reach [of 0 "length pre" ?s "[]"]
  obtain f where f: "final_number ?s = final_number_loop ?s (length pre) f"
    by (auto simp: final_number_def)
  have "num \<noteq> []" using a number_form_nonempty by blast
  with a number_at_number [of num post pre]
  have "final_number_loop ?s (length pre) f = final_number_loop ?s (length pre + length num) num"
    by (subst final_number_loop.simps) (auto simp: Let_def)
  moreover have "\<forall>j\<ge>length (pre @ num). \<not> digit_at ((pre @ num) @ post) j"
    using a no_digit_after by blast
  ultimately show "final_number ?s = num"
    using f final_number_loop_no_digit [of "length (pre @ num)" ?s num] by simp
next
  show "final_number s = [] \<longleftrightarrow> list_all (\<lambda>c. \<not> isdigit c) s"
  proof (cases "\<exists>j. digit_at s j")
    case True
    with final_number_loop_digit [of 0 _ s "[]"] show ?thesis
      by (auto simp: final_number_def digit_at_def list_all_length)
  next
    case False
    with final_number_loop_no_digit [of 0 s "[]"] show ?thesis
      by (auto simp: final_number_def digit_at_def list_all_length)
  qed
  show "final_number s = [] \<or> number_form (final_number s)"
    using final_number_loop_form [of "[]" s 0] by (simp add: final_number_def)
qed

theorem final_number_last_witness:
  "final_number ''the total is -3.5.'' = ''-3.5''"
proof -
  have "number_form ''-3.5''"
    unfolding number_form_def
    by (intro exI [of _ "''-''"] exI [of _ "''3''"] exI [of _ "''.5''"]) (simp add: isdigit_def code_def)
  then show ?thesis
    using final_number_last [of "''-3.5''" "''.''" "''the total is ''" "[]"]
    by (simp add: isdigit_def isalnum_def isupper_def islower_def separator_def code_def)
qed

end
