(* ===== verification/Engine.thy ===== *)
theory Engine
  imports Scheduler Speculative Prefix_Cache Conclave
begin

text \<open>
  The engine (\<open>src/core/engine.cpp\<close>, \<open>include/reame/core/engine.hpp\<close>): configuration, the
  three ways of generating (the classic loop with or without the prefix cache, the speculative
  decoder, the interleaved scheduler), the transparent response cache, the Conclave, sessions
  and warm-up.  The decoder and the scheduler hold a reference to the engine's backend: the
  backend is put into them before a call and taken back after it.  In parallel mode a call
  submits its request and waits while the worker thread runs the scheduler until it is idle;
  what other callers may submit between two steps is the subject of \<open>Scheduler\<close>.
  A callback is a function of the pieces delivered before, which is kept as the list of calls
  made.  \<open>std::hash\<close>, the response cache, the outcome of disk writes and what the constructor
  finds on disk are arguments.
\<close>

section \<open>Configuration\<close>

record engine_config =
  ec_model_path :: bytes
  ec_draft_model_path :: bytes
  ec_n_ctx :: int
  ec_n_threads :: int
  ec_use_mmap :: bool
  ec_use_mlock :: bool
  ec_kv_cache_type :: bytes
  ec_n_ubatch :: int
  ec_use_speculative :: bool
  ec_use_prompt_lookup :: bool
  ec_draft_tokens :: int
  ec_cache_dir :: bytes
  ec_cache_max_mb :: u64
  ec_cache_compress :: bool
  ec_cache_block_tokens :: int
  ec_n_parallel :: int

record model_params =
  mp_path :: bytes
  mp_context_length :: int
  mp_threads :: int
  mp_use_mmap :: bool
  mp_use_mlock :: bool
  mp_kv_cache_type :: bytes
  mp_n_seq_max :: int
  mp_n_ubatch :: int

definition validate :: "engine_config \<Rightarrow> engine_exn option" where
  "validate c =
     (if ec_model_path c = [] then Some (EngineError ''model_path is empty'')
      else if ec_n_ctx c \<le> 0 then Some (EngineError (''n_ctx must be positive, got '' @ show_int (ec_n_ctx c)))
      else if ec_n_threads c \<le> 0 then Some (EngineError (''n_threads must be positive, got '' @ show_int (ec_n_threads c)))
      else if ec_kv_cache_type c \<noteq> ''f16'' \<and> ec_kv_cache_type c \<noteq> ''q8_0'' \<and> ec_kv_cache_type c \<noteq> ''q4_0''
        then Some (EngineError (''kv_cache_type must be f16, q8_0 or q4_0, got '' @ [CHR 0x27] @ ec_kv_cache_type c @ [CHR 0x27]))
      else if ec_n_parallel c < 1 then Some (EngineError (''n_parallel must be >= 1, got '' @ show_int (ec_n_parallel c)))
      else if 1 < ec_n_parallel c then
        (if ec_use_prompt_lookup c \<or> ec_draft_model_path c \<noteq> []
         then Some (EngineError (''n_parallel > 1 is not compatible with speculative decoding ''
                @ ''yet: disable [speculative] or set parallel = 1''))
         else if ec_cache_dir c \<noteq> []
         then Some (EngineError (''n_parallel > 1 is not compatible with the disk cache yet: ''
                @ ''unset cache.directory or set parallel = 1''))
         else None)
      else None)"

definition to_model_params :: "engine_config \<Rightarrow> model_params" where
  "to_model_params c =
     \<lparr>mp_path = ec_model_path c, mp_context_length = ec_n_ctx c, mp_threads = ec_n_threads c,
      mp_use_mmap = ec_use_mmap c, mp_use_mlock = ec_use_mlock c, mp_kv_cache_type = ec_kv_cache_type c,
      mp_n_seq_max = max (ec_n_parallel c) 1, mp_n_ubatch = ec_n_ubatch c\<rparr>"

definition wants_draft_backend :: "engine_config \<Rightarrow> bool" where
  "wants_draft_backend c \<longleftrightarrow> ec_use_speculative c \<and> \<not> ec_use_prompt_lookup c \<and> ec_draft_model_path c \<noteq> []"

text \<open>The messages contain an em dash, three bytes of UTF-8.\<close>

definition em_dash :: bytes where
  "em_dash = [CHR 0xE2, CHR 0x80, CHR 0x94]"

definition missing_model_file_error :: "(bytes \<Rightarrow> bool) \<Rightarrow> engine_config \<Rightarrow> bytes" where
  "missing_model_file_error file_exists c =
     (if \<not> file_exists (ec_model_path c) then
        ''model file not found: '' @ [CHR 0x27] @ ec_model_path c @ [CHR 0x27] @ '' '' @ em_dash
        @ '' check model.path in your config. Relative paths resolve ''
        @ ''from the working directory you run reame from, not from the '' @ ''config file'' @ [CHR 0x27] @ ''s location.''
      else if wants_draft_backend c \<and> \<not> file_exists (ec_draft_model_path c) then
        ''draft model file not found: '' @ [CHR 0x27] @ ec_draft_model_path c @ [CHR 0x27] @ '' '' @ em_dash
        @ '' [speculative] mode = model needs a second, smaller GGUF ''
        @ ''at speculative.draft_model_path. Either download one, or set ''
        @ ''mode = lookup (drafts from n-grams, no second model), or '' @ ''enabled = false.''
      else [])"

section \<open>State and construction\<close>

record 'a arca_ops =
  ar_get :: "bytes \<Rightarrow> 'a \<Rightarrow> bytes option \<times> 'a"
  ar_set :: "bytes \<Rightarrow> bytes \<Rightarrow> 'a \<Rightarrow> 'a"

text \<open>
  What the engine runs on.  \<open>ee_wakes i\<close> says whether the operating system's interleaving delivers
  the wake-ups of request \<open>i\<close> of a parallel engine; the threads themselves are in \<open>Engine_Worker\<close>,
  where both notifications can be lost.
\<close>

record ('b, 'g, 'a) engine_env =
  ee_ops :: "'b backend_ops"
  ee_sampler :: "'g sampler_env"
  ee_zstd :: zstd
  ee_write_ok :: "nat \<Rightarrow> bool"
  ee_hash :: "bytes \<Rightarrow> u64"
  ee_arca :: "'a arca_ops"
  ee_wakes :: "u64 \<Rightarrow> bool"

record ('b, 'd, 'g, 'a) engine =
  en_backend :: 'b
  en_draft_ops :: "'d backend_ops option"
  en_decoder :: "(spec_config \<times> ('b, 'd, 'g) decoder) option"
  en_cache :: "cache_manager option"
  en_prefix_cache :: "prefix_cache option"
  en_model_tag :: bytes
  en_arca :: "'a option"
  en_scheduler :: "('b, 'g) scheduler option"
  en_context_tokens :: "token list"
  en_sessions :: "(bytes, token list) smap"
  en_next_session_id :: u64

definition bare_engine :: "engine_config \<Rightarrow> 'a option \<Rightarrow> 'b \<Rightarrow> ('b, 'd, 'g, 'a) engine" where
  "bare_engine c arca b =
     \<lparr>en_backend = b, en_draft_ops = None, en_decoder = None, en_cache = None, en_prefix_cache = None,
      en_model_tag = ec_model_path c, en_arca = arca, en_scheduler = None, en_context_tokens = [],
      en_sessions = [], en_next_session_id = 1\<rparr>"

definition decoder_config :: "engine_config \<Rightarrow> spec_config" where
  "decoder_config c =
     \<lparr>sd_mode = (if ec_use_prompt_lookup c then PromptLookup else ModelDraft), sd_draft_tokens = ec_draft_tokens c,
      sd_min_draft_tokens = 2, sd_max_draft_tokens = 32, sd_lookup_max_ngram = 3, sd_lookup_min_ngram = 1,
      sd_use_speculative = True, sd_disable_after_drafted = 64, sd_disable_below_acceptance = 15/100\<rparr>"

text \<open>
  The constructor.  \<open>b\<close> is the injected backend (\<open>None\<close> the null pointer), \<open>dops\<close> the
  operations of the draft backend when there is one and \<open>d\<close> its state, \<open>items\<close> the cache
  directory, \<open>corpus_file\<close> the archive of past generations, \<open>g\<close> the generator the decoder's
  locals hold before the first generation seeds them.
\<close>

definition engine_open :: "('b, 'g, 'a) engine_env \<Rightarrow> engine_config \<Rightarrow> 'a option \<Rightarrow> 'b option \<Rightarrow> 'd backend_ops option \<Rightarrow> 'd
    \<Rightarrow> dir_item list \<Rightarrow> bytes option \<Rightarrow> 'g \<Rightarrow> engine_exn + ('b, 'd, 'g, 'a) engine" where
  "engine_open env c arca b dops d items corpus_file g =
     (case validate c of
        Some e \<Rightarrow> Inl e
      | None \<Rightarrow>
          (case b of
             None \<Rightarrow> Inl (EngineError ''backend is null'')
           | Some t \<Rightarrow>
               if 1 < ec_n_parallel c \<and> dops \<noteq> None
               then Inl (EngineError ''n_parallel > 1 is not compatible with a draft model yet'')
               else let e = bare_engine c arca t
                    in if 1 < ec_n_parallel c then
                         (case scheduler_open (ee_ops env) (ec_n_parallel c) t of
                            Inl x \<Rightarrow> Inl x | Inr sch \<Rightarrow> Inr (e\<lparr>en_scheduler := Some sch\<rparr>))
                       else let e1 = (if ec_cache_dir c \<noteq> []
                                      then e\<lparr>en_cache := Some (cache_manager_open (ec_cache_max_mb c * 1024 * 1024) (ec_cache_compress c) items),
                                             en_prefix_cache := Some (prefix_cache_open (ec_model_path c) (ec_cache_block_tokens c))\<rparr>
                                      else e)
                            in if ec_use_speculative c \<and> bo_supports_rollback (ee_ops env) t
                                  \<and> (dops \<noteq> None \<or> ec_use_prompt_lookup c)
                               then let corpus = (if ec_use_prompt_lookup c \<and> ec_cache_dir c \<noteq> []
                                                  then Some (corpus_open 3 (64 * 1024 * 1024) 8 corpus_file) else None)
                                    in case decoder_open (decoder_config c) (ee_ops env) dops t d corpus g of
                                         Inl x \<Rightarrow> Inl x
                                       | Inr dec \<Rightarrow> Inr (e1\<lparr>en_draft_ops := dops, en_decoder := Some (decoder_config c, dec)\<rparr>)
                               else Inr e1))"

text \<open>The production constructor loads the models through a factory first (arguments evaluated left to right).\<close>

definition engine_load :: "('b, 'g, 'a) engine_env \<Rightarrow> (model_params \<Rightarrow> engine_exn + 'b) \<Rightarrow> (model_params \<Rightarrow> engine_exn + 'd)
    \<Rightarrow> 'd backend_ops \<Rightarrow> 'd \<Rightarrow> engine_config \<Rightarrow> 'a option \<Rightarrow> dir_item list \<Rightarrow> bytes option \<Rightarrow> 'g
    \<Rightarrow> engine_exn + ('b, 'd, 'g, 'a) engine" where
  "engine_load env make_backend make_draft dops d0 c arca items corpus_file g =
     (case validate c of
        Some e \<Rightarrow> Inl e
      | None \<Rightarrow>
          (case make_backend (to_model_params c) of
             Inl e \<Rightarrow> Inl e
           | Inr b \<Rightarrow>
               if \<not> wants_draft_backend c then engine_open env c arca (Some b) None d0 items corpus_file g
               else case make_draft ((to_model_params c)\<lparr>mp_path := ec_draft_model_path c\<rparr>) of
                      Inl e \<Rightarrow> Inl e
                    | Inr d \<Rightarrow> engine_open env c arca (Some b) (Some dops) d items corpus_file g))"

section \<open>Generation\<close>

type_synonym piece_callback = "bytes list \<Rightarrow> bytes \<Rightarrow> engine_exn + bool"

text \<open>The pieces of a list of tokens; \<open>token_piece\<close> reads the vocabulary only.\<close>

definition pieces :: "'b backend_ops \<Rightarrow> 'b \<Rightarrow> token list \<Rightarrow> bytes list" where
  "pieces ops b ts = concat (map (\<lambda>t. case bo_token_piece ops t b of Inl _ \<Rightarrow> [] | Inr p \<Rightarrow> [p]) ts)"

record ('b, 'g) gen_local =
  gl_tokens :: "token list"
  gl_backend :: 'b
  gl_sampler :: 'g
  gl_calls :: "bytes list"

text \<open>The classic loop; the first number is how many tokens the budget still allows.\<close>

fun gen_loop :: "'b backend_ops \<Rightarrow> 'g sampler_env \<Rightarrow> gen_config \<Rightarrow> piece_callback \<Rightarrow> nat \<Rightarrow> nat \<Rightarrow> logits
    \<Rightarrow> ('b, 'g) gen_local \<Rightarrow> (engine_exn + unit) \<times> ('b, 'g) gen_local" where
  "gen_loop ops env gen cb n_ctx 0 logits l = (Inr (), l)"
| "gen_loop ops env gen cb n_ctx (Suc n) logits l =
     (case sampler_sample env gen logits (gl_tokens l) (gl_sampler l) of
        (Inl e, g) \<Rightarrow> (Inl e, l\<lparr>gl_sampler := g\<rparr>)
      | (Inr nxt, g) \<Rightarrow>
          let l1 = l\<lparr>gl_sampler := g\<rparr>
          in if bo_is_eog ops nxt (gl_backend l1) then (Inr (), l1)
             else case bo_token_piece ops nxt (gl_backend l1) of
                    Inl e \<Rightarrow> (Inl e, l1)
                  | Inr piece \<Rightarrow>
                      let l2 = l1\<lparr>gl_calls := gl_calls l1 @ [piece]\<rparr>
                      in case cb (gl_calls l1) piece of
                           Inl e \<Rightarrow> (Inl e, l2)
                         | Inr keep_going \<Rightarrow>
                             if \<not> keep_going then (Inr (), l2)
                             else let l3 = l2\<lparr>gl_tokens := gl_tokens l2 @ [nxt]\<rparr>
                                  in if n_ctx \<le> length (gl_tokens l3) then (Inr (), l3)
                                     else if n = 0 then (Inr (), l3)
                                     else case bo_decode_append ops [nxt] (gl_backend l3) of
                                            (Inl e, b) \<Rightarrow> (Inl e, l3\<lparr>gl_backend := b\<rparr>)
                                          | (Inr logits', b) \<Rightarrow> gen_loop ops env gen cb n_ctx n logits' (l3\<lparr>gl_backend := b\<rparr>))"

definition prefill_prompt :: "('b, 'g, 'a) engine_env \<Rightarrow> token list \<Rightarrow> ('b, 'd, 'g, 'a) engine
    \<Rightarrow> (engine_exn + logits) \<times> ('b, 'd, 'g, 'a) engine" where
  "prefill_prompt env tokens e =
     (case (en_prefix_cache e, en_cache e) of
        (Some pc, Some m) \<Rightarrow>
          (case prefill (ee_zstd env) (ee_ops env) pc (ee_write_ok env) (butlast tokens) (en_backend e) m of
             (Inl x, b1, m1) \<Rightarrow> (Inl x, e\<lparr>en_backend := b1, en_cache := Some m1\<rparr>)
           | (Inr _, b1, m1) \<Rightarrow>
               (case bo_decode_append (ee_ops env) [last tokens] b1 of
                  (r, b2) \<Rightarrow> (r, e\<lparr>en_backend := b2, en_cache := Some m1\<rparr>)))
      | _ \<Rightarrow> (case bo_decode (ee_ops env) tokens (en_backend e) of (r, b1) \<Rightarrow> (r, e\<lparr>en_backend := b1\<rparr>)))"

type_synonym ('b, 'd, 'g, 'a) run = "((spec_fault + unit) \<times> bytes list \<times> ('b, 'd, 'g, 'a) engine) option"

definition impl_classic :: "('b, 'g, 'a) engine_env \<Rightarrow> token list \<Rightarrow> piece_callback \<Rightarrow> gen_config \<Rightarrow> bytes list
    \<Rightarrow> ('b, 'd, 'g, 'a) engine \<Rightarrow> ('b, 'd, 'g, 'a) run" where
  "impl_classic env tokens cb gen calls e =
     (case prefill_prompt env tokens e of
        (Inl x, e1) \<Rightarrow> Some (Inl (Threw x), calls, e1)
      | (Inr logits, e1) \<Rightarrow>
          (case gen_loop (ee_ops env) (ee_sampler env) gen cb (bo_context_length (ee_ops env) (en_backend e))
                  (nat (gc_max_tokens gen)) logits
                  \<lparr>gl_tokens = tokens, gl_backend = en_backend e1, gl_sampler = sampler_init (ee_sampler env) gen, gl_calls = calls\<rparr> of
             (Inl x, l) \<Rightarrow> Some (Inl (Threw x), gl_calls l, e1\<lparr>en_backend := gl_backend l\<rparr>)
           | (Inr _, l) \<Rightarrow> Some (Inr (), gl_calls l, e1\<lparr>en_backend := gl_backend l, en_context_tokens := gl_tokens l\<rparr>)))"

definition impl_decoder :: "('b, 'g, 'a) engine_env \<Rightarrow> spec_config \<Rightarrow> ('b, 'd, 'g) decoder \<Rightarrow> token list \<Rightarrow> piece_callback \<Rightarrow> gen_config
    \<Rightarrow> bytes list \<Rightarrow> ('b, 'd, 'g, 'a) engine \<Rightarrow> ('b, 'd, 'g, 'a) run" where
  "impl_decoder env cfg dec tokens cb gen calls e =
     (let ops = ee_ops env; b = en_backend e;
          on_token = (\<lambda>out t. case bo_token_piece ops t b of Inl x \<Rightarrow> Inl x | Inr p \<Rightarrow> cb (calls @ pieces ops b out) p)
      in case generate_stream cfg ops (en_draft_ops e) (ee_sampler env) tokens on_token gen (dec\<lparr>sp_target := b\<rparr>) of
           None \<Rightarrow> None
         | Some (r, dec') \<Rightarrow>
             let e1 = e\<lparr>en_backend := sp_target dec', en_decoder := Some (cfg, dec')\<rparr>;
                 calls' = calls @ pieces ops b (sp_out dec')
             in case r of
                  Inl f \<Rightarrow> Some (Inl f, calls', e1)
                | Inr _ \<Rightarrow> Some (Inr (), calls', e1\<lparr>en_context_tokens := tokens @ sp_out dec'\<rparr>))"

text \<open>
  Parallel mode, as its caller sees it: the request is submitted, the worker is notified, and the
  caller sleeps until the worker has finished the request.  When the wake-ups of the request are
  lost the call never returns (\<open>None\<close>), whatever the scheduler does; otherwise the worker has
  driven the scheduler.  The caller also leaves its wait when the engine is being destroyed,
  which only a call running into its own destructor can see.
\<close>

definition impl_parallel :: "('b, 'g, 'a) engine_env \<Rightarrow> ('b, 'g) scheduler \<Rightarrow> token list \<Rightarrow> piece_callback \<Rightarrow> gen_config
    \<Rightarrow> bytes list \<Rightarrow> ('b, 'd, 'g, 'a) engine \<Rightarrow> ('b, 'd, 'g, 'a) run" where
  "impl_parallel env sch tokens cb gen calls e =
     (let ops = ee_ops env; b = en_backend e; st = sch\<lparr>sc_backend := b\<rparr>;
          on_token = (\<lambda>made t. case bo_token_piece ops t b of
             Inl x \<Rightarrow> Inl x | Inr p \<Rightarrow> cb (calls @ pieces ops b (delivered (sc_next_id st) made)) p)
      in case submit (ee_sampler env) tokens gen (Some on_token) st of
           Inl x \<Rightarrow> Some (Inl (Threw x), calls, e)
         | Inr (i, st1) \<Rightarrow>
             (case if ee_wakes env i then run_until_idle ops (ee_sampler env) st1 else None of
                None \<Rightarrow> None
              | Some st2 \<Rightarrow>
                  Some (case error_of st2 i of Some x \<Rightarrow> Inl (Threw x) | None \<Rightarrow> Inr (),
                        calls @ pieces ops b (delivered i (sc_log st2)),
                        e\<lparr>en_scheduler := Some st2, en_backend := sc_backend st2\<rparr>)))"

definition generate_stream_impl :: "('b, 'g, 'a) engine_env \<Rightarrow> bytes \<Rightarrow> piece_callback \<Rightarrow> gen_config \<Rightarrow> ('b, 'd, 'g, 'a) engine
    \<Rightarrow> ('b, 'd, 'g, 'a) run" where
  "generate_stream_impl env prompt cb gen e =
     (case bo_tokenize (ee_ops env) prompt True (en_backend e) of
        Inl x \<Rightarrow> Some (Inl (Threw x), [], e)
      | Inr tokens \<Rightarrow>
          if tokens = [] then Some (Inl (Threw (EngineError ''prompt tokenized to zero tokens'')), [], e)
          else let n_ctx = bo_context_length (ee_ops env) (en_backend e)
          in if n_ctx < length tokens then
               Some (Inl (Threw (EngineError (''prompt of '' @ show_nat (length tokens) @ '' tokens exceeds context length '' @ show_nat n_ctx))), [], e)
             else let start = (\<lambda>calls. case en_scheduler e of
                        Some sch \<Rightarrow> impl_parallel env sch tokens cb gen calls e
                      | None \<Rightarrow> (case en_decoder e of
                            Some (cfg, dec) \<Rightarrow> impl_decoder env cfg dec tokens cb gen calls e
                          | None \<Rightarrow> impl_classic env tokens cb gen calls e))
                  in if gc_echo_prompt gen
                     then (case cb [] prompt of
                             Inl x \<Rightarrow> Some (Inl (Threw x), [prompt], e)
                           | Inr keep_going \<Rightarrow> if \<not> keep_going then Some (Inr (), [prompt], e) else start [prompt])
                     else start [])"

definition cacheable :: "gen_config \<Rightarrow> bool" where
  "cacheable g \<longleftrightarrow> gc_temperature g \<le> 0"

definition hex_digit :: "nat \<Rightarrow> char" where
  "hex_digit d = (if d < 10 then char_of (48 + d) else char_of (87 + d))"

text \<open>\<open>%016zx\<close>\<close>

definition hex16 :: "u64 \<Rightarrow> bytes" where
  "hex16 h = map (\<lambda>i. hex_digit (unat (drop_bit (4 * i) h AND 0xF))) (rev [0..<16])"

definition cache_key :: "(bytes \<Rightarrow> u64) \<Rightarrow> bytes \<Rightarrow> bytes \<Rightarrow> gen_config \<Rightarrow> bytes" where
  "cache_key hash model_tag prompt g =
     ''resp:'' @ hex16 (hash (model_tag @ [CHR 0x1F] @ show_int (gc_max_tokens g) @ [CHR 0x1F] @ prompt))"

definition engine_generate_stream :: "('b, 'g, 'a) engine_env \<Rightarrow> bytes \<Rightarrow> piece_callback option \<Rightarrow> gen_config
    \<Rightarrow> ('b, 'd, 'g, 'a) engine \<Rightarrow> ('b, 'd, 'g, 'a) run" where
  "engine_generate_stream env prompt callback gen e =
     (case callback of
        None \<Rightarrow> Some (Inl (Threw (EngineError ''callback is null'')), [], e)
      | Some cb \<Rightarrow>
          (case (if cacheable gen \<and> \<not> gc_echo_prompt gen then en_arca e else None) of
             None \<Rightarrow> generate_stream_impl env prompt cb gen e
           | Some a \<Rightarrow>
               let key = cache_key (ee_hash env) (en_model_tag e) prompt gen
               in case ar_get (ee_arca env) key a of
                    (Some hit, a1) \<Rightarrow>
                      Some (case cb [] hit of Inl x \<Rightarrow> Inl (Threw x) | Inr _ \<Rightarrow> Inr (), [hit], e\<lparr>en_arca := Some a1\<rparr>)
                  | (None, a1) \<Rightarrow>
                      (case generate_stream_impl env prompt cb gen (e\<lparr>en_arca := Some a1\<rparr>) of
                         None \<Rightarrow> None
                       | Some (Inl f, calls, e1) \<Rightarrow> Some (Inl f, calls, e1)
                       | Some (Inr _, calls, e1) \<Rightarrow>
                           Some (Inr (), calls, e1\<lparr>en_arca := Some (ar_set (ee_arca env) key (concat calls) a1)\<rparr>))))"

definition engine_generate :: "('b, 'g, 'a) engine_env \<Rightarrow> bytes \<Rightarrow> gen_config \<Rightarrow> ('b, 'd, 'g, 'a) engine
    \<Rightarrow> ((spec_fault + bytes) \<times> ('b, 'd, 'g, 'a) engine) option" where
  "engine_generate env prompt gen e =
     (case engine_generate_stream env prompt (Some (\<lambda>_ _. Inr True)) gen e of
        None \<Rightarrow> None
      | Some (Inl f, _, e1) \<Rightarrow> Some (Inl f, e1)
      | Some (Inr _, calls, e1) \<Rightarrow> Some (Inr (concat calls), e1))"

section \<open>The Conclave\<close>

text \<open>What the attempts share: the answers, the tally of final numbers, the stop flag and the winner.\<close>

record conclave =
  cv_outs :: "bytes list"
  cv_tally :: "(bytes, int) smap"
  cv_stop :: bool
  cv_winner :: int

definition conclave_open :: "nat \<Rightarrow> conclave" where
  "conclave_open n = \<lparr>cv_outs = replicate n [], cv_tally = [], cv_stop = False, cv_winner = - 1\<rparr>"

text \<open>The section of \<open>run_attempt\<close> under the tally mutex.\<close>

definition deposit :: "nat \<Rightarrow> nat \<Rightarrow> bytes \<Rightarrow> conclave \<Rightarrow> conclave" where
  "deposit n i out cv =
     (let cv1 = cv\<lparr>cv_outs := (cv_outs cv)[i := out]\<rparr>
      in if cv_stop cv1 then cv1
         else let num = final_number out
              in if num = [] then cv1
                 else let votes = (case map_find (<) num (cv_tally cv1) of None \<Rightarrow> 0 | Some k \<Rightarrow> k) + 1;
                          cv2 = cv1\<lparr>cv_tally := map_put (<) num votes (cv_tally cv1)\<rparr>
                      in if int n < votes * 2 then cv2\<lparr>cv_winner := int i, cv_stop := True\<rparr> else cv2)"

fun best_loop :: "('b, 'g, 'a) engine_env \<Rightarrow> bytes \<Rightarrow> gen_config \<Rightarrow> nat \<Rightarrow> nat list \<Rightarrow> conclave \<Rightarrow> ('b, 'd, 'g, 'a) engine
    \<Rightarrow> ((spec_fault + conclave) \<times> ('b, 'd, 'g, 'a) engine) option" where
  "best_loop env prompt gen n [] cv e = Some (Inr cv, e)"
| "best_loop env prompt gen n (i # attempts) cv e =
     (if cv_stop cv then Some (Inr cv, e)
      else case engine_generate_stream env prompt (Some (\<lambda>_ _. Inr (\<not> cv_stop cv))) (conclave_attempt gen (int i)) e of
             None \<Rightarrow> None
           | Some (Inl f, _, e1) \<Rightarrow> Some (Inl f, e1)
           | Some (Inr _, calls, e1) \<Rightarrow> best_loop env prompt gen n attempts (deposit n i (concat calls) cv) e1)"

definition votes_for :: "bytes list \<Rightarrow> nat \<Rightarrow> int" where
  "votes_for outs i =
     (let num = final_number (outs ! i)
      in if num = [] then 1 else int (length (filter (\<lambda>out. final_number out = num) outs)))"

definition conclave_verdict :: "conclave \<Rightarrow> bytes \<times> int" where
  "conclave_verdict cv =
     (let elected = (if 0 \<le> cv_winner cv then nat (cv_winner cv) else elect_numeric (cv_outs cv))
      in (cv_outs cv ! elected, votes_for (cv_outs cv) elected))"

text \<open>
  \<open>generate_best\<close> on an engine without scheduler, where the attempts run one after the other;
  the result is the answer and the number of votes.  With a scheduler the attempts run in
  threads and \<open>deposit\<close> in any order.
\<close>

definition generate_best :: "('b, 'g, 'a) engine_env \<Rightarrow> bytes \<Rightarrow> gen_config \<Rightarrow> int \<Rightarrow> ('b, 'd, 'g, 'a) engine
    \<Rightarrow> ((spec_fault + bytes \<times> int) \<times> ('b, 'd, 'g, 'a) engine) option" where
  "generate_best env prompt gen n e =
     (if n \<le> 1 then
        (case engine_generate env prompt gen e of
           None \<Rightarrow> None | Some (Inl f, e1) \<Rightarrow> Some (Inl f, e1) | Some (Inr out, e1) \<Rightarrow> Some (Inr (out, 1), e1))
      else (case best_loop env prompt gen (nat n) [0..<nat n] (conclave_open (nat n)) e of
              None \<Rightarrow> None
            | Some (Inl f, e1) \<Rightarrow> Some (Inl f, e1)
            | Some (Inr cv, e1) \<Rightarrow> Some (Inr (conclave_verdict cv), e1)))"

section \<open>Sessions, warm-up and queries\<close>

definition create_session :: "('b, 'd, 'g, 'a) engine \<Rightarrow> bytes \<times> ('b, 'd, 'g, 'a) engine" where
  "create_session e =
     (let i = ''sess-'' @ show_nat (unat (en_next_session_id e))
      in (i, e\<lparr>en_next_session_id := en_next_session_id e + 1, en_sessions := map_emplace (<) i [] (en_sessions e)\<rparr>))"

definition session_cache_key :: "bytes \<Rightarrow> bytes \<Rightarrow> token list \<Rightarrow> bytes" where
  "session_cache_key model_tag session_id tokens = make_key (model_tag @ ''/session/'' @ session_id) tokens"

definition unknown_session :: "bytes \<Rightarrow> engine_exn" where
  "unknown_session i = EngineError (''unknown session: '' @ i)"

definition save_session :: "('b, 'g, 'a) engine_env \<Rightarrow> bool \<Rightarrow> bytes \<Rightarrow> ('b, 'd, 'g, 'a) engine
    \<Rightarrow> (engine_exn + unit) \<times> ('b, 'd, 'g, 'a) engine" where
  "save_session env write_ok i e =
     (case map_find (<) i (en_sessions e) of
        None \<Rightarrow> (Inl (unknown_session i), e)
      | Some _ \<Rightarrow>
          let tokens = en_context_tokens e;
              e1 = e\<lparr>en_sessions := map_put (<) i tokens (en_sessions e)\<rparr>
          in case en_cache e1 of
               None \<Rightarrow> (Inr (), e1)
             | Some m \<Rightarrow>
                 if tokens = [] then (Inr (), e1)
                 else (case store_state (ee_zstd env) (ee_ops env) write_ok (session_cache_key (en_model_tag e1) i tokens)
                              (en_backend e1) (of_nat (length tokens)) m of
                         (Inl x, m1) \<Rightarrow> (Inl x, e1\<lparr>en_cache := Some m1\<rparr>)
                       | (Inr _, m1) \<Rightarrow> (Inr (), e1\<lparr>en_cache := Some m1\<rparr>)))"

definition restore_session :: "('b, 'g, 'a) engine_env \<Rightarrow> bytes \<Rightarrow> token list \<Rightarrow> ('b, 'd, 'g, 'a) engine
    \<Rightarrow> bool \<times> ('b, 'd, 'g, 'a) engine" where
  "restore_session env i tokens e =
     (case en_cache e of
        None \<Rightarrow> (False, e)
      | Some m \<Rightarrow>
          (case load_state (ee_zstd env) (ee_ops env) (session_cache_key (en_model_tag e) i tokens) (en_backend e) m of
             (hit, b1, m1) \<Rightarrow> (hit, e\<lparr>en_backend := b1, en_cache := Some m1\<rparr>)))"

definition load_session :: "('b, 'g, 'a) engine_env \<Rightarrow> bytes \<Rightarrow> ('b, 'd, 'g, 'a) engine
    \<Rightarrow> (engine_exn + unit) \<times> ('b, 'd, 'g, 'a) engine" where
  "load_session env i e =
     (case map_find (<) i (en_sessions e) of
        None \<Rightarrow> (Inl (unknown_session i), e)
      | Some tokens \<Rightarrow>
          if tokens = [] then (Inr (), e\<lparr>en_context_tokens := tokens\<rparr>)
          else (case restore_session env i tokens e of
                  (True, e1) \<Rightarrow> (Inr (), e1\<lparr>en_context_tokens := tokens\<rparr>)
                | (False, e1) \<Rightarrow>
                    (case bo_decode (ee_ops env) tokens (en_backend e1) of
                       (Inl x, b) \<Rightarrow> (Inl x, e1\<lparr>en_backend := b\<rparr>)
                     | (Inr _, b) \<Rightarrow> (Inr (), e1\<lparr>en_backend := b, en_context_tokens := tokens\<rparr>))))"

definition delete_session :: "bytes \<Rightarrow> ('b, 'd, 'g, 'a) engine \<Rightarrow> (engine_exn + unit) \<times> ('b, 'd, 'g, 'a) engine" where
  "delete_session i e =
     (if map_find (<) i (en_sessions e) = None then (Inl (unknown_session i), e)
      else (Inr (), e\<lparr>en_sessions := map_erase (<) i (en_sessions e)\<rparr>))"

definition engine_warm :: "('b, 'g, 'a) engine_env \<Rightarrow> bytes \<Rightarrow> ('b, 'd, 'g, 'a) engine
    \<Rightarrow> (engine_exn + int) \<times> ('b, 'd, 'g, 'a) engine" where
  "engine_warm env prompt e =
     (case bo_tokenize (ee_ops env) prompt True (en_backend e) of
        Inl x \<Rightarrow> (Inl x, e)
      | Inr tokens \<Rightarrow>
          if tokens = [] then (Inl (EngineError ''prompt tokenized to zero tokens''), e)
          else let n_ctx = bo_context_length (ee_ops env) (en_backend e)
          in if n_ctx < length tokens then
               (Inl (EngineError (''prompt of '' @ show_nat (length tokens) @ '' tokens exceeds context length '' @ show_nat n_ctx)), e)
             else (case (en_prefix_cache e, en_cache e) of
                     (Some pc, Some m) \<Rightarrow>
                       (case prefill (ee_zstd env) (ee_ops env) pc (ee_write_ok env) tokens (en_backend e) m of
                          (Inl x, b1, m1) \<Rightarrow> (Inl x, e\<lparr>en_backend := b1, en_cache := Some m1\<rparr>)
                        | (Inr _, b1, m1) \<Rightarrow> (Inr (int (length tokens)), e\<lparr>en_backend := b1, en_cache := Some m1\<rparr>))
                   | _ \<Rightarrow> (Inr (int (length tokens)), e)))"

definition count_tokens :: "('b, 'g, 'a) engine_env \<Rightarrow> bytes \<Rightarrow> ('b, 'd, 'g, 'a) engine \<Rightarrow> engine_exn + int" where
  "count_tokens env txt e =
     (case bo_tokenize (ee_ops env) txt True (en_backend e) of Inl x \<Rightarrow> Inl x | Inr tokens \<Rightarrow> Inr (int (length tokens)))"

definition context_size :: "('b, 'g, 'a) engine_env \<Rightarrow> ('b, 'd, 'g, 'a) engine \<Rightarrow> int" where
  "context_size env e = int (bo_context_length (ee_ops env) (en_backend e))"

definition vocab_size :: "('b, 'g, 'a) engine_env \<Rightarrow> ('b, 'd, 'g, 'a) engine \<Rightarrow> int" where
  "vocab_size env e = bo_vocab_size (ee_ops env) (en_backend e)"

definition engine_format_chat :: "('b, 'g, 'a) engine_env \<Rightarrow> bytes \<Rightarrow> ('b, 'd, 'g, 'a) engine \<Rightarrow> bytes" where
  "engine_format_chat env user_message e = bo_format_chat (ee_ops env) user_message (en_backend e)"

definition engine_format_messages :: "('b, 'g, 'a) engine_env \<Rightarrow> chat_message list \<Rightarrow> ('b, 'd, 'g, 'a) engine \<Rightarrow> bytes" where
  "engine_format_messages env messages e = bo_format_chat_messages (ee_ops env) messages (en_backend e)"

definition speculative_metrics :: "('b, 'd, 'g, 'a) engine \<Rightarrow> spec_metrics option" where
  "speculative_metrics e = map_option (\<lambda>(cfg, dec). sp_metrics dec) (en_decoder e)"

definition cache_stats_of :: "('b, 'd, 'g, 'a) engine \<Rightarrow> cache_stats option" where
  "cache_stats_of e = map_option cm_stats (en_cache e)"

definition parallel_capable :: "('b, 'd, 'g, 'a) engine \<Rightarrow> bool" where
  "parallel_capable e \<longleftrightarrow> en_scheduler e \<noteq> None"

section \<open>The classic loop is the reference generation\<close>

lemma real_ops_queries:
  "bo_tokenize (real_ops api) txt sp b = real_tokenize api txt sp" "bo_token_piece (real_ops api) t b = real_token_piece api t"
  "bo_context_length (real_ops api) b = llama_n_ctx api" "bo_is_eog (real_ops api) t b = llama_vocab_is_eog api t"
  by (simp_all add: real_ops_def)

lemma pieces_simps [simp]:
  "pieces ops b [] = []" "pieces ops b (ts @ us) = pieces ops b ts @ pieces ops b us"
  "pieces ops b [t] = (case bo_token_piece ops t b of Inl _ \<Rightarrow> [] | Inr p \<Rightarrow> [p])"
  by (simp_all add: pieces_def)

text \<open>Why a generation that returned has ended.\<close>

definition gen_done :: "piece_callback \<Rightarrow> 'g sampler_env \<Rightarrow> (token list \<Rightarrow> logits) \<Rightarrow> (token \<Rightarrow> bool) \<Rightarrow> gen_config \<Rightarrow> nat \<Rightarrow> token list
    \<Rightarrow> token list \<Rightarrow> bytes list \<Rightarrow> bool" where
  "gen_done cb env model eog gen n_ctx prompt ts calls \<longleftrightarrow> ref_stop env model eog gen n_ctx prompt ts \<or> gc_max_tokens gen \<le> 0
     \<or> (calls \<noteq> [] \<and> cb (butlast calls) (last calls) = Inr False)"

text \<open>The state of the loop after the tokens \<open>ts\<close> were delivered and decoded.\<close>

definition gen_ready :: "'g sampler_env \<Rightarrow> (token list \<Rightarrow> logits) \<Rightarrow> (token \<Rightarrow> bool) \<Rightarrow> gen_config \<Rightarrow> nat \<Rightarrow> token list
    \<Rightarrow> token list \<Rightarrow> ('b, 'g) gen_local \<Rightarrow> bool" where
  "gen_ready env model eog gen n_ctx prompt ts l \<longleftrightarrow> gl_tokens l = prompt @ ts
     \<and> ref_after env model gen prompt (length ts) = Some (prompt @ ts, gl_sampler l) \<and> list_all (\<lambda>t. \<not> eog t) ts
     \<and> (ts \<noteq> [] \<longrightarrow> int (length ts) < gc_max_tokens gen \<and> length prompt + length ts < n_ctx)"

lemma gen_ready_prefix: "gen_ready env model eog gen n_ctx prompt ts l \<Longrightarrow> ref_prefix env model eog gen n_ctx prompt ts"
  by (auto simp: gen_ready_def ref_prefix_def)

lemma gen_ready_snoc:
  assumes "gen_ready env model eog gen n_ctx prompt ts l"
    and "sampler_sample env gen (model (gl_tokens l)) (gl_tokens l) (gl_sampler l) = (Inr t, g)" "\<not> eog t"
  shows "ref_prefix env model eog gen n_ctx prompt (ts @ [t])"
    and "ref_after env model gen prompt (Suc (length ts)) = Some (prompt @ ts @ [t], g)"
  using assms ref_after_step [of env model gen prompt "length ts" "prompt @ ts" "gl_sampler l" t g]
  by (auto simp: gen_ready_def ref_prefix_def)

context model_backend
begin

lemma gen_loop_run:
  assumes piece: "\<And>t b. bo_token_piece ops t b = bo_token_piece ops t b0"
    and "gen_ready env model eog gen n_ctx prompt ts l" "ok (gl_backend l)" "kv (gl_backend l) = gl_tokens l"
    and "n = nat (gc_max_tokens gen) - length ts" "gl_calls l = calls0 @ pieces ops b0 ts"
    and "gen_loop ops env gen cb n_ctx n (model (gl_tokens l)) l = (r, l')"
  shows "\<exists>us. ref_prefix env model eog gen n_ctx prompt us \<and> gl_calls l' = calls0 @ pieces ops b0 us
    \<and> (r = Inr () \<longrightarrow> gen_done cb env model eog gen n_ctx prompt us (gl_calls l')
         \<and> (gl_tokens l' = prompt @ us \<or> gl_tokens l' = prompt @ butlast us) \<and> ok (gl_backend l')
         \<and> (kv (gl_backend l') = gl_tokens l' \<or> kv (gl_backend l') = butlast (gl_tokens l')))"
  using assms(2-7)
proof (induction n arbitrary: ts l)
  case 0
  then have "gc_max_tokens gen \<le> int (length ts)" by simp
  then have "gc_max_tokens gen \<le> 0" using 0(1) by (cases "ts = []") (auto simp: gen_ready_def)
  then show ?case using 0 gen_ready_prefix [OF 0(1)] by (intro exI [of _ ts]) (auto simp: gen_done_def gen_ready_def)
next
  case (Suc n)
  note ready = Suc.prems(1)
  obtain res g where smp: "sampler_sample env gen (model (gl_tokens l)) (gl_tokens l) (gl_sampler l) = (res, g)" by fastforce
  have here: ?case if "gl_calls l' = gl_calls l" "r = Inr () \<Longrightarrow> ref_stop env model eog gen n_ctx prompt ts"
      "gl_tokens l' = gl_tokens l" "gl_backend l' = gl_backend l"
    using that Suc.prems gen_ready_prefix [OF ready] by (intro exI [of _ ts]) (auto simp: gen_done_def gen_ready_def)
  show ?case
  proof (cases res)
    case (Inl e)
    then show ?thesis using Suc.prems(6) smp by (intro here) auto
  next
    case (Inr t)
    note smp = smp [unfolded Inr]
    show ?thesis
    proof (cases "eog t")
      case True
      have "ref_stop env model eog gen n_ctx prompt ts"
        using ready smp True by (auto simp: ref_stop_def gen_ready_def)
      then show ?thesis using Suc.prems(6) smp True by (intro here) (auto simp: eog_same)
    next
      case False
      note more = gen_ready_snoc [OF ready smp False]
      show ?thesis
      proof (cases "bo_token_piece ops t b0")
        case (Inl e)
        then have "r = Inl e" "l' = l\<lparr>gl_sampler := g\<rparr>" using Suc.prems(6) smp False piece [of t] by (auto simp: eog_same)
        then show ?thesis by (intro here) auto
      next
        case (Inr p)
        let ?us = "ts @ [t]" and ?l2 = "l\<lparr>gl_sampler := g, gl_calls := gl_calls l @ [p]\<rparr>"
        have calls: "gl_calls l @ [p] = calls0 @ pieces ops b0 ?us" using Suc.prems(5) Inr by simp
        let ?l3 = "?l2\<lparr>gl_tokens := gl_tokens l @ [t]\<rparr>"
        have body: "(case cb (gl_calls l) p of Inl e \<Rightarrow> (Inl e, ?l2)
            | Inr keep_going \<Rightarrow> if \<not> keep_going then (Inr (), ?l2)
              else if n_ctx \<le> length (gl_tokens ?l3) then (Inr (), ?l3) else if n = 0 then (Inr (), ?l3)
              else case bo_decode_append ops [t] (gl_backend l) of (Inl e, b) \<Rightarrow> (Inl e, ?l3\<lparr>gl_backend := b\<rparr>)
                   | (Inr logits', b) \<Rightarrow> gen_loop ops env gen cb n_ctx n logits' (?l3\<lparr>gl_backend := b\<rparr>)) = (r, l')"
          using Suc.prems(6) smp False Inr piece [of t]
          by (cases "cb (gl_calls l) p") (auto simp: eog_same Let_def split: if_splits)
        have len: "length ts < nat (gc_max_tokens gen)" using Suc.prems(4) by simp
        consider (threw) e where "cb (gl_calls l) p = Inl e" | (refused) "cb (gl_calls l) p = Inr False"
          | (full) "cb (gl_calls l) p = Inr True" "n_ctx \<le> length (gl_tokens ?l3) \<or> n = 0"
          | (go) "cb (gl_calls l) p = Inr True" "\<not> (n_ctx \<le> length (gl_tokens ?l3) \<or> n = 0)"
          by (metis (full_types) sum.exhaust)
        then show ?thesis
        proof cases
          case threw
          then show ?thesis using body calls more(1) by (intro exI [of _ ?us]) auto
        next
          case refused
          then have r: "r = Inr ()" "l' = ?l2" using body by auto
          have "gen_done cb env model eog gen n_ctx prompt ?us (gl_calls l')"
            using refused by (simp add: r(2) gen_done_def)
          then show ?thesis using r calls more(1) ready Suc.prems(2,3)
            by (intro exI [of _ ?us]) (simp add: gen_ready_def)
        next
          case full
          then have r: "r = Inr ()" "l' = ?l3" using body by (auto split: if_splits)
          have "ref_stop env model eog gen n_ctx prompt ?us"
            using full(2) ready Suc.prems(4) len by (auto simp: ref_stop_def gen_ready_def)
          then show ?thesis using r calls more(1) ready Suc.prems(2,3)
            by (intro exI [of _ ?us]) (auto simp: gen_done_def gen_ready_def butlast_append)
        next
          case go
          obtain res' b where dec: "bo_decode_append ops [t] (gl_backend l) = (res', b)" by fastforce
          show ?thesis
          proof (cases res')
            case (Inl e)
            then show ?thesis using body go dec calls more(1) by (intro exI [of _ ?us]) (auto split: if_splits)
          next
            case (Inr logits')
            let ?l4 = "?l3\<lparr>gl_backend := b\<rparr>"
            have b: "ok b" "kv b = gl_tokens l @ [t]" "logits' = model (gl_tokens l @ [t])"
              using append_kv [OF Suc.prems(2) dec [unfolded Inr]] append_logits [OF Suc.prems(2) dec [unfolded Inr]] Suc.prems(3)
              by auto
            have loop: "gen_loop ops env gen cb n_ctx n (model (gl_tokens ?l4)) ?l4 = (r, l')"
              using body go dec Inr b(3) by (auto split: if_splits)
            have ready4: "gen_ready env model eog gen n_ctx prompt ?us ?l4"
              using more(2) ready False go(2) Suc.prems(4) len by (auto simp: gen_ready_def)
            have left: "n = nat (gc_max_tokens gen) - length ?us" using Suc.prems(4) by simp
            show ?thesis by (rule Suc.IH [OF ready4 _ _ left _ loop]) (use b calls in simp_all)
          qed
        qed
      qed
    qed
  qed
qed

end

text \<open>The disk cache of an engine holds honest snapshots of the prefixes in use.\<close>

definition cache_ready :: "'c llama_api \<Rightarrow> ('c \<Rightarrow> int \<Rightarrow> token list) \<Rightarrow> ('c real_backend, 'g, 'a) engine_env \<Rightarrow> token list set
    \<Rightarrow> ('c real_backend, 'd, 'g, 'a) engine \<Rightarrow> bool" where
  "cache_ready api toks env U e \<longleftrightarrow>
     (case (en_prefix_cache e, en_cache e) of
        (Some pc, Some m) \<Rightarrow> inj_on (prefix_key pc) U \<and> zstd_lossless (ee_zstd env)
          \<and> small_states (ee_zstd env) (real_ops api) (seq0 toks) \<and> manager_fit m
          \<and> honest (ee_zstd env) (snapshot_of api toks) pc U m
      | _ \<Rightarrow> True)"

lemma prefill_prompt_ok:
  assumes m: "llama_model_ok api toks model" and ops: "ee_ops env = real_ops api"
    and ready: "cache_ready api toks env U e" and U: "\<forall>n\<le>length tokens. take n tokens \<in> U" "length tokens < 2 ^ 32"
    and ne: "tokens \<noteq> []" and run: "prefill_prompt env tokens e = (Inr logits, e1)"
  shows "logits = model tokens \<and> coherent toks (en_backend e1) \<and> seq0 toks (en_backend e1) = tokens
    \<and> cache_ready api toks env U e1 \<and> en_arca e1 = en_arca e \<and> en_sessions e1 = en_sessions e"
proof -
  note mb = real_backend_model [OF m]
  note kvb = model_backend.axioms(1) [OF mb]
  show ?thesis
  proof (cases "\<exists>pc c. en_prefix_cache e = Some pc \<and> en_cache e = Some c")
    case True
    then obtain pc c where pc: "en_prefix_cache e = Some pc" "en_cache e = Some c" by blast
    then obtain k b1 m1 b2 where pre: "prefill (ee_zstd env) (real_ops api) pc (ee_write_ok env) (butlast tokens) (en_backend e) c = (Inr k, b1, m1)"
      and dec: "bo_decode_append (real_ops api) [last tokens] b1 = (Inr logits, b2)"
      and e1: "e1 = e\<lparr>en_backend := b2, en_cache := Some m1\<rparr>"
      using run ops by (auto simp: prefill_prompt_def split: prod.splits sum.splits)
    have laws: "inj_on (prefix_key pc) U" "zstd_lossless (ee_zstd env)" "small_states (ee_zstd env) (real_ops api) (seq0 toks)"
      "manager_fit c" "honest (ee_zstd env) (snapshot_of api toks) pc U c"
      using ready pc by (simp_all add: cache_ready_def)
    have b1: "coherent toks b1" "seq0 toks b1 = butlast tokens" "manager_fit m1" "honest (ee_zstd env) (snapshot_of api toks) pc U m1"
    proof -
      have "\<forall>n\<le>length (butlast tokens). take n (butlast tokens) \<in> U"
        using U(1) by (simp add: butlast_conv_take)
      from kv_backend.prefill_ok [OF kvb this _ laws pre] U(2)
      show "coherent toks b1" "seq0 toks b1 = butlast tokens" "manager_fit m1" "honest (ee_zstd env) (snapshot_of api toks) pc U m1"
        by simp_all
    qed
    show ?thesis
      using model_backend.append_logits [OF mb b1(1) dec] kv_backend.append_kv [OF kvb b1(1) dec] b1 ne laws pc
      by (simp add: e1 cache_ready_def)
  next
    case False
    then obtain b1 where dec: "bo_decode (real_ops api) tokens (en_backend e) = (Inr logits, b1)" and e1: "e1 = e\<lparr>en_backend := b1\<rparr>"
      using run ops by (auto simp: prefill_prompt_def split: prod.splits option.splits)
    show ?thesis
      using model_backend.decode_logits [OF mb dec] kv_backend.decode_kv [OF kvb dec] False
      by (auto simp: e1 cache_ready_def split: option.splits)
  qed
qed

text \<open>What a call that returned went through before one of the three paths.\<close>

lemma stream_impl_start:
  assumes ops: "ee_ops env = real_ops api" and tok: "real_tokenize api prompt True = Inr tokens"
    and run: "generate_stream_impl env prompt cb gen e = Some (Inr (), calls, e')"
  obtains (refused) "calls = [prompt]" "cb [] prompt = Inr False" "e' = e"
  | (start) calls0 where "tokens \<noteq> []" "length tokens \<le> llama_n_ctx api" "calls0 = (if gc_echo_prompt gen then [prompt] else [])"
      "(case en_scheduler e of
          Some sch \<Rightarrow> impl_parallel env sch tokens cb gen calls0 e
        | None \<Rightarrow> (case en_decoder e of
              Some (cfg, dec) \<Rightarrow> impl_decoder env cfg dec tokens cb gen calls0 e
            | None \<Rightarrow> impl_classic env tokens cb gen calls0 e)) = Some (Inr (), calls, e')"
proof -
  define start_at where "start_at calls0 = (case en_scheduler e of
      Some sch \<Rightarrow> impl_parallel env sch tokens cb gen calls0 e
    | None \<Rightarrow> (case en_decoder e of
          Some (cfg, dec) \<Rightarrow> impl_decoder env cfg dec tokens cb gen calls0 e
        | None \<Rightarrow> impl_classic env tokens cb gen calls0 e))" for calls0
  have fits: "tokens \<noteq> []" "length tokens \<le> llama_n_ctx api"
    using run unfolding generate_stream_impl_def ops real_ops_queries tok Let_def sum.case start_at_def [symmetric]
    by (simp_all split: if_splits)
  have go: "(if gc_echo_prompt gen then (case cb [] prompt of Inl x \<Rightarrow> Some (Inl (Threw x), [prompt], e)
      | Inr keep_going \<Rightarrow> if \<not> keep_going then Some (Inr (), [prompt], e) else start_at [prompt]) else start_at [])
      = Some (Inr (), calls, e')"
    using run fits unfolding generate_stream_impl_def ops real_ops_queries tok Let_def sum.case start_at_def [symmetric] by simp
  show thesis
  proof (cases "gc_echo_prompt gen \<and> cb [] prompt = Inr False")
    case True
    with go show thesis by (intro refused) simp_all
  next
    case False
    with go have "start_at (if gc_echo_prompt gen then [prompt] else []) = Some (Inr (), calls, e')"
      by (cases "cb [] prompt") (simp_all split: if_splits)
    with fits show thesis unfolding start_at_def by (intro start) simp_all
  qed
qed

lemma impl_classic_reference:
  assumes m: "llama_model_ok api toks model" and ops: "ee_ops env = real_ops api"
    and ready: "cache_ready api toks env U e" and U: "\<forall>n\<le>length tokens. take n tokens \<in> U" "length tokens < 2 ^ 32"
    and ne: "tokens \<noteq> []" and run: "impl_classic env tokens cb gen calls0 e = Some (Inr (), calls, e')"
  shows "\<exists>ts. ref_prefix (ee_sampler env) model (llama_vocab_is_eog api) gen (llama_n_ctx api) tokens ts
    \<and> calls = calls0 @ pieces (real_ops api) b0 ts
    \<and> gen_done cb (ee_sampler env) model (llama_vocab_is_eog api) gen (llama_n_ctx api) tokens ts calls
    \<and> (en_context_tokens e' = tokens @ ts \<or> en_context_tokens e' = tokens @ butlast ts)
    \<and> coherent toks (en_backend e') \<and> (seq0 toks (en_backend e') = en_context_tokens e' \<or> seq0 toks (en_backend e') = butlast (en_context_tokens e'))
    \<and> cache_ready api toks env U e'"
proof -
  note mb = real_backend_model [OF m]
  obtain logits e1 where pre: "prefill_prompt env tokens e = (Inr logits, e1)"
    using run by (auto simp: impl_classic_def split: prod.splits sum.splits)
  note p = prefill_prompt_ok [OF m ops ready U ne pre]
  let ?l = "\<lparr>gl_tokens = tokens, gl_backend = en_backend e1, gl_sampler = sampler_init (ee_sampler env) gen, gl_calls = calls0\<rparr>"
  obtain l' where loop: "gen_loop (real_ops api) (ee_sampler env) gen cb (llama_n_ctx api) (nat (gc_max_tokens gen)) (model tokens) ?l = (Inr (), l')"
    and e': "calls = gl_calls l'" "e' = e1\<lparr>en_backend := gl_backend l', en_context_tokens := gl_tokens l'\<rparr>"
    using run pre p by (auto simp: impl_classic_def ops real_ops_queries split: prod.splits sum.splits)
  have "gen_ready (ee_sampler env) model (llama_vocab_is_eog api) gen (llama_n_ctx api) tokens [] ?l"
    by (simp add: gen_ready_def)
  from model_backend.gen_loop_run [OF mb _ this, of b0 "nat (gc_max_tokens gen)" calls0 cb "Inr ()" l'] loop p
  obtain ts where "ref_prefix (ee_sampler env) model (llama_vocab_is_eog api) gen (llama_n_ctx api) tokens ts"
    "gl_calls l' = calls0 @ pieces (real_ops api) b0 ts"
    "gen_done cb (ee_sampler env) model (llama_vocab_is_eog api) gen (llama_n_ctx api) tokens ts (gl_calls l')"
    "gl_tokens l' = tokens @ ts \<or> gl_tokens l' = tokens @ butlast ts" "coherent toks (gl_backend l')"
    "seq0 toks (gl_backend l') = gl_tokens l' \<or> seq0 toks (gl_backend l') = butlast (gl_tokens l')"
    by (auto simp: real_ops_queries)
  moreover have "cache_ready api toks env U e'" using p by (simp add: e'(2) cache_ready_def)
  ultimately show ?thesis unfolding e' by (intro exI [of _ ts]) simp
qed

section \<open>The other two paths\<close>

abbreviation accepts :: "piece_callback \<Rightarrow> bool" where
  "accepts cb \<equiv> \<forall>calls p. cb calls p = Inr True"

lemma gen_done_accepts:
  "gen_done cb env model eog gen n_ctx prompt ts calls \<Longrightarrow> accepts cb \<Longrightarrow> 0 < gc_max_tokens gen \<Longrightarrow>
     ref_stop env model eog gen n_ctx prompt ts"
  by (auto simp: gen_done_def)

text \<open>An engine in parallel mode: its scheduler was opened on an empty context and used through the engine.\<close>

definition parallel_ready :: "'c llama_api \<Rightarrow> ('c \<Rightarrow> int \<Rightarrow> token list) \<Rightarrow> ('c real_backend, 'g, 'a) engine_env
    \<Rightarrow> ('c real_backend, 'd, 'g, 'a) engine \<Rightarrow> ('c real_backend, 'g) scheduler \<Rightarrow> bool" where
  "parallel_ready api toks env e sch \<longleftrightarrow> en_scheduler e = Some sch \<and> en_backend e = sc_backend sch
     \<and> (\<exists>b n. sched_reachable (real_ops api) (ee_sampler env) b n sch \<and> (\<forall>i. toks (rb_ctx b) i = []))"

lemma impl_parallel_reference:
  assumes m: "llama_model_ok api toks model" and ops: "ee_ops env = real_ops api" and par: "parallel_ready api toks env e sch"
    and next_id: "sc_next_id sch \<noteq> - 1" and acc: "accepts cb"
    and run: "impl_parallel env sch tokens cb gen calls0 e = Some (Inr (), calls, e')"
  shows "\<exists>ts. ref_prefix (ee_sampler env) model (llama_vocab_is_eog api) gen (llama_n_ctx api) tokens ts
    \<and> ref_stop (ee_sampler env) model (llama_vocab_is_eog api) gen (llama_n_ctx api) tokens ts
    \<and> calls = calls0 @ pieces (real_ops api) b0 ts \<and> (\<exists>sch'. parallel_ready api toks env e' sch')"
proof -
  let ?b = "en_backend e" and ?ops = "real_ops api" and ?eog = "llama_vocab_is_eog api"
  define on_token where "on_token = (\<lambda>made t. case bo_token_piece ?ops t ?b of Inl x \<Rightarrow> Inl x
    | Inr p \<Rightarrow> cb (calls0 @ pieces ?ops ?b (delivered (sc_next_id sch) made)) p)"
  obtain b n where reach: "sched_reachable ?ops (ee_sampler env) b n sch" and empty: "\<forall>i. toks (rb_ctx b) i = []"
    and same: "sch\<lparr>sc_backend := ?b\<rparr> = sch"
    using par by (auto simp: parallel_ready_def)
  obtain i st1 st2 where sub: "submit (ee_sampler env) tokens gen (Some on_token) sch = Inr (i, st1)"
    and idle: "run_until_idle ?ops (ee_sampler env) st1 = Some st2" and err: "error_of st2 i = None"
    and calls: "calls = calls0 @ pieces ?ops ?b (delivered i (sc_log st2))"
    and e': "e' = e\<lparr>en_scheduler := Some st2, en_backend := sc_backend st2\<rparr>"
    using run unfolding impl_parallel_def Let_def ops same on_token_def by (auto split: sum.splits option.splits if_splits)
  define r where "r = last (sc_submitted st1)"
  have r: "r \<in> set (sc_submitted st1)" "rq_id r = i" "rq_gen r = gen" "rq_history r = tokens" "rq_on_token r = on_token"
    using sub by (auto simp: r_def submit_def Let_def split: if_splits)
  have reach1: "sched_reachable ?ops (ee_sampler env) b n st1" by (rule submitted [OF reach next_id sub])
  have reach2: "sched_reachable ?ops (ee_sampler env) b n st2" using run_until_idle_reachable [OF idle] reach1 by blast
  note fin = run_until_idle_finished [OF idle reach1 r(1)]
  have ctx: "sc_n_ctx st2 = llama_n_ctx api" using reachable_n_ctx [OF reach2] by (simp add: real_ops_queries)
  have "trace_ok (ee_sampler env) model ?eog (sc_pending st2 @ sc_active st2) st2"
    using seq_backend.reachable_trace [OF real_backend_seqs [OF m] reach2] empty by simp
  then have follow: "follows (ee_sampler env) model ?eog (llama_n_ctx api) r (delivered i (sc_log st2))"
    "stop_cause (ee_sampler env) model ?eog (llama_n_ctx api) r (delivered i (sc_log st2))"
    using fin err r(2) unfolding trace_ok_def ctx by (auto simp: finished_def error_of_def split: option.splits)
  have "on_token made t \<noteq> Inr False" for made t using acc by (auto simp: on_token_def split: sum.splits)
  then have stop: "ref_stop (ee_sampler env) model ?eog gen (llama_n_ctx api) tokens (delivered i (sc_log st2))"
    using follow(2) by (auto simp: stop_cause_def r)
  have "pieces ?ops ?b ts = pieces ?ops b0 ts" for ts by (simp add: pieces_def real_ops_queries)
  moreover have "parallel_ready api toks env e' st2" using reach2 empty by (auto simp: parallel_ready_def e')
  ultimately show ?thesis using follow(1) stop calls by (auto simp: follows_def r)
qed

lemma impl_decoder_reference:
  assumes m: "llama_model_ok api toks model" and ops: "ee_ops env = real_ops api"
    and short: "short_model model" "short_logits (en_draft_ops e)" "uniform_ok (ee_sampler env)"
    and greedy: "gc_temperature gen \<le> 0" "0 < gc_max_tokens gen" "tokens \<noteq> []" "length tokens < llama_n_ctx api" and acc: "accepts cb"
    and run: "impl_decoder env cfg dec tokens cb gen calls0 e = Some (Inr (), calls, e')"
  shows "\<exists>ts. ref_prefix (ee_sampler env) model (llama_vocab_is_eog api) gen (llama_n_ctx api) tokens ts
    \<and> ref_stop (ee_sampler env) model (llama_vocab_is_eog api) gen (llama_n_ctx api) tokens ts
    \<and> calls = calls0 @ pieces (real_ops api) b0 ts"
proof -
  let ?b = "en_backend e" and ?ops = "real_ops api" and ?eog = "llama_vocab_is_eog api"
  define on_token where "on_token = (\<lambda>out t. case bo_token_piece ?ops t ?b of Inl x \<Rightarrow> Inl x | Inr p \<Rightarrow> cb (calls0 @ pieces ?ops ?b out) p)"
  obtain dec' where gen: "generate_stream cfg ?ops (en_draft_ops e) (ee_sampler env) tokens on_token gen (dec\<lparr>sp_target := ?b\<rparr>) = Some (Inr (), dec')"
    and calls: "calls = calls0 @ pieces ?ops ?b (sp_out dec')"
    using run unfolding impl_decoder_def Let_def ops on_token_def by (auto split: option.splits sum.splits)
  note g = generate_stream_greedy [OF m short(1,2,3) greedy(1,3) less_imp_le [OF greedy(4)] gen]
  have "on_token made t \<noteq> Inr False" for made t using acc by (auto simp: on_token_def split: sum.splits)
  with g have "ref_prefix (ee_sampler env) model ?eog gen (llama_n_ctx api) tokens (sp_out dec')"
    "ref_stop (ee_sampler env) model ?eog gen (llama_n_ctx api) tokens (sp_out dec')"
    using greedy_ref_prefix [OF greedy(1) short(1)] spec_stop_ref [OF greedy(1) short(1) _ _ greedy(2,4)] by blast+
  moreover have "pieces ?ops ?b ts = pieces ?ops b0 ts" for ts by (simp add: pieces_def real_ops_queries)
  ultimately show ?thesis using calls by auto
qed

end
