(* ===== verification/Engine_Correct.thy ===== *)
theory Engine_Correct
  imports Engine
begin

text \<open>
  What the engine promises its callers: a generation delivers the pieces of the reference
  generation, in each of the three modes of decoding and so the same ones in all of them; it
  always returns; the Conclave's early stop elects an answer no straggler could have beaten;
  sessions come back as they were saved.
\<close>

section \<open>Every mode generates the reference\<close>

lemma uncached_stream:
  "en_arca e = None \<or> \<not> cacheable gen \<or> gc_echo_prompt gen \<Longrightarrow>
     engine_generate_stream env prompt (Some cb) gen e = generate_stream_impl env prompt cb gen e"
  by (auto simp: engine_generate_stream_def)

text \<open>
  An engine in one of its modes, ready for a prompt: the scheduler was driven through the
  engine since it was opened; the disk cache holds honest snapshots; the speculative decoder
  needs a greedy request and room for one token.
\<close>

definition mode_ready :: "'c llama_api \<Rightarrow> ('c \<Rightarrow> int \<Rightarrow> token list) \<Rightarrow> (token list \<Rightarrow> logits) \<Rightarrow> ('c real_backend, 'g, 'a) engine_env
    \<Rightarrow> token list set \<Rightarrow> gen_config \<Rightarrow> token list \<Rightarrow> ('c real_backend, 'd, 'g, 'a) engine \<Rightarrow> bool" where
  "mode_ready api toks model env U gen tokens e \<longleftrightarrow>
     (case en_scheduler e of
        Some sch \<Rightarrow> parallel_ready api toks env e sch \<and> sc_next_id sch \<noteq> - 1
      | None \<Rightarrow> (case en_decoder e of
            Some _ \<Rightarrow> gc_temperature gen \<le> 0 \<and> length tokens < llama_n_ctx api \<and> short_model model
              \<and> short_logits (en_draft_ops e) \<and> uniform_ok (ee_sampler env)
          | None \<Rightarrow> cache_ready api toks env U e \<and> (\<forall>n\<le>length tokens. take n tokens \<in> U) \<and> length tokens < 2 ^ 32))"

lemma stream_impl_complete:
  assumes m: "llama_model_ok api toks model" and ops: "ee_ops env = real_ops api" and tok: "real_tokenize api prompt True = Inr tokens"
    and ready: "mode_ready api toks model env U gen tokens e" and acc: "accepts cb" and pos: "0 < gc_max_tokens gen"
    and run: "generate_stream_impl env prompt cb gen e = Some (Inr (), calls, e')"
  shows "\<exists>ts. ref_prefix (ee_sampler env) model (llama_vocab_is_eog api) gen (llama_n_ctx api) tokens ts
    \<and> ref_stop (ee_sampler env) model (llama_vocab_is_eog api) gen (llama_n_ctx api) tokens ts
    \<and> calls = (if gc_echo_prompt gen then [prompt] else []) @ pieces (real_ops api) b0 ts"
  using ops tok run
proof (cases rule: stream_impl_start)
  case refused
  then show ?thesis using acc by simp
next
  case (start calls0)
  show ?thesis
  proof (cases "en_scheduler e")
    case (Some sch)
    then show ?thesis
      using impl_parallel_reference [OF m ops _ _ acc, of e sch tokens gen calls0 calls e' b0] ready start by (auto simp: mode_ready_def)
  next
    case no_sched: None
    show ?thesis
    proof (cases "en_decoder e")
      case (Some cd)
      then show ?thesis
        using impl_decoder_reference [OF m ops _ _ _ _ pos _ _ acc, of e tokens "fst cd" "snd cd" calls0 calls e' b0] ready start no_sched
        by (cases cd) (auto simp: mode_ready_def)
    next
      case None
      then have "impl_classic env tokens cb gen calls0 e = Some (Inr (), calls, e')"
        using start(4) no_sched by simp
      from impl_classic_reference [OF m ops _ _ _ start(1) this, of U b0] show ?thesis
        using ready no_sched None acc pos start(3) by (auto simp: mode_ready_def dest: gen_done_accepts)
    qed
  qed
qed

text \<open>
  C2: the mode of decoding does not show in the answer.  Two engines over the same model --
  classic with or without the disk prefix cache, interleaved by the scheduler, or speculative
  with a draft model or prompt lookup -- that answer the same request with the same sampling
  randomness deliver the same pieces in the same order, provided the callbacks keep accepting.
  Speculation is included for greedy requests whose prompt leaves room in the context.
\<close>

theorem engine_modes_agree:
  assumes "llama_model_ok api toks model" "ee_ops env1 = real_ops api" "ee_ops env2 = real_ops api"
    and "ee_sampler env1 = ee_sampler env2" "real_tokenize api prompt True = Inr tokens"
    and "mode_ready api toks model env1 U1 gen tokens e1" "mode_ready api toks model env2 U2 gen tokens e2"
    and "accepts cb1" "accepts cb2" "0 < gc_max_tokens gen"
    and "generate_stream_impl env1 prompt cb1 gen e1 = Some (Inr (), calls1, e1')"
    and "generate_stream_impl env2 prompt cb2 gen e2 = Some (Inr (), calls2, e2')"
  shows "calls1 = calls2"
proof -
  note run1 = stream_impl_complete [OF assms(1,2,5,6,8,10,11)]
    and run2 = stream_impl_complete [OF assms(1,3,5,7,9,10,12)]
  show ?thesis using run1 [of "en_backend e1"] run2 [of "en_backend e1"] ref_complete_unique by (metis assms(4))
qed

text \<open>
  The classic mode in full.  When a call without a response-cache lookup returns, either the
  callback refused the echoed prompt and nothing else happened, or the pieces delivered after
  the echo are those of a prefix of the reference generation, which stopped at an end token, at
  the token budget, at the end of the context or because the callback refused a piece; the
  engine's context tokens are the prompt and what was kept of the generation, and the KV cache
  holds them, or all but the last one, which was sampled and never decoded.
\<close>

theorem engine_generates_reference:
  assumes "llama_model_ok api toks model" "ee_ops env = real_ops api" "real_tokenize api prompt True = Inr tokens"
    and "en_scheduler e = None" "en_decoder e = None" "en_arca e = None \<or> \<not> cacheable gen \<or> gc_echo_prompt gen"
    and "cache_ready api toks env U e" "\<forall>n\<le>length tokens. take n tokens \<in> U" "length tokens < 2 ^ 32"
    and "engine_generate_stream env prompt (Some cb) gen e = Some (Inr (), calls, e')"
  shows "(calls = [prompt] \<and> cb [] prompt = Inr False \<and> e' = e)
    \<or> (\<exists>ts. calls = (if gc_echo_prompt gen then [prompt] else []) @ pieces (real_ops api) b0 ts
        \<and> ref_prefix (ee_sampler env) model (llama_vocab_is_eog api) gen (llama_n_ctx api) tokens ts
        \<and> gen_done cb (ee_sampler env) model (llama_vocab_is_eog api) gen (llama_n_ctx api) tokens ts calls
        \<and> (en_context_tokens e' = tokens @ ts \<or> en_context_tokens e' = tokens @ butlast ts)
        \<and> (seq0 toks (en_backend e') = en_context_tokens e' \<or> seq0 toks (en_backend e') = butlast (en_context_tokens e'))
        \<and> cache_ready api toks env U e')"
  using assms(2,3,10) unfolding uncached_stream [OF assms(6)]
proof (cases rule: stream_impl_start)
  case (start calls0)
  then have "impl_classic env tokens cb gen calls0 e = Some (Inr (), calls, e')" using assms(4,5) by simp
  from impl_classic_reference [OF assms(1,2,7-9) start(1) this, of b0] start(3) show ?thesis by blast
qed simp

section \<open>When a generation returns\<close>

text \<open>The scheduler of a parallel engine has been used through its interface only.\<close>

definition sched_used :: "('b, 'g, 'a) engine_env \<Rightarrow> ('b, 'd, 'g, 'a) engine \<Rightarrow> bool" where
  "sched_used env e \<longleftrightarrow> (case en_scheduler e of None \<Rightarrow> True
     | Some sch \<Rightarrow> sc_next_id sch \<noteq> - 1 \<and> (\<exists>b n. sched_reachable (ee_ops env) (ee_sampler env) b n (sch\<lparr>sc_backend := en_backend e\<rparr>)))"

text \<open>In parallel mode, the interleaving delivers the wake-ups of the next request.\<close>

definition wakes_next :: "('b, 'g, 'a) engine_env \<Rightarrow> ('b, 'd, 'g, 'a) engine \<Rightarrow> bool" where
  "wakes_next env e \<longleftrightarrow> (case en_scheduler e of None \<Rightarrow> True | Some sch \<Rightarrow> ee_wakes env (sc_next_id sch))"

lemma submit_id: "submit env prompt gen cb st = Inr (i, st') \<Longrightarrow> i = sc_next_id st"
  by (auto simp: submit_def Let_def split: if_splits option.splits)

lemma impl_classic_total: "impl_classic env tokens cb gen calls e \<noteq> None"
  by (simp add: impl_classic_def split: prod.splits sum.splits)

lemma impl_decoder_total: "impl_decoder env cfg dec tokens cb gen calls e \<noteq> None"
proof -
  have "generate_stream cfg tops dops smp prompt callback g st \<noteq> None" for cfg tops dops smp prompt callback g st
    using generate_stream_total by (metis option.distinct(1))
  then show ?thesis by (simp add: impl_decoder_def Let_def split: option.splits sum.splits)
qed

lemma impl_parallel_total:
  assumes "sched_reachable (ee_ops env) (ee_sampler env) b n (sch\<lparr>sc_backend := en_backend e\<rparr>)" "sc_next_id sch \<noteq> - 1"
    "ee_wakes env (sc_next_id sch)"
  shows "impl_parallel env sch tokens cb gen calls e \<noteq> None"
proof -
  have "run_until_idle (ee_ops env) (ee_sampler env) st1 \<noteq> None"
    if "submit (ee_sampler env) tokens gen cbk (sch\<lparr>sc_backend := en_backend e\<rparr>) = Inr (i, st1)" for cbk i st1
    using submitted [OF assms(1) _ that] assms(2) run_until_idle_total [OF sched_reachable_ok] by fastforce
  then show ?thesis using assms(3)
    by (fastforce simp: impl_parallel_def Let_def split: sum.splits option.splits if_splits dest: submit_id)
qed

lemma stream_impl_total: "sched_used env e \<Longrightarrow> wakes_next env e \<Longrightarrow> generate_stream_impl env prompt cb gen e \<noteq> None"
  using impl_classic_total impl_decoder_total impl_parallel_total
  by (auto simp: generate_stream_impl_def sched_used_def wakes_next_def Let_def split: sum.splits option.splits)

lemma engine_generate_stream_total: "sched_used env e \<Longrightarrow> wakes_next env e \<Longrightarrow> engine_generate_stream env prompt callback gen e \<noteq> None"
proof (cases callback)
  case (Some cb)
  assume used: "sched_used env e" "wakes_next env e"
  have "generate_stream_impl env prompt cb gen (e\<lparr>en_arca := a\<rparr>) \<noteq> None" for a
    using used by (intro stream_impl_total) (auto simp: sched_used_def wakes_next_def split: option.splits)
  then show ?thesis using stream_impl_total [OF used] Some
    by (auto simp: engine_generate_stream_def Let_def simp del: not_None_eq split: option.splits prod.splits sum.splits)
qed (simp add: engine_generate_stream_def)

lemma no_scheduler_stays:
  "engine_generate_stream env prompt callback gen e = Some (r, calls, e') \<Longrightarrow> en_scheduler e = None \<Longrightarrow> en_scheduler e' = None"
  by (auto simp: engine_generate_stream_def generate_stream_impl_def impl_classic_def impl_decoder_def prefill_prompt_def Let_def
      split: option.splits prod.splits sum.splits if_splits)

lemma best_loop_total: "en_scheduler e = None \<Longrightarrow> best_loop env prompt gen n attempts cv e \<noteq> None"
proof (induction attempts arbitrary: cv e)
  case (Cons i attempts)
  have "engine_generate_stream env prompt callback g e \<noteq> None" for callback g
    using Cons.prems by (intro engine_generate_stream_total) (simp_all add: sched_used_def wakes_next_def)
  moreover have "best_loop env prompt gen n attempts cv' e1 \<noteq> None"
    if "engine_generate_stream env prompt callback g e = Some (r, calls, e1)" for callback g r calls e1 cv'
    using no_scheduler_stays [OF that Cons.prems] by (rule Cons.IH)
  ultimately have gen: "engine_generate_stream env prompt callback g e \<noteq> None"
    and rest: "engine_generate_stream env prompt callback g e = Some (r, calls, e1) \<Longrightarrow> best_loop env prompt gen n attempts cv' e1 \<noteq> None"
    for callback g r calls e1 cv' by blast+
  obtain r calls e1 where run: "engine_generate_stream env prompt (Some (\<lambda>_ _. Inr (\<not> cv_stop cv))) (conclave_attempt gen (int i)) e = Some (r, calls, e1)"
    using gen by (metis not_None_eq prod_cases3)
  show ?case unfolding best_loop.simps run using rest [OF run] by (cases r) (simp_all del: not_None_eq)
qed simp

text \<open>
  C6: when a generation ends.  Whatever the model, the tokenizer, the callback, the caches and
  the request: on a classic or speculative engine \<open>generate_stream\<close>, \<open>generate\<close> and a Conclave of any
  size return or throw after finitely many steps.  On a parallel engine the scheduler never runs
  for ever; a call that does not return is one whose wake-ups the interleaving of worker and
  caller has lost (\<open>Engine_Worker\<close> shows that both of them can be).
\<close>

theorem engine_generate_terminates:
  assumes "sched_used env e"
  shows "(en_scheduler e = None \<longrightarrow> (\<exists>r. engine_generate_stream env prompt callback gen e = Some r)
      \<and> (\<exists>r. engine_generate env prompt gen e = Some r) \<and> (\<exists>r. generate_best env prompt gen n e = Some r))
    \<and> (engine_generate_stream env prompt callback gen e = None \<or> engine_generate env prompt gen e = None \<longrightarrow>
        (\<exists>sch. en_scheduler e = Some sch \<and> \<not> ee_wakes env (sc_next_id sch)))"
proof -
  have stream: "engine_generate_stream env prompt callback gen e \<noteq> None" if "wakes_next env e" for callback
    by (rule engine_generate_stream_total [OF assms that])
  then have one: "engine_generate env prompt gen e \<noteq> None" if "wakes_next env e"
    using that by (auto simp: engine_generate_def simp del: not_None_eq split: option.splits sum.splits)
  have wakes: "en_scheduler e = None \<Longrightarrow> wakes_next env e"
    "\<not> wakes_next env e \<Longrightarrow> \<exists>sch. en_scheduler e = Some sch \<and> \<not> ee_wakes env (sc_next_id sch)"
    by (auto simp: wakes_next_def split: option.splits)
  have "en_scheduler e = None \<Longrightarrow> generate_best env prompt gen n e \<noteq> None"
    using one [OF wakes(1)] best_loop_total [of e env prompt gen "nat n" "[0..<nat n]" "conclave_open (nat n)"]
    by (auto simp: generate_best_def simp del: not_None_eq split: option.splits sum.splits)
  then show ?thesis using stream one wakes by blast
qed

section \<open>Examples\<close>

text \<open>The reference model with a louder token: it answers with token 1 for ever.\<close>

definition loud_api :: "token list list llama_api" where
  "loud_api = ref_api\<lparr>llama_get_logits_ith := \<lambda>c i. Some [0, 1]\<rparr>"

lemma loud_model_ok: "llama_model_ok loud_api ref_toks (\<lambda>_. [0, 1])"
proof -
  have "llama_api_ok loud_api ref_toks"
    using ref_api_ok by (simp add: llama_api_ok_def loud_api_def)
  then show ?thesis using ref_model_ok unfolding llama_model_ok_def by (simp add: loud_api_def ref_api_def)
qed

definition demo_engine_env :: "(token list list real_backend, unit, unit) engine_env" where
  "demo_engine_env = \<lparr>ee_ops = real_ops loud_api, ee_sampler = demo_env, ee_zstd = None, ee_write_ok = (\<lambda>_. True),
     ee_hash = (\<lambda>_. 0), ee_arca = \<lparr>ar_get = (\<lambda>_ a. (None, a)), ar_set = (\<lambda>_ _ a. a)\<rparr>, ee_wakes = (\<lambda>_. True)\<rparr>"

definition demo_config :: engine_config where
  "demo_config = \<lparr>ec_model_path = ''m'', ec_draft_model_path = [], ec_n_ctx = 4096, ec_n_threads = 1, ec_use_mmap = True, ec_use_mlock = False,
     ec_kv_cache_type = ''f16'', ec_n_ubatch = 512, ec_use_speculative = False, ec_use_prompt_lookup = False, ec_draft_tokens = 4,
     ec_cache_dir = [], ec_cache_max_mb = 1, ec_cache_compress = False, ec_cache_block_tokens = 4, ec_n_parallel = 1\<rparr>"

definition demo_gen :: gen_config where
  "demo_gen = sample_config\<lparr>gc_temperature := 0, gc_max_tokens := 1\<rparr>"

abbreviation demo_backend :: "token list list real_backend" where
  "demo_backend \<equiv> \<lparr>rb_ctx = [[], []], rb_n_past = 0\<rparr>"

definition demo_classic :: "(token list list real_backend, unit, unit, unit) engine" where
  "demo_classic = bare_engine demo_config None demo_backend"



lemma demo_sample: "sampler_sample demo_env demo_gen [0, 1] h g = (Inr 1, g)"
proof -
  have "max_element [0, 1] 0 (Suc 0) = 1" by (simp add: max_element.simps)
  then show ?thesis
    by (simp add: sample_def distribution_def demo_gen_def sample_config_def argmax_def repeat_penalty_def)
qed

lemma loud_decode:
  "real_decode_append loud_api [t] \<lparr>rb_ctx = [xs, ys], rb_n_past = n\<rparr> = (Inr [0, 1], \<lparr>rb_ctx = [xs @ [t], ys], rb_n_past = Suc n\<rparr>)"
  "real_decode loud_api [t] \<lparr>rb_ctx = [xs, ys], rb_n_past = n\<rparr> = (Inr [0, 1], \<lparr>rb_ctx = [[t], []], rb_n_past = 1\<rparr>)"
  by (simp_all add: real_decode_append_def real_decode_def decode_impl_def real_reset_def append_batch_def loud_api_def ref_api_def last_logits_def
     ref_seqs_ok_def seq_tokens_def numeral_2_eq_2)

lemma loud_decode_seqs:
  "real_decode_seqs loud_api [\<lparr>sl_seq_id = 0, sl_tokens = [t], sl_pos_start = n\<rparr>] \<lparr>rb_ctx = [xs, ys], rb_n_past = m\<rparr>
     = (Inr [[0, 1]], \<lparr>rb_ctx = [xs @ [t], ys], rb_n_past = m\<rparr>)"
  by (simp add: real_decode_seqs_def slice_items_def loud_api_def ref_api_def ref_seqs_ok_def seq_tokens_def numeral_2_eq_2)

abbreviation demo_token :: token where
  "demo_token \<equiv> word_of_byte CHR ''a''"

lemma loud_ops:
  "bo_tokenize (real_ops loud_api) ''a'' True b = Inr [demo_token]" "bo_token_piece (real_ops loud_api) t b = Inr [byte_of t]"
  "bo_context_length (real_ops loud_api) b = 4096" "bo_is_eog (real_ops loud_api) t b \<longleftrightarrow> t = 0"
  "bo_decode (real_ops loud_api) = real_decode loud_api" "bo_decode_append (real_ops loud_api) = real_decode_append loud_api"
  "bo_decode_seqs (real_ops loud_api) = real_decode_seqs loud_api" "bo_clear_seq (real_ops loud_api) i b = b\<lparr>rb_ctx := snd (llama_memory_seq_rm loud_api i 0 (rb_ctx b))\<rparr>"
  by (simp_all add: real_ops_def real_tokenize_def real_token_piece_def real_clear_seq_def loud_api_def ref_api_def)

lemmas loud_eval = loud_ops loud_decode loud_decode_seqs demo_sample Let_def

definition demo_parallel :: "(token list list real_backend, unit, unit, unit) engine" where
  "demo_parallel = demo_classic\<lparr>en_scheduler := Some
     \<lparr>sc_backend = demo_backend, sc_n_parallel = 2, sc_n_ctx = 4096, sc_pending = [], sc_active = [], sc_slot_used = [False, False],
      sc_done = Map.empty, sc_next_id = 1, sc_submitted = [], sc_log = []\<rparr>\<rparr>"

lemma demo_limit: "gc_max_tokens demo_gen = 1" "gc_echo_prompt demo_gen = False"
  by (simp_all add: demo_gen_def sample_config_def)

lemma demo_classic_run:
  "\<exists>e'. generate_stream_impl demo_engine_env ''a'' (\<lambda>_ _. Inr True) demo_gen demo_classic = Some (Inr (), [[byte_of (1 :: token)]], e')"
  by (simp add: generate_stream_impl_def demo_engine_env_def demo_classic_def bare_engine_def impl_classic_def prefill_prompt_def loud_eval demo_limit)

lemma demo_parallel_run:
  "\<exists>e'. generate_stream_impl demo_engine_env ''a'' (\<lambda>_ _. Inr True) demo_gen demo_parallel = Some (Inr (), [[byte_of (1 :: token)]], e')"
  by (simp add: generate_stream_impl_def demo_engine_env_def demo_parallel_def demo_classic_def bare_engine_def impl_parallel_def submit_def
     run_until_idle.simps sched_step_def admit_def admit_one_def cells_used_def slice_of_def advance_one_def finish_def error_of_def
     loud_eval demo_limit)

lemma demo_tokenize: "real_tokenize loud_api ''a'' True = Inr [demo_token]"
  using loud_ops(1) by (simp add: real_ops_def)

lemma demo_parallel_ready:
  "parallel_ready loud_api ref_toks demo_engine_env demo_parallel (the (en_scheduler demo_parallel))"
proof -
  let ?sch = "the (en_scheduler demo_parallel)"
  have "sched_reachable (real_ops loud_api) demo_env demo_backend 2 ?sch"
    by (rule opened) (simp add: scheduler_open_def demo_parallel_def loud_ops eval_nat_numeral)
  then show ?thesis
    unfolding parallel_ready_def using ref_toks_empty
    by (intro conjI exI [of _ demo_backend] exI [of _ 2]) (simp_all add: demo_parallel_def demo_classic_def bare_engine_def demo_engine_env_def)
qed

lemma demo_modes_ready:
  "mode_ready loud_api ref_toks model demo_engine_env UNIV demo_gen [demo_token] demo_classic"
  "mode_ready loud_api ref_toks model demo_engine_env UNIV demo_gen [demo_token] demo_parallel"
  using demo_parallel_ready
  by (simp_all add: mode_ready_def demo_classic_def demo_parallel_def bare_engine_def cache_ready_def)

theorem engine_modes_agree_witness:
  "\<exists>calls e1 e2. generate_stream_impl demo_engine_env ''a'' (\<lambda>_ _. Inr True) demo_gen demo_classic = Some (Inr (), calls, e1)
     \<and> generate_stream_impl demo_engine_env ''a'' (\<lambda>_ _. Inr True) demo_gen demo_parallel = Some (Inr (), calls, e2)"
proof -
  obtain e1 e2 calls1 calls2 where
    run: "generate_stream_impl demo_engine_env ''a'' (\<lambda>_ _. Inr True) demo_gen demo_classic = Some (Inr (), calls1, e1)"
      "generate_stream_impl demo_engine_env ''a'' (\<lambda>_ _. Inr True) demo_gen demo_parallel = Some (Inr (), calls2, e2)"
    using demo_classic_run demo_parallel_run by blast
  have "calls1 = calls2"
    using engine_modes_agree [OF loud_model_ok _ _ refl demo_tokenize demo_modes_ready _ _ _ run] by (simp add: demo_engine_env_def demo_limit)
  with run show ?thesis by blast
qed

theorem engine_generates_reference_witness:
  "\<exists>ts. [[byte_of (1 :: token)]] = pieces (real_ops loud_api) demo_backend ts
     \<and> ref_prefix demo_env (\<lambda>_. [0, 1]) (llama_vocab_is_eog loud_api) demo_gen (llama_n_ctx loud_api) [demo_token] ts"
proof -
  obtain e' where run: "engine_generate_stream demo_engine_env ''a'' (Some (\<lambda>_ _. Inr True)) demo_gen demo_classic
      = Some (Inr (), [[byte_of (1 :: token)]], e')"
    using demo_classic_run by (auto simp: uncached_stream demo_classic_def bare_engine_def)
  have e: "en_scheduler demo_classic = None" "en_decoder demo_classic = None" "en_arca demo_classic = None"
    "cache_ready loud_api ref_toks demo_engine_env UNIV demo_classic" "ee_sampler demo_engine_env = demo_env"
    by (simp_all add: demo_classic_def bare_engine_def cache_ready_def demo_engine_env_def)
  from engine_generates_reference [OF loud_model_ok _ demo_tokenize e(1,2) _ e(4) _ _ run, of demo_backend]
  show ?thesis by (auto simp: e demo_limit demo_engine_env_def)
qed

theorem engine_generate_terminates_witness:
  "(\<exists>r. generate_best demo_engine_env ''a'' demo_gen 3 demo_classic = Some r)
   \<and> (\<exists>r. engine_generate demo_engine_env ''a'' demo_gen demo_parallel = Some r)"
proof -
  have "sched_used demo_engine_env demo_classic" "en_scheduler demo_classic = None"
    by (simp_all add: sched_used_def demo_classic_def bare_engine_def)
  then have best: "\<exists>r. generate_best demo_engine_env ''a'' demo_gen 3 demo_classic = Some r"
    using engine_generate_terminates [of demo_engine_env demo_classic "''a''" None demo_gen 3] by blast
  have "sched_used demo_engine_env demo_parallel"
    using demo_parallel_ready by (auto simp: sched_used_def parallel_ready_def demo_engine_env_def demo_parallel_def)
  moreover have "ee_wakes demo_engine_env i" for i by (simp add: demo_engine_env_def)
  ultimately have "engine_generate demo_engine_env ''a'' demo_gen demo_parallel \<noteq> None"
    using engine_generate_terminates [of demo_engine_env demo_parallel "''a''" None demo_gen 3] by blast
  with best show ?thesis by blast
qed

end
