(* ===== verification/Resp.thy ===== *)
theory Resp
  imports Reame_Prelude
begin

text \<open>
  The RESP2 wire layer of the ARCA daemon (\<open>src/src/arca/resp.cpp\<close>): the incremental
  request parser and the reply serializers.  A call that may throw returns \<open>Throw\<close> with
  the exception; a call that needs bytes that have not arrived returns \<open>NeedMore\<close>.
  \<open>feed\<close> returns the parser state together with the exception it propagates, because a
  throwing \<open>feed\<close> leaves the appended buffer and the commands parsed before the fault
  behind.  The main results: what the parser delivers does not depend on how TCP slices the
  stream, and a request in the multibulk encoding is parsed back exactly.
\<close>

section \<open>Model\<close>

datatype resp_exn = RespError bytes | ConvError conv_error

datatype 'a parsed = NeedMore | Done 'a nat | Throw resp_exn

definition kMaxElements :: int where
  "kMaxElements = 1024"

definition kMaxBulkBytes :: int where
  "kMaxBulkBytes = 64 * 1024 * 1024"

definition parse_number_line :: "bytes \<Rightarrow> nat \<Rightarrow> int parsed" where
  "parse_number_line buf pos =
     (case find_from buf CRLF pos of
        None \<Rightarrow> NeedMore
      | Some crlf \<Rightarrow>
          let digits = substr buf pos (crlf - pos) in
          if digits = [] then Throw (RespError ''empty length in RESP input'')
          else let i = (if hd digits = CHR ''-'' then 1 else 0 :: nat) in
          if i = length digits then Throw (RespError ''bare minus in RESP length'')
          else if \<not> list_all isdigit (drop i digits)
          then Throw (RespError (''non-numeric RESP length: '' @ digits))
          else (case stol digits of
                  Inl e \<Rightarrow> Throw (ConvError e)
                | Inr (v, _) \<Rightarrow> Done v (crlf + 2)))"

text \<open>Words of an inline command, split on spaces: the loop keeps the words and the open one.\<close>

fun split_words :: "bytes \<Rightarrow> bytes list \<Rightarrow> bytes \<Rightarrow> bytes list" where
  "split_words [] out word = (if word = [] then out else out @ [word])"
| "split_words (c # cs) out word =
     (if c = CHR '' '' then split_words cs (if word = [] then out else out @ [word]) []
      else split_words cs out (word @ [c]))"

fun parse_bulks :: "bytes \<Rightarrow> nat \<Rightarrow> nat \<Rightarrow> bytes list \<Rightarrow> bytes list parsed" where
  "parse_bulks buf 0 pos parts = Done parts pos"
| "parse_bulks buf (Suc n) pos parts =
     (if length buf \<le> pos then NeedMore
      else if buf ! pos \<noteq> CHR ''$'' then Throw (RespError (''expected bulk string marker '' @ [CHR 0x27] @ ''$'' @ [CHR 0x27]))
      else case parse_number_line buf (pos + 1) of
             NeedMore \<Rightarrow> NeedMore
           | Throw e \<Rightarrow> Throw e
           | Done len p \<Rightarrow>
               if len < 0 \<or> kMaxBulkBytes < len
               then Throw (RespError (''unreasonable RESP bulk length: '' @ show_int len))
               else if length buf < p + nat len + 2 then NeedMore
               else if substr buf (p + nat len) 2 \<noteq> CRLF
               then Throw (RespError ''bulk payload not terminated by CRLF'')
               else parse_bulks buf n (p + nat len + 2) (parts @ [substr buf p (nat len)]))"

definition parse_one :: "bytes \<Rightarrow> nat \<Rightarrow> bytes list parsed" where
  "parse_one buf offset =
     (if length buf \<le> offset then NeedMore
      else if buf ! offset \<noteq> CHR ''*'' then
        (case find_from buf CRLF offset of
           None \<Rightarrow> NeedMore
         | Some crlf \<Rightarrow> Done (split_words (substr buf offset (crlf - offset)) [] []) (crlf + 2))
      else case parse_number_line buf (offset + 1) of
             NeedMore \<Rightarrow> NeedMore
           | Throw e \<Rightarrow> Throw e
           | Done n pos \<Rightarrow>
               if n < 0 \<or> kMaxElements < n
               then Throw (RespError (''unreasonable RESP array size: '' @ show_int n))
               else parse_bulks buf (nat n) pos [])"

section \<open>Progress\<close>

lemma parse_number_line_bounds:
  "parse_number_line buf pos = Done v p \<Longrightarrow> pos + 3 \<le> p \<and> p \<le> length buf"
proof -
  assume d: "parse_number_line buf pos = Done v p"
  then obtain crlf where f: "find_from buf CRLF pos = Some crlf"
    by (auto simp: parse_number_line_def split: option.splits)
  with d have "p = crlf + 2" "substr buf pos (crlf - pos) \<noteq> []"
    by (auto simp: parse_number_line_def Let_def split: if_splits sum.splits prod.splits)
  with find_from_bounds [OF f] show ?thesis by (auto simp: substr_def)
qed

lemma parse_bulks_bounds:
  "parse_bulks buf n pos parts = Done cmd p \<Longrightarrow> pos \<le> length buf \<Longrightarrow> pos \<le> p \<and> p \<le> length buf"
proof (induction buf n pos parts rule: parse_bulks.induct)
  case (2 buf n pos parts)
  from "2.prems" obtain len q where q: "parse_number_line buf (pos + 1) = Done len q"
    and ok: "\<not> (len < 0 \<or> kMaxBulkBytes < len)" "\<not> length buf < q + nat len + 2"
      "substr buf (q + nat len) 2 = CRLF" "\<not> length buf \<le> pos" "buf ! pos = CHR ''$''"
    and rest: "parse_bulks buf n (q + nat len + 2) (parts @ [substr buf q (nat len)]) = Done cmd p"
    by (auto split: if_splits parsed.splits)
  have "q + nat len + 2 \<le> p \<and> p \<le> length buf"
    using "2.IH" [OF _ _ q _ _ _ rest] ok by simp
  with parse_number_line_bounds [OF q] show ?case by simp
qed simp

lemma parse_one_progress:
  assumes "parse_one buf offset = Done cmd p"
  shows "offset < p \<and> p \<le> length buf"
proof (cases "buf ! offset = CHR ''*''")
  case True
  with assms obtain n pos where n: "parse_number_line buf (offset + 1) = Done n pos"
    and b: "parse_bulks buf (nat n) pos [] = Done cmd p"
    by (auto simp: parse_one_def split: if_splits parsed.splits)
  from parse_number_line_bounds [OF n] parse_bulks_bounds [OF b] show ?thesis by simp
next
  case False
  with assms show ?thesis
    by (auto simp: parse_one_def dest!: find_from_bounds split: if_splits option.splits)
qed

section \<open>The parser object\<close>

record resp_parser =
  rp_buf :: bytes
  rp_ready :: "bytes list list"

definition resp_parser_init :: resp_parser where
  "resp_parser_init = \<lparr>rp_buf = [], rp_ready = []\<rparr>"

text \<open>The loop of \<open>feed\<close>: parse from \<open>offset\<close> until more input is needed or a throw.\<close>

function parse_loop :: "bytes \<Rightarrow> nat \<Rightarrow> bytes list list \<Rightarrow> bytes list list \<times> nat \<times> resp_exn option" where
  "parse_loop buf offset ready =
     (case parse_one buf offset of
        NeedMore \<Rightarrow> (ready, offset, None)
      | Throw e \<Rightarrow> (ready, offset, Some e)
      | Done cmd p \<Rightarrow> parse_loop buf p (if cmd = [] then ready else ready @ [cmd]))"
  by pat_completeness auto
termination
  by (relation "measure (\<lambda>(buf, offset, ready). length buf - offset)")
    (auto dest: parse_one_progress)

declare parse_loop.simps [simp del]

definition feed :: "resp_parser \<Rightarrow> bytes \<Rightarrow> resp_parser \<times> resp_exn option" where
  "feed p bs =
     (let buf = rp_buf p @ bs in
      case parse_loop buf 0 (rp_ready p) of
        (ready, offset, None) \<Rightarrow> (\<lparr>rp_buf = drop offset buf, rp_ready = ready\<rparr>, None)
      | (ready, offset, Some e) \<Rightarrow> (\<lparr>rp_buf = buf, rp_ready = ready\<rparr>, Some e))"

definition resp_take :: "resp_parser \<Rightarrow> bytes list list \<times> resp_parser" where
  "resp_take p = (rp_ready p, p\<lparr>rp_ready := []\<rparr>)"

section \<open>Reply serializers\<close>

definition resp_simple :: "bytes \<Rightarrow> bytes" where
  "resp_simple s = ''+'' @ s @ CRLF"

definition resp_error :: "bytes \<Rightarrow> bytes" where
  "resp_error s = ''-'' @ s @ CRLF"

definition resp_integer :: "int \<Rightarrow> bytes" where
  "resp_integer v = '':'' @ show_int v @ CRLF"

definition resp_bulk :: "bytes \<Rightarrow> bytes" where
  "resp_bulk s = ''$'' @ show_nat (length s) @ CRLF @ s @ CRLF"

definition resp_nil :: bytes where
  "resp_nil = ''$-1'' @ CRLF"

section \<open>Arriving input\<close>

text \<open>Nothing that was decided on a prefix of the stream changes when more bytes arrive.\<close>

lemma parse_number_line_append [chunk_intros]:
  assumes "parse_number_line s pos \<noteq> NeedMore"
  shows "parse_number_line (s @ t) pos = parse_number_line s pos"
proof -
  from assms obtain crlf where f: "find_from s CRLF pos = Some crlf"
    by (auto simp: parse_number_line_def split: option.splits)
  have "substr (s @ t) pos (crlf - pos) = substr s pos (crlf - pos)"
    using find_from_bounds [OF f] by (intro substr_append) simp
  with f find_from_append [OF f, of t] show ?thesis by (simp add: parse_number_line_def)
qed

lemma parse_bulks_append [chunk_intros]:
  "parse_bulks s n pos parts \<noteq> NeedMore \<Longrightarrow> parse_bulks (s @ t) n pos parts = parse_bulks s n pos parts"
proof (induction s n pos parts rule: parse_bulks.induct)
  case (2 s n pos parts)
  then have pos: "\<not> length s \<le> pos" by (auto split: if_splits)
  show ?case
  proof (cases "s ! pos = CHR ''$''")
    case False
    with pos show ?thesis by (simp add: nth_append)
  next
    case dollar: True
    with "2.prems" pos have nm: "parse_number_line s (pos + 1) \<noteq> NeedMore"
      by (auto split: if_splits)
    note same = parse_number_line_append [OF nm, of t]
    show ?thesis
    proof (cases "parse_number_line s (pos + 1)")
      case (Done len q)
      show ?thesis
      proof (cases "len < 0 \<or> kMaxBulkBytes < len")
        case True
        with pos dollar Done same show ?thesis by (simp add: nth_append)
      next
        case small: False
        with "2.prems" pos dollar Done have room: "\<not> length s < q + nat len + 2"
          by (auto split: if_splits)
        then have sub: "substr (s @ t) (q + nat len) 2 = substr s (q + nat len) 2"
          "substr (s @ t) q (nat len) = substr s q (nat len)"
          by (simp_all add: substr_append)
        show ?thesis
        proof (cases "substr s (q + nat len) 2 = CRLF")
          case False
          with pos dollar Done same small room sub show ?thesis by (simp add: nth_append)
        next
          case True
          with "2.prems" pos dollar Done small room
          have "parse_bulks s n (q + nat len + 2) (parts @ [substr s q (nat len)]) \<noteq> NeedMore"
            by simp
          from "2.IH" [OF pos _ Done small room _ this]
          show ?thesis using pos dollar Done same small room sub True by (simp add: nth_append)
        qed
      qed
    qed (use nm pos dollar same in \<open>simp_all add: nth_append\<close>)
  qed
qed simp

lemma parse_one_append [chunk_intros]:
  assumes "parse_one s offset \<noteq> NeedMore"
  shows "parse_one (s @ t) offset = parse_one s offset"
proof -
  have off: "\<not> length s \<le> offset" using assms by (auto simp: parse_one_def)
  show ?thesis
  proof (cases "s ! offset = CHR ''*''")
    case True
    with assms off have nm: "parse_number_line s (offset + 1) \<noteq> NeedMore"
      by (auto simp: parse_one_def)
    note same = parse_number_line_append [OF nm, of t]
    show ?thesis
    proof (cases "parse_number_line s (offset + 1)")
      case (Done n pos)
      show ?thesis
      proof (cases "n < 0 \<or> kMaxElements < n")
        case False
        with assms off True Done have "parse_bulks s (nat n) pos [] \<noteq> NeedMore"
          by (auto simp: parse_one_def)
        from parse_bulks_append [OF this, of t] show ?thesis
          using off True Done same False by (simp add: parse_one_def nth_append)
      qed (use off True Done same in \<open>simp add: parse_one_def nth_append\<close>)
    qed (use nm off True same in \<open>simp_all add: parse_one_def nth_append\<close>)
  next
    case False
    with assms off obtain crlf where f: "find_from s CRLF offset = Some crlf"
      by (auto simp: parse_one_def split: option.splits)
    have "substr (s @ t) offset (crlf - offset) = substr s offset (crlf - offset)"
      using find_from_bounds [OF f] by (intro substr_append) simp
    with f find_from_append [OF f, of t] off False show ?thesis
      by (simp add: parse_one_def nth_append)
  qed
qed

text \<open>Erasing consumed bytes only shifts positions.\<close>

definition shift_parsed :: "nat \<Rightarrow> 'a parsed \<Rightarrow> 'a parsed" where
  "shift_parsed k r = (case r of Done x p \<Rightarrow> Done x (k + p) | NeedMore \<Rightarrow> NeedMore | Throw e \<Rightarrow> Throw e)"

lemma shift_parsed_simps [simp]:
  "shift_parsed k NeedMore = NeedMore" "shift_parsed k (Done x p) = Done x (k + p)"
  "shift_parsed k (Throw e) = Throw e"
  by (simp_all add: shift_parsed_def)

lemma parse_number_line_shift:
  "parse_number_line (p @ s) (length p + pos) = shift_parsed (length p) (parse_number_line s pos)"
  by (cases "find_from s CRLF pos")
    (auto simp: parse_number_line_def find_from_shift Let_def split: sum.splits)

lemma parse_bulks_shift:
  "parse_bulks (p @ s) n (length p + pos) parts = shift_parsed (length p) (parse_bulks s n pos parts)"
proof (induction n arbitrary: pos parts)
  case (Suc n)
  have num: "parse_number_line (p @ s) (Suc (length p + pos)) =
      shift_parsed (length p) (parse_number_line s (Suc pos))"
    using parse_number_line_shift [of p s "Suc pos"] by simp
  have sub: "substr (p @ s) (length p + q + k) m = substr s (q + k) m" for q k m
    using substr_shift [of p s "q + k" m] by (simp add: add.assoc)
  have IH: "parse_bulks (p @ s) n (Suc (Suc (length p + q + k))) ps =
      shift_parsed (length p) (parse_bulks s n (Suc (Suc (q + k))) ps)" for q k ps
    using Suc.IH [of "Suc (Suc (q + k))" ps] by (simp add: add.assoc)
  show ?case
    by (cases "parse_number_line s (Suc pos)") (simp_all add: num sub IH nth_append)
qed simp

lemma parse_one_shift:
  "parse_one (p @ s) (length p + offset) = shift_parsed (length p) (parse_one s offset)"
proof -
  have num: "parse_number_line (p @ s) (Suc (length p + offset)) =
      shift_parsed (length p) (parse_number_line s (Suc offset))"
    using parse_number_line_shift [of p s "Suc offset"] by simp
  show ?thesis
    by (cases "parse_number_line s (Suc offset)"; cases "find_from s CRLF offset")
      (simp_all add: parse_one_def num find_from_shift parse_bulks_shift nth_append)
qed

section \<open>Slicing of the stream does not matter\<close>

lemma parse_loop_ready: "parse_loop buf offset (r @ ready) =
    (case parse_loop buf offset ready of (cs, x) \<Rightarrow> (r @ cs, x))"
proof (induction buf offset ready rule: parse_loop.induct)
  case (1 buf offset ready)
  show ?case
  proof (cases "parse_one buf offset")
    case (Done cmd p)
    with 1 [OF Done] show ?thesis
      by (cases "cmd = []") (simp_all add: parse_loop.simps [of buf offset])
  qed (simp_all add: parse_loop.simps [of buf offset])
qed

lemma parse_loop_shift:
  "parse_loop (p @ s) (length p + offset) ready =
     (case parse_loop s offset ready of (cs, o', e) \<Rightarrow> (cs, length p + o', e))"
proof (induction s offset ready rule: parse_loop.induct)
  case (1 s offset ready)
  show ?case
  proof (cases "parse_one s offset")
    case (Done cmd q)
    with 1 [OF Done] show ?thesis
      by (simp add: parse_loop.simps [of "p @ s"] parse_loop.simps [of s] parse_one_shift)
  qed (simp_all add: parse_loop.simps [of "p @ s"] parse_loop.simps [of s] parse_one_shift)
qed

lemma parse_loop_append:
  "parse_loop (s @ t) offset ready =
     (case parse_loop s offset ready of
        (cs, o', None) \<Rightarrow> parse_loop (s @ t) o' cs
      | (cs, o', Some e) \<Rightarrow> (cs, o', Some e))"
proof (induction s offset ready rule: parse_loop.induct)
  case (1 s offset ready)
  show ?case
  proof (cases "parse_one s offset")
    case NeedMore
    then show ?thesis by (simp add: parse_loop.simps [of s])
  next
    case (Done cmd q)
    then have "parse_one (s @ t) offset = Done cmd q" by (simp add: parse_one_append)
    with 1 [OF Done] Done show ?thesis
      by (simp add: parse_loop.simps [of "s @ t" offset] parse_loop.simps [of s offset])
  next
    case (Throw e)
    then have "parse_one (s @ t) offset = Throw e" by (simp add: parse_one_append)
    with Throw show ?thesis
      by (simp add: parse_loop.simps [of "s @ t" offset] parse_loop.simps [of s offset])
  qed
qed

lemma parse_loop_offset: "parse_loop buf offset ready = (cs, o', e) \<Longrightarrow> offset \<le> length buf \<Longrightarrow>
    offset \<le> o' \<and> o' \<le> length buf"
proof (induction buf offset ready rule: parse_loop.induct)
  case (1 buf offset ready)
  show ?case
  proof (cases "parse_one buf offset")
    case (Done cmd q)
    with "1.prems" have "parse_loop buf q (if cmd = [] then ready else ready @ [cmd]) = (cs, o', e)"
      by (simp add: parse_loop.simps [of buf offset])
    from "1.IH" [OF Done this] parse_one_progress [OF Done] show ?thesis by simp
  qed (use "1.prems" in \<open>simp_all add: parse_loop.simps [of buf offset]\<close>)
qed

text \<open>
  What a connection can observe of a \<open>feed\<close>: the commands that are ready, the exception,
  and the bytes kept for the next call when there is one (the connection is closed after an
  exception, so the buffer is then dead).
\<close>

definition observed :: "resp_parser \<times> resp_exn option \<Rightarrow> bytes list list \<times> resp_exn option \<times> bytes" where
  "observed r = (rp_ready (fst r), snd r, if snd r = None then rp_buf (fst r) else [])"

lemma observed_feed:
  "observed (feed p s) =
     (case parse_loop (rp_buf p @ s) 0 (rp_ready p) of
        (cs, k, e) \<Rightarrow> (cs, e, if e = None then drop k (rp_buf p @ s) else []))"
  by (auto simp: observed_def feed_def Let_def split: prod.splits option.splits)

lemma feed_append:
  assumes "feed p s = (p', None)"
  shows "observed (feed p' t) = observed (feed p (s @ t))"
proof -
  define buf where "buf = rp_buf p @ s"
  obtain cs k where l: "parse_loop buf 0 (rp_ready p) = (cs, k, None)"
    using assms by (auto simp: feed_def Let_def buf_def split: prod.splits option.splits)
  have p': "p' = \<lparr>rp_buf = drop k buf, rp_ready = cs\<rparr>"
    using assms l by (simp add: feed_def Let_def buf_def)
  define old new where "old = take k buf" and "new = drop k buf @ t"
  have len: "length old = k" using parse_loop_offset [OF l] by (simp add: old_def)
  have whole: "buf @ t = old @ new" by (simp add: old_def new_def)
  have "parse_loop (buf @ t) 0 (rp_ready p) = parse_loop (buf @ t) k cs"
    using parse_loop_append [of buf t 0 "rp_ready p"] l by simp
  also have "\<dots> = parse_loop (old @ new) (length old + 0) cs" using len whole by simp
  also have "\<dots> = (case parse_loop new 0 cs of (cs', k', e) \<Rightarrow> (cs', length old + k', e))"
    by (rule parse_loop_shift)
  finally have loop: "parse_loop (buf @ t) 0 (rp_ready p) =
      (case parse_loop new 0 cs of (cs', k', e) \<Rightarrow> (cs', k + k', e))"
    using len by simp
  have "drop (k + k') (buf @ t) = drop k' new" for k'
    unfolding whole using len by simp
  with loop p' show ?thesis
    by (auto simp: observed_feed buf_def [symmetric] append_assoc [symmetric] new_def [symmetric]
        simp del: append_assoc split: prod.splits)
qed

lemma feed_throw_append:
  assumes "feed p s = (p', Some e)"
  shows "observed (feed p (s @ t)) = observed (feed p s)"
proof -
  obtain cs k where l: "parse_loop (rp_buf p @ s) 0 (rp_ready p) = (cs, k, Some e)"
    using assms by (auto simp: feed_def Let_def split: prod.splits option.splits)
  then show ?thesis
    using parse_loop_append [of "rp_buf p @ s" t 0 "rp_ready p"] by (simp add: observed_feed)
qed

text \<open>A connection feeds the slices in order and stops at the first exception.\<close>

fun feed_slices :: "resp_parser \<Rightarrow> bytes list \<Rightarrow> resp_parser \<times> resp_exn option" where
  "feed_slices p [] = (p, None)"
| "feed_slices p (s # ss) =
     (case feed p s of (p', None) \<Rightarrow> feed_slices p' ss | (p', Some e) \<Rightarrow> (p', Some e))"

text \<open>
  C18: however TCP slices the byte stream of a connection, the parser delivers the same
  commands in the same order, raises the same exception (or none), and is left waiting on the
  same unconsumed bytes, as if the whole stream had arrived in one read.
\<close>

theorem feed_slices_concat:
  "observed (feed_slices p (s # ss)) = observed (feed p (s @ concat ss))"
proof (induction ss arbitrary: p s)
  case Nil
  then show ?case by (auto simp: observed_def split: prod.splits option.splits)
next
  case (Cons s' ss)
  obtain p' e where f: "feed p s = (p', e)" by (cases "feed p s")
  show ?case
  proof (cases e)
    case None
    have "observed (feed_slices p (s # s' # ss)) = observed (feed_slices p' (s' # ss))"
      using f None by simp
    also have "\<dots> = observed (feed p' (s' @ concat ss))" by (rule Cons.IH)
    also have "\<dots> = observed (feed p (s @ s' @ concat ss))"
      using feed_append f None by blast
    finally show ?thesis by simp
  next
    case (Some x)
    with f have "observed (feed_slices p (s # s' # ss)) = observed (feed p s)" by simp
    with f Some feed_throw_append [of p s p' x "s' @ concat ss"] show ?thesis by simp
  qed
qed

section \<open>Round trip of requests\<close>

text \<open>The multibulk encoding every Redis client sends.\<close>

definition encode_command :: "bytes list \<Rightarrow> bytes" where
  "encode_command args = ''*'' @ show_nat (length args) @ CRLF @ concat (map resp_bulk args)"

lemma parse_number_line_show_nat:
  assumes "int n \<le> 2 ^ 63 - 1"
  shows "parse_number_line (p @ show_nat n @ CRLF @ rest) (length p) =
    Done (int n) (length p + length (show_nat n) + 2)"
proof -
  have f: "find_from (p @ show_nat n @ CRLF @ rest) CRLF (length p) = Some (length p + length (show_nat n))"
    by (rule find_from_CRLF_after) (rule show_nat_no_CR)
  have sub: "substr (p @ show_nat n @ CRLF @ rest) (length p) (length (show_nat n)) = show_nat n"
    by (simp add: substr_def)
  have hd: "hd (show_nat n) \<noteq> CHR ''-''"
    using show_nat_hd isdigit_not_special by blast
  have "stol (show_nat n) = Inr (int n, length (show_nat n))"
    using assms by (subst sto_integer_digits) (auto simp: show_nat_digits)
  then show ?thesis
    unfolding parse_number_line_def f using sub hd show_nat_digits by simp
qed

lemma parse_bulks_encoded:
  assumes "\<forall>a\<in>set args. int (length a) \<le> kMaxBulkBytes"
  shows "parse_bulks (p @ concat (map resp_bulk args) @ rest) (length args) (length p) parts =
    Done (parts @ args) (length p + length (concat (map resp_bulk args)))"
  using assms
proof (induction args arbitrary: p parts)
  case (Cons a args)
  define tail where "tail = concat (map resp_bulk args) @ rest"
  define q where "q = p @ ''$'' @ show_nat (length a) @ CRLF"
  have la: "int (length a) \<le> kMaxBulkBytes" using Cons.prems by simp
  have buf: "p @ concat (map resp_bulk (a # args)) @ rest = q @ a @ CRLF @ tail"
    by (simp add: q_def tail_def resp_bulk_def)
  have num: "parse_number_line (q @ a @ CRLF @ tail) (Suc (length p)) = Done (int (length a)) (length q)"
    using parse_number_line_show_nat [of "length a" "p @ ''$''" "a @ CRLF @ tail"] la
    by (simp add: q_def kMaxBulkBytes_def)
  have at: "(q @ a @ CRLF @ tail) ! length p = CHR ''$''"
    by (simp add: q_def nth_append)
  have sub: "substr (q @ a @ CRLF @ tail) (length q + length a) 2 = CRLF"
    "substr (q @ a @ CRLF @ tail) (length q) (length a) = a"
    by (simp_all add: substr_def)
  have lens: "\<not> length (q @ a @ CRLF @ tail) \<le> length p"
    "\<not> length (q @ a @ CRLF @ tail) < length q + length a + 2"
    by (simp_all add: q_def)
  have "parse_bulks (q @ a @ CRLF @ tail) (length (a # args)) (length p) parts =
      parse_bulks (q @ a @ CRLF @ tail) (length args) (length q + length a + 2) (parts @ [a])"
    using num at sub lens la by simp
  also have "\<dots> = parse_bulks ((q @ a @ CRLF) @ tail) (length args) (length (q @ a @ CRLF)) (parts @ [a])"
    by simp
  also have "\<dots> = Done ((parts @ [a]) @ args)
      (length (q @ a @ CRLF) + length (concat (map resp_bulk args)))"
    unfolding tail_def using Cons by (intro Cons.IH) simp
  moreover have "length (q @ a @ CRLF) + length (concat (map resp_bulk args)) =
      length p + length (concat (map resp_bulk (a # args)))"
    by (simp add: q_def resp_bulk_def [of a])
  ultimately show ?case unfolding buf by (simp only: append.assoc append_Cons append_Nil)
qed simp

lemma parse_one_encoded:
  assumes "int (length args) \<le> kMaxElements" "\<forall>a\<in>set args. int (length a) \<le> kMaxBulkBytes"
  shows "parse_one (encode_command args @ rest) 0 = Done args (length (encode_command args))"
proof -
  define p where "p = ''*'' @ show_nat (length args) @ CRLF"
  define tail where "tail = concat (map resp_bulk args) @ rest"
  have buf: "encode_command args @ rest = p @ tail"
    by (simp add: encode_command_def p_def tail_def)
  have num: "parse_number_line (p @ tail) (Suc 0) = Done (int (length args)) (length p)"
    using parse_number_line_show_nat [of "length args" "''*''" tail] assms(1)
    by (simp add: p_def kMaxElements_def)
  have "parse_bulks (p @ tail) (length args) (length p) [] =
      Done ([] @ args) (length p + length (concat (map resp_bulk args)))"
    unfolding tail_def by (rule parse_bulks_encoded [OF assms(2)])
  moreover have "length p \<noteq> 0" "(p @ tail) ! 0 = CHR ''*''" by (simp_all add: p_def)
  ultimately show ?thesis
    unfolding buf using num assms(1) by (simp add: parse_one_def encode_command_def p_def)
qed

lemma parse_loop_encoded:
  assumes "\<forall>args\<in>set cmds. args \<noteq> [] \<and> int (length args) \<le> kMaxElements
      \<and> (\<forall>a\<in>set args. int (length a) \<le> kMaxBulkBytes)"
  shows "parse_loop (concat (map encode_command cmds)) 0 ready =
    (ready @ cmds, length (concat (map encode_command cmds)), None)"
  using assms
proof (induction cmds arbitrary: ready)
  case Nil
  then show ?case by (simp add: parse_loop.simps parse_one_def)
next
  case (Cons args cmds)
  define rest where "rest = concat (map encode_command cmds)"
  have one: "parse_one (encode_command args @ rest) 0 = Done args (length (encode_command args))"
    using Cons.prems by (intro parse_one_encoded) auto
  have "parse_loop (encode_command args @ rest) 0 ready =
      parse_loop (encode_command args @ rest) (length (encode_command args) + 0) (ready @ [args])"
    using one Cons.prems by (subst parse_loop.simps) simp
  also have "\<dots> = (ready @ args # cmds, length (encode_command args) + length rest, None)"
    unfolding parse_loop_shift rest_def using Cons by simp
  finally show ?case by (simp add: rest_def)
qed

text \<open>
  Round trip of pipelined requests.  The concatenation of any number of commands in the
  multibulk encoding, within the parser's limits, is parsed back into exactly those commands
  in order, with no exception and nothing left in the buffer.
\<close>

theorem feed_encoded_commands:
  assumes "\<forall>args\<in>set cmds. args \<noteq> [] \<and> int (length args) \<le> kMaxElements
      \<and> (\<forall>a\<in>set args. int (length a) \<le> kMaxBulkBytes)"
  shows "feed resp_parser_init (concat (map encode_command cmds)) =
    (\<lparr>rp_buf = [], rp_ready = cmds\<rparr>, None)"
  using parse_loop_encoded [OF assms, of "[]"] by (simp add: feed_def resp_parser_init_def)

theorem feed_encoded_commands_witness:
  "feed resp_parser_init (concat (map encode_command [[''SET'', ''k'', ''v''], [''GET'', ''k'']])) =
    (\<lparr>rp_buf = [], rp_ready = [[''SET'', ''k'', ''v''], [''GET'', ''k'']]\<rparr>, None)"
  by (rule feed_encoded_commands) (simp add: kMaxElements_def kMaxBulkBytes_def)

section \<open>Limits\<close>

lemma parse_bulks_limits:
  "parse_bulks buf n pos parts = Done cmd p \<Longrightarrow>
     length cmd = length parts + n \<and> (\<forall>a\<in>set (drop (length parts) cmd). int (length a) \<le> kMaxBulkBytes)
     \<and> take (length parts) cmd = parts"
proof (induction buf n pos parts rule: parse_bulks.induct)
  case (2 buf n pos parts)
  from "2.prems" obtain len q where q: "parse_number_line buf (pos + 1) = Done len q"
    and ok: "\<not> (len < 0 \<or> kMaxBulkBytes < len)" "\<not> length buf < q + nat len + 2"
      "substr buf (q + nat len) 2 = CRLF" "\<not> length buf \<le> pos" "buf ! pos = CHR ''$''"
    and rest: "parse_bulks buf n (q + nat len + 2) (parts @ [substr buf q (nat len)]) = Done cmd p"
    by (auto split: if_splits parsed.splits)
  have len: "int (length (substr buf q (nat len))) \<le> kMaxBulkBytes"
    using ok by (simp add: substr_def)
  note IH = "2.IH" [OF ok(4) _ q ok(1,2) _ rest]
  from IH ok have *: "length cmd = Suc (length parts) + n"
    "\<forall>a\<in>set (drop (Suc (length parts)) cmd). int (length a) \<le> kMaxBulkBytes"
    "take (Suc (length parts)) cmd = parts @ [substr buf q (nat len)]" by auto
  have "drop (length parts) cmd = substr buf q (nat len) # drop (Suc (length parts)) cmd"
    using * by (metis append_eq_conv_conj append_take_drop_id append.assoc append_Cons append_Nil
        length_append_singleton)
  moreover have "take (length parts) cmd = parts"
    using *(3) by (metis append_eq_conv_conj le_SucI take_take min.absorb1 order_refl length_append_singleton)
  ultimately show ?case using * len by auto
qed simp

text \<open>
  A hostile client cannot make one command exceed the daemon's limits.  Every command the
  parser accepts is an inline line, or a multibulk of at most 1024 elements of at most 64 MB
  each.
\<close>

theorem parse_one_limits:
  assumes "parse_one buf offset = Done cmd p" "buf ! offset = CHR ''*''"
  shows "int (length cmd) \<le> kMaxElements \<and> (\<forall>a\<in>set cmd. int (length a) \<le> kMaxBulkBytes)"
proof -
  from assms obtain n pos where n: "\<not> n < 0" "\<not> kMaxElements < n"
    and b: "parse_bulks buf (nat n) pos [] = Done cmd p"
    by (auto simp: parse_one_def split: if_splits parsed.splits)
  from parse_bulks_limits [OF b] n show ?thesis by simp
qed

theorem parse_one_limits_witness:
  "int (length [''GET'', ''k'']) \<le> kMaxElements \<and>
     int (length ''GET'') \<le> kMaxBulkBytes"
proof -
  have "parse_one (encode_command [''GET'', ''k''] @ []) 0 =
      Done [''GET'', ''k''] (length (encode_command [''GET'', ''k'']))"
    by (rule parse_one_encoded) (simp_all add: kMaxElements_def kMaxBulkBytes_def)
  then show ?thesis by (drule_tac parse_one_limits) (simp_all add: encode_command_def)
qed

text \<open>A length that is all digits but does not fit a \<open>long\<close> is not reported as a protocol error.\<close>

lemma parse_one_overlong:
  assumes "list_all isdigit ds" "2 ^ 63 \<le> read_nat ds"
  shows "parse_one (''*'' @ ds @ CRLF @ rest) 0 = Throw (ConvError OutOfRange)"
proof -
  have ds: "ds \<noteq> []" using assms(2) by (auto simp: read_nat_def)
  then have hd: "hd ds \<noteq> CHR ''-''" using assms(1) by (cases ds) (auto simp: isdigit_def code_def)
  have "CHR 0x0D \<notin> set ds" using assms(1) by (auto simp: list_all_iff isdigit_def code_def)
  then have f: "find_from (''*'' @ ds @ CRLF @ rest) CRLF (length ''*'') = Some (length ''*'' + length ds)"
    by (rule find_from_CRLF_after)
  have "stol ds = Inl OutOfRange" using assms ds by (subst sto_integer_digits) auto
  then have "parse_number_line (''*'' @ ds @ CRLF @ rest) (length ''*'') = Throw (ConvError OutOfRange)"
    unfolding parse_number_line_def f using assms(1) ds hd by (simp add: substr_def)
  then show ?thesis by (simp add: parse_one_def)
qed

lemma parse_bulks_word_length:
  "parse_bulks buf n pos parts = Done cmd p \<Longrightarrow> \<forall>x\<in>set parts. length x \<le> length buf \<Longrightarrow>
     \<forall>x\<in>set cmd. length x \<le> length buf"
proof (induction buf n pos parts rule: parse_bulks.induct)
  case (2 buf n pos parts)
  from "2.prems"(1) obtain len q where q: "parse_number_line buf (pos + 1) = Done len q"
    and ok: "\<not> (len < 0 \<or> kMaxBulkBytes < len)" "\<not> length buf < q + nat len + 2"
      "substr buf (q + nat len) 2 = CRLF" "\<not> length buf \<le> pos" "buf ! pos = CHR ''$''"
    and rest: "parse_bulks buf n (q + nat len + 2) (parts @ [substr buf q (nat len)]) = Done cmd p"
    by (auto split: if_splits parsed.splits)
  show ?case by (rule "2.IH" [OF _ _ q _ _ _ rest]) (use ok "2.prems"(2) in \<open>auto simp: substr_def\<close>)
qed simp

lemma split_words_length:
  "x \<in> set (split_words s out word) \<Longrightarrow> x \<in> set out \<or> length x \<le> length word + length s"
  by (induction s out word rule: split_words.induct) (fastforce split: if_splits)+

lemma parse_one_word_length:
  assumes "parse_one buf pos = Done cmd p"
  shows "\<forall>x\<in>set cmd. length x \<le> length buf"
proof (cases "buf ! pos = CHR ''*''")
  case True
  with assms obtain n q where "parse_bulks buf (nat n) q [] = Done cmd p"
    by (auto simp: parse_one_def split: if_splits parsed.splits)
  from parse_bulks_word_length [OF this] show ?thesis by simp
next
  case False
  with assms obtain crlf where cmd: "cmd = split_words (substr buf pos (crlf - pos)) [] []"
    by (auto simp: parse_one_def split: if_splits option.splits)
  have "length x \<le> length (substr buf pos (crlf - pos))" if "x \<in> set cmd" for x
    using split_words_length [of x "substr buf pos (crlf - pos)" "[]" "[]"] that cmd by simp
  moreover have "length (substr buf pos (crlf - pos)) \<le> length buf" by (simp add: substr_def)
  ultimately show ?thesis by fastforce
qed

lemma parse_loop_word_length:
  "parse_loop buf pos ready = (cs, k, e) \<Longrightarrow> \<forall>c\<in>set ready. \<forall>x\<in>set c. length x \<le> length buf \<Longrightarrow>
     \<forall>c\<in>set cs. \<forall>x\<in>set c. length x \<le> length buf"
proof (induction buf pos ready rule: parse_loop.induct)
  case (1 buf pos ready)
  show ?case
  proof (cases "parse_one buf pos")
    case (Done cmd q)
    have "parse_loop buf q (if cmd = [] then ready else ready @ [cmd]) = (cs, k, e)"
      using "1.prems"(1) Done by (simp add: parse_loop.simps [of buf pos])
    moreover have "\<forall>c\<in>set (if cmd = [] then ready else ready @ [cmd]). \<forall>x\<in>set c. length x \<le> length buf"
      using "1.prems"(2) parse_one_word_length [OF Done] by simp
    ultimately show ?thesis by (rule "1.IH" [OF Done])
  qed (use "1.prems" in \<open>simp_all add: parse_loop.simps [of buf pos]\<close>)
qed

end
