(* ===== verification/Archive.thy ===== *)
theory Archive
  imports Resp Disk_Store Corpus_Index
begin

text \<open>
  The archive behind the RESP daemon (\<open>src/src/arca/archive.cpp\<close>): the command dispatcher
  over the disk store and the shared corpus.  The archive's mutex makes each command atomic,
  so \<open>dispatch\<close> is a function on the archive state; whether the disk write of a \<open>SET\<close>
  succeeds is its first argument.
\<close>

section \<open>Model\<close>

definition upper :: "bytes \<Rightarrow> bytes" where
  "upper s = map toupper s"

definition err_arity :: "bytes \<Rightarrow> bytes" where
  "err_arity name = resp_error (''ERR wrong number of arguments for '' @ [CHR 0x27] @ name @ [CHR 0x27])"

definition pack_tokens :: "token list \<Rightarrow> bytes" where
  "pack_tokens toks = concat (map (\<lambda>u. [byte_of u, byte_of (drop_bit 8 u), byte_of (drop_bit 16 u),
     byte_of (drop_bit 24 u)]) toks)"

fun unpack_loop :: "bytes \<Rightarrow> token list" where
  "unpack_loop (b0 # b1 # b2 # b3 # s) =
     (word_of_byte b0 OR push_bit 8 (word_of_byte b1) OR push_bit 16 (word_of_byte b2)
        OR push_bit 24 (word_of_byte b3)) # unpack_loop s"
| "unpack_loop s = []"

definition unpack_tokens :: "bytes \<Rightarrow> token list option" where
  "unpack_tokens s = (if length s mod 4 \<noteq> 0 then None else Some (unpack_loop s))"

record archive =
  ar_store :: disk_store
  ar_corpus :: corpus

definition archive_open :: "u64 \<Rightarrow> nat \<Rightarrow> dir_item list \<Rightarrow> bytes option \<Rightarrow> archive" where
  "archive_open max_bytes corpus_ngram items log_file =
     \<lparr>ar_store = disk_open max_bytes items,
      ar_corpus = corpus_open corpus_ngram (push_bit 20 64) 8 log_file\<rparr>"

definition dispatch :: "bool \<Rightarrow> bytes list \<Rightarrow> archive \<Rightarrow> (cpp_ub + bytes) \<times> archive" where
  "dispatch write_ok cmd a =
     (if cmd = [] then (Inr (resp_error ''ERR empty command''), a)
      else let name = upper (hd cmd) in
      if name = ''PING'' then (Inr (resp_simple ''PONG''), a)
      else if name = ''SET'' then
        (if length cmd \<noteq> 3 then (Inr (err_arity ''set''), a)
         else case disk_put write_ok (ar_store a) (cmd ! 1) (cmd ! 2) of
                (stored, st) \<Rightarrow>
                  (Inr (if \<not> stored then resp_error ''ERR value larger than the archive budget''
                        else resp_simple ''OK''), a\<lparr>ar_store := st\<rparr>))
      else if name = ''GET'' then
        (if length cmd \<noteq> 2 then (Inr (err_arity ''get''), a)
         else case disk_get (ar_store a) (cmd ! 1) of
                (data, st) \<Rightarrow>
                  (Inr (case data of None \<Rightarrow> resp_nil | Some d \<Rightarrow> resp_bulk d), a\<lparr>ar_store := st\<rparr>))
      else if name = ''DEL'' then
        (if length cmd \<noteq> 2 then (Inr (err_arity ''del''), a)
         else case disk_remove (ar_store a) (cmd ! 1) of
                (removed, st) \<Rightarrow> (Inr (resp_integer (if removed then 1 else 0)), a\<lparr>ar_store := st\<rparr>))
      else if name = ''EXISTS'' then
        (if length cmd \<noteq> 2 then (Inr (err_arity ''exists''), a)
         else (Inr (resp_integer (if disk_contains (ar_store a) (cmd ! 1) then 1 else 0)), a))
      else if name = ''DBSIZE'' then
        (if length cmd \<noteq> 1 then (Inr (err_arity ''dbsize''), a)
         else (Inr (resp_integer (int (disk_count (ar_store a)))), a))
      else if name = ''ARCA.OBSERVE'' then
        (if length cmd \<noteq> 2 then (Inr (err_arity ''arca.observe''), a)
         else case unpack_tokens (cmd ! 1) of
                None \<Rightarrow> (Inr (resp_error ''ERR token payload must be whole u32s''), a)
              | Some toks \<Rightarrow> (Inr (resp_simple ''OK''), a\<lparr>ar_corpus := observe toks (ar_corpus a)\<rparr>))
      else if name = ''ARCA.DRAFT'' then
        (if length cmd \<noteq> 3 then (Inr (err_arity ''arca.draft''), a)
         else case unpack_tokens (cmd ! 1) of
                None \<Rightarrow> (Inr (resp_error ''ERR token payload must be whole u32s''), a)
              | Some tail \<Rightarrow>
                  (case stoi (cmd ! 2) of
                     Inl _ \<Rightarrow> (Inr (resp_error ''ERR draft length is not an integer''), a)
                   | Inr (k, _) \<Rightarrow>
                       if k \<le> 0 then (Inr (resp_error ''ERR draft length must be positive''), a)
                       else (case draft (ar_corpus a) tail k of
                               Inl ub \<Rightarrow> (Inl ub, a)
                             | Inr d \<Rightarrow> (Inr (if d = [] then resp_nil else resp_bulk (pack_tokens d)), a))))
      else (Inr (resp_error (''ERR unknown command '' @ [CHR 0x27] @ hd cmd @ [CHR 0x27])), a))"

section \<open>Tokens on the wire\<close>

lemma unpack_loop_le: "unpack_loop (le_bytes 4 (w :: token) @ s) = w # unpack_loop s"
proof -
  have eq: "word_of_byte (byte_of w) OR push_bit 8 (word_of_byte (byte_of (drop_bit 8 w)))
      OR push_bit 16 (word_of_byte (byte_of (drop_bit 16 w))) OR push_bit 24 (word_of_byte (byte_of (drop_bit 24 w)))
      = (le_read (le_bytes 4 w) :: token)"
    unfolding le_bytes_4 by (simp add: push_bit_or ac_simps)
  have "unpack_loop (le_bytes 4 w @ s) = (le_read (le_bytes 4 w) :: token) # unpack_loop s"
    unfolding eq [symmetric] by (simp add: le_bytes_4)
  then show ?thesis by simp
qed

lemma pack_tokens_le_bytes: "pack_tokens toks = concat (map (le_bytes 4) toks)"
  by (simp add: pack_tokens_def le_bytes_4 [abs_def])

lemma unpack_loop_pack: "unpack_loop (pack_tokens toks) = toks"
  unfolding pack_tokens_le_bytes by (induction toks) (simp_all add: unpack_loop_le)

text \<open>
  Token ids survive the wire: unpacking what was packed gives the tokens back, and a
  payload is refused exactly when its length is not a multiple of four.
\<close>

theorem tokens_round_trip:
  "unpack_tokens (pack_tokens toks) = Some toks \<and> (unpack_tokens s = None \<longleftrightarrow> length s mod 4 \<noteq> 0)"
  by (simp add: unpack_tokens_def unpack_loop_pack) (simp add: pack_tokens_le_bytes)

section \<open>The archive invariant\<close>

definition archive_wf :: "archive \<Rightarrow> bool" where
  "archive_wf a \<longleftrightarrow> store_wf (ar_store a) \<and> within_budget (ar_store a) \<and> ds_max_bytes (ar_store a) \<le> 2 ^ 63
     \<and> corpus_wf (ar_corpus a) \<and> 0 < ci_ngram (ar_corpus a)
     \<and> log_size (ar_corpus a) \<le> max_tokens (ar_corpus a) \<and> max_tokens (ar_corpus a) < 2 ^ 32"

text \<open>
  What a command's arguments satisfy: a bulk has at most 64 MB, an inline word at most what
  the input buffer holds, both far below 2 GB.  An archive without a budget must in addition
  not have filled half the 64-bit byte counter.
\<close>

definition cmd_fits :: "bytes list \<Rightarrow> archive \<Rightarrow> bool" where
  "cmd_fits cmd a \<longleftrightarrow> (\<forall>x\<in>set cmd. length x < 2 ^ 31)
     \<and> (ds_max_bytes (ar_store a) = 0 \<longrightarrow> ds_total_bytes (ar_store a) \<le> 2 ^ 63)"

lemma cmd_fits_no_wrap:
  assumes "archive_wf a" "cmd_fits [n, k, v] a"
  shows "no_wrap (ar_store a) k v"
proof -
  have "unat (ds_total_bytes (ar_store a)) \<le> 2 ^ 63"
  proof -
    have "ds_total_bytes (ar_store a) \<le> 2 ^ 63"
      using assms by (auto simp: archive_wf_def within_budget_def cmd_fits_def)
    then show ?thesis by (simp add: word_le_nat_alt)
  qed
  with assms(2) show ?thesis by (simp add: no_wrap_def cmd_fits_def)
qed

lemma cmd_3: "length cmd = 3 \<Longrightarrow> cmd = [cmd ! 0, cmd ! 1, cmd ! 2]"
  by (auto simp: eval_nat_numeral length_Suc_conv)

lemma corpus_sane_archive: "archive_wf a \<Longrightarrow> corpus_sane (ar_corpus a)"
  by (simp add: archive_wf_def corpus_sane_def log_size_def)

lemma log_size_observe:
  assumes "corpus_wf c" "log_size c \<le> max_tokens c"
  shows "log_size (observe t c) \<le> max_tokens c"
proof (cases "t = []")
  case False
  then show ?thesis
    using length_log_streams [OF observe_wf [OF assms(1), of t]] streams_observe [OF assms(1), of t] fit_suffix_le
    by (simp add: log_size_def)
qed (use assms in \<open>simp add: observe_def\<close>)

lemma dispatch_effect_of:
  assumes "dispatch ok cmd a = (r, a')"
  obtains (same) "a' = a"
  | (put) n k v where "upper n = ''SET''" "cmd = [n, k, v]" "a' = a\<lparr>ar_store := snd (disk_put ok (ar_store a) k v)\<rparr>"
  | (get) k where "a' = a\<lparr>ar_store := snd (disk_get (ar_store a) k)\<rparr>"
  | (del) k where "a' = a\<lparr>ar_store := snd (disk_remove (ar_store a) k)\<rparr>"
  | (obs) toks where "a' = a\<lparr>ar_corpus := observe toks (ar_corpus a)\<rparr>"
proof (cases "upper (hd cmd) = ''SET'' \<and> length cmd = 3")
  case True
  then have "cmd = [hd cmd, cmd ! 1, cmd ! 2]" by (cases cmd) (auto simp: eval_nat_numeral length_Suc_conv)
  moreover have "a' = a\<lparr>ar_store := snd (disk_put ok (ar_store a) (cmd ! 1) (cmd ! 2))\<rparr>"
    using assms True by (cases cmd) (auto simp: dispatch_def split: prod.splits)
  ultimately show ?thesis using put True by blast
next
  case False
  have "a' = a \<or> (\<exists>k. a' = a\<lparr>ar_store := snd (disk_get (ar_store a) k)\<rparr>)
      \<or> (\<exists>k. a' = a\<lparr>ar_store := snd (disk_remove (ar_store a) k)\<rparr>)
      \<or> (\<exists>toks. a' = a\<lparr>ar_corpus := observe toks (ar_corpus a)\<rparr>)"
    using assms False unfolding dispatch_def Let_def
    by (simp split: if_splits prod.splits option.splits sum.splits) (metis snd_conv)+
  then show ?thesis using same get del obs by blast
qed

lemma dispatch_effect:
  obtains (same) "snd (dispatch ok cmd a) = a"
  | (put) n k v where "upper n = ''SET''" "cmd = [n, k, v]" "snd (dispatch ok cmd a) = a\<lparr>ar_store := snd (disk_put ok (ar_store a) k v)\<rparr>"
  | (get) k where "snd (dispatch ok cmd a) = a\<lparr>ar_store := snd (disk_get (ar_store a) k)\<rparr>"
  | (del) k where "snd (dispatch ok cmd a) = a\<lparr>ar_store := snd (disk_remove (ar_store a) k)\<rparr>"
  | (obs) toks where "snd (dispatch ok cmd a) = a\<lparr>ar_corpus := observe toks (ar_corpus a)\<rparr>"
  using dispatch_effect_of [OF prod.collapse [symmetric], of ok cmd a] same put get del obs by blast

lemma dispatch_replies:
  assumes "corpus_sane (ar_corpus a)"
  shows "\<exists>r. fst (dispatch ok cmd a) = Inr r"
proof -
  have "\<exists>d. draft (ar_corpus a) tail k = Inr d" for tail k by (rule draft_defined [OF assms])
  then show ?thesis
    unfolding dispatch_def Let_def
    by (simp split: prod.splits option.splits sum.splits) (metis sum.distinct(1))
qed

lemma store_total_put:
  assumes "disk_put ok st key data = (b, st')" "ds_max_bytes st = 0"
  shows "ds_max_bytes st' = 0"
  using assms by (auto simp: disk_put_def Let_def split: if_splits)

lemma archive_wf_put:
  assumes "archive_wf a" "cmd_fits [n, k, v] a"
  shows "archive_wf (a\<lparr>ar_store := snd (disk_put ok (ar_store a) k v)\<rparr>)"
proof -
  obtain b st where p: "disk_put ok (ar_store a) k v = (b, st)" by (cases "disk_put ok (ar_store a) k v")
  have "store_wf (ar_store a)" "within_budget (ar_store a)" using assms(1) by (auto simp: archive_wf_def)
  from store_wf_put [OF this(1) cmd_fits_no_wrap [OF assms] p] put_within_budget [OF this p] assms(1) p
  show ?thesis by (simp add: archive_wf_def)
qed

lemma archive_wf_dispatch:
  assumes "archive_wf a" "cmd_fits cmd a"
  shows "archive_wf (snd (dispatch ok cmd a))"
proof (cases rule: dispatch_effect [of ok cmd a])
  case (put n k v)
  with archive_wf_put [of a n k v ok] assms show ?thesis by simp
next
  case (get k)
  then show ?thesis
    using assms store_wf_get [of "ar_store a" k] get_within_budget [of "ar_store a" k] by (simp add: archive_wf_def)
next
  case (del k)
  then show ?thesis
    using assms store_wf_remove [of "ar_store a" k] remove_within_budget [of "ar_store a" k] by (simp add: archive_wf_def)
next
  case (obs toks)
  then show ?thesis
    using assms log_size_observe [of "ar_corpus a" toks] observe_wf [of "ar_corpus a" toks]
    by (simp add: archive_wf_def)
qed (use assms in simp)

text \<open>
  A bad client never takes the archive down.  Whatever command arrives (any name, any
  number of arguments, any bytes, below 2 GB each), the dispatcher produces a
  reply, reads nothing out of bounds, and leaves the store and the corpus well formed and
  within their budgets.
\<close>

theorem dispatch_safe:
  assumes "archive_wf a" "cmd_fits cmd a"
  shows "(\<exists>r. fst (dispatch ok cmd a) = Inr r) \<and> archive_wf (snd (dispatch ok cmd a))"
  using dispatch_replies [OF corpus_sane_archive [OF assms(1)], of ok cmd] archive_wf_dispatch [OF assms, of ok] by simp

section \<open>Reading what was written\<close>

lemma dispatch_GET:
  "upper n = ''GET'' \<Longrightarrow> dispatch ok [n, k] a =
     (Inr (case fst (disk_get (ar_store a) k) of None \<Rightarrow> resp_nil | Some d \<Rightarrow> resp_bulk d),
      a\<lparr>ar_store := snd (disk_get (ar_store a) k)\<rparr>)"
  by (simp add: dispatch_def split: prod.splits)

lemma dispatch_SET:
  "upper n = ''SET'' \<Longrightarrow> dispatch ok [n, k, v] a =
     (Inr (if \<not> fst (disk_put ok (ar_store a) k v) then resp_error ''ERR value larger than the archive budget''
           else resp_simple ''OK''), a\<lparr>ar_store := snd (disk_put ok (ar_store a) k v)\<rparr>)"
  by (simp add: dispatch_def split: prod.splits)

text \<open>The commands other clients send between a write and a read, none of which sets the key.\<close>

fun dispatch_all :: "(bool \<times> bytes list) list \<Rightarrow> archive \<Rightarrow> archive" where
  "dispatch_all [] a = a"
| "dispatch_all ((ok, cmd) # cmds) a = dispatch_all cmds (snd (dispatch ok cmd a))"

fun all_fit :: "(bool \<times> bytes list) list \<Rightarrow> archive \<Rightarrow> bool" where
  "all_fit [] a \<longleftrightarrow> True"
| "all_fit ((ok, cmd) # cmds) a \<longleftrightarrow> cmd_fits cmd a \<and> all_fit cmds (snd (dispatch ok cmd a))"

definition sets_key :: "bytes \<Rightarrow> bytes list \<Rightarrow> bool" where
  "sets_key k cmd \<longleftrightarrow> (\<exists>n v. cmd = [n, k, v] \<and> upper n = ''SET'')"

definition foreign_step :: "bytes \<Rightarrow> disk_store \<Rightarrow> disk_store \<Rightarrow> bool" where
  "foreign_step k s s' \<longleftrightarrow> (\<exists>e k' d'. k' \<noteq> k \<and> no_wrap s k' d' \<and> s' = snd (disk_put e s k' d'))
      \<or> (\<exists>k'. s' = snd (disk_get s k')) \<or> (\<exists>k'. s' = snd (disk_remove s k'))"

lemma dispatch_foreign:
  assumes "archive_wf a" "cmd_fits cmd a" "\<not> sets_key k cmd"
  shows "(foreign_step k)\<^sup>*\<^sup>* (ar_store a) (ar_store (snd (dispatch ok cmd a)))"
proof (cases rule: dispatch_effect [of ok cmd a])
  case (put n k' v)
  then have "k' \<noteq> k" using assms(3) by (auto simp: sets_key_def)
  moreover have "no_wrap (ar_store a) k' v" using assms(1,2) put(2) cmd_fits_no_wrap by blast
  ultimately have "foreign_step k (ar_store a) (ar_store (snd (dispatch ok cmd a)))"
    using put(3) unfolding foreign_step_def by auto
  then show ?thesis by (rule r_into_rtranclp)
next
  case (get k')
  then have "foreign_step k (ar_store a) (ar_store (snd (dispatch ok cmd a)))" unfolding foreign_step_def by auto
  then show ?thesis by (rule r_into_rtranclp)
next
  case (del k')
  then have "foreign_step k (ar_store a) (ar_store (snd (dispatch ok cmd a)))" unfolding foreign_step_def by auto
  then show ?thesis by (rule r_into_rtranclp)
qed simp_all

lemma dispatch_all_foreign:
  assumes "archive_wf a" "all_fit cmds a" "\<forall>c\<in>set cmds. \<not> sets_key k (snd c)"
  shows "archive_wf (dispatch_all cmds a) \<and> (foreign_step k)\<^sup>*\<^sup>* (ar_store a) (ar_store (dispatch_all cmds a))"
  using assms
proof (induction cmds a rule: dispatch_all.induct)
  case (2 ok cmd cmds a)
  then have "archive_wf (snd (dispatch ok cmd a))" by (simp add: archive_wf_dispatch)
  with 2 dispatch_foreign [of a cmd k ok] show ?case by (auto intro: rtranclp_trans)
qed simp

lemmas disk_others_only_lose = disk.others_only_lose [folded foreign_step_def]

text \<open>
  What a client reads is what was written.  After an acknowledged \<open>SET\<close>, and whatever
  commands other clients run in between as long as none of them sets the same key, a \<open>GET\<close>
  is answered with exactly the stored bytes or with nil; with nothing in between it is
  answered with the stored bytes.  Command names count in any letter case.
\<close>

theorem archive_set_get:
  assumes "archive_wf a" "upper sn = ''SET''" "upper gn = ''GET''" "cmd_fits [sn, k, v] a"
    and "dispatch ok [sn, k, v] a = (Inr (resp_simple ''OK''), a')"
    and "all_fit cmds a'" "\<forall>c\<in>set cmds. \<not> sets_key k (snd c)"
  shows "fst (dispatch ok' [gn, k] (dispatch_all cmds a')) \<in> {Inr resp_nil, Inr (resp_bulk v)}
    \<and> fst (dispatch ok' [gn, k] a') = Inr (resp_bulk v)"
proof -
  have wf: "store_wf (ar_store a)" and nw: "no_wrap (ar_store a) k v"
    using assms(1) cmd_fits_no_wrap [OF assms(1,4)] by (auto simp: archive_wf_def)
  have put: "fst (disk_put ok (ar_store a) k v)" and a': "a' = a\<lparr>ar_store := snd (disk_put ok (ar_store a) k v)\<rparr>"
    using assms(2,5) by (auto simp: dispatch_SET resp_simple_def resp_error_def split: if_splits)
  have read: "fst (disk_get (ar_store a') k) = Some v"
    using disk.stored_then_read [OF wf nw put] by (simp add: a')
  have wf': "archive_wf a'" using archive_wf_dispatch [OF assms(1,4), of ok] assms(5) by simp
  then have "visible (ar_store a') k = Some v" using read disk.get_view by (simp add: archive_wf_def)
  then have "fst (disk_get (ar_store (dispatch_all cmds a')) k) \<in> {None, Some v}"
    using disk_others_only_lose [of k "ar_store a'" "ar_store (dispatch_all cmds a')"]
      dispatch_all_foreign [OF wf' assms(6,7)] wf' by (auto simp: archive_wf_def)
  with read assms(3) show ?thesis by (auto simp: dispatch_GET)
qed

section \<open>A fresh archive\<close>

lemma archive_open_fresh_wf:
  assumes "max_bytes \<le> 2 ^ 63" "0 < ngram"
  shows "archive_wf (archive_open max_bytes ngram [] None)"
proof -
  have m: "unat (push_bit 20 64 :: u64) div 4 = 2 ^ 24" by simp
  have "corpus_saved (corpus_open ngram (push_bit 20 64) 8 None)"
    "ci_ngram (corpus_open ngram (push_bit 20 64) 8 None) = ngram"
    "max_tokens (corpus_open ngram (push_bit 20 64) 8 None) = 2 ^ 24"
    using corpus_fresh_saved [of ngram "push_bit 20 64" 8] m by auto
  moreover have "disk_open max_bytes [] = fresh_store max_bytes" by (simp add: fresh_store_def)
  ultimately show ?thesis
    using assms fresh_store_wf(1) [of max_bytes]
    by (simp add: archive_wf_def archive_open_def corpus_saved_def within_budget_def)
qed

definition demo_archive :: archive where
  "demo_archive = archive_open 0 3 [] None"

lemma demo_archive_ok: "archive_wf demo_archive" "ar_store demo_archive = fresh_store 0"
  using archive_open_fresh_wf [of 0 3] by (simp_all add: demo_archive_def archive_open_def fresh_store_def)

lemma demo_cmd_fits: "\<forall>x\<in>set cmd. length x \<le> 100 \<Longrightarrow> cmd_fits cmd demo_archive"
  by (auto simp: cmd_fits_def demo_archive_ok)

theorem dispatch_safe_witness: "archive_wf (snd (dispatch True [''nonsense''] demo_archive))"
  using dispatch_safe [OF demo_archive_ok(1) demo_cmd_fits, of "[''nonsense'']"] by simp

theorem archive_set_get_witness:
  "fst (dispatch True [''get'', ''k''] (snd (dispatch True [''Set'', ''k'', ''v''] demo_archive))) = Inr (resp_bulk ''v'')"
proof -
  have names: "upper ''Set'' = ''SET''" "upper ''get'' = ''GET''"
    by code_simp+
  have "dispatch True [''Set'', ''k'', ''v''] demo_archive =
      (Inr (resp_simple ''OK''), snd (dispatch True [''Set'', ''k'', ''v''] demo_archive))"
    by (simp add: dispatch_SET names demo_archive_ok demo_put)
  from archive_set_get [OF demo_archive_ok(1) names demo_cmd_fits this, of "[]"] show ?thesis by simp
qed

end
