(* ===== verification/Arca_Server.thy ===== *)
theory Arca_Server
  imports Archive
begin

text \<open>
  One connection worker of the ARCA daemon (\<open>src/src/arca/server.cpp\<close>, \<open>Impl::serve\<close>) and
  the workers of several connections sharing the archive.  Every call of \<open>read_some\<close> is a
  read event: the bytes that arrived, the outcomes of the disk writes its commands make (in
  order, successful when not listed), and whether the socket accepts the reply.  The list of
  events ends when the peer hangs up or \<open>stop\<close> shuts the socket down.  The worker catches
  \<open>RespError\<close> only; any other exception leaves the thread function and terminates the
  process.
\<close>

section \<open>Model\<close>

record read_event =
  re_bytes :: bytes
  re_oks :: "bool list"
  re_write_ok :: bool

datatype serve_end = HungUp | ProtocolError | WriteFailed | Terminated | Undefined

fun dispatch_cmds :: "bool list \<Rightarrow> bytes list list \<Rightarrow> archive \<Rightarrow> bytes \<Rightarrow> (cpp_ub + bytes) \<times> archive" where
  "dispatch_cmds oks [] a out = (Inr out, a)"
| "dispatch_cmds oks (cmd # cmds) a out =
     (case dispatch (oks = [] \<or> hd oks) cmd a of
        (Inl ub, a') \<Rightarrow> (Inl ub, a')
      | (Inr r, a') \<Rightarrow> dispatch_cmds (tl oks) cmds a' (out @ r))"

fun serve_loop :: "read_event list \<Rightarrow> resp_parser \<Rightarrow> archive \<Rightarrow> bytes \<Rightarrow> serve_end \<times> bytes \<times> archive" where
  "serve_loop [] p a sent = (HungUp, sent, a)"
| "serve_loop (ev # evs) p a sent =
     (case feed p (re_bytes ev) of
        (p1, Some (RespError e)) \<Rightarrow> (ProtocolError, sent @ resp_error (''ERR '' @ e), a)
      | (p1, Some (ConvError e)) \<Rightarrow> (Terminated, sent, a)
      | (p1, None) \<Rightarrow>
          (case resp_take p1 of
             (cmds, p2) \<Rightarrow>
               (case dispatch_cmds (re_oks ev) cmds a [] of
                  (Inl ub, a') \<Rightarrow> (Undefined, sent, a')
                | (Inr out, a') \<Rightarrow>
                    if out \<noteq> [] \<and> \<not> re_write_ok ev then (WriteFailed, sent, a')
                    else serve_loop evs p2 a' (sent @ out))))"

definition serve :: "read_event list \<Rightarrow> archive \<Rightarrow> serve_end \<times> bytes \<times> archive" where
  "serve evs a = serve_loop evs resp_parser_init a []"

section \<open>A connection's commands\<close>

lemma dispatch_cmds_out:
  "dispatch_cmds oks cmds a (o1 @ o2) =
     (case dispatch_cmds oks cmds a o2 of (Inl ub, a') \<Rightarrow> (Inl ub, a') | (Inr r, a') \<Rightarrow> (Inr (o1 @ r), a'))"
proof (induction cmds arbitrary: oks a o2)
  case (Cons cmd cmds)
  obtain r a' where d: "dispatch (oks = [] \<or> hd oks) cmd a = (r, a')" by fastforce
  show ?case using Cons.IH [of "tl oks" a' "o2 @ projr r"] d by (cases r) auto
qed simp

lemma dispatch_cmds_append:
  "dispatch_cmds [] (cs @ ds) a out =
     (case dispatch_cmds [] cs a out of (Inl ub, a') \<Rightarrow> (Inl ub, a') | (Inr r, a') \<Rightarrow> dispatch_cmds [] ds a' r)"
  by (induction cs arbitrary: a out) (auto split: prod.splits sum.splits)

lemma parse_loop_stop: "parse_loop buf o1 ready = (cs, k, None) \<Longrightarrow> parse_one buf k = NeedMore"
proof (induction buf o1 ready rule: parse_loop.induct)
  case (1 buf o1 ready)
  show ?case
    using "1.prems" "1.IH" by (cases "parse_one buf o1") (auto simp: parse_loop.simps [of buf o1])
qed

text \<open>Between two reads the parser holds an incomplete command and nothing ready.\<close>

definition parser_idle :: "resp_parser \<Rightarrow> bool" where
  "parser_idle p \<longleftrightarrow> rp_ready p = [] \<and> parse_one (rp_buf p) 0 = NeedMore"

lemma parser_idle_init: "parser_idle resp_parser_init"
  by (simp add: parser_idle_def resp_parser_init_def parse_one_def)

lemma feed_idle:
  assumes "parser_idle p" "parse_loop (rp_buf p @ s) 0 [] = (cs, k, None)"
  shows "feed p s = (\<lparr>rp_buf = drop k (rp_buf p @ s), rp_ready = cs\<rparr>, None)"
    "parser_idle \<lparr>rp_buf = drop k (rp_buf p @ s), rp_ready = []\<rparr>"
proof -
  show "feed p s = (\<lparr>rp_buf = drop k (rp_buf p @ s), rp_ready = cs\<rparr>, None)"
    using assms by (simp add: feed_def parser_idle_def Let_def)
  define buf where "buf = rp_buf p @ s"
  have k: "k \<le> length buf" using parse_loop_offset [OF assms(2)] by (simp add: buf_def)
  have "parse_one (take k buf @ drop k buf) (length (take k buf) + 0) = NeedMore"
    using parse_loop_stop [OF assms(2)] k by (simp add: buf_def [symmetric])
  then have "parse_one (drop k buf) 0 = NeedMore"
    unfolding parse_one_shift by (cases "parse_one (drop k buf) 0") (auto simp: shift_parsed_def)
  then show "parser_idle \<lparr>rp_buf = drop k (rp_buf p @ s), rp_ready = []\<rparr>"
    by (simp add: parser_idle_def buf_def)
qed

lemma parse_loop_split:
  assumes "parse_loop (s @ t) 0 [] = (cs, k, None)"
  obtains cs1 k1 cs2 k2 where "parse_loop s 0 [] = (cs1, k1, None)" "k1 \<le> length s"
    "parse_loop (drop k1 s @ t) 0 [] = (cs2, k2, None)" "cs = cs1 @ cs2" "k = k1 + k2"
proof -
  obtain cs1 k1 where 1: "parse_loop s 0 [] = (cs1, k1, None)"
    using assms parse_loop_append [of s t 0 "[]"] by (auto split: prod.splits option.splits)
  then have k1: "k1 \<le> length s" using parse_loop_offset by fastforce
  have "parse_loop (s @ t) 0 [] = parse_loop (s @ t) k1 cs1" using parse_loop_append [of s t 0 "[]"] 1 by simp
  then have "parse_loop (s @ t) k1 cs1 = (cs, k, None)" using assms by simp
  moreover have "s @ t = take k1 s @ (drop k1 s @ t)" by simp
  ultimately have "parse_loop (take k1 s @ (drop k1 s @ t)) (length (take k1 s) + 0) (cs1 @ []) = (cs, k, None)"
    using k1 by (metis add_0_right append_Nil2 length_take min.absorb2)
  then obtain cs2 k2 where "parse_loop (drop k1 s @ t) 0 [] = (cs2, k2, None)" "cs = cs1 @ cs2" "k = k1 + k2"
    unfolding parse_loop_shift parse_loop_ready using k1 by (auto split: prod.splits)
  with that 1 k1 show ?thesis by blast
qed

definition plain_reads :: "read_event list \<Rightarrow> bool" where
  "plain_reads evs \<longleftrightarrow> (\<forall>ev\<in>set evs. re_oks ev = [] \<and> re_write_ok ev)"

lemma serve_loop_stream:
  assumes "parser_idle p" "plain_reads evs"
    and "parse_loop (rp_buf p @ concat (map re_bytes evs)) 0 [] = (cs, k, None)"
    and "dispatch_cmds [] cs a [] = (Inr out, a')"
  shows "serve_loop evs p a sent = (HungUp, sent @ out, a')"
  using assms
proof (induction evs arbitrary: p a sent cs k out)
  case Nil
  then have "parse_loop (rp_buf p) 0 [] = ([], 0, None)"
    by (simp add: parser_idle_def parse_loop.simps)
  with Nil show ?case by simp
next
  case (Cons ev evs)
  let ?s = "rp_buf p @ re_bytes ev" and ?t = "concat (map re_bytes evs)"
  obtain cs1 k1 cs2 k2 where p1: "parse_loop ?s 0 [] = (cs1, k1, None)"
    and p2: "parse_loop (drop k1 ?s @ ?t) 0 [] = (cs2, k2, None)" and cs: "cs = cs1 @ cs2"
  proof (rule parse_loop_split [of ?s ?t cs k])
    show "parse_loop (?s @ ?t) 0 [] = (cs, k, None)" using Cons.prems(3) by simp
  qed
  obtain out1 a1 where d1: "dispatch_cmds [] cs1 a [] = (Inr out1, a1)"
    and d2': "dispatch_cmds [] cs2 a1 (out1 @ []) = (Inr out, a')"
    using Cons.prems(4) unfolding cs dispatch_cmds_append by (auto split: prod.splits sum.splits)
  then obtain out2 where d2: "dispatch_cmds [] cs2 a1 [] = (Inr out2, a')" "out = out1 @ out2"
    unfolding dispatch_cmds_out by (auto split: prod.splits sum.splits)
  note f = feed_idle [OF Cons.prems(1) p1]
  have "serve_loop evs \<lparr>rp_buf = drop k1 ?s, rp_ready = []\<rparr> a1 (sent @ out1) = (HungUp, (sent @ out1) @ out2, a')"
    using Cons.IH [OF f(2) _ _ d2(1)] p2 Cons.prems(2) by (simp add: plain_reads_def)
  then show ?case
    using f(1) d1 d2(2) Cons.prems(2) by (simp add: resp_take_def plain_reads_def)
qed

lemma dispatch_cmds_all:
  assumes "archive_wf a" "all_fit (map (Pair True) cmds) a"
  shows "\<exists>out. dispatch_cmds [] cmds a [] = (Inr out, dispatch_all (map (Pair True) cmds) a)
    \<and> archive_wf (dispatch_all (map (Pair True) cmds) a)"
  using assms
proof (induction cmds arbitrary: a)
  case (Cons cmd cmds)
  from Cons.prems have fit: "cmd_fits cmd a" by simp
  obtain r a1 where r: "dispatch True cmd a = (Inr r, a1)"
    using dispatch_replies [OF corpus_sane_archive [OF Cons.prems(1)], of True cmd] by (metis prod.collapse)
  obtain out where "dispatch_cmds [] cmds a1 [] = (Inr out, dispatch_all (map (Pair True) cmds) a1)"
    "archive_wf (dispatch_all (map (Pair True) cmds) a1)"
    using Cons.IH [of a1] archive_wf_dispatch [OF Cons.prems(1) fit, of True] Cons.prems(2) r by auto
  with r dispatch_cmds_out [of "[]" cmds a1 r "[]"] show ?case by simp
qed simp

definition sendable :: "bytes list \<Rightarrow> bool" where
  "sendable args \<longleftrightarrow> args \<noteq> [] \<and> int (length args) \<le> kMaxElements
     \<and> (\<forall>a\<in>set args. int (length a) \<le> kMaxBulkBytes)"

lemma parse_loop_sendable:
  "list_all sendable cmds \<Longrightarrow> parse_loop (concat (map encode_command cmds)) 0 ready =
     (ready @ cmds, length (concat (map encode_command cmds)), None)"
  by (rule parse_loop_encoded) (auto simp: list_all_iff sendable_def)

text \<open>
  C19: a pipelining client gets all its replies.  However the network slices the bytes of a
  pipeline of well-formed commands into reads, the worker executes exactly those commands, in
  order, answers each of them, keeps the archive well formed, and stays until the peer hangs
  up.
\<close>

theorem serve_pipeline:
  assumes "archive_wf a" "list_all sendable cmds" "all_fit (map (Pair True) cmds) a"
    and "plain_reads evs" "concat (map re_bytes evs) = concat (map encode_command cmds)"
  shows "\<exists>out. dispatch_cmds [] cmds a [] = (Inr out, dispatch_all (map (Pair True) cmds) a)
    \<and> serve evs a = (HungUp, out, dispatch_all (map (Pair True) cmds) a)
    \<and> archive_wf (dispatch_all (map (Pair True) cmds) a)"
proof -
  obtain out where out: "dispatch_cmds [] cmds a [] = (Inr out, dispatch_all (map (Pair True) cmds) a)"
    "archive_wf (dispatch_all (map (Pair True) cmds) a)"
    using dispatch_cmds_all [OF assms(1,3)] by blast
  have "parse_loop (rp_buf resp_parser_init @ concat (map re_bytes evs)) 0 [] =
      (cmds, length (concat (map encode_command cmds)), None)"
    using parse_loop_sendable [OF assms(2), of "[]"] assms(5) by (simp add: resp_parser_init_def)
  from serve_loop_stream [OF parser_idle_init assms(4) this out(1), of "[]"] out show ?thesis
    by (simp add: serve_def)
qed

section \<open>Malformed input\<close>

definition one_read :: "bytes \<Rightarrow> read_event" where
  "one_read bs = \<lparr>re_bytes = bs, re_oks = [], re_write_ok = True\<rparr>"

text \<open>
  On a protocol error the commands that arrived in the same read are lost.  A pipeline
  followed by malformed bytes is executed and answered if the two arrive in separate reads; if
  they arrive together, none of its commands is executed or answered and the client only sees
  the error.
\<close>

theorem serve_drops_pipelined:
  assumes "archive_wf a" "list_all sendable cmds" "all_fit (map (Pair True) cmds) a"
    and "parse_one bad 0 = Throw (RespError e)"
    and "pipeline = concat (map encode_command cmds)"
  shows "serve [one_read (pipeline @ bad)] a = (ProtocolError, resp_error (''ERR '' @ e), a)
    \<and> (\<exists>out. dispatch_cmds [] cmds a [] = (Inr out, dispatch_all (map (Pair True) cmds) a)
        \<and> serve [one_read pipeline, one_read bad] a =
            (ProtocolError, out @ resp_error (''ERR '' @ e), dispatch_all (map (Pair True) cmds) a))"
proof -
  obtain out where out: "dispatch_cmds [] cmds a [] = (Inr out, dispatch_all (map (Pair True) cmds) a)"
    using dispatch_cmds_all [OF assms(1,3)] by blast
  have bad: "parse_loop bad 0 ready = (ready, 0, Some (RespError e))" for ready
    using assms(4) by (simp add: parse_loop.simps)
  have pipe: "parse_loop pipeline 0 [] = (cmds, length pipeline, None)"
    using parse_loop_sendable [OF assms(2), of "[]"] assms(5) by simp
  then have "parse_loop (pipeline @ bad) 0 [] = (cmds, length pipeline, Some (RespError e))"
    using parse_loop_append [of pipeline bad 0 "[]"] parse_loop_shift [of pipeline bad 0 cmds] bad by simp
  then have "feed resp_parser_init (pipeline @ bad) =
      (\<lparr>rp_buf = pipeline @ bad, rp_ready = cmds\<rparr>, Some (RespError e))"
    by (simp add: feed_def resp_parser_init_def)
  moreover have "feed resp_parser_init pipeline = (\<lparr>rp_buf = [], rp_ready = cmds\<rparr>, None)"
    using pipe by (simp add: feed_def resp_parser_init_def)
  moreover have "feed \<lparr>rp_buf = [], rp_ready = []\<rparr> bad = (\<lparr>rp_buf = bad, rp_ready = []\<rparr>, Some (RespError e))"
    using bad by (simp add: feed_def)
  ultimately show ?thesis
    using out by (simp add: serve_def one_read_def resp_take_def)
qed

text \<open>
  C36: one line takes the daemon down.  An array length of digits that does not fit a
  \<open>long\<close> makes \<open>std::stol\<close> throw \<open>std::out_of_range\<close>, which the worker does not catch.
\<close>

theorem serve_overlong_terminates:
  assumes "list_all isdigit ds" "2 ^ 63 \<le> read_nat ds"
  shows "serve (one_read (''*'' @ ds @ CRLF @ rest) # evs) a = (Terminated, [], a)"
proof -
  have "feed resp_parser_init (''*'' @ ds @ CRLF @ rest) =
      (\<lparr>rp_buf = ''*'' @ ds @ CRLF @ rest, rp_ready = []\<rparr>, Some (ConvError OutOfRange))"
    using parse_one_overlong [OF assms, of rest]
    by (simp add: feed_def resp_parser_init_def parse_loop.simps [of _ 0] Let_def)
  then show ?thesis by (simp add: serve_def one_read_def)
qed

section \<open>Concurrent connections\<close>

text \<open>
  The daemon: one archive shared by the workers of all connections.  A worker reads when it
  has answered everything, executes its pending commands one at a time (the archive's mutex
  makes one command atomic, and commands of different connections interleave freely), and
  writes the collected replies when none is pending.
\<close>

record conn =
  cn_parser :: resp_parser
  cn_pending :: "bytes list list"
  cn_out :: bytes

record daemon =
  da_archive :: archive
  da_conns :: "nat \<Rightarrow> conn option"
  da_terminated :: bool

definition fresh_conn :: conn where
  "fresh_conn = \<lparr>cn_parser = resp_parser_init, cn_pending = [], cn_out = []\<rparr>"

inductive daemon_step :: "daemon \<Rightarrow> daemon \<Rightarrow> bool" where
  accept: "\<not> da_terminated d \<Longrightarrow> da_conns d i = None \<Longrightarrow>
    daemon_step d (d\<lparr>da_conns := (da_conns d)(i \<mapsto> fresh_conn)\<rparr>)"
| read: "\<not> da_terminated d \<Longrightarrow> da_conns d i = Some c \<Longrightarrow> cn_pending c = [] \<Longrightarrow> cn_out c = [] \<Longrightarrow>
    feed (cn_parser c) bs = (p1, None) \<Longrightarrow> resp_take p1 = (cmds, p2) \<Longrightarrow>
    daemon_step d (d\<lparr>da_conns := (da_conns d)(i \<mapsto> c\<lparr>cn_parser := p2, cn_pending := cmds\<rparr>)\<rparr>)"
| read_error: "\<not> da_terminated d \<Longrightarrow> da_conns d i = Some c \<Longrightarrow> cn_pending c = [] \<Longrightarrow> cn_out c = [] \<Longrightarrow>
    feed (cn_parser c) bs = (p1, Some (RespError e)) \<Longrightarrow>
    daemon_step d (d\<lparr>da_conns := (da_conns d)(i := None)\<rparr>)"
| read_escape: "\<not> da_terminated d \<Longrightarrow> da_conns d i = Some c \<Longrightarrow> cn_pending c = [] \<Longrightarrow> cn_out c = [] \<Longrightarrow>
    feed (cn_parser c) bs = (p1, Some (ConvError e)) \<Longrightarrow>
    daemon_step d (d\<lparr>da_terminated := True\<rparr>)"
| execute: "\<not> da_terminated d \<Longrightarrow> da_conns d i = Some c \<Longrightarrow> cn_pending c = cmd # cmds \<Longrightarrow>
    dispatch ok cmd (da_archive d) = (Inr r, a') \<Longrightarrow>
    daemon_step d (d\<lparr>da_archive := a',
      da_conns := (da_conns d)(i \<mapsto> c\<lparr>cn_pending := cmds, cn_out := cn_out c @ r\<rparr>)\<rparr>)"
| reply: "\<not> da_terminated d \<Longrightarrow> da_conns d i = Some c \<Longrightarrow> cn_pending c = [] \<Longrightarrow> cn_out c \<noteq> [] \<Longrightarrow>
    daemon_step d (d\<lparr>da_conns := (da_conns d)(i := (if written then Some (c\<lparr>cn_out := []\<rparr>) else None))\<rparr>)"
| hang_up: "\<not> da_terminated d \<Longrightarrow> da_conns d i = Some c \<Longrightarrow> cn_pending c = [] \<Longrightarrow> cn_out c = [] \<Longrightarrow>
    daemon_step d (d\<lparr>da_conns := (da_conns d)(i := None)\<rparr>)"

definition daemon_start :: "archive \<Rightarrow> daemon" where
  "daemon_start a = \<lparr>da_archive = a, da_conns = Map.empty, da_terminated = False\<rparr>"

text \<open>
  The commands waiting in the connections are of a feasible size: no argument has 2 GB or more,
  and a store without a budget has not filled half of its 64-bit byte counter.
\<close>

definition pending_fit :: "daemon \<Rightarrow> bool" where
  "pending_fit d \<longleftrightarrow> (\<forall>i c. da_conns d i = Some c \<longrightarrow> list_all (\<lambda>cmd. cmd_fits cmd (da_archive d)) (cn_pending c))"

abbreviation feasible_step :: "daemon \<Rightarrow> daemon \<Rightarrow> bool" where
  "feasible_step d d' \<equiv> daemon_step d d' \<and> pending_fit d"

lemma daemon_archive_step: "daemon_step d d' \<Longrightarrow> pending_fit d \<Longrightarrow> archive_wf (da_archive d) \<Longrightarrow> archive_wf (da_archive d')"
proof (induction rule: daemon_step.induct)
  case (execute d i c cmd cmds ok r a')
  then have "cmd_fits cmd (da_archive d)" by (fastforce simp: pending_fit_def)
  from archive_wf_dispatch [OF execute.prems(2) this, of ok] execute.hyps(4) show ?case by simp
qed simp_all

lemma daemon_archive_reach: "feasible_step\<^sup>*\<^sup>* d d' \<Longrightarrow> archive_wf (da_archive d) \<Longrightarrow> archive_wf (da_archive d')"
  by (induction rule: rtranclp_induct) (auto intro: daemon_archive_step)

text \<open>
  C23: clients cannot corrupt the archive, with or without a byte budget.  Whatever the clients
  send and however their reads, commands and replies interleave, as long as no argument of a
  command reaches 2 GB and a store without a budget holds at most \<open>2 ^ 63\<close> bytes: the archive
  stays well formed and within its budgets, and as long as the daemon runs every
  connection with a pending command can take its next step, which executes and answers it.
\<close>

theorem daemon_archive_safe:
  assumes "archive_wf a" "feasible_step\<^sup>*\<^sup>* (daemon_start a) d"
  shows "archive_wf (da_archive d) \<and>
    (\<forall>i c cmd cmds. da_conns d i = Some c \<and> cn_pending c = cmd # cmds \<and> \<not> da_terminated d \<longrightarrow>
       (\<exists>r a'. dispatch ok cmd (da_archive d) = (Inr r, a') \<and> daemon_step d (d\<lparr>da_archive := a',
          da_conns := (da_conns d)(i \<mapsto> c\<lparr>cn_pending := cmds, cn_out := cn_out c @ r\<rparr>)\<rparr>)))"
proof -
  have wf: "archive_wf (da_archive d)"
    by (rule daemon_archive_reach [OF assms(2)]) (use assms(1) in \<open>simp add: daemon_start_def\<close>)
  have "\<exists>r a'. dispatch ok cmd (da_archive d) = (Inr r, a')" for cmd
    using dispatch_replies [OF corpus_sane_archive [OF wf], of ok cmd] by (metis prod.collapse)
  then show ?thesis using wf daemon_step.execute by blast
qed

section \<open>Witnesses\<close>

lemma sendable_small: "args \<noteq> [] \<Longrightarrow> length args \<le> 1000 \<Longrightarrow> \<forall>x\<in>set args. length x \<le> 100 \<Longrightarrow> sendable args"
  by (auto simp: sendable_def kMaxElements_def kMaxBulkBytes_def)

lemma demo_pipeline: "list_all sendable [[''PING'']]" "all_fit (map (Pair True) [[''PING'']]) demo_archive"
  by (simp_all add: sendable_small demo_cmd_fits)

theorem serve_pipeline_witness:
  "\<exists>out. serve [one_read (take 3 (encode_command [''PING''])), one_read (drop 3 (encode_command [''PING'']))] demo_archive
     = (HungUp, out, dispatch_all [(True, [''PING''])] demo_archive)"
  using serve_pipeline [OF demo_archive_ok(1) demo_pipeline,
      of "[one_read (take 3 (encode_command [''PING''])), one_read (drop 3 (encode_command [''PING'']))]"]
  by (auto simp: plain_reads_def one_read_def)

theorem serve_drops_pipelined_witness:
  "serve [one_read (concat (map encode_command [[''PING'']]) @ ''*x'' @ CRLF)] demo_archive =
     (ProtocolError, resp_error (''ERR non-numeric RESP length: x''), demo_archive)"
proof -
  have "parse_one (''*x'' @ CRLF) 0 = Throw (RespError ''non-numeric RESP length: x'')"
    by code_simp
  from serve_drops_pipelined [OF demo_archive_ok(1) demo_pipeline this refl] show ?thesis by simp
qed

theorem serve_overlong_terminates_witness:
  "serve [one_read (''*'' @ ''99999999999999999999'' @ CRLF @ [])] demo_archive = (Terminated, [], demo_archive)"
  by (rule serve_overlong_terminates) (simp_all add: isdigit_def code_def read_nat_def digit_value_def)

text \<open>An unlimited daemon with one connection whose client pipelined a write and a read.\<close>

definition demo_conn :: "bytes list list \<Rightarrow> bytes \<Rightarrow> conn" where
  "demo_conn cmds out = \<lparr>cn_parser = resp_parser_init, cn_pending = cmds, cn_out = out\<rparr>"

lemma demo_daemon_run:
  assumes "dispatch True [''SET'', ''k'', ''v''] demo_archive = (Inr r, a')"
  shows "feasible_step\<^sup>*\<^sup>* (daemon_start demo_archive) \<lparr>da_archive = a', da_conns = [0 \<mapsto> demo_conn [[''GET'', ''k'']] r], da_terminated = False\<rparr>"
proof -
  let ?cmds = "[[''SET'', ''k'', ''v''], [''GET'', ''k'']]" and ?d = "\<lambda>a c. \<lparr>da_archive = a, da_conns = [0 \<mapsto> c], da_terminated = False\<rparr>"
  let ?bs = "concat (map encode_command ?cmds)"
  have "list_all sendable ?cmds" by (simp add: sendable_small)
  from parse_loop_sendable [OF this, of "[]"] have feed: "feed resp_parser_init ?bs = (\<lparr>rp_buf = [], rp_ready = ?cmds\<rparr>, None)"
    by (simp add: feed_def resp_parser_init_def)
  have "daemon_step (daemon_start demo_archive) (?d demo_archive fresh_conn)"
    using daemon_step.accept [of "daemon_start demo_archive" 0] by (simp add: daemon_start_def)
  moreover have "daemon_step (?d demo_archive fresh_conn) (?d demo_archive (demo_conn ?cmds []))"
    using daemon_step.read [of "?d demo_archive fresh_conn" 0 fresh_conn ?bs "\<lparr>rp_buf = [], rp_ready = ?cmds\<rparr>" ?cmds resp_parser_init] feed
    by (simp add: fresh_conn_def demo_conn_def resp_take_def resp_parser_init_def)
  moreover have "daemon_step (?d demo_archive (demo_conn ?cmds [])) (?d a' (demo_conn [[''GET'', ''k'']] r))"
    using daemon_step.execute [of "?d demo_archive (demo_conn ?cmds [])" 0 _ "[''SET'', ''k'', ''v'']" "[[''GET'', ''k'']]" True r a'] assms
    by (simp add: demo_conn_def)
  moreover have "pending_fit (daemon_start demo_archive)" "pending_fit (?d demo_archive fresh_conn)" "pending_fit (?d demo_archive (demo_conn ?cmds []))"
    by (simp_all add: pending_fit_def daemon_start_def fresh_conn_def demo_conn_def demo_cmd_fits)
  ultimately show ?thesis
    by (intro converse_rtranclp_into_rtranclp [of feasible_step, OF _ converse_rtranclp_into_rtranclp [of feasible_step, OF _ r_into_rtranclp [of feasible_step]]] conjI)
qed

theorem daemon_archive_safe_witness:
  "\<exists>d r a'. feasible_step\<^sup>*\<^sup>* (daemon_start demo_archive) d \<and> ds_max_bytes (ar_store demo_archive) = 0 \<and> archive_wf (da_archive d)
     \<and> map_option cn_pending (da_conns d 0) = Some [[''GET'', ''k'']] \<and> dispatch True [''GET'', ''k''] (da_archive d) = (Inr r, a')"
proof -
  obtain r a' where set: "dispatch True [''SET'', ''k'', ''v''] demo_archive = (Inr r, a')"
    using dispatch_replies [OF corpus_sane_archive [OF demo_archive_ok(1)], of True "[''SET'', ''k'', ''v'']"] by (metis prod.collapse)
  let ?d = "\<lparr>da_archive = a', da_conns = [0 \<mapsto> demo_conn [[''GET'', ''k'']] r], da_terminated = False\<rparr>"
  have pending: "da_conns ?d 0 = Some (demo_conn [[''GET'', ''k'']] r)" "cn_pending (demo_conn [[''GET'', ''k'']] r) = [[''GET'', ''k'']]" "\<not> da_terminated ?d"
    by (simp_all add: demo_conn_def)
  note run = demo_daemon_run [OF set]
  from daemon_archive_safe [OF demo_archive_ok(1) run, of True] obtain r' a'' where
    "archive_wf (da_archive ?d)" "dispatch True [''GET'', ''k''] (da_archive ?d) = (Inr r', a'')" using pending by blast
  moreover have "ds_max_bytes (ar_store demo_archive) = 0" by (simp add: demo_archive_ok fresh_store_def disk_open_def)
  ultimately show ?thesis using run pending by (intro exI [of _ ?d] exI) auto
qed

end
