(* ===== verification/Arca_Client.thy ===== *)
theory Arca_Client
  imports Resp
begin

text \<open>
  The RESP client the engine uses to reach a remote archive (\<open>src/src/arca/client.cpp\<close>).  The
  socket is the environment of one operation: whether a connection attempt succeeds within the
  deadline, whether the request is written, and the byte chunks successive calls of
  \<open>read_some\<close> deliver, each non-empty; an empty chunk or the end of the list is a read that
  fails (end of stream, error or timeout).
\<close>

section \<open>Model\<close>

record net_env =
  ne_connect :: bool
  ne_write :: bool
  ne_chunks :: "bytes list"

record arca_client =
  ac_connected :: bool

fun fill_until_crlf :: "bytes \<Rightarrow> bytes list \<Rightarrow> (bytes \<times> bytes list) option" where
  "fill_until_crlf buf chunks =
     (if find_from buf CRLF 0 \<noteq> None then Some (buf, chunks)
      else case chunks of
             [] \<Rightarrow> None
           | c # cs \<Rightarrow> if c = [] then None else fill_until_crlf (buf @ c) cs)"

declare fill_until_crlf.simps [simp del]

fun fill_until_size :: "nat \<Rightarrow> bytes \<Rightarrow> bytes list \<Rightarrow> bytes option" where
  "fill_until_size need buf chunks =
     (if need \<le> length buf then Some buf
      else case chunks of
             [] \<Rightarrow> None
           | c # cs \<Rightarrow> if c = [] then None else fill_until_size need (buf @ c) cs)"

declare fill_until_size.simps [simp del]

text \<open>The reply and \<open>io_ok\<close>, or the exception of \<open>std::stol\<close>.\<close>

definition read_reply :: "bytes list \<Rightarrow> conv_error + bytes option \<times> bool" where
  "read_reply chunks =
     (case fill_until_crlf [] chunks of
        None \<Rightarrow> Inr (None, False)
      | Some (buf, rest) \<Rightarrow>
          (case find_from buf CRLF 0 of
             None \<Rightarrow> Inr (None, False)
           | Some eol \<Rightarrow>
               let type = buf ! 0;
                   head = (if eol = 0 then drop 1 buf else substr buf 1 (eol - 1))
               in if type = CHR ''+'' then Inr (Some [], True)
                  else if type = CHR ''-'' then Inr (None, True)
                  else if type = CHR ''$'' then
                    (case stol head of
                       Inl e \<Rightarrow> Inl e
                     | Inr (n, _) \<Rightarrow>
                         if n < 0 then Inr (None, True)
                         else (case fill_until_size (eol + 2 + nat n + 2) buf rest of
                                 None \<Rightarrow> Inr (None, False)
                               | Some full \<Rightarrow> Inr (Some (substr full (eol + 2) (nat n)), True)))
                  else Inr (None, True)))"

definition client_connect :: "net_env \<Rightarrow> arca_client \<Rightarrow> bool" where
  "client_connect env c \<longleftrightarrow> ac_connected c \<or> ne_connect env"

definition get_request :: "bytes \<Rightarrow> bytes" where
  "get_request key = ''*2'' @ CRLF @ ''$3'' @ CRLF @ ''GET'' @ CRLF @ resp_bulk key"

definition set_request :: "bytes \<Rightarrow> bytes \<Rightarrow> bytes" where
  "set_request key val = ''*3'' @ CRLF @ ''$3'' @ CRLF @ ''SET'' @ CRLF @ resp_bulk key @ resp_bulk val"

text \<open>An operation returns its result, the request bytes it managed to send, and the connection.\<close>

definition client_get :: "net_env \<Rightarrow> bytes \<Rightarrow> arca_client \<Rightarrow> bytes option \<times> bytes \<times> arca_client" where
  "client_get env key c =
     (if \<not> client_connect env c then (None, [], c\<lparr>ac_connected := False\<rparr>)
      else if \<not> ne_write env then (None, [], c\<lparr>ac_connected := False\<rparr>)
      else case read_reply (ne_chunks env) of
             Inl e \<Rightarrow> (None, get_request key, c\<lparr>ac_connected := False\<rparr>)
           | Inr (reply, io_ok) \<Rightarrow> (reply, get_request key, c\<lparr>ac_connected := io_ok\<rparr>))"

definition client_set :: "net_env \<Rightarrow> bytes \<Rightarrow> bytes \<Rightarrow> arca_client \<Rightarrow> bytes \<times> arca_client" where
  "client_set env key val c =
     (if \<not> client_connect env c then ([], c\<lparr>ac_connected := False\<rparr>)
      else if \<not> ne_write env then ([], c\<lparr>ac_connected := False\<rparr>)
      else case read_reply (ne_chunks env) of
             Inl e \<Rightarrow> (set_request key val, c\<lparr>ac_connected := False\<rparr>)
           | Inr (reply, io_ok) \<Rightarrow> (set_request key val, c\<lparr>ac_connected := io_ok\<rparr>))"

section \<open>Requests\<close>

lemma show_nat_small: "show_nat 2 = ''2''" "show_nat 3 = ''3''"
  by code_simp+

lemma get_request_encode: "get_request key = encode_command [''GET'', key]"
  using show_nat_small by (simp add: get_request_def encode_command_def resp_bulk_def numeral_2_eq_2 numeral_3_eq_3)

lemma set_request_encode: "set_request key val = encode_command [''SET'', key, val]"
  using show_nat_small by (simp add: set_request_def encode_command_def resp_bulk_def numeral_3_eq_3)

section \<open>Replies\<close>

lemma fill_until_crlf_found:
  assumes "find_from (acc @ concat chunks) CRLF 0 = Some j" "[] \<notin> set chunks"
  shows "\<exists>buf more. fill_until_crlf acc chunks = Some (buf, more) \<and> buf @ concat more = acc @ concat chunks
    \<and> find_from buf CRLF 0 = Some j \<and> set more \<subseteq> set chunks"
  using assms
proof (induction chunks arbitrary: acc)
  case Nil
  then show ?case by (simp add: fill_until_crlf.simps)
next
  case (Cons c cs)
  show ?case
  proof (cases "find_from acc CRLF 0")
    case None
    with Cons.IH [of "acc @ c"] Cons.prems show ?thesis
      by (subst fill_until_crlf.simps) fastforce
  next
    case (Some i)
    from find_from_append [OF Some, of "concat (c # cs)"] Cons.prems(1) have "i = j" by simp
    with Some show ?thesis by (subst fill_until_crlf.simps) auto
  qed
qed

lemma fill_until_crlf_missing:
  assumes "find_from (acc @ concat chunks) CRLF 0 = None"
  shows "fill_until_crlf acc chunks = None"
  using assms
proof (induction chunks arbitrary: acc)
  case (Cons c cs)
  have "find_from acc CRLF 0 = None"
    using find_from_append [of acc CRLF 0 _ "concat (c # cs)"] Cons.prems by (cases "find_from acc CRLF 0") auto
  with Cons show ?case by (subst fill_until_crlf.simps) simp
qed (simp add: fill_until_crlf.simps)

lemma fill_until_size_enough:
  assumes "need \<le> length (buf @ concat chunks)" "[] \<notin> set chunks"
  shows "\<exists>full more. fill_until_size need buf chunks = Some full \<and> full @ more = buf @ concat chunks \<and> need \<le> length full"
  using assms
proof (induction chunks arbitrary: buf)
  case (Cons c cs)
  then show ?case
    using Cons.IH [of "buf @ c"] by (subst fill_until_size.simps) fastforce
qed (simp add: fill_until_size.simps)

lemma fill_until_size_short:
  "length (buf @ concat chunks) < need \<Longrightarrow> fill_until_size need buf chunks = None"
  by (induction chunks arbitrary: buf) (simp_all add: fill_until_size.simps)

text \<open>The reply line and what follows it, read off the whole stream.\<close>

lemma read_reply_stream:
  assumes "find_from (concat chunks) CRLF 0 = Some eol" "[] \<notin> set chunks" "0 < eol"
  obtains buf more where "fill_until_crlf [] chunks = Some (buf, more)" "buf @ concat more = concat chunks"
    "find_from buf CRLF 0 = Some eol" "[] \<notin> set more" "buf ! 0 = concat chunks ! 0"
    "substr buf 1 (eol - 1) = substr (concat chunks) 1 (eol - 1)"
proof -
  obtain buf more where b: "fill_until_crlf [] chunks = Some (buf, more)" "buf @ concat more = concat chunks"
    "find_from buf CRLF 0 = Some eol" "set more \<subseteq> set chunks"
    using fill_until_crlf_found [of "[]" chunks eol] assms(1,2) by auto
  have len: "eol + 2 \<le> length buf" using find_from_bounds [OF b(3)] by simp
  have "concat chunks ! 0 = buf ! 0" unfolding b(2) [symmetric] using len by (cases buf) simp_all
  moreover have "substr (concat chunks) 1 (eol - 1) = substr buf 1 (eol - 1)"
    unfolding b(2) [symmetric] using len by (simp add: substr_def)
  ultimately show ?thesis using that [OF b(1-3)] b(4) assms(2) by auto
qed

lemma resp_bulk_line:
  "find_from (resp_bulk v @ extra) CRLF 0 = Some (Suc (length (show_nat (length v))))"
  "(resp_bulk v @ extra) ! 0 = CHR ''$''"
  "substr (resp_bulk v @ extra) 1 (length (show_nat (length v))) = show_nat (length v)"
  "substr (resp_bulk v @ extra) (length (show_nat (length v)) + 3) (length v) = v"
proof -
  have "CHR 0x0D \<notin> set (''$'' @ show_nat (length v))"
    using show_nat_digits [of "length v"] by (auto simp: list_all_iff isdigit_def code_def)
  from find_from_CRLF [OF this, of "v @ CRLF @ extra"]
  show "find_from (resp_bulk v @ extra) CRLF 0 = Some (Suc (length (show_nat (length v))))"
    by (simp add: resp_bulk_def)
  have "length (show_nat (length v)) + 3 = length (''$'' @ show_nat (length v) @ CRLF)" by simp
  moreover have "resp_bulk v @ extra = (''$'' @ show_nat (length v) @ CRLF) @ v @ CRLF @ extra"
    by (simp add: resp_bulk_def)
  ultimately show "substr (resp_bulk v @ extra) (length (show_nat (length v)) + 3) (length v) = v"
    by (simp only: substr_middle)
qed (simp_all add: resp_bulk_def substr_def)

lemma stol_show_nat: "int n \<le> 2 ^ 63 - 1 \<Longrightarrow> stol (show_nat n) = Inr (int n, length (show_nat n))"
  using show_nat_digits [of n] by (subst sto_integer_digits) auto

lemma read_reply_bulk:
  assumes "concat chunks = resp_bulk v @ extra" "[] \<notin> set chunks" "int (length v) \<le> 2 ^ 63 - 1"
  shows "read_reply chunks = Inr (Some v, True)"
proof -
  let ?n = "length (show_nat (length v))"
  have line: "find_from (concat chunks) CRLF 0 = Some (Suc ?n)" by (simp add: assms(1) resp_bulk_line)
  obtain buf more where b: "fill_until_crlf [] chunks = Some (buf, more)" "buf @ concat more = concat chunks"
    "find_from buf CRLF 0 = Some (Suc ?n)" "[] \<notin> set more" "buf ! 0 = concat chunks ! 0"
    "substr buf 1 (Suc ?n - 1) = substr (concat chunks) 1 (Suc ?n - 1)"
    using read_reply_stream [OF line assms(2)] by auto
  have need: "Suc ?n + 2 + length v + 2 \<le> length (buf @ concat more)"
    unfolding b(2) assms(1) by (simp add: resp_bulk_def)
  obtain full rest where f: "fill_until_size (Suc ?n + 2 + length v + 2) buf more = Some full"
    "full @ rest = concat chunks" "Suc ?n + 2 + length v + 2 \<le> length full"
    using fill_until_size_enough [OF need b(4)] b(2) by auto
  have "substr full (Suc ?n + 2) (length v) = substr (concat chunks) (Suc ?n + 2) (length v)"
    unfolding f(2) [symmetric] using f(3) by (simp add: substr_def)
  also have "\<dots> = v" using resp_bulk_line(4) [of v extra] assms(1) by (simp add: numeral_3_eq_3)
  finally show ?thesis
    using b f(1) assms(1,3) resp_bulk_line(2,3) [of v extra] stol_show_nat [OF assms(3)]
    by (simp add: read_reply_def)
qed

lemma read_reply_truncated:
  assumes "concat chunks = take p (resp_bulk v)" "p < length (resp_bulk v)" "[] \<notin> set chunks"
    and "int (length v) \<le> 2 ^ 63 - 1"
  shows "read_reply chunks = Inr (None, False)"
proof (cases "find_from (concat chunks) CRLF 0")
  case None
  then show ?thesis using fill_until_crlf_missing [of "[]" chunks] by (simp add: read_reply_def)
next
  case (Some eol)
  let ?n = "length (show_nat (length v))"
  obtain cut where whole: "resp_bulk v = concat chunks @ cut"
    using append_take_drop_id [of p "resp_bulk v"] assms(1) by metis
  have eol: "eol = Suc ?n"
    using find_from_append [OF Some, of cut] resp_bulk_line(1) [of v "[]"] whole by simp
  obtain buf more where b: "fill_until_crlf [] chunks = Some (buf, more)" "buf @ concat more = concat chunks"
    "find_from buf CRLF 0 = Some eol" "[] \<notin> set more" "buf ! 0 = concat chunks ! 0"
    "substr buf 1 (eol - 1) = substr (concat chunks) 1 (eol - 1)"
    using read_reply_stream [OF Some assms(3)] eol by auto
  have len: "Suc ?n + 2 \<le> length (concat chunks)" using find_from_bounds [OF Some] eol by simp
  have "concat chunks ! 0 = CHR ''$''" "substr (concat chunks) 1 ?n = show_nat (length v)"
    using resp_bulk_line(2,3) [of v "[]"] len
    by (cases "concat chunks", simp_all add: whole substr_def del: concat_eq_Nil_conv)+
  moreover have "fill_until_size (eol + 2 + length v + 2) buf more = None"
    by (rule fill_until_size_short) (use b(2) assms(1,2) eol in \<open>simp add: resp_bulk_def\<close>)
  ultimately show ?thesis
    using b eol stol_show_nat [OF assms(4)] by (simp add: read_reply_def)
qed

text \<open>
  The client returns exactly the stored bytes.  However the reply is cut into reads, a
  complete bulk reply is returned byte for byte and the connection kept; a reply that stops
  short anywhere is a miss, never a shortened value, and the connection is dropped.
\<close>

theorem client_get_exact:
  assumes "client_connect env c" "ne_write env" "[] \<notin> set (ne_chunks env)" "int (length v) \<le> 2 ^ 63 - 1"
    and "concat (ne_chunks env) = take p (resp_bulk v)"
  shows "client_get env key c = (if length (resp_bulk v) \<le> p
    then (Some v, encode_command [''GET'', key], c\<lparr>ac_connected := True\<rparr>)
    else (None, encode_command [''GET'', key], c\<lparr>ac_connected := False\<rparr>))"
proof (cases "length (resp_bulk v) \<le> p")
  case True
  then have "read_reply (ne_chunks env) = Inr (Some v, True)"
    using read_reply_bulk [of "ne_chunks env" v "[]"] assms(3-5) by simp
  with True assms(1,2) show ?thesis by (simp add: client_get_def get_request_encode)
next
  case False
  then have "read_reply (ne_chunks env) = Inr (None, False)"
    using read_reply_truncated [OF assms(5) _ assms(3,4)] by simp
  with False assms(1,2) show ?thesis by (simp add: client_get_def get_request_encode)
qed

theorem client_get_exact_witness:
  "client_get \<lparr>ne_connect = True, ne_write = True, ne_chunks = [take 3 (resp_bulk ''v''), drop 3 (resp_bulk ''v'')]\<rparr>
     ''k'' \<lparr>ac_connected = False\<rparr> = (Some ''v'', encode_command [''GET'', ''k''], \<lparr>ac_connected = True\<rparr>)"
proof -
  have "length (resp_bulk ''v'') = 7" "take 3 (resp_bulk ''v'') \<noteq> []" "drop 3 (resp_bulk ''v'') \<noteq> []" by code_simp+
  then show ?thesis
    using client_get_exact [of "\<lparr>ne_connect = True, ne_write = True,
        ne_chunks = [take 3 (resp_bulk ''v''), drop 3 (resp_bulk ''v'')]\<rparr>" "\<lparr>ac_connected = False\<rparr>" "''v''" 7 "''k''"]
    by (simp add: client_connect_def)
qed

end
