(* ===== verification/Engine_Arca.thy ===== *)
theory Engine_Arca
  imports Engine_Correct Arca_Server Arca_Client
begin

text \<open>
  The transparent response cache.  The interface the engine relies on (\<open>ArcaCache\<close> of
  \<open>include/reame/core/arca_cache.hpp\<close>) is a locale; it is interpreted on the remote archive: the
  RESP client (\<open>src/arca/client.cpp\<close>) talking to the daemon (\<open>src/arca/server.cpp\<close>) over a
  network that delivers every request and reply.
\<close>

section \<open>The interface\<close>

text \<open>\<open>stores k v a\<close>: the cache in state \<open>a\<close> is able to take \<open>v\<close> under \<open>k\<close>.\<close>

locale response_cache =
  fixes ops :: "'a arca_ops" and stores :: "bytes \<Rightarrow> bytes \<Rightarrow> 'a \<Rightarrow> bool"
  assumes get_after_set: "stores k v a \<Longrightarrow> fst (ar_get ops k (ar_set ops k v a)) = Some v"
begin

lemma hit_after_set:
  assumes "stores (cache_key (ee_hash env) (en_model_tag e) prompt gen) v a" "ee_arca env = ops"
    and "en_arca e = Some (ar_set ops (cache_key (ee_hash env) (en_model_tag e) prompt gen) v a)" "cacheable gen" "\<not> gc_echo_prompt gen"
  shows "\<exists>a'. engine_generate_stream env prompt (Some cb) gen e =
    Some (case cb [] v of Inl x \<Rightarrow> Inl (Threw x) | Inr _ \<Rightarrow> Inr (), [v], e\<lparr>en_arca := Some a'\<rparr>)"
  using get_after_set [OF assms(1)] assms(2-)
  by (cases "ar_get ops (cache_key (ee_hash env) (en_model_tag e) prompt gen) (ar_set ops (cache_key (ee_hash env) (en_model_tag e) prompt gen) v a)")
    (auto simp: engine_generate_stream_def Let_def)

end

section \<open>The remote archive\<close>

text \<open>One operation of the client: its request is read and answered by the daemon, the reply reaches the client.\<close>

type_synonym remote = "archive \<times> arca_client"

definition remote_ops :: "remote arca_ops" where
  "remote_ops = \<lparr>
     ar_get = (\<lambda>key (a, c). case serve [one_read (get_request key)] a of
        (_, reply, a1) \<Rightarrow> (case client_get \<lparr>ne_connect = True, ne_write = True, ne_chunks = [reply]\<rparr> key c of
           (r, _, c1) \<Rightarrow> (r, a1, c1))),
     ar_set = (\<lambda>key val (a, c). case serve [one_read (set_request key val)] a of
        (_, reply, a1) \<Rightarrow> (case client_set \<lparr>ne_connect = True, ne_write = True, ne_chunks = [reply]\<rparr> key val c of
           (_, c1) \<Rightarrow> (a1, c1)))\<rparr>"

definition remote_stores :: "bytes \<Rightarrow> bytes \<Rightarrow> remote \<Rightarrow> bool" where
  "remote_stores k v w \<longleftrightarrow> (case w of (a, c) \<Rightarrow> archive_wf a \<and> sendable [''SET'', k, v] \<and> cmd_fits [''SET'', k, v] a
     \<and> fst (disk_put True (ar_store a) k v))"

lemma serve_one:
  assumes "sendable cmd" "dispatch True cmd a = (Inr out, a')"
  shows "serve [one_read (encode_command cmd)] a = (HungUp, out, a')"
proof -
  have "parse_loop (rp_buf resp_parser_init @ concat (map re_bytes [one_read (encode_command cmd)])) 0 [] =
      ([cmd], length (concat (map encode_command [cmd])), None)"
    using parse_loop_sendable [of "[cmd]" "[]"] assms(1) by (simp add: resp_parser_init_def one_read_def)
  from serve_loop_stream [OF parser_idle_init _ this, of a out a' "[]"] assms(2)
  show ?thesis by (simp add: serve_def plain_reads_def one_read_def)
qed

interpretation remote: response_cache remote_ops remote_stores
proof
  fix k v :: bytes and w :: remote
  obtain a c where w: "w = (a, c)" by (cases w)
  assume "remote_stores k v w"
  then have s: "archive_wf a" "sendable [''SET'', k, v]" "cmd_fits [''SET'', k, v] a" "fst (disk_put True (ar_store a) k v)"
    by (simp_all add: remote_stores_def w)
  have names: "upper ''SET'' = ''SET''" "upper ''GET'' = ''GET''" by code_simp+
  define a1 where "a1 = snd (dispatch True [''SET'', k, v] a)"
  have set1: "dispatch True [''SET'', k, v] a = (Inr (resp_simple ''OK''), a1)"
    using s(4) names by (simp add: dispatch_SET a1_def)
  have wf: "store_wf (ar_store a)" using s(1) by (simp add: archive_wf_def)
  have "fst (disk_get (ar_store a1) k) = Some v"
    using disk.stored_then_read [OF wf cmd_fits_no_wrap [OF s(1,3)] s(4)] names by (simp add: a1_def dispatch_SET)
  then obtain a2 where get1: "dispatch True [''GET'', k] a1 = (Inr (resp_bulk v), a2)"
    using names by (simp add: dispatch_GET)
  have "sendable [''GET'', k]" and len: "int (length v) \<le> 2 ^ 63 - 1"
    using s(2) by (simp_all add: sendable_def kMaxElements_def kMaxBulkBytes_def)
  then have get: "serve [one_read (get_request k)] a1 = (HungUp, resp_bulk v, a2)"
    using get1 serve_one by (simp add: get_request_encode)
  have set: "serve [one_read (set_request k v)] a = (HungUp, resp_simple ''OK'', a1)"
    using set1 s(2) serve_one by (simp add: set_request_encode)
  have reply: "read_reply [resp_bulk v] = Inr (Some v, True)"
    using read_reply_bulk [of "[resp_bulk v]" v "[]"] len by (simp add: resp_bulk_def)
  have "client_get \<lparr>ne_connect = True, ne_write = True, ne_chunks = [resp_bulk v]\<rparr> k c' = (Some v, get_request k, c'\<lparr>ac_connected := True\<rparr>)" for c'
    by (simp add: client_get_def client_connect_def reply)
  then show "fst (ar_get remote_ops k (ar_set remote_ops k v w)) = Some v"
    by (simp add: remote_ops_def w set get split: prod.split)
qed

section \<open>Replay\<close>

lemma impl_keeps_arca:
  assumes "generate_stream_impl env prompt cb gen e = Some (r, calls, e')"
  shows "en_arca e' = en_arca e" "en_model_tag e' = en_model_tag e"
  using assms
  by (auto simp: generate_stream_impl_def impl_classic_def impl_decoder_def impl_parallel_def prefill_prompt_def Let_def
      split: option.splits prod.splits sum.splits if_splits)

text \<open>
  C10: the transparent cache replays.  An engine attached to a remote archive answers a
  deterministic request the archive does not know by generating, and stores what the caller
  received.  The next deterministic request for the same prompt and token budget is answered
  with exactly those bytes in one piece, without touching the model -- whatever its other
  parameters (repeat penalty and window, top-p, seed) and although the first caller may have
  stopped the generation half way.
\<close>

theorem arca_replay:
  assumes "ee_arca env = remote_ops" "en_arca e = Some w" "cacheable gen" "\<not> gc_echo_prompt gen"
    and "ar_get remote_ops (cache_key (ee_hash env) (en_model_tag e) prompt gen) w = (None, w1)"
    and "engine_generate_stream env prompt (Some cb) gen e = Some (Inr (), calls, e')"
    and "remote_stores (cache_key (ee_hash env) (en_model_tag e) prompt gen) (concat calls) w1"
    and "cacheable gen2" "\<not> gc_echo_prompt gen2" "gc_max_tokens gen2 = gc_max_tokens gen"
  shows "\<exists>w'. engine_generate_stream env prompt (Some cb2) gen2 e' =
    Some (case cb2 [] (concat calls) of Inl x \<Rightarrow> Inl (Threw x) | Inr _ \<Rightarrow> Inr (), [concat calls], e'\<lparr>en_arca := Some w'\<rparr>)"
proof -
  let ?key = "cache_key (ee_hash env) (en_model_tag e) prompt gen"
  obtain e1 where run: "generate_stream_impl env prompt cb gen (e\<lparr>en_arca := Some w1\<rparr>) = Some (Inr (), calls, e1)"
    and e': "e' = e1\<lparr>en_arca := Some (ar_set remote_ops ?key (concat calls) w1)\<rparr>"
    using assms(1-6) by (auto simp: engine_generate_stream_def Let_def split: option.splits sum.splits prod.splits)
  have key: "cache_key (ee_hash env) (en_model_tag e') prompt gen2 = ?key"
    using impl_keeps_arca(2) [OF run] assms(10) by (simp add: e' cache_key_def)
  show ?thesis
    using remote.hit_after_set [of env e' prompt gen2 "concat calls" w1 cb2] assms(1,7-9) key by (simp add: e')
qed

section \<open>Example\<close>

definition demo_remote_env :: "(token list list real_backend, unit, remote) engine_env" where
  "demo_remote_env = \<lparr>ee_ops = real_ops loud_api, ee_sampler = demo_env, ee_zstd = None, ee_write_ok = (\<lambda>_. True),
     ee_hash = (\<lambda>_. 0), ee_arca = remote_ops, ee_wakes = (\<lambda>_. True)\<rparr>"

abbreviation demo_world :: remote where
  "demo_world \<equiv> (demo_archive, \<lparr>ac_connected = True\<rparr>)"

definition demo_remote_engine :: "(token list list real_backend, unit, unit, remote) engine" where
  "demo_remote_engine = bare_engine demo_config (Some demo_world) demo_backend"

lemma length_cache_key: "length (cache_key hash tag prompt g) = 21"
  by (simp add: cache_key_def hex16_def)

lemma demo_miss:
  assumes "length k \<le> 100"
  shows "ar_get remote_ops k demo_world = (None, demo_world)"
proof -
  have name: "upper ''GET'' = ''GET''" and nil: "read_reply [resp_nil] = Inr (None, True)" by code_simp+
  have get: "disk_get (fresh_store 0) k = (None, fresh_store 0)"
    by (simp add: disk_get_def fresh_store_def disk_open_def)
  then have "dispatch True [''GET'', k] demo_archive = (Inr resp_nil, demo_archive)"
    using demo_archive_ok(2) by (cases demo_archive) (simp add: dispatch_GET name)
  then have "serve [one_read (get_request k)] demo_archive = (HungUp, resp_nil, demo_archive)"
    unfolding get_request_encode using assms by (intro serve_one sendable_small) simp_all
  then show ?thesis by (simp add: remote_ops_def client_get_def client_connect_def nil)
qed

lemma demo_remote_run:
  "\<exists>e'. generate_stream_impl demo_remote_env ''a'' (\<lambda>_ _. Inr True) demo_gen (demo_remote_engine\<lparr>en_arca := Some demo_world\<rparr>)
     = Some (Inr (), [[byte_of (1 :: token)]], e')"
  by (simp add: generate_stream_impl_def demo_remote_env_def demo_remote_engine_def bare_engine_def impl_classic_def prefill_prompt_def
      loud_eval demo_limit)

theorem arca_replay_witness:
  "\<exists>calls e1 w. engine_generate_stream demo_remote_env ''a'' (Some (\<lambda>_ _. Inr True)) demo_gen demo_remote_engine = Some (Inr (), calls, e1)
     \<and> engine_generate_stream demo_remote_env ''a'' (Some (\<lambda>_ _. Inr True)) (demo_gen\<lparr>gc_repeat_penalty := 2, gc_repeat_last_n := 64\<rparr>) e1
         = Some (Inr (), [concat calls], e1\<lparr>en_arca := Some w\<rparr>)"
proof -
  let ?key = "cache_key (ee_hash demo_remote_env) (en_model_tag demo_remote_engine) ''a'' demo_gen" and ?out = "[byte_of (1 :: token)]"
  have fields: "ee_arca demo_remote_env = remote_ops" "en_arca demo_remote_engine = Some demo_world"
    "cacheable demo_gen" "\<not> gc_echo_prompt demo_gen"
    by (simp_all add: demo_remote_env_def demo_remote_engine_def bare_engine_def cacheable_def demo_gen_def sample_config_def)
  have miss: "ar_get remote_ops ?key demo_world = (None, demo_world)" by (rule demo_miss) (simp add: length_cache_key)
  obtain e1 where run: "engine_generate_stream demo_remote_env ''a'' (Some (\<lambda>_ _. Inr True)) demo_gen demo_remote_engine
      = Some (Inr (), [?out], e1)"
    using demo_remote_run miss fields by (auto simp: engine_generate_stream_def)
  have stores: "remote_stores ?key (concat [?out]) demo_world"
    using demo_archive_ok length_cache_key
    by (auto simp: remote_stores_def demo_put intro!: sendable_small demo_cmd_fits)
  let ?gen2 = "demo_gen\<lparr>gc_repeat_penalty := 2, gc_repeat_last_n := 64\<rparr>"
  have gen2: "cacheable ?gen2" "\<not> gc_echo_prompt ?gen2" "gc_max_tokens ?gen2 = gc_max_tokens demo_gen"
    using fields by (simp_all add: cacheable_def)
  from arca_replay [OF fields miss run stores gen2, of "\<lambda>_ _. Inr True"] run show ?thesis
    by (intro exI [of _ "[?out]"] exI [of _ e1]) simp
qed

end
