(* ===== verification/Engine_Sessions.thy ===== *)
theory Engine_Sessions
  imports Engine_Correct
begin

text \<open>
  Sessions of the engine (\<open>src/core/engine.cpp\<close>): creating, saving, loading and deleting named
  snapshots of the context.
\<close>

section \<open>The table of sessions\<close>

text \<open>The table is a well-formed map and every name in it carries a number already given out.\<close>

definition session_name :: "nat \<Rightarrow> bytes" where
  "session_name k = ''sess-'' @ show_nat k"

definition sessions_ok :: "('b, 'd, 'g, 'a) engine \<Rightarrow> bool" where
  "sessions_ok e \<longleftrightarrow> map_wf (<) (en_sessions e)
     \<and> (\<forall>j. map_find (<) j (en_sessions e) \<noteq> None \<longrightarrow> (\<exists>k<unat (en_next_session_id e). j = session_name k))"

lemma session_find:
  "sessions_ok e \<Longrightarrow> map_find (<) j (map_put (<) i v (en_sessions e)) = (if j = i then Some v else map_find (<) j (en_sessions e))"
  "sessions_ok e \<Longrightarrow> map_find (<) j (map_erase (<) i (en_sessions e)) = (if j = i then None else map_find (<) j (en_sessions e))"
  "sessions_ok e \<Longrightarrow> map_find (<) j (map_emplace (<) i v (en_sessions e)) =
     (if j = i \<and> map_find (<) j (en_sessions e) = None then Some v else map_find (<) j (en_sessions e))"
  by (simp_all add: sessions_ok_def str_map.find_put_eq str_map.find_erase_eq str_map.find_emplace_eq)

lemma save_session_table:
  "map_find (<) i (en_sessions e) \<noteq> None \<Longrightarrow> en_sessions (snd (save_session env ok i e)) = map_put (<) i (en_context_tokens e) (en_sessions e)"
  by (auto simp: save_session_def Let_def split: option.splits sum.splits prod.splits)

lemma load_session_table: "en_sessions (snd (load_session env i e)) = en_sessions e"
  by (auto simp: load_session_def restore_session_def split: option.splits sum.splits prod.splits bool.splits)

lemma fresh_session: "sessions_ok e \<Longrightarrow> map_find (<) (fst (create_session e)) (en_sessions e) = None"
  by (auto simp: sessions_ok_def session_name_def create_session_def Let_def show_nat_inject)

lemma sessions_ok_put: "sessions_ok e \<Longrightarrow> map_find (<) i (en_sessions e) \<noteq> None \<Longrightarrow> en_sessions e' = map_put (<) i v (en_sessions e) \<Longrightarrow>
    en_next_session_id e' = en_next_session_id e \<Longrightarrow> sessions_ok e'"
  using session_find(1) [of e _ i v] str_map.wf_put [of "en_sessions e" i v] by (auto simp: sessions_ok_def split: if_splits)

lemma next_id_stays:
  "en_next_session_id (snd (save_session env ok i e)) = en_next_session_id e" "en_next_session_id (snd (load_session env i e)) = en_next_session_id e"
  by (auto simp: save_session_def load_session_def restore_session_def Let_def split: option.splits sum.splits prod.splits bool.splits)

lemma sessions_ok_ops:
  assumes "sessions_ok e"
  shows "en_next_session_id e \<noteq> - 1 \<Longrightarrow> sessions_ok (snd (create_session e))" "sessions_ok (snd (save_session env ok i e))"
    "sessions_ok (snd (load_session env i e))" "sessions_ok (snd (delete_session i e))"
proof -
  show "sessions_ok (snd (create_session e))" if "en_next_session_id e \<noteq> - 1"
  proof -
    have "unat (en_next_session_id e + 1) = Suc (unat (en_next_session_id e))" using that unatSuc [of "en_next_session_id e"] by (metis add.commute add_eq_0_iff)
    moreover have "map_wf (<) (en_sessions (snd (create_session e)))"
      using assms by (simp add: sessions_ok_def create_session_def Let_def str_map.wf_emplace)
    ultimately show ?thesis using assms session_find(3) [OF assms, of _ "fst (create_session e)" "[]"]
      unfolding sessions_ok_def by (auto simp: create_session_def Let_def session_name_def less_Suc_eq split: if_splits)
  qed
  show "sessions_ok (snd (save_session env ok i e))"
  proof (cases "map_find (<) i (en_sessions e) = None")
    case True
    then show ?thesis using assms by (simp add: save_session_def)
  next
    case False
    then show ?thesis by (rule sessions_ok_put [OF assms _ save_session_table next_id_stays(1)]) (rule False)
  qed
  show "sessions_ok (snd (load_session env i e))"
    using assms by (simp add: sessions_ok_def load_session_table next_id_stays)
  show "sessions_ok (snd (delete_session i e))"
    using assms session_find(2) [OF assms, of _ i] by (auto simp: sessions_ok_def delete_session_def str_map.wf_erase split: if_splits)
qed

text \<open>
  The sessions of an engine are a table from names to token lists.  Creating a session adds
  an empty one under a name that is not in use, saving puts the current context under the name,
  loading changes no session, deleting removes exactly the named one; an operation on an unknown
  name throws and changes nothing.  The invariant behind fresh names is kept by all four (up to
  \<open>2^64\<close> sessions).
\<close>

theorem session_table:
  assumes "sessions_ok e" "en_next_session_id e \<noteq> - 1"
  defines "look \<equiv> \<lambda>e' j. map_find (<) j (en_sessions e')"
  shows "look e (fst (create_session e)) = None
    \<and> look (snd (create_session e)) j = (if j = fst (create_session e) then Some [] else look e j)
    \<and> look (snd (save_session env ok i e)) j = (if j = i \<and> look e i \<noteq> None then Some (en_context_tokens e) else look e j)
    \<and> look (snd (load_session env i e)) j = look e j
    \<and> look (snd (delete_session i e)) j = (if j = i then None else look e j)
    \<and> (look e i = None \<longrightarrow> save_session env ok i e = (Inl (unknown_session i), e)
          \<and> load_session env i e = (Inl (unknown_session i), e) \<and> delete_session i e = (Inl (unknown_session i), e))
    \<and> sessions_ok (snd (create_session e)) \<and> sessions_ok (snd (save_session env ok i e))
    \<and> sessions_ok (snd (load_session env i e)) \<and> sessions_ok (snd (delete_session i e))"
proof (intro conjI impI sessions_ok_ops assms(1,2))
  show "look e (fst (create_session e)) = None" using fresh_session [OF assms(1)] by (simp add: look_def)
  then show "look (snd (create_session e)) j = (if j = fst (create_session e) then Some [] else look e j)"
    using session_find(3) [OF assms(1), of j "fst (create_session e)" "[]"] by (simp add: look_def create_session_def Let_def)
  show "look (snd (save_session env ok i e)) j = (if j = i \<and> look e i \<noteq> None then Some (en_context_tokens e) else look e j)"
  proof (cases "look e i")
    case None
    then show ?thesis by (simp add: look_def save_session_def)
  next
    case (Some ts)
    then show ?thesis using save_session_table [of i e env ok] by (simp add: look_def session_find(1) [OF assms(1)])
  qed
  show "look (snd (load_session env i e)) j = look e j" by (simp add: look_def load_session_table)
  show "look (snd (delete_session i e)) j = (if j = i then None else look e j)"
    by (simp add: look_def delete_session_def session_find(2) [OF assms(1)])
qed (simp_all add: look_def save_session_def load_session_def delete_session_def)

theorem session_table_witness:
  "fst (save_session demo_engine_env True ''sess-1'' demo_classic) = Inl (unknown_session ''sess-1'')
     \<and> map_find (<) ''sess-2'' (en_sessions (snd (delete_session ''sess-1'' demo_classic))) = None"
proof -
  have e: "sessions_ok demo_classic" "en_next_session_id demo_classic \<noteq> - 1" "map_find (<) j (en_sessions demo_classic) = None" for j
    by (simp_all add: sessions_ok_def demo_classic_def bare_engine_def)
  show ?thesis using session_table [OF e(1,2), of "''sess-2''" demo_engine_env True "''sess-1''"] e(3) by simp
qed

section \<open>Restoring\<close>

text \<open>
  Without a disk cache, loading a saved session that succeeds restores the context tokens and
  leaves exactly them in the KV cache.
\<close>

lemma session_restored:
  assumes "llama_model_ok api toks model" "ee_ops env = real_ops api" "map_find (<) i (en_sessions e) = Some ts"
    and "load_session env i e = (Inr (), e')" "en_cache e = None"
  shows "en_context_tokens e' = ts \<and> (ts \<noteq> [] \<longrightarrow> coherent toks (en_backend e') \<and> seq0 toks (en_backend e') = ts)"
proof (cases "ts = []")
  case True
  then show ?thesis using assms(3,4) by (auto simp: load_session_def)
next
  case False
  then obtain l b where dec: "bo_decode (real_ops api) ts (en_backend e) = (Inr l, b)" and e': "e' = e\<lparr>en_backend := b, en_context_tokens := ts\<rparr>"
    using assms(2-) by (auto simp: load_session_def restore_session_def split: prod.splits sum.splits)
  note kvb = model_backend.axioms(1) [OF real_backend_model [OF assms(1)]]
  show ?thesis using kv_backend.decode_kv [OF kvb dec] by (simp add: e')
qed

text \<open>
  A session saved to the disk cache after a generation that ended at its token budget counts
  one token too many.  The last token was sampled but never decoded, so the KV cache is one
  short of the context tokens; the snapshot is stored with the length of the context, and
  loading it leaves the backend with a position counter one past the tokens its context holds.
\<close>

theorem session_snapshot_overcounts:
  assumes api: "llama_api_ok api toks" and ops: "ee_ops env = real_ops api" and cache: "en_cache e = Some m"
    and ctx: "en_context_tokens e = seq0 toks (en_backend e) @ [t]" and coh: "coherent toks (en_backend e)"
    and known: "map_find (<) i (en_sessions e) \<noteq> None" and wf: "sessions_ok e" "zstd_lossless (ee_zstd env)" "manager_wf m"
    and small: "length (en_context_tokens e) < 2 ^ 32"
    and store: "store_state (ee_zstd env) (real_ops api) True (session_cache_key (en_model_tag e) i (en_context_tokens e)) (en_backend e)
        (of_nat (length (en_context_tokens e))) m = (Inr True, m')"
    and fits: "\<And>packed. pack_state (ee_zstd env) (cm_compress m) raw = Inr packed \<Longrightarrow>
        no_wrap (cm_store m) (session_cache_key (en_model_tag e) i (en_context_tokens e)) (envelope packed (of_nat (length (en_context_tokens e))))"
    and raw: "bo_state_data (real_ops api) (en_backend e) = Inr raw"
    and set: "bo_set_state (real_ops api) raw (length (en_context_tokens e)) (en_backend e) = (Inr u, b3)"
  shows "\<exists>e2. load_session env i (snd (save_session env True i e)) = (Inr (), e2) \<and> en_context_tokens e2 = en_context_tokens e
    \<and> rb_n_past (en_backend e2) = Suc (length (seq0 toks (en_backend e2)))"
proof -
  let ?ts = "en_context_tokens e"
  define e1 where "e1 = snd (save_session env True i e)"
  have e1: "e1 = e\<lparr>en_sessions := map_put (<) i ?ts (en_sessions e), en_cache := Some m'\<rparr>"
    using known store cache ctx by (auto simp: e1_def save_session_def Let_def ops)
  have n: "unat (of_nat (length ?ts) :: u32) = length ?ts" using small by (simp add: unat_of_nat take_bit_eq_mod)
  obtain m'' where load: "load_state (ee_zstd env) (real_ops api) (session_cache_key (en_model_tag e) i ?ts) (en_backend e) m' = (True, b3, m'')"
  proof -
    have "\<exists>m''. load_state (ee_zstd env) (real_ops api) (session_cache_key (en_model_tag e) i ?ts) (en_backend e) m' = (True, b3, m'')"
      by (rule store_then_load [OF wf(2,3) store _ raw]) (use raw fits n set in auto)
    with that show thesis by blast
  qed
  have "load_session env i e1 = (Inr (), e1\<lparr>en_backend := b3, en_cache := Some m'', en_context_tokens := ?ts\<rparr>)"
    using load ctx session_find(1) [OF wf(1), of i i ?ts] by (simp add: e1 load_session_def restore_session_def ops)
  moreover have "kv_backend (real_ops api) (seq0 toks) (coherent toks) (snapshot_of api toks)" by (rule real_backend_kv [OF api])
  then have snap: "snapshot_of api toks raw (seq0 toks (en_backend e))" using coh raw by (rule kv_backend.snapshot)
  have "rb_n_past b3 = length ?ts \<and> seq0 toks b3 = seq0 toks (en_backend e)"
    using set snap api by (auto simp: real_ops_def real_set_state_def snapshot_of_def llama_api_ok_def seq0_def split: prod.splits if_splits)
  ultimately show ?thesis unfolding e1_def [symmetric]
    by (intro exI [of _ "e1\<lparr>en_backend := b3, en_cache := Some m'', en_context_tokens := ?ts\<rparr>"]) (simp add: ctx)
qed

definition lagging_engine :: "(token list list real_backend, unit, unit, unit) engine" where
  "lagging_engine = (bare_engine demo_config None loaded_backend)\<lparr>en_cache := Some demo_manager, en_context_tokens := [1, 5],
     en_sessions := [(''sess-1'', [])], en_next_session_id := 2\<rparr>"

theorem session_snapshot_overcounts_witness:
  "\<exists>e2. load_session (demo_engine_env\<lparr>ee_ops := real_ops ref_api\<rparr>) ''sess-1''
       (snd (save_session (demo_engine_env\<lparr>ee_ops := real_ops ref_api\<rparr>) True ''sess-1'' lagging_engine)) = (Inr (), e2)
     \<and> rb_n_past (en_backend e2) = Suc (length (seq0 ref_toks (en_backend e2)))"
proof -
  let ?env = "demo_engine_env\<lparr>ee_ops := real_ops ref_api\<rparr>" and ?key = "session_cache_key (en_model_tag lagging_engine) ''sess-1'' (en_context_tokens lagging_engine)"
  have e: "en_cache lagging_engine = Some demo_manager" "en_backend lagging_engine = loaded_backend" "en_context_tokens lagging_engine = [1, 5]"
    "map_find (<) ''sess-1'' (en_sessions lagging_engine) \<noteq> None" "ee_zstd ?env = None" "ee_ops ?env = real_ops ref_api"
    by (simp_all add: lagging_engine_def bare_engine_def demo_engine_env_def)
  have kv: "coherent ref_toks loaded_backend" "seq0 ref_toks loaded_backend = [1]"
    by (simp_all add: coherent_def seq0_def loaded_backend_def ref_toks_def)
  have name: "''sess-1'' = session_name 1" by (simp add: session_name_def) code_simp
  have ok: "sessions_ok lagging_engine"
    by (auto simp: sessions_ok_def lagging_engine_def bare_engine_def name map_wf_Cons split: if_splits intro!: exI [of _ 1])
  have len: "length (ref_save [[1]]) = 6" by (simp add: ref_save_def ref_save_seq_def ref_toks_def)
  have "length (show_nat (length [1 :: token, 5])) \<le> 20" by (rule show_nat_length) simp
  then have key: "length ?key \<le> 100"
    using show_nat_u64_length [of "checksum (key_bytes (en_model_tag lagging_engine @ ''/session/sess-1'') [1, 5])"]
      show_nat_u64_length [of "checksum (key_bytes (en_model_tag lagging_engine @ ''/session/sess-1'') [1, 5] @ ''x'')"]
    by (simp add: session_cache_key_def make_key_def Let_def e(3))
  have set: "bo_set_state (real_ops ref_api) (ref_save [[1]]) 2 loaded_backend = (Inr (), \<lparr>rb_ctx = [[1]], rb_n_past = 2\<rparr>)"
    using ref_load_save [of "[[1]]"]
    by (simp add: real_ops_def real_set_state_def ref_api_def ref_toks_def loaded_backend_def) (simp add: ref_save_def ref_save_seq_def)
  have store: "store_state None (real_ops ref_api) True ?key loaded_backend (of_nat (length (en_context_tokens lagging_engine))) demo_manager
      = (Inr True, snd (store_state None (real_ops ref_api) True ?key loaded_backend (of_nat (length (en_context_tokens lagging_engine))) demo_manager))"
    by (simp add: store_state_def loaded_state pack_state_def demo_manager_store demo_put)
  have fits: "no_wrap (cm_store demo_manager) ?key (envelope packed n)" if "pack_state None (cm_compress demo_manager) (ref_save [[1]]) = Inr packed" for packed n
    using that len key by (auto simp: demo_manager_store pack_state_def no_wrap_def envelope_parts)
  have facts: "en_context_tokens lagging_engine = seq0 ref_toks (en_backend lagging_engine) @ [5]" "coherent ref_toks (en_backend lagging_engine)"
    "zstd_lossless (ee_zstd ?env)"
    "bo_state_data (real_ops ref_api) (en_backend lagging_engine) = Inr (ref_save [[1]])"
    "bo_set_state (real_ops ref_api) (ref_save [[1]]) (length (en_context_tokens lagging_engine)) (en_backend lagging_engine)
      = (Inr (), \<lparr>rb_ctx = [[1]], rb_n_past = 2\<rparr>)"
    using set kv loaded_state by (simp_all add: e zstd_lossless_def numeral_2_eq_2)
  have short: "length (en_context_tokens lagging_engine) < 2 ^ 32" by (simp add: e)
  from session_snapshot_overcounts [OF ref_api_ok e(6,1) facts(1,2) e(4) ok facts(3) demo_manager_store(3) short
      store [folded e(2) e(5)] fits [folded e(5)] facts(4,5)]
  show ?thesis by blast
qed

end
