(* ===== verification/Engine_Worker.thy ===== *)
theory Engine_Worker
  imports Scheduler
begin

text \<open>
  The threads of a parallel engine (\<open>core/engine.cpp\<close>): the worker that drives the scheduler, the
  callers that submit a request and block until it is finished, and the destructor, with
  \<open>work_mutex\<close> and the two condition variables.  Every action of a thread between two accesses to
  shared state is one step.  \<open>std::condition_variable::wait\<close> with a predicate is a loop: test
  the predicate under the lock, then release the lock and go to sleep in one action; a notification
  wakes the threads asleep at that moment and nobody else.  The scheduler's own mutexes make
  \<open>submit\<close>, \<open>step\<close>, \<open>idle\<close> and \<open>finished\<close> atomic.
\<close>

section \<open>The threads\<close>

datatype worker_pc = WEnter | WTop | WStep | WNotify bool | WRelock | WTest | WBlock | WSleep | WEnd

datatype caller_pc = CIdle | CNotify u64 | CLock u64 | CTest u64 | CBlock u64 | CSleep u64 | CDone u64

datatype dtor_pc = DIdle | DNotify | DJoin

datatype owner = Worker | Caller nat

record ('b, 'g) threads =
  th_sched :: "('b, 'g) scheduler"
  th_lock :: "owner option"
  th_stopping :: bool
  th_worker :: worker_pc
  th_callers :: "nat \<Rightarrow> caller_pc"
  th_dtor :: dtor_pc

definition threads_open :: "('b, 'g) scheduler \<Rightarrow> ('b, 'g) threads" where
  "threads_open st = \<lparr>th_sched = st, th_lock = None, th_stopping = False, th_worker = WEnter, th_callers = (\<lambda>_. CIdle), th_dtor = DIdle\<rparr>"

definition notify_worker :: "('b, 'g) threads \<Rightarrow> ('b, 'g) threads" where
  "notify_worker s = (if th_worker s = WSleep then s\<lparr>th_worker := WRelock\<rparr> else s)"

fun woken :: "caller_pc \<Rightarrow> caller_pc" where
  "woken (CSleep i) = CLock i"
| "woken pc = pc"

definition notify_callers :: "('b, 'g) threads \<Rightarrow> ('b, 'g) threads" where
  "notify_callers s = s\<lparr>th_callers := woken \<circ> th_callers s\<rparr>"

definition set_caller :: "nat \<Rightarrow> caller_pc \<Rightarrow> ('b, 'g) threads \<Rightarrow> ('b, 'g) threads" where
  "set_caller c pc s = s\<lparr>th_callers := (th_callers s)(c := pc)\<rparr>"

text \<open>The worker's own actions, \<open>None\<close> when it has to wait for the lock, sleeps or has ended.\<close>

definition worker_step :: "'b backend_ops \<Rightarrow> 'g sampler_env \<Rightarrow> ('b, 'g) threads \<Rightarrow> ('b, 'g) threads option" where
  "worker_step ops env s =
     (case th_worker s of
        WEnter \<Rightarrow> if th_lock s = None then Some (s\<lparr>th_lock := Some Worker, th_worker := WTop\<rparr>) else None
      | WTop \<Rightarrow> Some (s\<lparr>th_lock := None, th_worker := (if th_stopping s then WEnd else WStep)\<rparr>)
      | WStep \<Rightarrow> (case sched_step ops env (th_sched s) of (again, st) \<Rightarrow> Some (s\<lparr>th_sched := st, th_worker := WNotify again\<rparr>))
      | WNotify again \<Rightarrow> Some ((notify_callers s)\<lparr>th_worker := (if again then WStep else WRelock)\<rparr>)
      | WRelock \<Rightarrow> if th_lock s = None then Some (s\<lparr>th_lock := Some Worker, th_worker := WTest\<rparr>) else None
      | WTest \<Rightarrow> Some (s\<lparr>th_worker := (if th_stopping s \<or> \<not> idle (th_sched s) then WTop else WBlock)\<rparr>)
      | WBlock \<Rightarrow> Some (s\<lparr>th_lock := None, th_worker := WSleep\<rparr>)
      | WSleep \<Rightarrow> None
      | WEnd \<Rightarrow> None)"

text \<open>A caller after its submission.\<close>

definition caller_step :: "nat \<Rightarrow> ('b, 'g) threads \<Rightarrow> ('b, 'g) threads option" where
  "caller_step c s =
     (case th_callers s c of
        CIdle \<Rightarrow> None
      | CNotify i \<Rightarrow> Some (set_caller c (CLock i) (notify_worker s))
      | CLock i \<Rightarrow> if th_lock s = None then Some ((set_caller c (CTest i) s)\<lparr>th_lock := Some (Caller c)\<rparr>) else None
      | CTest i \<Rightarrow> Some (if finished (th_sched s) i \<or> th_stopping s then (set_caller c (CDone i) s)\<lparr>th_lock := None\<rparr>
                         else set_caller c (CBlock i) s)
      | CBlock i \<Rightarrow> Some ((set_caller c (CSleep i) s)\<lparr>th_lock := None\<rparr>)
      | CSleep i \<Rightarrow> None
      | CDone i \<Rightarrow> None)"

datatype step_kind = Internal | External | Spurious

inductive thread_step :: "'b backend_ops \<Rightarrow> 'g sampler_env \<Rightarrow> ('b, 'g) threads \<Rightarrow> step_kind \<Rightarrow> ('b, 'g) threads \<Rightarrow> bool"
  for ops env where
  worker: "worker_step ops env s = Some s' \<Longrightarrow> thread_step ops env s Internal s'"
| caller: "caller_step c s = Some s' \<Longrightarrow> thread_step ops env s Internal s'"
| call: "th_callers s c = CIdle \<Longrightarrow> sc_next_id (th_sched s) \<noteq> - 1 \<Longrightarrow> submit env prompt gen (Some cb) (th_sched s) = Inr (i, st) \<Longrightarrow>
    thread_step ops env s External ((set_caller c (CNotify i) s)\<lparr>th_sched := st\<rparr>)"
| destroy: "th_dtor s = DIdle \<Longrightarrow> th_lock s = None \<Longrightarrow> thread_step ops env s External (s\<lparr>th_stopping := True, th_dtor := DNotify\<rparr>)"
| dtor_notify: "th_dtor s = DNotify \<Longrightarrow> thread_step ops env s Internal ((notify_worker s)\<lparr>th_dtor := DJoin\<rparr>)"
| wake_worker: "th_worker s = WSleep \<Longrightarrow> thread_step ops env s Spurious (s\<lparr>th_worker := WRelock\<rparr>)"
| wake_caller: "th_callers s c = CSleep i \<Longrightarrow> thread_step ops env s Spurious (set_caller c (CLock i) s)"

inductive threads_run :: "'b backend_ops \<Rightarrow> 'g sampler_env \<Rightarrow> 'b \<Rightarrow> int \<Rightarrow> ('b, 'g) threads \<Rightarrow> bool" for ops env b n where
  opened: "scheduler_open ops n b = Inr st \<Longrightarrow> threads_run ops env b n (threads_open st)"
| step: "threads_run ops env b n s \<Longrightarrow> thread_step ops env s k s' \<Longrightarrow> threads_run ops env b n s'"

abbreviation internal :: "'b backend_ops \<Rightarrow> 'g sampler_env \<Rightarrow> ('b, 'g) threads \<Rightarrow> ('b, 'g) threads \<Rightarrow> bool" where
  "internal ops env s s' \<equiv> thread_step ops env s Internal s'"

section \<open>Invariants\<close>

fun holds :: "caller_pc \<Rightarrow> bool" where
  "holds (CTest i) = True"
| "holds (CBlock i) = True"
| "holds _ = False"

definition lock_ok :: "('b, 'g) threads \<Rightarrow> bool" where
  "lock_ok s \<longleftrightarrow> (th_lock s = Some Worker \<longleftrightarrow> th_worker s \<in> {WTop, WTest, WBlock})
     \<and> (\<forall>c. th_lock s = Some (Caller c) \<longleftrightarrow> holds (th_callers s c))"

definition done_ok :: "('b, 'g) threads \<Rightarrow> bool" where
  "done_ok s \<longleftrightarrow> (\<forall>c i. th_callers s c = CDone i \<longrightarrow> finished (th_sched s) i \<or> th_stopping s)"

definition dtor_ok :: "('b, 'g) threads \<Rightarrow> bool" where
  "dtor_ok s \<longleftrightarrow> (th_stopping s \<longleftrightarrow> th_dtor s \<noteq> DIdle) \<and> (th_stopping s \<longrightarrow> th_worker s \<noteq> WBlock)
     \<and> (th_dtor s = DJoin \<longrightarrow> th_worker s \<noteq> WSleep) \<and> (th_worker s = WEnd \<longrightarrow> th_stopping s)"

lemmas thread_defs = worker_step_def caller_step_def notify_callers_def set_caller_def

lemma notify_worker_simps [simp]:
  "th_sched (notify_worker s) = th_sched s" "th_lock (notify_worker s) = th_lock s" "th_stopping (notify_worker s) = th_stopping s"
  "th_callers (notify_worker s) = th_callers s" "th_dtor (notify_worker s) = th_dtor s"
  "th_worker (notify_worker s) = (if th_worker s = WSleep then WRelock else th_worker s)"
  by (simp_all add: notify_worker_def)

lemma woken_simps [simp]: "holds (woken pc) = holds pc" "woken pc \<noteq> CSleep i" "woken (woken pc) = woken pc" "woken pc = CDone i \<longleftrightarrow> pc = CDone i"
  by (cases pc; simp)+

lemma lock_ok_caller:
  assumes "lock_ok s" "caller_step c s = Some s'"
  shows "lock_ok s'"
proof -
  have mine: "th_lock s = Some (Caller c) \<longleftrightarrow> holds (th_callers s c)"
    and others: "\<And>d. th_lock s = Some (Caller d) \<longleftrightarrow> holds (th_callers s d)" using assms(1) by (auto simp: lock_ok_def)
  show ?thesis
  proof (cases "th_callers s c")
    case (CNotify i)
    then show ?thesis using assms by (auto simp: lock_ok_def thread_defs split: if_splits)
  next
    case (CLock i)
    then show ?thesis using assms by (auto simp: lock_ok_def thread_defs split: if_splits)
  next
    case (CTest i)
    then have "th_lock s = Some (Caller c)" using mine by simp
    then show ?thesis using assms CTest by (auto simp: lock_ok_def thread_defs split: if_splits)
  next
    case (CBlock i)
    then have "th_lock s = Some (Caller c)" using mine by simp
    then show ?thesis using assms CBlock by (auto simp: lock_ok_def thread_defs split: if_splits)
  qed (use assms(2) in \<open>simp_all add: caller_step_def\<close>)
qed

lemma lock_ok_step: "thread_step ops env s k s' \<Longrightarrow> lock_ok s \<Longrightarrow> lock_ok s'"
proof (induction rule: thread_step.cases)
  case (worker s s')
  then show ?case unfolding lock_ok_def
    by (cases "th_worker s") (auto simp: thread_defs split: if_splits prod.splits)
next
  case (caller c s s')
  then show ?case using lock_ok_caller by blast
qed (auto simp: lock_ok_def thread_defs split: if_splits)

lemma fail_all_done: "finished st i \<Longrightarrow> finished (foldl (\<lambda>st r. finish ops r e st) st rs) i"
  by (induction rs arbitrary: st) (simp_all add: finished_def)

lemma advance_loop_done: "finished st i \<Longrightarrow> finished (advance_loop ops env rs ss ls still st) i"
  by (induction rs arbitrary: ss ls still st) (simp_all add: finished_def split: prod.splits fate.splits)

lemma sched_step_done:
  assumes "sched_step ops env st = (again, st')" "finished st i"
  shows "finished st' i"
proof -
  have fin: "finished ((admit ops st)\<lparr>sc_backend := b\<rparr>) i" for b using assms(2) by (simp add: finished_def admit_def)
  from assms(1) show ?thesis
  proof (cases rule: sched_step_cases)
    case drained
    then show ?thesis using assms(2) by (simp add: finished_def admit_def)
  next
    case failed
    then show ?thesis using fail_all_done [OF fin] by (simp add: finished_def)
  next
    case advanced
    then show ?thesis using advance_loop_done [OF fin] by simp
  qed
qed

lemma submit_done: "submit env prompt gen cb st = Inr (i, st') \<Longrightarrow> finished st j \<Longrightarrow> finished st' j"
  by (auto simp: submit_def finished_def Let_def split: if_splits option.splits)

lemma done_ok_step: "thread_step ops env s k s' \<Longrightarrow> done_ok s \<Longrightarrow> done_ok s'"
proof (induction rule: thread_step.cases)
  case (worker s s')
  then show ?case unfolding done_ok_def
    by (cases "th_worker s") (auto simp: thread_defs split: if_splits prod.splits caller_pc.splits intro: sched_step_done)
next
  case (caller c s s')
  then show ?case unfolding done_ok_def
    by (cases "th_callers s c") (auto simp: thread_defs split: if_splits)
qed (auto simp: done_ok_def thread_defs dest: submit_done split: if_splits)

lemma dtor_ok_step: "thread_step ops env s k s' \<Longrightarrow> lock_ok s \<Longrightarrow> dtor_ok s \<Longrightarrow> dtor_ok s'"
proof (induction rule: thread_step.cases)
  case (worker s s')
  then show ?case unfolding dtor_ok_def
    by (cases "th_worker s") (auto simp: thread_defs split: if_splits prod.splits)
next
  case (caller c s s')
  then have "th_stopping s' = th_stopping s \<and> th_dtor s' = th_dtor s \<and> (th_worker s' = th_worker s \<or> th_worker s' = th_worker (notify_worker s))"
    by (cases "th_callers s c") (auto simp: caller_step_def set_caller_def split: if_splits)
  then show ?case using caller by (auto simp: dtor_ok_def split: if_splits)
qed (auto simp: dtor_ok_def lock_ok_def thread_defs split: if_splits)

lemma sched_run_step:
  "thread_step ops env s k s' \<Longrightarrow> sched_reachable ops env b n (th_sched s) \<Longrightarrow> sched_reachable ops env b n (th_sched s')"
proof (induction rule: thread_step.cases)
  case (worker s s')
  then show ?case using stepped [of ops env b n "th_sched s"]
    by (cases "th_worker s") (auto simp: thread_defs split: if_splits prod.splits)
next
  case (caller c s s')
  then show ?case by (cases "th_callers s c") (auto simp: thread_defs split: if_splits)
next
  case (call s c prompt gen cb i st)
  then show ?case using submitted [of ops env b n "th_sched s"] by (auto simp: thread_defs)
qed (auto simp: thread_defs)

lemma threads_run_ok:
  "threads_run ops env b n s \<Longrightarrow> lock_ok s \<and> done_ok s \<and> dtor_ok s \<and> sched_reachable ops env b n (th_sched s)"
proof (induction rule: threads_run.induct)
  case (opened st)
  then show ?case by (simp add: threads_open_def lock_ok_def done_ok_def dtor_ok_def sched_reachable.opened)
next
  case (step s k s')
  then show ?case using lock_ok_step done_ok_step dtor_ok_step sched_run_step by metis
qed


section \<open>What the protocol guarantees\<close>

lemma quiescent_threads:
  assumes "threads_run ops env b n s" "\<not> th_stopping s" "\<And>s'. \<not> internal ops env s s'"
  shows "th_lock s = None \<and> th_worker s = WSleep \<and> (\<forall>c. th_callers s c = CIdle \<or> (\<exists>i. th_callers s c = CDone i \<or> th_callers s c = CSleep i))"
proof -
  have ok: "lock_ok s" "dtor_ok s" using threads_run_ok [OF assms(1)] by auto
  have worker: "worker_step ops env s = None" using assms(3) thread_step.worker [of ops env s] by (cases "worker_step ops env s") auto
  have caller: "caller_step c s = None" for c using assms(3) thread_step.caller [of c s _ ops env] by (cases "caller_step c s") auto
  have lock: "th_lock s = None"
  proof (cases "th_lock s")
    case (Some w)
    show ?thesis
    proof (cases w)
      case Worker
      then have "th_worker s \<in> {WTop, WTest, WBlock}" using ok(1) Some by (simp add: lock_ok_def)
      then show ?thesis using worker by (auto simp: worker_step_def)
    next
      case (Caller c)
      then have "holds (th_callers s c)" using ok(1) Some by (auto simp: lock_ok_def)
      then show ?thesis using caller [of c] by (cases "th_callers s c") (auto simp: caller_step_def)
    qed
  qed
  have "th_worker s \<noteq> WEnd" using ok(2) assms(2) by (simp add: dtor_ok_def)
  then have "th_worker s = WSleep" using worker lock by (cases "th_worker s") (auto simp: worker_step_def split: prod.splits)
  moreover have "th_callers s c = CIdle \<or> (\<exists>i. th_callers s c = CDone i \<or> th_callers s c = CSleep i)" for c
    using caller [of c] lock by (cases "th_callers s c") (auto simp: caller_step_def)
  ultimately show ?thesis using lock by blast
qed

text \<open>
  C12: what a caller of a parallel engine can rely on.  In every interleaving of the callers, the
  worker and the destructor, as long as the engine is not being destroyed: a call that has returned
  has its request finished; at most one thread is inside the critical section of the work mutex;
  and when no thread can move any more, the mutex is free, the worker is asleep and every call has
  returned or is asleep.  So no thread waits forever for the mutex: a call that hangs has missed
  a notification.
\<close>

theorem caller_returns_finished:
  assumes "threads_run ops env b n s" "\<not> th_stopping s"
  shows "(\<forall>c i. th_callers s c = CDone i \<longrightarrow> finished (th_sched s) i)
    \<and> (\<forall>d e. holds (th_callers s d) \<and> holds (th_callers s e) \<longrightarrow> d = e)
    \<and> (\<forall>d. holds (th_callers s d) \<longrightarrow> th_worker s \<notin> {WTop, WTest, WBlock})
    \<and> ((\<forall>s'. \<not> internal ops env s s') \<longrightarrow> th_lock s = None \<and> th_worker s = WSleep
         \<and> (\<forall>c. th_callers s c = CIdle \<or> (\<exists>i. th_callers s c = CDone i \<or> th_callers s c = CSleep i)))"
proof -
  have lock: "\<And>d. th_lock s = Some (Caller d) \<longleftrightarrow> holds (th_callers s d)"
    "th_lock s = Some Worker \<longleftrightarrow> th_worker s \<in> {WTop, WTest, WBlock}" and fin: "done_ok s"
    using threads_run_ok [OF assms(1)] by (auto simp: lock_ok_def)
  have "d = e" if "holds (th_callers s d)" "holds (th_callers s e)" for d e
    using lock(1) [of d] lock(1) [of e] that by simp
  moreover have "th_worker s \<notin> {WTop, WTest, WBlock}" if "holds (th_callers s d)" for d
    using lock(1) [of d] lock(2) that by auto
  ultimately show ?thesis using fin assms(2) quiescent_threads [OF assms] by (auto simp: done_ok_def)
qed

lemma worker_path:
  "worker_step ops env s = Some s1 \<Longrightarrow> (internal ops env)\<^sup>*\<^sup>* s1 s' \<Longrightarrow> (internal ops env)\<^sup>*\<^sup>* s s'"
  using converse_rtranclp_into_rtranclp [of "internal ops env" s s1 s'] thread_step.worker [of ops env s s1] by blast

lemma caller_path:
  "caller_step c s = Some s1 \<Longrightarrow> (internal ops env)\<^sup>*\<^sup>* s1 s' \<Longrightarrow> (internal ops env)\<^sup>*\<^sup>* s s'"
  using converse_rtranclp_into_rtranclp [of "internal ops env" s s1 s'] thread_step.caller [of c s s1 ops env] by blast

lemma drain_path:
  assumes "th_worker s = WStep" "sched_ok (sc_pending (th_sched s)) (sc_active (th_sched s)) (th_sched s)"
  shows "\<exists>s'. (internal ops env)\<^sup>*\<^sup>* s s' \<and> th_worker s' = WRelock \<and> idle (th_sched s')
    \<and> sched_ok (sc_pending (th_sched s')) (sc_active (th_sched s')) (th_sched s') \<and> sc_submitted (th_sched s') = sc_submitted (th_sched s)
    \<and> th_callers s' = woken \<circ> th_callers s \<and> th_lock s' = th_lock s \<and> th_stopping s' = th_stopping s \<and> th_dtor s' = th_dtor s"
  using assms
proof (induction "room (sc_n_ctx (th_sched s)) (sc_pending (th_sched s) @ sc_active (th_sched s))" arbitrary: s rule: less_induct)
  case less
  obtain again st where step: "sched_step ops env (th_sched s) = (again, st)" by fastforce
  let ?s1 = "s\<lparr>th_sched := st, th_worker := WNotify again\<rparr>"
  let ?s2 = "(notify_callers ?s1)\<lparr>th_worker := (if again then WStep else WRelock)\<rparr>"
  note prog = sched_step_progress [OF less.prems(2) step] and ok = sched_step_ok [OF less.prems(2) step]
  have path: "(internal ops env)\<^sup>*\<^sup>* s s'" if "(internal ops env)\<^sup>*\<^sup>* ?s2 s'" for s'
    using less.prems(1) step that by (intro worker_path [of ops env s ?s1] worker_path [of ops env ?s1 ?s2]) (simp_all add: worker_step_def)
  have s2: "th_sched ?s2 = st" "th_lock ?s2 = th_lock s" "th_stopping ?s2 = th_stopping s" "th_dtor ?s2 = th_dtor s"
    "th_callers ?s2 = woken \<circ> th_callers s"
    by (simp_all add: notify_callers_def)
  show ?case
  proof (cases again)
    case True
    then have "th_worker ?s2 = WStep" by simp
    moreover have "room (sc_n_ctx (th_sched ?s2)) (sc_pending (th_sched ?s2) @ sc_active (th_sched ?s2))
        < room (sc_n_ctx (th_sched s)) (sc_pending (th_sched s) @ sc_active (th_sched s))" using prog True s2(1) by simp
    moreover have "sched_ok (sc_pending (th_sched ?s2)) (sc_active (th_sched ?s2)) (th_sched ?s2)" using ok s2(1) by simp
    ultimately obtain s' where "(internal ops env)\<^sup>*\<^sup>* ?s2 s'" "th_worker s' = WRelock" "idle (th_sched s')"
      "sched_ok (sc_pending (th_sched s')) (sc_active (th_sched s')) (th_sched s')" "sc_submitted (th_sched s') = sc_submitted (th_sched ?s2)"
      "th_callers s' = woken \<circ> th_callers ?s2" "th_lock s' = th_lock ?s2" "th_stopping s' = th_stopping ?s2" "th_dtor s' = th_dtor ?s2"
      using less.hyps by blast
    then show ?thesis using path prog unfolding s2 by (intro exI [of _ s']) (simp add: fun_eq_iff)
  next
    case False
    with path [OF rtranclp.rtrancl_refl] prog ok s2 show ?thesis by (intro exI [of _ ?s2]) simp
  qed
qed

lemma internal_run: "(internal ops env)\<^sup>*\<^sup>* s s' \<Longrightarrow> threads_run ops env b n s \<Longrightarrow> threads_run ops env b n s'"
  by (induction rule: rtranclp_induct) (auto intro: threads_run.step)

text \<open>
  A round of the worker on its own: from the moment it has left its critical section to the moment
  it wants to enter it again, it finishes every request submitted so far.
\<close>

lemma worker_round:
  assumes "threads_run ops env b n s" "th_worker s = WStep"
  shows "\<exists>s'. threads_run ops env b n s' \<and> th_worker s' = WRelock \<and> idle (th_sched s')
    \<and> (\<forall>r\<in>set (sc_submitted (th_sched s)). finished (th_sched s') (rq_id r))
    \<and> th_callers s' = woken \<circ> th_callers s \<and> th_lock s' = th_lock s \<and> th_stopping s' = th_stopping s \<and> th_dtor s' = th_dtor s"
proof -
  have "sched_ok (sc_pending (th_sched s)) (sc_active (th_sched s)) (th_sched s)"
    using threads_run_ok [OF assms(1)] by (auto intro: sched_reachable_ok)
  from drain_path [OF assms(2) this, of ops env] obtain s' where s': "(internal ops env)\<^sup>*\<^sup>* s s'" "th_worker s' = WRelock" "idle (th_sched s')"
    "ids_ok (sc_pending (th_sched s')) (sc_active (th_sched s')) (th_sched s')" "sc_submitted (th_sched s') = sc_submitted (th_sched s)"
    "th_callers s' = woken \<circ> th_callers s" "th_lock s' = th_lock s" "th_stopping s' = th_stopping s" "th_dtor s' = th_dtor s"
    by (auto simp: sched_ok_def)
  then have "rq_id ` set (sc_submitted (th_sched s)) = dom (sc_done (th_sched s'))" by (simp add: ids_ok_def idle_def)
  then have "\<forall>r\<in>set (sc_submitted (th_sched s)). finished (th_sched s') (rq_id r)" by (auto simp: finished_def)
  with s' internal_run [OF s'(1) assms(1)] show ?thesis by blast
qed

lemma fresh_step: "scheduler_open ops n b = Inr st \<Longrightarrow> sched_step ops env st = (False, st)"
  by (auto simp: scheduler_open_def sched_step_def admit_def split: if_splits)

text \<open>
  C11: a wake-up can be lost.  The first request to a parallel engine can hang: if it is submitted and
  its notification sent after the worker has found nothing to do and before it is asleep -- the
  notification does not take the work mutex -- then the request waits in the scheduler, the
  worker sleeps, the caller sleeps, and nothing moves until another call, the destructor
  or a spurious wake-up comes along.
\<close>

theorem parallel_lost_wakeup:
  assumes opened: "scheduler_open ops n b = Inr st0" and sub: "submit env prompt gen (Some cb) st0 = Inr (i, st1)"
  shows "\<exists>s. threads_run ops env b n s \<and> th_sched s = st1 \<and> \<not> idle st1 \<and> \<not> finished st1 i
    \<and> th_worker s = WSleep \<and> th_callers s 0 = CSleep i \<and> \<not> th_stopping s \<and> (\<forall>s'. \<not> thread_step ops env s Internal s')"
proof -
  let ?s = "\<lambda>st l w c. \<lparr>th_sched = st, th_lock = l, th_stopping = False, th_worker = w, th_callers = (\<lambda>_. CIdle)(0 := c), th_dtor = DIdle\<rparr>"
  have st1: "\<not> idle st1" "\<not> finished st1 i" and next0: "sc_next_id st0 \<noteq> - 1" "\<not> finished st0 i" "idle st0"
    using opened sub by (auto simp: scheduler_open_def submit_def idle_def finished_def Let_def split: if_splits)
  have w: "threads_run ops env b n s \<Longrightarrow> worker_step ops env s = Some s' \<Longrightarrow> threads_run ops env b n s'" for s s'
    by (erule threads_run.step, rule thread_step.worker)
  have c: "threads_run ops env b n s \<Longrightarrow> caller_step 0 s = Some s' \<Longrightarrow> threads_run ops env b n s'" for s s'
    by (erule threads_run.step, rule thread_step.caller)
  have "threads_run ops env b n (?s st0 None WEnter CIdle)"
    using threads_run.opened [OF opened, of env] by (simp add: threads_open_def fun_upd_idem)
  then have "threads_run ops env b n (?s st0 (Some Worker) WTop CIdle)" by (rule w) (simp add: worker_step_def)
  then have "threads_run ops env b n (?s st0 None WStep CIdle)" by (rule w) (simp add: worker_step_def)
  then have "threads_run ops env b n (?s st0 None (WNotify False) CIdle)" by (rule w) (simp add: worker_step_def fresh_step [OF opened])
  then have "threads_run ops env b n (?s st0 None WRelock CIdle)" by (rule w) (simp add: worker_step_def notify_callers_def fun_eq_iff)
  then have "threads_run ops env b n (?s st0 (Some Worker) WTest CIdle)" by (rule w) (simp add: worker_step_def)
  then have "threads_run ops env b n (?s st0 (Some Worker) WBlock CIdle)" by (rule w) (simp add: worker_step_def next0(3))
  then have "threads_run ops env b n (?s st1 (Some Worker) WBlock (CNotify i))"
    using threads_run.step [OF _ thread_step.call [of _ 0 env prompt gen cb i st1]] next0(1) sub by (force simp: set_caller_def)
  then have "threads_run ops env b n (?s st1 (Some Worker) WBlock (CLock i))" by (rule c) (simp add: caller_step_def set_caller_def notify_worker_def)
  then have "threads_run ops env b n (?s st1 None WSleep (CLock i))" by (rule w) (simp add: worker_step_def)
  then have "threads_run ops env b n (?s st1 (Some (Caller 0)) WSleep (CTest i))" by (rule c) (simp add: caller_step_def set_caller_def)
  then have "threads_run ops env b n (?s st1 (Some (Caller 0)) WSleep (CBlock i))" by (rule c) (simp add: caller_step_def set_caller_def st1)
  then have run: "threads_run ops env b n (?s st1 None WSleep (CSleep i))" by (rule c) (simp add: caller_step_def set_caller_def)
  have "\<not> thread_step ops env (?s st1 None WSleep (CSleep i)) Internal s'" for s'
  proof
    assume "thread_step ops env (?s st1 None WSleep (CSleep i)) Internal s'"
    then show False by cases (auto simp: worker_step_def caller_step_def split: if_splits)
  qed
  then show ?thesis using run st1 by (intro exI [of _ "?s st1 None WSleep (CSleep i)"]) simp
qed


text \<open>
  The other notification can be lost too.  The worker announces a finished request on \<open>done_cv\<close>
  without taking the work mutex: a caller that has tested its request and is about to go to sleep
  misses the announcement, and sleeps although its request is finished, until another
  request, the destructor or a spurious wake-up comes along.
\<close>

theorem finished_request_hangs:
  assumes opened: "scheduler_open ops n b = Inr st0" and sub: "submit env prompt gen (Some cb) st0 = Inr (i, st1)"
  shows "\<exists>s. threads_run ops env b n s \<and> finished (th_sched s) i \<and> th_callers s 0 = CSleep i
    \<and> th_worker s = WSleep \<and> \<not> th_stopping s \<and> (\<forall>s'. \<not> thread_step ops env s Internal s')"
proof -
  let ?s = "\<lambda>st l w c. \<lparr>th_sched = st, th_lock = l, th_stopping = False, th_worker = w, th_callers = (\<lambda>_. CIdle)(0 := c), th_dtor = DIdle\<rparr>"
  have st1: "\<not> finished st1 i" "i \<in> rq_id ` set (sc_submitted st1)" and next0: "sc_next_id st0 \<noteq> - 1"
    using opened sub by (auto simp: scheduler_open_def submit_def finished_def Let_def split: if_splits)
  have w: "threads_run ops env b n s \<Longrightarrow> worker_step ops env s = Some s' \<Longrightarrow> threads_run ops env b n s'" for s s'
    by (erule threads_run.step, rule thread_step.worker)
  have c: "threads_run ops env b n s \<Longrightarrow> caller_step 0 s = Some s' \<Longrightarrow> threads_run ops env b n s'" for s s'
    by (erule threads_run.step, rule thread_step.caller)
  have "threads_run ops env b n (?s st0 None WEnter CIdle)"
    using threads_run.opened [OF opened, of env] by (simp add: threads_open_def fun_upd_idem)
  then have "threads_run ops env b n (?s st0 (Some Worker) WTop CIdle)" by (rule w) (simp add: worker_step_def)
  then have "threads_run ops env b n (?s st0 None WStep CIdle)" by (rule w) (simp add: worker_step_def)
  then have "threads_run ops env b n (?s st1 None WStep (CNotify i))"
    using threads_run.step [OF _ thread_step.call [of _ 0 env prompt gen cb i st1]] next0 sub by (force simp: set_caller_def)
  then have "threads_run ops env b n (?s st1 None WStep (CLock i))" by (rule c) (simp add: caller_step_def set_caller_def notify_worker_def)
  then have "threads_run ops env b n (?s st1 (Some (Caller 0)) WStep (CTest i))" by (rule c) (simp add: caller_step_def set_caller_def)
  then have "threads_run ops env b n (?s st1 (Some (Caller 0)) WStep (CBlock i))" by (rule c) (simp add: caller_step_def set_caller_def st1)
  from worker_round [OF this] obtain s1 where run1: "threads_run ops env b n s1" and s1: "th_worker s1 = WRelock" "idle (th_sched s1)"
    "finished (th_sched s1) i" "th_callers s1 = (\<lambda>_. CIdle)(0 := CBlock i)" "th_lock s1 = Some (Caller 0)" "\<not> th_stopping s1" "th_dtor s1 = DIdle"
    using st1(2) by (auto simp: fun_eq_iff)
  define s2 where "s2 = (set_caller 0 (CSleep i) s1)\<lparr>th_lock := None\<rparr>"
  have "threads_run ops env b n s2" using run1 by (rule c) (simp add: caller_step_def s1 s2_def)
  then have "threads_run ops env b n (s2\<lparr>th_lock := Some Worker, th_worker := WTest\<rparr>)"
    by (rule w) (simp add: worker_step_def s1 s2_def set_caller_def)
  then have "threads_run ops env b n (s2\<lparr>th_lock := Some Worker, th_worker := WTest\<rparr>\<lparr>th_worker := WBlock\<rparr>)"
    by (rule w) (simp add: worker_step_def s1 s2_def set_caller_def)
  then have run3: "threads_run ops env b n (s2\<lparr>th_lock := None, th_worker := WSleep\<rparr>)"
    by (rule w) (simp add: worker_step_def)
  have "\<not> thread_step ops env (s2\<lparr>th_lock := None, th_worker := WSleep\<rparr>) Internal s'" for s'
  proof
    assume "thread_step ops env (s2\<lparr>th_lock := None, th_worker := WSleep\<rparr>) Internal s'"
    then show False by cases (auto simp: worker_step_def caller_step_def s1 s2_def set_caller_def split: if_splits)
  qed
  then show ?thesis using run3 s1 by (intro exI [of _ "s2\<lparr>th_lock := None, th_worker := WSleep\<rparr>"]) (simp add: s2_def set_caller_def)
qed

section \<open>Destruction\<close>

definition joining :: "'b backend_ops \<Rightarrow> 'g sampler_env \<Rightarrow> 'b \<Rightarrow> int \<Rightarrow> ('b, 'g) threads \<Rightarrow> bool" where
  "joining ops env b n s \<longleftrightarrow> threads_run ops env b n s \<and> th_dtor s = DJoin"

definition ends :: "'b backend_ops \<Rightarrow> 'g sampler_env \<Rightarrow> ('b, 'g) threads \<Rightarrow> bool" where
  "ends ops env s \<longleftrightarrow> (\<exists>s'. (internal ops env)\<^sup>*\<^sup>* s s' \<and> th_worker s' = WEnd)"

lemma ends_path: "(internal ops env)\<^sup>*\<^sup>* s s' \<Longrightarrow> ends ops env s' \<Longrightarrow> ends ops env s"
  unfolding ends_def by (blast intro: rtranclp_trans)

lemma joining_path:
  assumes "joining ops env b n s" "(internal ops env)\<^sup>*\<^sup>* s s'"
  shows "joining ops env b n s'"
  using assms(2,1)
proof (induction rule: rtranclp_induct)
  case (step s1 s2)
  then have run: "threads_run ops env b n s2" and dtor: "th_dtor s1 = DJoin"
    by (auto simp: joining_def intro: threads_run.step)
  from step.hyps(2) have "th_dtor s2 = DJoin"
  proof cases
    case worker
    then show ?thesis using dtor by (cases "th_worker s1") (auto simp: thread_defs split: if_splits prod.splits)
  next
    case (caller c)
    then show ?thesis using dtor by (cases "th_callers s1 c") (auto simp: thread_defs split: if_splits)
  qed (use dtor in simp)
  with run show ?case by (simp add: joining_def)
qed

lemma joiningD:
  assumes "joining ops env b n s"
  shows "lock_ok s" "th_stopping s" "th_worker s \<noteq> WBlock" "th_worker s \<noteq> WSleep"
    "sched_ok (sc_pending (th_sched s)) (sc_active (th_sched s)) (th_sched s)"
  using threads_run_ok [of ops env b n s] assms by (auto simp: joining_def dtor_ok_def intro: sched_reachable_ok)

lemma joining_unlocks:
  assumes "joining ops env b n s" "th_lock s \<noteq> Some Worker"
  shows "\<exists>s'. (internal ops env)\<^sup>*\<^sup>* s s' \<and> th_lock s' = None \<and> th_worker s' = th_worker s"
proof (cases "th_lock s")
  case (Some w)
  then obtain c where c: "th_lock s = Some (Caller c)" using assms(2) by (cases w) auto
  then have "holds (th_callers s c)" using joiningD(1) [OF assms(1)] by (auto simp: lock_ok_def)
  then obtain s' where "caller_step c s = Some s'" "th_lock s' = None" "th_worker s' = th_worker s"
    using joiningD(2) [OF assms(1)] by (cases "th_callers s c") (auto simp: caller_step_def set_caller_def)
  then show ?thesis using caller_path [OF _ rtranclp.rtrancl_refl] by blast
qed blast

lemma joining_top: "joining ops env b n s \<Longrightarrow> th_worker s = WTop \<Longrightarrow> ends ops env s"
proof -
  assume s: "joining ops env b n s" "th_worker s = WTop"
  have "worker_step ops env s = Some (s\<lparr>th_lock := None, th_worker := WEnd\<rparr>)" using s joiningD(2) [OF s(1)] by (simp add: worker_step_def)
  from worker_path [OF this rtranclp.rtrancl_refl] show ?thesis by (auto simp: ends_def)
qed

lemma joining_test: "joining ops env b n s \<Longrightarrow> th_worker s = WTest \<Longrightarrow> ends ops env s"
proof -
  assume s: "joining ops env b n s" "th_worker s = WTest"
  have "worker_step ops env s = Some (s\<lparr>th_worker := WTop\<rparr>)" using s joiningD(2) [OF s(1)] by (simp add: worker_step_def)
  note path = worker_path [OF this rtranclp.rtrancl_refl]
  show ?thesis using ends_path [OF path joining_top [OF joining_path [OF s(1) path]]] by simp
qed

lemma joining_entry:
  assumes "joining ops env b n s" "th_worker s = WRelock \<or> th_worker s = WEnter"
  shows "ends ops env s"
proof -
  have "th_lock s \<noteq> Some Worker" using joiningD(1) [OF assms(1)] assms(2) by (auto simp: lock_ok_def)
  from joining_unlocks [OF assms(1) this] obtain s1 where s1: "(internal ops env)\<^sup>*\<^sup>* s s1" "th_lock s1 = None" "th_worker s1 = th_worker s" by blast
  note j1 = joining_path [OF assms(1) s1(1)]
  let ?s2 = "s1\<lparr>th_lock := Some Worker, th_worker := (if th_worker s = WRelock then WTest else WTop)\<rparr>"
  have "worker_step ops env s1 = Some ?s2" using s1 assms(2) by (auto simp: worker_step_def)
  note path = worker_path [OF this rtranclp.rtrancl_refl]
  have "ends ops env ?s2" using joining_top [OF joining_path [OF j1 path]] joining_test [OF joining_path [OF j1 path]] assms(2) by auto
  from ends_path [OF s1(1) ends_path [OF path this]] show ?thesis .
qed

lemma joining_drains: "joining ops env b n s \<Longrightarrow> th_worker s = WStep \<Longrightarrow> ends ops env s"
proof -
  assume s: "joining ops env b n s" "th_worker s = WStep"
  from drain_path [OF s(2) joiningD(5) [OF s(1)], of ops env] obtain s' where s': "(internal ops env)\<^sup>*\<^sup>* s s'" "th_worker s' = WRelock" by blast
  show ?thesis using ends_path [OF s'(1) joining_entry [OF joining_path [OF s(1) s'(1)]]] s'(2) by simp
qed

text \<open>
  C16: destroying a parallel engine always comes to an end.  Whatever the worker and the callers were doing when
  the destructor announced the end, the threads already running can bring the worker to its end
  without any further call: this notification cannot be lost, because the flag is set under the
  work mutex.
\<close>

theorem destructor_joins:
  assumes "threads_run ops env b n s" "th_dtor s \<noteq> DIdle"
  shows "\<exists>s'. (internal ops env)\<^sup>*\<^sup>* s s' \<and> th_worker s' = WEnd"
proof -
  have joined: "ends ops env s" if s: "joining ops env b n s" for s :: "('a, 'b) threads"
  proof (cases "th_worker s")
    case (WNotify again)
    let ?s1 = "(notify_callers s)\<lparr>th_worker := (if again then WStep else WRelock)\<rparr>"
    have "worker_step ops env s = Some ?s1" by (simp add: worker_step_def WNotify)
    note path = worker_path [OF this rtranclp.rtrancl_refl]
    have "ends ops env ?s1" using joining_drains [OF joining_path [OF s path]] joining_entry [OF joining_path [OF s path]] by (cases again) auto
    then show ?thesis by (rule ends_path [OF path])
  next
    case WEnd
    then show ?thesis by (auto simp: ends_def)
  qed (use s joiningD [OF s] joining_entry [OF s] joining_top [OF s] joining_test [OF s] joining_drains [OF s] in auto)
  consider "th_dtor s = DJoin" | "th_dtor s = DNotify" using assms(2) by (cases "th_dtor s") auto
  then show ?thesis
  proof cases
    case 2
    let ?s1 = "(notify_worker s)\<lparr>th_dtor := DJoin\<rparr>"
    have step: "internal ops env s ?s1" using 2 by (rule thread_step.dtor_notify)
    have "joining ops env b n ?s1" using threads_run.step [OF assms(1) step] by (simp add: joining_def)
    then have "ends ops env ?s1" by (rule joined)
    then obtain s' where "(internal ops env)\<^sup>*\<^sup>* ?s1 s'" "th_worker s' = WEnd" by (auto simp: ends_def)
    with converse_rtranclp_into_rtranclp [of "internal ops env" s ?s1 s', OF step] show ?thesis by blast
  qed (use assms(1) joined [of s] in \<open>auto simp: joining_def ends_def\<close>)
qed

section \<open>Witnesses\<close>

lemma demo_sched_open:
  "scheduler_open (real_ops ref_api) 2 \<lparr>rb_ctx = [[], []], rb_n_past = 0\<rparr> = Inr (demo_open [[], []])"
  "submit demo_env [7, 8] (sample_config\<lparr>gc_temperature := 0\<rparr>) (Some demo_cb) (demo_open [[], []]) = Inr (1, demo_sched [[], []])"
  by (simp_all add: submit_def demo_open_def scheduler_open_def real_ops_def ref_api_def demo_sched_def demo_request_def
      sampler_init_def demo_env_def Let_def numeral_2_eq_2)

theorem parallel_lost_wakeup_witness:
  "\<exists>s. threads_run (real_ops ref_api) demo_env \<lparr>rb_ctx = [[], []], rb_n_past = 0\<rparr> 2 s \<and> th_worker s = WSleep \<and> th_callers s 0 = CSleep 1"
  using parallel_lost_wakeup [OF demo_sched_open] by blast

lemma demo_at_work:
  "threads_run (real_ops ref_api) demo_env \<lparr>rb_ctx = [[], []], rb_n_past = 0\<rparr> 2 ((threads_open (demo_open [[], []]))\<lparr>th_worker := WStep\<rparr>)"
proof -
  let ?s = "threads_open (demo_open [[], []])" and ?run = "threads_run (real_ops ref_api) demo_env \<lparr>rb_ctx = [[], []], rb_n_past = 0\<rparr> 2"
  have "?run ?s" by (rule threads_run.opened [OF demo_sched_open(1)])
  then have "?run (?s\<lparr>th_lock := Some Worker, th_worker := WTop\<rparr>)"
    by (rule threads_run.step [OF _ thread_step.worker]) (simp add: worker_step_def threads_open_def)
  then have "?run (?s\<lparr>th_lock := Some Worker, th_worker := WTop\<rparr>\<lparr>th_lock := None, th_worker := WStep\<rparr>)"
    by (rule threads_run.step [OF _ thread_step.worker]) (simp add: worker_step_def threads_open_def)
  then show ?thesis by (simp add: threads_open_def)
qed

theorem caller_returns_finished_witness:
  "\<exists>s. threads_run (real_ops ref_api) demo_env \<lparr>rb_ctx = [[], []], rb_n_past = 0\<rparr> 2 s \<and> th_callers s 0 = CDone 1 \<and> finished (th_sched s) 1"
proof -
  let ?run = "threads_run (real_ops ref_api) demo_env \<lparr>rb_ctx = [[], []], rb_n_past = 0\<rparr> 2"
  let ?s0 = "(threads_open (demo_open [[], []]))\<lparr>th_worker := WStep\<rparr>"
  let ?s1 = "(set_caller 0 (CNotify 1) ?s0)\<lparr>th_sched := demo_sched [[], []]\<rparr>"
  let ?s2 = "set_caller 0 (CLock 1) (notify_worker ?s1)"
  have fields: "th_callers ?s0 0 = CIdle" "th_sched ?s0 = demo_open [[], []]" by (simp_all add: threads_open_def)
  have "sc_next_id (demo_open [[], []]) \<noteq> - 1" by (simp add: demo_open_def scheduler_open_def)
  then have "thread_step (real_ops ref_api) demo_env ?s0 External ?s1"
    using fields demo_sched_open(2) by (intro thread_step.call) simp_all
  then have "?run ?s1" by (rule threads_run.step [OF demo_at_work])
  then have run2: "?run ?s2" by (rule threads_run.step [OF _ thread_step.caller [of 0]]) (simp add: caller_step_def set_caller_def)
  have at: "th_worker ?s2 = WStep" "th_lock ?s2 = None" "th_stopping ?s2 = False" "th_callers ?s2 0 = CLock 1" "sc_submitted (th_sched ?s2) = [demo_request]"
    by (simp_all add: set_caller_def threads_open_def demo_sched_def)
  obtain s3 where run3: "?run s3" and s3: "th_lock s3 = None" "\<not> th_stopping s3" "th_callers s3 0 = CLock 1" and fin: "finished (th_sched s3) 1"
    using worker_round [OF run2 at(1)] at by (auto simp: demo_request_def)
  let ?s4 = "(set_caller 0 (CTest 1) s3)\<lparr>th_lock := Some (Caller 0)\<rparr>"
  have run4: "?run ?s4" by (rule threads_run.step [OF run3 thread_step.caller [of 0]]) (simp add: caller_step_def s3(1,3))
  let ?s5 = "(set_caller 0 (CDone 1) ?s4)\<lparr>th_lock := None\<rparr>"
  have run5: "?run ?s5" by (rule threads_run.step [OF run4 thread_step.caller [of 0]]) (simp add: caller_step_def set_caller_def fin)
  have "th_callers ?s5 0 = CDone 1" "\<not> th_stopping ?s5" using s3(2) by (simp_all add: set_caller_def)
  with caller_returns_finished [OF run5 this(2)] run5 show ?thesis by (intro exI [of _ ?s5]) simp
qed

theorem finished_request_hangs_witness:
  "\<exists>s. threads_run (real_ops ref_api) demo_env \<lparr>rb_ctx = [[], []], rb_n_past = 0\<rparr> 2 s \<and> finished (th_sched s) 1 \<and> th_callers s 0 = CSleep 1"
  using finished_request_hangs [OF demo_sched_open] by blast

theorem destructor_joins_witness:
  "\<exists>s'. (internal (real_ops ref_api) demo_env)\<^sup>*\<^sup>* ((threads_open (demo_open [[], []]))\<lparr>th_worker := WStep, th_stopping := True, th_dtor := DNotify\<rparr>) s'
     \<and> th_worker s' = WEnd"
proof -
  have "thread_step (real_ops ref_api) demo_env ((threads_open (demo_open [[], []]))\<lparr>th_worker := WStep\<rparr>) External
      ((threads_open (demo_open [[], []]))\<lparr>th_worker := WStep\<rparr>\<lparr>th_stopping := True, th_dtor := DNotify\<rparr>)"
    by (rule thread_step.destroy) (simp_all add: threads_open_def)
  from destructor_joins [OF threads_run.step [OF demo_at_work this]] show ?thesis by simp
qed

end
