(* ===== verification/Conclave_Vote.thy ===== *)
theory Conclave_Vote
  imports Engine
begin

text \<open>
  The early consensus of \<open>generate_best\<close> (\<open>src/core/engine.cpp\<close>).  Candidates deposit their
  answers under a mutex, in whatever order the threads finish; the first number with an absolute
  majority decides and stops the rest.  The list of deposits stands for the schedule.
\<close>

definition deposits :: "nat \<Rightarrow> (nat \<times> bytes) list \<Rightarrow> conclave" where
  "deposits n ds = foldl (\<lambda>cv d. deposit n (fst d) (snd d) cv) (conclave_open n) ds"

definition ballot :: "(nat \<times> bytes) list \<Rightarrow> bytes \<Rightarrow> nat" where
  "ballot ds x = count_list (map (\<lambda>d. final_number (snd d)) ds) x"

lemma deposits_snoc: "deposits n (ds @ [d]) = deposit n (fst d) (snd d) (deposits n ds)"
  by (simp add: deposits_def)

lemma ballot_snoc [simp]: "ballot (ds @ [d]) x = ballot ds x + (if final_number (snd d) = x then 1 else 0)"
  by (simp add: ballot_def)

definition recorded :: "nat \<Rightarrow> (nat \<times> bytes) list \<Rightarrow> conclave \<Rightarrow> bool" where
  "recorded n ds cv \<longleftrightarrow> length (cv_outs cv) = n \<and> (\<forall>d\<in>set ds. cv_outs cv ! fst d = snd d)"

definition undecided :: "nat \<Rightarrow> (nat \<times> bytes) list \<Rightarrow> conclave \<Rightarrow> bool" where
  "undecided n ds cv \<longleftrightarrow> \<not> cv_stop cv \<and> cv_winner cv = - 1 \<and> map_wf (<) (cv_tally cv)
     \<and> (\<forall>x. x \<noteq> [] \<longrightarrow> 2 * ballot ds x \<le> n
          \<and> (case map_find (<) x (cv_tally cv) of None \<Rightarrow> 0 | Some k \<Rightarrow> k) = int (ballot ds x))"

definition decided :: "nat \<Rightarrow> (nat \<times> bytes) list \<Rightarrow> conclave \<Rightarrow> bool" where
  "decided n ds cv \<longleftrightarrow> cv_stop cv \<and> (\<exists>ds1 i out ds2. ds = ds1 @ (i, out) # ds2 \<and> cv_winner cv = int i
     \<and> final_number out \<noteq> [] \<and> n < 2 * ballot (ds1 @ [(i, out)]) (final_number out))"

lemma deposit_recorded:
  assumes "recorded n ds cv" "fst d < n" "fst d \<notin> fst ` set ds"
  shows "recorded n (ds @ [d]) (deposit n (fst d) (snd d) cv)"
proof -
  have "cv_outs (deposit n (fst d) (snd d) cv) = (cv_outs cv)[fst d := snd d]"
    by (simp add: deposit_def Let_def)
  with assms show ?thesis by (force simp: recorded_def nth_list_update)
qed

lemma deposit_undecided:
  assumes "undecided n ds cv"
  shows "undecided n (ds @ [d]) (deposit n (fst d) (snd d) cv) \<or> decided n (ds @ [d]) (deposit n (fst d) (snd d) cv)"
proof (cases "final_number (snd d) = []")
  case True
  then show ?thesis using assms by (auto simp: undecided_def deposit_def Let_def)
next
  case False
  let ?x = "final_number (snd d)"
  define votes where "votes = (case map_find (<) ?x (cv_tally cv) of None \<Rightarrow> 0 | Some k \<Rightarrow> k) + 1"
  have votes: "votes = int (ballot (ds @ [d]) ?x)" using assms False by (simp add: undecided_def votes_def)
  have step: "deposit n (fst d) (snd d) cv =
      (let cv2 = cv\<lparr>cv_outs := (cv_outs cv)[fst d := snd d], cv_tally := map_put (<) ?x votes (cv_tally cv)\<rparr>
       in if int n < votes * 2 then cv2\<lparr>cv_winner := int (fst d), cv_stop := True\<rparr> else cv2)"
    using assms False by (simp add: undecided_def deposit_def Let_def votes_def)
  show ?thesis
  proof (cases "int n < votes * 2")
    case True
    then have "decided n (ds @ [d]) (deposit n (fst d) (snd d) cv)"
      unfolding decided_def step using False votes
      by (intro conjI exI [of _ ds] exI [of _ "fst d"] exI [of _ "snd d"] exI [of _ "[]"]) (simp_all add: Let_def)
    then show ?thesis ..
  next
    case small: False
    have "2 * ballot (ds @ [d]) x \<le> n" if "x \<noteq> []" for x
      using assms that small votes by (cases "x = ?x") (auto simp: undecided_def)
    then have "undecided n (ds @ [d]) (deposit n (fst d) (snd d) cv)"
      using assms small votes str_map.wf_put [of "cv_tally cv" ?x votes]
      by (auto simp: undecided_def step Let_def str_map.find_put_eq)
    then show ?thesis ..
  qed
qed

lemma deposit_decided:
  assumes "decided n ds cv"
  shows "decided n (ds @ [d]) (deposit n (fst d) (snd d) cv)"
proof -
  have "deposit n (fst d) (snd d) cv = cv\<lparr>cv_outs := (cv_outs cv)[fst d := snd d]\<rparr>"
    using assms by (simp add: decided_def deposit_def)
  with assms show ?thesis by (fastforce simp: decided_def)
qed

lemma deposits_outcome:
  assumes "distinct (map fst ds)" "\<forall>d\<in>set ds. fst d < n"
  shows "recorded n ds (deposits n ds) \<and> (undecided n ds (deposits n ds) \<or> decided n ds (deposits n ds))"
  using assms
proof (induction ds rule: rev_induct)
  case Nil
  then show ?case by (simp add: deposits_def conclave_open_def recorded_def undecided_def ballot_def)
next
  case (snoc d ds)
  then show ?case
    using deposit_recorded [of n ds "deposits n ds" d] deposit_undecided [of n ds "deposits n ds" d] deposit_decided [of n ds "deposits n ds" d]
    by (auto simp: deposits_snoc)
qed

lemma count_list_two: "x \<noteq> y \<Longrightarrow> count_list xs x + count_list xs y \<le> length xs"
  by (induction xs) auto

lemma count_list_nth: "count_list xs x = card {i. i < length xs \<and> xs ! i = x}"
  by (simp add: count_list_eq_length_filter length_filter_conv_card eq_commute)

lemma ballot_le:
  assumes "distinct (map fst ds)" "\<forall>d\<in>set ds. fst d < length full \<and> full ! fst d = snd d"
  shows "ballot ds x \<le> count_list (map final_number full) x"
proof -
  let ?S = "{d \<in> set ds. final_number (snd d) = x}"
  have "distinct ds" using assms(1) by (simp add: distinct_map)
  then have "ballot ds x = card ?S"
    by (simp add: ballot_def count_list_eq_length_filter filter_map comp_def distinct_length_filter Int_def conj_commute eq_commute)
  also have "... = card (fst ` ?S)"
    using assms(1) by (intro card_image [symmetric]) (auto simp: distinct_map intro: inj_on_subset)
  also have "... \<le> card {i. i < length full \<and> map final_number full ! i = x}"
    using assms(2) by (intro card_mono) auto
  finally show ?thesis by (simp add: count_list_nth)
qed

lemma majority_elected:
  assumes "2 \<le> length full" "x \<noteq> []" "length full < 2 * count_list (map final_number full) x"
  shows "final_number (full ! elect_numeric full) = x"
proof -
  let ?nums = "map final_number full" and ?k = "elect_numeric full"
  have two: "2 \<le> count_list ?nums x" using assms by linarith
  then have mem: "x \<in> set ?nums" by (metis count_list_0_iff not_numeral_le_zero)
  have "count_list ?nums x \<le> length (filter (\<lambda>y. y \<noteq> []) ?nums)"
    unfolding count_list_eq_length_filter using assms(2) by (induction full) auto
  then have "numeric_vote ?nums" using assms(3) two mem assms(2) by (auto simp: numeric_vote_def)
  then have most: "carries_most ?nums ?k" using elect_numeric_spec [OF assms(1)] by simp
  then have "count_list ?nums x \<le> count_list ?nums (?nums ! ?k)" using mem assms(2) by (auto simp: carries_most_def)
  then have "?nums ! ?k = x" using count_list_two [of x "?nums ! ?k" ?nums] assms(3) by force
  then show ?thesis using most by (simp add: carries_most_def)
qed

text \<open>
  C22: the early stop of the Conclave is sound.  Whatever order the candidates finish in: when a
  winner was declared, its answer is the verdict, and every possible completion of the
  candidates that had not voted yet would have led the full election to an answer with the same
  final number -- the same number, not necessarily the same text, since the election prefers
  the earliest candidate with that number.  When none was declared, no number had a majority and the election sees every
  deposited answer.
\<close>

theorem early_consensus_sound:
  assumes "2 \<le> n" "distinct (map fst ds)" "\<forall>d\<in>set ds. fst d < n"
  shows "if 0 \<le> cv_winner (deposits n ds)
    then \<exists>ds1 i out ds2. ds = ds1 @ (i, out) # ds2 \<and> fst (conclave_verdict (deposits n ds)) = out \<and> final_number out \<noteq> []
      \<and> (\<forall>full. length full = n \<and> (\<forall>d\<in>set (ds1 @ [(i, out)]). full ! fst d = snd d) \<longrightarrow>
            final_number (full ! elect_numeric full) = final_number out)
    else (\<forall>x. x \<noteq> [] \<longrightarrow> 2 * ballot ds x \<le> n) \<and> (\<forall>d\<in>set ds. cv_outs (deposits n ds) ! fst d = snd d)
      \<and> fst (conclave_verdict (deposits n ds)) = cv_outs (deposits n ds) ! elect_numeric (cv_outs (deposits n ds))"
proof -
  note out = deposits_outcome [OF assms(2,3)]
  show ?thesis
  proof (cases "undecided n ds (deposits n ds)")
    case True
    with out show ?thesis by (auto simp: undecided_def recorded_def conclave_verdict_def Let_def)
  next
    case False
    with out obtain ds1 i u ds2 where d: "ds = ds1 @ (i, u) # ds2" "cv_winner (deposits n ds) = int i" "final_number u \<noteq> []"
      "n < 2 * ballot (ds1 @ [(i, u)]) (final_number u)"
      by (auto simp: decided_def)
    have "fst (conclave_verdict (deposits n ds)) = u" using out d(1,2) by (auto simp: conclave_verdict_def recorded_def)
    moreover have "final_number (full ! elect_numeric full) = final_number u"
      if "length full = n \<and> (\<forall>e\<in>set (ds1 @ [(i, u)]). full ! fst e = snd e)" for full
      using ballot_le [of "ds1 @ [(i, u)]" full "final_number u"] that assms d
      by (intro majority_elected) auto
    moreover have "0 \<le> cv_winner (deposits n ds)" using d(2) by simp
    ultimately show ?thesis using d(1,3)
      by (simp only: if_True) (intro exI [of _ ds1] exI [of _ i] exI [of _ u] exI [of _ ds2] conjI allI impI, simp_all)
  qed
qed

text \<open>The sequential Conclave makes its deposits in order and stops early only with a winner.\<close>

lemma deposits_stop: "cv_stop (deposits n ds) \<Longrightarrow> 0 \<le> cv_winner (deposits n ds)"
proof (induction ds rule: rev_induct)
  case (snoc d ds)
  then show ?case by (cases "cv_stop (deposits n ds)") (auto simp: deposits_snoc deposit_def Let_def split: if_splits)
qed (simp add: deposits_def conclave_open_def)

lemma best_loop_deposits:
  assumes "best_loop env prompt gen n attempts (deposits n ds) e = Some (Inr cv, e')"
  shows "\<exists>ds'. cv = deposits n (ds @ ds') \<and> map fst ds' = take (length ds') attempts
    \<and> (length ds' < length attempts \<longrightarrow> 0 \<le> cv_winner cv)"
  using assms
proof (induction attempts arbitrary: ds e)
  case Nil
  then show ?case by (intro exI [of _ "[]"]) simp
next
  case (Cons i attempts)
  show ?case
  proof (cases "cv_stop (deposits n ds)")
    case True
    then show ?thesis using Cons.prems deposits_stop [OF True] by (intro exI [of _ "[]"]) simp
  next
    case False
    with Cons.prems obtain calls e1 where
      "best_loop env prompt gen n attempts (deposits n (ds @ [(i, concat calls)])) e1 = Some (Inr cv, e')"
      by (auto simp: deposits_snoc split: option.splits sum.splits)
    from Cons.IH [OF this] obtain ds' where "cv = deposits n (ds @ (i, concat calls) # ds')" "map fst ds' = take (length ds') attempts"
      "length ds' < length attempts \<longrightarrow> 0 \<le> cv_winner cv" by auto
    then show ?thesis by (intro exI [of _ "(i, concat calls) # ds'"]) simp
  qed
qed

lemma generate_best_deposits:
  assumes "generate_best env prompt gen (int n) e = Some (Inr (answer, votes), e')" "2 \<le> n"
  shows "\<exists>ds. map fst ds = [0..<length ds] \<and> length ds \<le> n \<and> (answer, votes) = conclave_verdict (deposits n ds)
    \<and> (length ds < n \<longrightarrow> 0 \<le> cv_winner (deposits n ds))"
proof -
  have "deposits n [] = conclave_open n" by (simp add: deposits_def)
  with assms obtain cv where "best_loop env prompt gen n [0..<n] (deposits n []) e = Some (Inr cv, e')" "(answer, votes) = conclave_verdict cv"
    by (auto simp: generate_best_def split: option.splits sum.splits if_splits)
  with best_loop_deposits [OF this(1)] obtain ds where "cv = deposits n ds" "map fst ds = take (length ds) [0..<n]"
    "length ds < n \<longrightarrow> 0 \<le> cv_winner cv" by auto
  moreover from this(2) have "length ds \<le> n" by (metis length_map length_take length_upt min.cobounded1 minus_nat.diff_0)
  ultimately show ?thesis using \<open>(answer, votes) = conclave_verdict cv\<close> by (intro exI [of _ ds]) auto
qed

theorem early_consensus_sound_witness:
  "final_number ([''so 4'', ''no 5'', ''it is 4''] ! elect_numeric [''so 4'', ''no 5'', ''it is 4'']) = ''4''"
proof -
  have w: "cv_winner (deposits 3 [(2, ''it is 4''), (0, ''so 4'')]) = 0" "final_number ''so 4'' = ''4''" "final_number ''it is 4'' = ''4''"
    by code_simp+
  let ?full = "[''so 4'', ''no 5'', ''it is 4'']"
  have pre: "2 \<le> (3 :: nat)" "distinct (map fst [(2 :: nat, ''it is 4''), (0, ''so 4'')])"
    "\<forall>d\<in>set [(2 :: nat, ''it is 4''), (0, ''so 4'')]. fst d < 3" by simp_all
  have "if 0 \<le> (0 :: int) then P else Q \<Longrightarrow> P" for P Q by simp
  note early = this [OF early_consensus_sound [OF pre, unfolded w(1)]]
  obtain ds1 i u ds2 where d: "[(2, ''it is 4''), (0, ''so 4'')] = ds1 @ (i, u) # ds2"
    and all: "\<forall>full. length full = 3 \<and> (\<forall>d\<in>set (ds1 @ [(i, u)]). full ! fst d = snd d) \<longrightarrow>
      final_number (full ! elect_numeric full) = final_number u" using early by (elim exE conjE)
  from d have mem: "set (ds1 @ [(i, u)]) \<subseteq> set [(2, ''it is 4''), (0, ''so 4'')]" by (metis append.assoc append_Cons append_Nil set_append sup_ge1)
  then have u: "final_number u = ''4''" using w by auto
  have "\<forall>d\<in>set [(2, ''it is 4''), (0, ''so 4'')]. ?full ! fst d = snd d" by simp
  with mem have "\<forall>d\<in>set (ds1 @ [(i, u)]). ?full ! fst d = snd d" by (meson subsetD)
  then have "final_number (?full ! elect_numeric ?full) = final_number u"
    by (intro mp [OF spec [OF all]] conjI) simp_all
  then show ?thesis unfolding u .
qed

end
