(* ===== verification/Http_Parser.thy ===== *)
theory Http_Parser
  imports Std_Map
begin

text \<open>
  HTTP messages (\<open>include/reame/server/http_types.hpp\<close>, \<open>src/server/http_parser.cpp\<close>): the
  case-insensitive header map, the parser of one complete request and the serializer of a
  response.  \<open>std::size_t\<close> values read from a header keep their 64-bit range.
\<close>

section \<open>The C++ library routines\<close>

definition find_first_not_of :: "bytes \<Rightarrow> bytes \<Rightarrow> nat option" where
  "find_first_not_of s cs =
     (if list_all (\<lambda>c. c \<in> set cs) s then None else Some (length (takeWhile (\<lambda>c. c \<in> set cs) s)))"

definition find_last_not_of :: "bytes \<Rightarrow> bytes \<Rightarrow> nat option" where
  "find_last_not_of s cs =
     (if list_all (\<lambda>c. c \<in> set cs) s then None
      else Some (length s - 1 - length (takeWhile (\<lambda>c. c \<in> set cs) (rev s))))"

text \<open>
  \<open>std::strtoull\<close> in base 10: white space, an optional sign, the longest run of digits; no
  digit gives 0, a magnitude beyond 64 bits gives \<open>ULLONG_MAX\<close>, a minus sign negates the
  unsigned value.
\<close>

definition strtoull :: "bytes \<Rightarrow> nat" where
  "strtoull s =
     (let t = dropWhile isspace s;
          signed = (t \<noteq> [] \<and> (hd t = CHR ''-'' \<or> hd t = CHR ''+''));
          u = (if signed then tl t else t);
          v = read_nat (takeWhile isdigit u)
      in if 2 ^ 64 \<le> v then 2 ^ 64 - 1
         else if signed \<and> hd t = CHR ''-'' then (2 ^ 64 - v) mod 2 ^ 64 else v)"

section \<open>The code\<close>

text \<open>The trimming idiom of the parsers: the part between the first and the last character not in a set.\<close>

definition trim_chars :: "bytes \<Rightarrow> bytes \<Rightarrow> bytes" where
  "trim_chars cs s =
     (case find_first_not_of s cs of
        None \<Rightarrow> []
      | Some b \<Rightarrow> (case find_last_not_of s cs of None \<Rightarrow> [] | Some e \<Rightarrow> substr s b (e - b + 1)))"

definition http_trim :: "bytes \<Rightarrow> bytes" where
  "http_trim = trim_chars [CHR '' '', CHR 0x09]"

definition status_reason :: "int \<Rightarrow> bytes" where
  "status_reason status =
     (if status = 200 then ''OK'' else if status = 204 then ''No Content''
      else if status = 400 then ''Bad Request'' else if status = 401 then ''Unauthorized''
      else if status = 404 then ''Not Found'' else if status = 405 then ''Method Not Allowed''
      else if status = 413 then ''Payload Too Large'' else if status = 429 then ''Too Many Requests''
      else if status = 500 then ''Internal Server Error'' else if status = 503 then ''Service Unavailable''
      else ''Unknown'')"

text \<open>\<open>std::lexicographical_compare\<close> on the lowercased characters.\<close>

fun ci_less :: "bytes \<Rightarrow> bytes \<Rightarrow> bool" where
  "ci_less [] b = (b \<noteq> [])"
| "ci_less (x # a) [] = False"
| "ci_less (x # a) (y # b) =
     (if code (tolower x) < code (tolower y) then True
      else if code (tolower y) < code (tolower x) then False else ci_less a b)"

type_synonym header_map = "(bytes, bytes) smap"

record http_request =
  hr_method :: bytes
  hr_target :: bytes
  hr_headers :: header_map
  hr_body :: bytes

record http_response =
  hs_status :: int
  hs_headers :: header_map
  hs_body :: bytes

definition header_value :: "header_map \<Rightarrow> bytes \<Rightarrow> bytes" where
  "header_value headers name = (case map_find ci_less name headers of None \<Rightarrow> [] | Some v \<Rightarrow> v)"

text \<open>
  The header loop.  Every line up to \<open>headers_end\<close> is terminated, so the search for the end
  of a line succeeds; the branch for a failed search is never taken.
\<close>

function header_loop :: "bytes \<Rightarrow> nat \<Rightarrow> nat \<Rightarrow> header_map \<Rightarrow> header_map" where
  "header_loop data headers_end pos headers =
     (if headers_end \<le> pos then headers
      else case find_from data CRLF pos of
             None \<Rightarrow> headers
           | Some eol \<Rightarrow>
               let header_line = substr data pos (eol - pos)
               in case find_from header_line '':'' 0 of
                    None \<Rightarrow> header_loop data headers_end (eol + 2) headers
                  | Some colon \<Rightarrow>
                      header_loop data headers_end (eol + 2)
                        (map_put ci_less (http_trim (substr header_line 0 colon))
                           (http_trim (drop (colon + 1) header_line)) headers))"
  by pat_completeness auto
termination
  by (relation "measure (\<lambda>(data, headers_end, pos, headers). headers_end - pos)")
     (auto dest: find_from_bounds)

declare header_loop.simps [simp del]

definition parse_http_request :: "bytes \<Rightarrow> http_request option" where
  "parse_http_request data =
     (case (find_from data (CRLF @ CRLF) 0, find_from data CRLF 0) of
        (Some headers_end, Some line_end) \<Rightarrow>
          (let line = substr data 0 line_end
           in case find_from line '' '' 0 of
                None \<Rightarrow> None
              | Some sp1 \<Rightarrow>
                  (case find_from line '' '' (sp1 + 1) of
                     None \<Rightarrow> None
                   | Some sp2 \<Rightarrow>
                       let meth = substr line 0 sp1;
                           target = substr line (sp1 + 1) (sp2 - sp1 - 1)
                       in if meth = [] \<or> target = [] \<or> hd target \<noteq> CHR ''/'' then None
                          else let path = (case find_from target ''?'' 0 of None \<Rightarrow> target | Some q \<Rightarrow> take q target);
                                   headers = header_loop data headers_end (line_end + 2) [];
                                   req = \<lparr>hr_method = meth, hr_target = path, hr_headers = headers, hr_body = []\<rparr>
                               in case map_find ci_less ''Content-Length'' headers of
                                    None \<Rightarrow> Some req
                                  | Some cl \<Rightarrow>
                                      let len = strtoull cl; body_start = headers_end + 4
                                      in if length data - body_start < len then None
                                         else Some (req\<lparr>hr_body := substr data body_start len\<rparr>)))
      | _ \<Rightarrow> None)"

definition header_field :: "bytes \<times> bytes \<Rightarrow> bytes" where
  "header_field h = fst h @ '': '' @ snd h @ CRLF"

definition serialize_http_response :: "http_response \<Rightarrow> bytes" where
  "serialize_http_response response =
     ''HTTP/1.1 '' @ show_int (hs_status response) @ '' '' @ status_reason (hs_status response) @ CRLF
     @ concat (map header_field (hs_headers response))
     @ (if map_find ci_less ''Content-Length'' (hs_headers response) = None
        then ''Content-Length: '' @ show_nat (length (hs_body response)) @ CRLF else [])
     @ CRLF @ hs_body response"

section \<open>The header map\<close>

definition fold_case :: "bytes \<Rightarrow> nat list" where
  "fold_case s = map (\<lambda>c. code (tolower c)) s"

lemma ci_less_fold_case: "ci_less a b \<longleftrightarrow> fold_case a < fold_case b"
proof (induction a b rule: ci_less.induct)
  case (1 b)
  then show ?case by (cases b) (auto simp: fold_case_def)
qed (auto simp: fold_case_def)

interpretation header: std_compare ci_less
  by unfold_locales (auto simp: ci_less_fold_case)

lemma ci_equiv: "\<not> ci_less a b \<and> \<not> ci_less b a \<longleftrightarrow> map tolower a = map tolower b"
proof -
  have "fold_case a = fold_case b \<longleftrightarrow> map tolower a = map tolower b"
    by (auto simp: fold_case_def list_eq_iff_nth_eq dest!: map_eq_imp_length_eq)
  then show ?thesis by (auto simp: ci_less_fold_case not_less_iff_gr_or_eq)
qed

lemma header_put_find:
  "map_wf ci_less m \<Longrightarrow> map_find ci_less k (map_put ci_less k' v m)
     = (if map tolower k = map tolower k' then Some v else map_find ci_less k m)"
  using header.find_put [of m k k' v] ci_equiv [of k k'] by presburger

section \<open>Parsing an encoded request\<close>

definition request_head :: "bytes \<Rightarrow> bytes \<Rightarrow> (bytes \<times> bytes) list \<Rightarrow> bytes" where
  "request_head meth target hs = meth @ '' '' @ target @ '' HTTP/1.1'' @ CRLF @ concat (map header_field hs) @ CRLF"

definition plain :: "bytes \<Rightarrow> bool" where
  "plain s \<longleftrightarrow> CHR 0x0D \<notin> set s"

definition field_ok :: "bytes \<times> bytes \<Rightarrow> bool" where
  "field_ok h \<longleftrightarrow> plain (fst h) \<and> plain (snd h) \<and> CHR '':'' \<notin> set (fst h)
     \<and> http_trim (fst h) = fst h \<and> http_trim (snd h) = snd h"

definition request_ok :: "bytes \<Rightarrow> bytes \<Rightarrow> (bytes \<times> bytes) list \<Rightarrow> bool" where
  "request_ok meth target hs \<longleftrightarrow> meth \<noteq> [] \<and> plain meth \<and> CHR '' '' \<notin> set meth
     \<and> target \<noteq> [] \<and> hd target = CHR ''/'' \<and> plain target \<and> CHR '' '' \<notin> set target \<and> list_all field_ok hs"

definition header_map_of :: "(bytes \<times> bytes) list \<Rightarrow> header_map" where
  "header_map_of hs = foldl (\<lambda>m (k, v). map_put ci_less k v m) [] hs"

lemma trim_chars_ends:
  "trim_chars cs s = rev (dropWhile (\<lambda>c. c \<in> set cs) (rev (dropWhile (\<lambda>c. c \<in> set cs) s)))"
proof (cases "list_all (\<lambda>c. c \<in> set cs) s")
  case True
  then show ?thesis
    by (auto simp: trim_chars_def find_first_not_of_def list_all_iff dest: set_dropWhileD)
next
  case False
  let ?P = "\<lambda>c. c \<in> set cs"
  define t where "t = dropWhile ?P s"
  have s: "s = takeWhile ?P s @ t" by (simp add: t_def)
  obtain c where c: "c \<in> set t" "\<not> ?P c"
    using False unfolding t_def by (metis (no_types, lifting) s t_def Un_iff list_all_iff set_append set_takeWhileD)
  have "takeWhile ?P (rev s) = takeWhile ?P (rev t @ rev (takeWhile ?P s))"
    by (subst s) simp
  also have "\<dots> = takeWhile ?P (rev t)" using c by (intro takeWhile_append1) auto
  finally have tail: "takeWhile ?P (rev s) = takeWhile ?P (rev t)" .
  have n: "length (takeWhile ?P (rev t)) < length t"
    using c takeWhile_eq_all_conv [of ?P "rev t"] takeWhile_dropWhile_id [of ?P "rev t"]
    by (metis (no_types, lifting) length_rev length_takeWhile_le nat_less_le set_rev take_all_iff takeWhile_eq_take)
  have len: "length s = length (takeWhile ?P s) + length t"
    using s by (metis length_append)
  have "trim_chars cs s = take (length t - length (takeWhile ?P (rev t))) t"
    using False n len unfolding trim_chars_def find_first_not_of_def find_last_not_of_def substr_def
    by (simp add: tail [simplified] t_def [simplified] dropWhile_eq_drop [symmetric] Suc_diff_Suc)
  also have "\<dots> = rev (dropWhile ?P (rev t))"
    by (simp add: dropWhile_eq_drop rev_drop)
  finally show ?thesis by (simp add: t_def)
qed

lemma http_trim_ends:
  "http_trim s = rev (dropWhile (\<lambda>c. c \<in> {CHR '' '', CHR 0x09}) (rev (dropWhile (\<lambda>c. c \<in> {CHR '' '', CHR 0x09}) s)))"
  using trim_chars_ends [of "[CHR '' '', CHR 0x09]" s] by (simp add: http_trim_def)

lemma find_char: "c \<notin> set xs \<Longrightarrow> find_from (xs @ c # ys) [c] 0 = Some (length xs)"
proof -
  have "find_suffix [c] (xs @ c # ys) k = Some (k + length xs)" if "c \<notin> set xs" for k
    using that by (induction xs arbitrary: k) auto
  then show "c \<notin> set xs \<Longrightarrow> ?thesis" by (simp add: find_from_def)
qed

lemma find_char_none: "c \<notin> set xs \<Longrightarrow> find_from xs [c] 0 = None"
proof -
  have "find_suffix [c] xs k = None" if "c \<notin> set xs" for k
    using that by (induction xs arbitrary: k) auto
  then show "c \<notin> set xs \<Longrightarrow> ?thesis" by (simp add: find_from_def)
qed

lemma find_char_after:
  "c \<notin> set xs \<Longrightarrow> find_from (p @ xs @ c # ys) [c] (length p) = Some (length p + length xs)"
  using find_from_shift [of p "xs @ c # ys" "[c]" 0] find_char [of c xs ys] by simp

lemma find_suffix_skip:
  "CHR 0x0D \<notin> set line \<Longrightarrow> find_suffix (CRLF @ CRLF) (line @ s) k = find_suffix (CRLF @ CRLF) s (k + length line)"
  by (induction line arbitrary: k) auto

text \<open>A line with its terminator: what separates the head of a message from its body.\<close>

definition line_ok :: "bytes \<Rightarrow> bool" where
  "line_ok l \<longleftrightarrow> (\<exists>c l'. l = c # l' @ CRLF \<and> plain (c # l'))"

lemma find_suffix_lines:
  "list_all line_ok ls \<Longrightarrow> ls \<noteq> [] \<Longrightarrow>
     find_suffix (CRLF @ CRLF) (concat ls @ CRLF @ rest) k = Some (k + length (concat ls) - 2)"
proof (induction ls arbitrary: k)
  case (Cons l ls)
  obtain c l' where l: "l = (c # l') @ CRLF" "CHR 0x0D \<notin> set (c # l')"
    using Cons.prems by (auto simp: line_ok_def plain_def)
  have "find_suffix (CRLF @ CRLF) (concat (l # ls) @ CRLF @ rest) k
      = find_suffix (CRLF @ CRLF) (CRLF @ concat ls @ CRLF @ rest) (k + length (c # l'))"
    using find_suffix_skip [OF l(2), of "CRLF @ concat ls @ CRLF @ rest" k] l(1) by simp
  moreover have "find_suffix (CRLF @ CRLF) (CRLF @ concat ls @ CRLF @ rest) m
      = find_suffix (CRLF @ CRLF) (concat ls @ CRLF @ rest) (m + 2)" if "ls \<noteq> []" for m
    using that Cons.prems by (cases ls) (auto simp: line_ok_def plain_def)
  ultimately show ?case
    using Cons.IH [of "k + length (c # l') + 2"] Cons.prems l(1) by (cases "ls = []") simp_all
qed simp

lemma find_head_end:
  assumes "list_all line_ok ls" "ls \<noteq> []"
  shows "find_from (concat ls @ CRLF @ rest) (CRLF @ CRLF) 0 = Some (length (concat ls) - 2)"
  using find_suffix_lines [OF assms, of rest 0] by (simp add: find_from_def)

lemma find_head_end_after:
  assumes "list_all line_ok ls" "ls \<noteq> []"
  shows "2 \<le> length (concat ls)"
  using assms by (cases ls) (auto simp: line_ok_def)

lemma field_line_ok: "field_ok h \<Longrightarrow> line_ok (header_field h)"
proof -
  assume "field_ok h"
  then have "plain (fst h @ '': '' @ snd h)" by (auto simp: field_ok_def plain_def)
  moreover have "header_field h = (fst h @ '': '' @ snd h) @ CRLF" "fst h @ '': '' @ snd h \<noteq> []"
    by (simp_all add: header_field_def)
  ultimately show ?thesis unfolding line_ok_def
    by (metis append_Cons neq_Nil_conv)
qed

lemma header_loop_fields:
  assumes "list_all field_ok hs"
  shows "header_loop (pre @ concat (map header_field hs) @ post) (length pre + length (concat (map header_field hs)) - 2)
      (length pre) headers = foldl (\<lambda>m (k, v). map_put ci_less k v m) headers hs"
  using assms
proof (induction hs arbitrary: pre headers)
  case Nil
  then show ?case by (subst header_loop.simps) simp
next
  case (Cons h hs)
  obtain k v where h: "h = (k, v)" by (cases h)
  let ?line = "k @ '': '' @ v" and ?rest = "concat (map header_field hs) @ post"
  let ?data = "pre @ ?line @ CRLF @ ?rest"
  from Cons.prems h have ok: "plain k" "plain v" "CHR '':'' \<notin> set k" "http_trim k = k" "http_trim v = v"
    by (auto simp: field_ok_def)
  then have "CHR 0x0D \<notin> set ?line" by (auto simp: plain_def)
  then have eol: "find_from ?data CRLF (length pre) = Some (length pre + length ?line)"
    by (rule find_from_CRLF_after)
  have sub: "substr ?data (length pre) (length ?line) = ?line" by (rule substr_middle)
  have colon: "find_from ?line '':'' 0 = Some (length k)"
    using find_char [OF ok(3), of "'' '' @ v"] by simp
  have trim: "http_trim (CHR '' '' # v) = v"
    using ok(5) by (simp add: http_trim_ends)
  have "header_loop ?data (length pre + length (concat (map header_field (h # hs))) - 2) (length pre) headers
    = header_loop ?data (length pre + length (concat (map header_field (h # hs))) - 2) (length pre + length ?line + 2)
        (map_put ci_less k v headers)"
    using eol sub colon trim ok h
    by (subst header_loop.simps) (simp add: header_field_def substr_def)
  then show ?case
    using Cons.IH [of "pre @ ?line @ CRLF" "map_put ci_less k v headers"] Cons.prems h
    by (simp add: header_field_def [of "(k, v)"] algebra_simps)
qed

lemma request_lines:
  assumes "request_ok meth target hs"
  defines "first \<equiv> meth @ '' '' @ target @ '' HTTP/1.1''"
  shows "request_head meth target hs = concat ((first @ CRLF) # map header_field hs) @ CRLF"
    "list_all line_ok ((first @ CRLF) # map header_field hs)" "CHR 0x0D \<notin> set first"
proof -
  show "request_head meth target hs = concat ((first @ CRLF) # map header_field hs) @ CRLF"
    by (simp add: request_head_def first_def)
  show plain: "CHR 0x0D \<notin> set first"
    using assms by (auto simp: request_ok_def plain_def)
  have "first \<noteq> []" by (simp add: first_def)
  with plain have "line_ok (first @ CRLF)"
    by (cases first) (auto simp: line_ok_def plain_def)
  then show "list_all line_ok ((first @ CRLF) # map header_field hs)"
    using assms field_line_ok by (auto simp: request_ok_def list_all_iff)
qed

lemma path_of_target:
  "(case find_from target ''?'' 0 of None \<Rightarrow> target | Some q \<Rightarrow> take q target) = takeWhile (\<lambda>c. c \<noteq> CHR ''?'') target"
proof (cases "CHR ''?'' \<in> set target")
  case True
  then obtain a b where ab: "target = a @ CHR ''?'' # b" "CHR ''?'' \<notin> set a"
    by (meson split_list_first)
  have "takeWhile (\<lambda>c. c \<noteq> CHR ''?'') a = a" using ab(2) by (auto simp: takeWhile_eq_all_conv)
  then show ?thesis using ab find_char [OF ab(2), of b] by (simp add: takeWhile_tail)
next
  case False
  then have "takeWhile (\<lambda>c. c \<noteq> CHR ''?'') target = target" by (auto simp: takeWhile_eq_all_conv)
  then show ?thesis using find_char_none [OF False] by (simp only: option.case)
qed

lemma parse_request_head:
  assumes ok: "request_ok meth target hs"
  defines "req \<equiv> \<lparr>hr_method = meth, hr_target = takeWhile (\<lambda>c. c \<noteq> CHR ''?'') target,
                   hr_headers = header_map_of hs, hr_body = []\<rparr>"
  shows "parse_http_request (request_head meth target hs @ rest) =
    (case map_find ci_less ''Content-Length'' (header_map_of hs) of
       None \<Rightarrow> Some req
     | Some cl \<Rightarrow> if length rest < strtoull cl then None else Some (req\<lparr>hr_body := take (strtoull cl) rest\<rparr>))"
proof -
  define first where "first = meth @ '' '' @ target @ '' HTTP/1.1''"
  let ?ls = "(first @ CRLF) # map header_field hs"
  let ?data = "concat ?ls @ CRLF @ rest"
  note lines = request_lines [OF ok, folded first_def]
  have data: "request_head meth target hs @ rest = ?data" using lines(1) by simp
  have len: "length ?data = length (concat ?ls) + 2 + length rest" by simp
  have he: "find_from ?data (CRLF @ CRLF) 0 = Some (length (concat ?ls) - 2)"
    using find_head_end [OF lines(2)] by simp
  have le: "find_from ?data CRLF 0 = Some (length first)"
    using find_from_CRLF [OF lines(3), of "concat (map header_field hs) @ CRLF @ rest"] by simp
  have line: "substr ?data 0 (length first) = first" by (simp add: substr_def)
  have sp1: "find_from first '' '' 0 = Some (length meth)"
    using find_char [of "CHR '' ''" meth] ok by (simp add: first_def request_ok_def)
  have sp2: "find_from first '' '' (length meth + 1) = Some (length meth + 1 + length target)"
    using find_char_after [of "CHR '' ''" target "meth @ '' ''" "''HTTP/1.1''"] ok
    by (simp add: first_def request_ok_def)
  have m: "substr first 0 (length meth) = meth" by (simp add: substr_def first_def)
  have t: "substr first (length meth + 1) (length meth + 1 + length target - length meth - 1) = target"
    by (simp add: substr_def first_def)
  have hl: "header_loop ?data (length (concat ?ls) - 2) (length first + 2) [] = header_map_of hs"
    using header_loop_fields [of hs "first @ CRLF" "CRLF @ rest" "[]"] ok
    by (simp add: header_map_of_def request_ok_def)
  have start: "length (concat ?ls) - 2 + 4 = length (concat ?ls) + 2"
    using find_head_end_after [OF lines(2)] by simp
  have guard: "\<not> (meth = [] \<or> target = [] \<or> hd target \<noteq> CHR ''/'')"
    using ok by (simp add: request_ok_def)
  have body: "substr ?data (length (concat ?ls) + 2) n = take n rest" for n
    by (simp add: substr_def eval_nat_numeral)
  show ?thesis
    unfolding data parse_http_request_def he le Let_def
    by (simp only: option.case prod.case line sp1 sp2 m t guard if_False path_of_target hl start body len
        req_def diff_add_inverse) 
qed

lemma http_request_parsed:
  assumes "request_ok meth target hs"
  shows "parse_http_request (request_head meth target hs @ rest) =
    (let req = \<lparr>hr_method = meth, hr_target = takeWhile (\<lambda>c. c \<noteq> CHR ''?'') target,
                hr_headers = header_map_of hs, hr_body = []\<rparr>
     in case map_of (rev (map (\<lambda>(k, v). (map tolower k, v)) hs)) ''content-length'' of
          None \<Rightarrow> Some req
        | Some cl \<Rightarrow> if length rest < strtoull cl then None else Some (req\<lparr>hr_body := take (strtoull cl) rest\<rparr>))"
proof -
  have "map_wf ci_less m \<Longrightarrow> map_find ci_less k (foldl (\<lambda>m (k, v). map_put ci_less k v m) m hs)
      = (case map_of (rev (map (\<lambda>(k, v). (map tolower k, v)) hs)) (map tolower k) of
           None \<Rightarrow> map_find ci_less k m | Some v \<Rightarrow> Some v)" for m k
    by (induction hs arbitrary: m)
       (auto simp: map_add_def header_put_find header.wf_put split: option.split)
  from this [of "[]" "''Content-Length''"]
  have "map_find ci_less ''Content-Length'' (header_map_of hs)
      = map_of (rev (map (\<lambda>(k, v). (map tolower k, v)) hs)) (map tolower ''Content-Length'')"
    by (simp add: header_map_of_def split: option.split)
  moreover have "map tolower ''Content-Length'' = ''content-length''" by code_simp
  ultimately show ?thesis
    using parse_request_head [OF assms, of rest] by (simp only: Let_def)
qed

text \<open>
  The request parser on every well-formed request: the method, the path without its query
  string and the headers are those that were encoded, with the last value of a header name
  compared without case; the body is the \<open>Content-Length\<close> bytes that follow the blank line,
  and the request is refused when fewer bytes are present.
\<close>

theorem http_request_round_trip:
  assumes "request_ok meth target hs"
  shows "parse_http_request (request_head meth target hs @ rest) =
    (let req = \<lparr>hr_method = meth, hr_target = takeWhile (\<lambda>c. c \<noteq> CHR ''?'') target,
                hr_headers = header_map_of hs, hr_body = []\<rparr>
     in case map_of (rev (map (\<lambda>(k, v). (map tolower k, v)) hs)) ''content-length'' of
          None \<Rightarrow> Some req
        | Some cl \<Rightarrow> if length rest < strtoull cl then None else Some (req\<lparr>hr_body := take (strtoull cl) rest\<rparr>))"
  using assms by (rule http_request_parsed)

theorem http_request_round_trip_witness:
  "parse_http_request (request_head ''POST'' ''/v1/warm?x=1'' [(''Host'', ''a''), (''content-length'', ''2'')] @ ''hi!'')
   = Some \<lparr>hr_method = ''POST'', hr_target = ''/v1/warm'', hr_headers = [(''content-length'', ''2''), (''Host'', ''a'')],
           hr_body = ''hi''\<rparr>"
proof -
  have ok: "request_ok ''POST'' ''/v1/warm?x=1'' [(''Host'', ''a''), (''content-length'', ''2'')]" by code_simp
  have hm: "header_map_of [(''Host'', ''a''), (''content-length'', ''2'')] = [(''content-length'', ''2''), (''Host'', ''a'')]"
    by code_simp
  have cl: "map_of (rev (map (\<lambda>(k, v). (map tolower k, v)) [(''Host'', ''a''), (''content-length'', ''2'')])) ''content-length'' = Some ''2''"
    by code_simp
  have n: "strtoull ''2'' = 2"
    by (simp add: strtoull_def read_nat_def digit_value_def isspace_def isdigit_def code_def)
  have path: "takeWhile (\<lambda>c. c \<noteq> CHR ''?'') ''/v1/warm?x=1'' = ''/v1/warm''" by simp
  show ?thesis
    using http_request_round_trip [OF ok, of "''hi!''"]
    unfolding hm cl n path Let_def option.case by (rule trans) simp
qed

section \<open>Responses\<close>

lemma strtoull_show_nat: "n < 2 ^ 64 \<Longrightarrow> strtoull (show_nat n) = n"
proof -
  assume n: "n < 2 ^ 64"
  obtain d ds where ds: "show_nat n = d # ds" by (cases "show_nat n") auto
  then have "isdigit d" using show_nat_hd [of n] by simp
  then have "dropWhile isspace (show_nat n) = show_nat n" "hd (show_nat n) \<noteq> CHR ''-''" "hd (show_nat n) \<noteq> CHR ''+''"
    using isdigit_not_special ds by auto
  with n show ?thesis
    by (simp add: strtoull_def Let_def takeWhile_all show_nat_digits)
qed

lemma show_int_plain: "plain (show_int i)"
  using show_nat_no_CR by (auto simp: plain_def show_int_def)

lemma status_reason_plain: "plain (status_reason status)"
  by (simp add: plain_def status_reason_def)

lemma show_nat_trim: "http_trim (show_nat n) = show_nat n"
proof -
  have nb: "dropWhile (\<lambda>c. c = CHR '' '' \<or> c = CHR 0x09) xs = xs" if "xs = [] \<or> isdigit (hd xs)" for xs
    using that by (cases xs) (auto simp: isdigit_def code_def)
  have "isdigit (hd (rev (show_nat n)))"
    using show_nat_digits [of n] by (simp add: hd_rev list_all_iff)
  then show ?thesis using show_nat_hd [of n] by (simp add: http_trim_ends nb)
qed

lemma content_length_ok: "field_ok (''Content-Length'', show_nat n)"
proof -
  have "plain ''Content-Length'' \<and> CHR '':'' \<notin> set ''Content-Length'' \<and> http_trim ''Content-Length'' = ''Content-Length''"
    by code_simp
  then show ?thesis by (simp add: field_ok_def show_nat_trim) (simp add: plain_def show_nat_no_CR)
qed

text \<open>
  A serialized response is framed: the first blank line ends the head, what follows is
  exactly the body, and the header block read back by the header loop of the parser holds the
  response's headers and a \<open>Content-Length\<close> that is the length of the body.
\<close>

theorem http_response_framing:
  assumes ok: "list_all field_ok (hs_headers r)"
    and no_cl: "map_find ci_less ''Content-Length'' (hs_headers r) = None"
    and small: "length (hs_body r) < 2 ^ 64"
  shows "\<exists>headers_end line_end headers.
     find_from (serialize_http_response r) (CRLF @ CRLF) 0 = Some headers_end
     \<and> find_from (serialize_http_response r) CRLF 0 = Some line_end
     \<and> headers = header_loop (serialize_http_response r) headers_end (line_end + 2) []
     \<and> drop (headers_end + 4) (serialize_http_response r) = hs_body r
     \<and> headers = map_put ci_less ''Content-Length'' (show_nat (length (hs_body r))) (header_map_of (hs_headers r))
     \<and> strtoull (header_value headers ''content-length'') = length (hs_body r)"
proof -
  define first where "first = ''HTTP/1.1 '' @ show_int (hs_status r) @ '' '' @ status_reason (hs_status r)"
  define hs where "hs = hs_headers r @ [(''Content-Length'', show_nat (length (hs_body r)))]"
  let ?ls = "(first @ CRLF) # map header_field hs"
  have ser: "serialize_http_response r = concat ?ls @ CRLF @ hs_body r"
    using no_cl by (simp add: serialize_http_response_def first_def hs_def header_field_def [of "(''Content-Length'', _)"])
  have fields: "list_all field_ok hs" using ok content_length_ok by (simp add: hs_def)
  have plain: "CHR 0x0D \<notin> set first"
    using show_int_plain status_reason_plain by (auto simp: first_def plain_def)
  then have "line_ok (first @ CRLF)"
    by (cases first) (auto simp: first_def line_ok_def plain_def)
  with fields have lines: "list_all line_ok ?ls"
    using field_line_ok by (auto simp: list_all_iff)
  have he: "find_from (concat ?ls @ CRLF @ hs_body r) (CRLF @ CRLF) 0 = Some (length (concat ?ls) - 2)"
    using find_head_end [OF lines] by simp
  have le: "find_from (concat ?ls @ CRLF @ hs_body r) CRLF 0 = Some (length first)"
    using find_from_CRLF [OF plain, of "concat (map header_field hs) @ CRLF @ hs_body r"] by simp
  have hl: "header_loop (concat ?ls @ CRLF @ hs_body r) (length (concat ?ls) - 2) (length first + 2) [] = header_map_of hs"
    using header_loop_fields [of hs "first @ CRLF" "CRLF @ hs_body r" "[]"] fields
    by (simp add: header_map_of_def)
  have body: "drop (length (concat ?ls) - 2 + 4) (concat ?ls @ CRLF @ hs_body r) = hs_body r"
    using find_head_end_after [OF lines] by (simp add: eval_nat_numeral)
  have hm: "header_map_of hs = map_put ci_less ''Content-Length'' (show_nat (length (hs_body r))) (header_map_of (hs_headers r))"
    by (simp add: header_map_of_def hs_def)
  have "map_wf ci_less m \<Longrightarrow> map_wf ci_less (foldl (\<lambda>m (k, v). map_put ci_less k v m) m xs)" for m and xs :: "(bytes \<times> bytes) list"
    by (induction xs arbitrary: m) (auto simp: header.wf_put)
  then have "map_wf ci_less (header_map_of (hs_headers r))" by (simp add: header_map_of_def)
  moreover have "map tolower ''content-length'' = map tolower ''Content-Length''" by code_simp
  ultimately have "header_value (header_map_of hs) ''content-length'' = show_nat (length (hs_body r))"
    by (simp only: header_value_def hm header_put_find) simp
  with small have cl: "strtoull (header_value (header_map_of hs) ''content-length'') = length (hs_body r)"
    by (simp add: strtoull_show_nat)
  show ?thesis
    unfolding ser using he le hl body hm cl
    by (intro exI [of _ "length (concat ?ls) - 2"] exI [of _ "length first"] exI [of _ "header_map_of hs"]) simp
qed

theorem http_response_framing_witness:
  "\<exists>headers_end. find_from (serialize_http_response \<lparr>hs_status = 404, hs_headers = [(''Content-Type'', ''text/plain'')],
       hs_body = ''no''\<rparr>) (CRLF @ CRLF) 0 = Some headers_end
     \<and> drop (headers_end + 4) (serialize_http_response \<lparr>hs_status = 404,
          hs_headers = [(''Content-Type'', ''text/plain'')], hs_body = ''no''\<rparr>) = ''no''"
proof -
  let ?r = "\<lparr>hs_status = 404, hs_headers = [(''Content-Type'', ''text/plain'')], hs_body = ''no''\<rparr>"
  have "list_all field_ok (hs_headers ?r)" "map_find ci_less ''Content-Length'' (hs_headers ?r) = None"
    by code_simp+
  moreover have "length (hs_body ?r) < 2 ^ 64" by simp
  ultimately have "\<exists>e. find_from (serialize_http_response ?r) (CRLF @ CRLF) 0 = Some e
      \<and> drop (e + 4) (serialize_http_response ?r) = hs_body ?r"
    using http_response_framing [of ?r] by blast
  then show ?thesis
    by (simp only: http_response.select_convs)
qed

end
