(* ===== verification/Http_Server.thy ===== *)
theory Http_Server
  imports Http_Parser "HOL-Library.Sublist"
begin

text \<open>
  One connection of the HTTP server (\<open>src/server/http_server.cpp\<close>): reading a request off the
  socket in the pieces \<open>read_some\<close> delivers, the limits on its head and body, and the writer that
  sends the handler's output.  The reads are the list of pieces; its end stands for a read that
  fails.  Write errors are ignored by the code, so what is sent is what was handed to the socket.
\<close>

section \<open>The writer\<close>

record socket_writer =
  sw_response :: http_response
  sw_streaming :: bool
  sw_sent :: bytes

definition writer_init :: socket_writer where
  "writer_init = \<lparr>sw_response = \<lparr>hs_status = 200, hs_headers = [], hs_body = []\<rparr>, sw_streaming = False, sw_sent = []\<rparr>"

definition socket_write :: "bytes \<Rightarrow> socket_writer \<Rightarrow> socket_writer" where
  "socket_write data w = w\<lparr>sw_sent := sw_sent w @ data\<rparr>"

definition erase_first :: "bytes \<Rightarrow> bytes \<Rightarrow> bytes" where
  "erase_first needle wire =
     (case find_from wire needle 0 of None \<Rightarrow> wire | Some pos \<Rightarrow> take pos wire @ drop (pos + length needle) wire)"

definition writer_begin :: "int \<Rightarrow> header_map \<Rightarrow> socket_writer \<Rightarrow> socket_writer" where
  "writer_begin status headers w =
     (let resp = (sw_response w)\<lparr>hs_status := status, hs_headers := headers\<rparr>;
          streaming = (header_value headers ''Content-Type'' = ''text/event-stream'');
          w1 = w\<lparr>sw_response := resp, sw_streaming := streaming\<rparr>
      in if streaming
         then let head = resp\<lparr>hs_headers := map_put ci_less ''Connection'' ''close'' (hs_headers resp)\<rparr>
              in socket_write (erase_first (''Content-Length: 0'' @ CRLF) (serialize_http_response head)) w1
         else w1)"

definition writer_chunk :: "bytes \<Rightarrow> socket_writer \<Rightarrow> socket_writer" where
  "writer_chunk data w =
     (if sw_streaming w then socket_write data w
      else w\<lparr>sw_response := (sw_response w)\<lparr>hs_body := hs_body (sw_response w) @ data\<rparr>\<rparr>)"

definition writer_end :: "socket_writer \<Rightarrow> socket_writer" where
  "writer_end w = (if \<not> sw_streaming w then socket_write (serialize_http_response (sw_response w)) w else w)"

section \<open>Reading a request\<close>

datatype read_stop = ClientGone | HeaderFlood | TooLarge

definition header_limit :: nat where
  "header_limit = 64 * 1024"

fun read_head :: "bytes \<Rightarrow> bytes list \<Rightarrow> (read_stop \<times> bytes) + (bytes \<times> nat \<times> bytes list)" where
  "read_head data [] = Inl (ClientGone, data)"
| "read_head data (c # cs) =
     (let d = data @ c
      in case find_from d (CRLF @ CRLF) 0 of
           Some headers_end \<Rightarrow> Inr (d, headers_end, cs)
         | None \<Rightarrow> if header_limit < length d then Inl (HeaderFlood, d) else read_head d cs)"

function scan_length :: "bytes \<Rightarrow> nat \<Rightarrow> nat" where
  "scan_length head pos =
     (if length head \<le> pos then 0
      else let eol = (case find_from head CRLF pos of None \<Rightarrow> length head | Some e \<Rightarrow> e);
               line = substr head pos (eol - pos)
           in case find_from line '':'' 0 of
                None \<Rightarrow> scan_length head (eol + 2)
              | Some colon \<Rightarrow>
                  if map tolower (substr line 0 colon) = ''content-length'' then strtoull (drop (colon + 1) line)
                  else scan_length head (eol + 2))"
  by pat_completeness auto
termination
  by (relation "measure (\<lambda>(head, pos). length head - pos)") (auto dest: find_from_bounds split: option.splits)

declare scan_length.simps [simp del]

fun read_body :: "nat \<Rightarrow> nat \<Rightarrow> bytes \<Rightarrow> bytes list \<Rightarrow> (read_stop \<times> bytes) + bytes" where
  "read_body headers_end content_length data cs =
     (if length data - headers_end - 4 < content_length
      then (case cs of [] \<Rightarrow> Inl (ClientGone, data) | c # cs' \<Rightarrow> read_body headers_end content_length (data @ c) cs')
      else Inr data)"

declare read_body.simps [simp del]

text \<open>The bytes of one request, or why there are none and what had been buffered by then.\<close>

definition read_request :: "nat \<Rightarrow> bytes list \<Rightarrow> (read_stop \<times> bytes) + bytes" where
  "read_request max_bytes reads =
     (case read_head [] reads of
        Inl stop \<Rightarrow> Inl stop
      | Inr (data, headers_end, rest) \<Rightarrow>
          let content_length = scan_length (substr data 0 headers_end) 0
          in if max_bytes < content_length then Inl (TooLarge, data) else read_body headers_end content_length data rest)"

definition error_reply :: "int \<Rightarrow> bytes \<Rightarrow> bytes" where
  "error_reply status body =
     serialize_http_response \<lparr>hs_status = status, hs_headers = [(''Content-Type'', ''application/json'')], hs_body = body\<rparr>"

definition quoted :: "bytes \<Rightarrow> bytes" where
  "quoted s = [CHR 0x22] @ s @ [CHR 0x22]"

definition error_body :: "bytes \<Rightarrow> bytes \<Rightarrow> bytes" where
  "error_body message ecode =
     ''{'' @ quoted ''error'' @ '':{'' @ quoted ''message'' @ '':'' @ quoted message @ '','' @ quoted ''type'' @ '':''
     @ quoted ''invalid_request_error'' @ '','' @ quoted ''code'' @ '':'' @ quoted ecode @ ''}}''"

text \<open>
  The connection: what is sent, and the state of the handler after it.  The handler is an
  argument here; it is \<open>Api_Handler\<close> in the server.  \<open>None\<close> is a handler that never returns,
  \<open>Inl\<close> an exception it lets escape, which ends the process.
\<close>

definition sent_of :: "('f + socket_writer) \<times> 's \<Rightarrow> ('f + bytes) \<times> 's" where
  "sent_of res = (case res of (Inl f, s) \<Rightarrow> (Inl f, s) | (Inr w, s) \<Rightarrow> (Inr (sw_sent w), s))"

definition handle_connection :: "u64 \<Rightarrow> (http_request \<Rightarrow> socket_writer \<Rightarrow> 's \<Rightarrow> (('f + socket_writer) \<times> 's) option) \<Rightarrow> bytes list \<Rightarrow> 's
    \<Rightarrow> (('f + bytes) \<times> 's) option" where
  "handle_connection max_request_size_mb handler reads s =
     (case read_request (unat (max_request_size_mb * 1024 * 1024)) reads of
        Inl (TooLarge, _) \<Rightarrow> Some (Inr (error_reply 413 (error_body ''request too large'' ''payload_too_large'')), s)
      | Inl _ \<Rightarrow> Some (Inr [], s)
      | Inr data \<Rightarrow>
          (case parse_http_request data of
             None \<Rightarrow> Some (Inr (error_reply 400 (error_body ''malformed HTTP request'' ''bad_request'')), s)
           | Some request \<Rightarrow> map_option sent_of (handler request writer_init s)))"

section \<open>The scan for the content length\<close>

fun join_lines :: "bytes list \<Rightarrow> bytes" where
  "join_lines [] = []"
| "join_lines [l] = l"
| "join_lines (l # ls) = l @ CRLF @ join_lines ls"

fun scan_lines :: "bytes list \<Rightarrow> nat" where
  "scan_lines [] = 0"
| "scan_lines (l # ls) =
     (case find_from l '':'' 0 of
        None \<Rightarrow> scan_lines ls
      | Some colon \<Rightarrow> if map tolower (take colon l) = ''content-length'' then strtoull (drop (colon + 1) l) else scan_lines ls)"

lemma scan_past_end: "length head \<le> pos \<Longrightarrow> scan_length head pos = 0"
  by (simp add: scan_length.simps)

lemma find_from_CRLF_plain: "plain l \<Longrightarrow> find_from (p @ l) CRLF (length p) = None"
proof -
  assume "plain l"
  then have "find_suffix CRLF l k = None" for k
    by (induction l arbitrary: k) (auto simp: plain_def take_Cons')
  then show ?thesis by (simp add: find_from_def)
qed

lemma scan_length_lines:
  assumes "list_all plain ls" "ls \<noteq> []"
  shows "scan_length (p @ join_lines ls) (length p) = scan_lines ls"
  using assms
proof (induction ls arbitrary: p rule: join_lines.induct)
  case (2 l)
  have none: "find_from (p @ l) CRLF (length p) = None" using 2 by (intro find_from_CRLF_plain) simp
  have sub: "substr (p @ l) (length p) (length l) = l" using substr_middle [of p l "[]"] by simp
  show ?case
  proof (cases "l = []")
    case True
    then show ?thesis by (simp add: scan_length.simps find_from_def)
  next
    case False
    then show ?thesis using none sub scan_past_end [of "p @ l" "length p + length l + 2"]
      by (subst scan_length.simps) (simp add: Let_def substr_def split: option.split)
  qed
next
  case (3 l l2 ls)
  let ?head = "p @ l @ CRLF @ join_lines (l2 # ls)"
  have eol: "find_from ?head CRLF (length p) = Some (length p + length l)"
    using 3(2) by (intro find_from_CRLF_after) (simp add: plain_def)
  have sub: "substr ?head (length p) (length l) = l" by (rule substr_middle)
  have step: "scan_length ?head (length p) = (case find_from l '':'' 0 of
      None \<Rightarrow> scan_length ?head (length p + length l + 2)
    | Some colon \<Rightarrow> if map tolower (take colon l) = ''content-length'' then strtoull (drop (colon + 1) l)
        else scan_length ?head (length p + length l + 2))"
  proof -
    have at: "substr ?head (length p) (length p + length l - length p) = l" "\<not> length ?head \<le> length p"
      "substr l 0 colon = take colon l" for colon
      using sub by (simp_all add: substr_def)
    show ?thesis by (subst scan_length.simps) (simp only: at eol option.case Let_def if_False)
  qed
  have rest: "scan_length ?head (length p + length l + 2) = scan_lines (l2 # ls)"
    using 3(1) [of "p @ l @ CRLF"] 3(2) by simp
  show ?case using step unfolding rest by simp
qed simp

section \<open>Any slicing of a request\<close>

definition content_lengths :: "(bytes \<times> bytes) list \<Rightarrow> bytes list" where
  "content_lengths hs = map snd (filter (\<lambda>h. map tolower (fst h) = ''content-length'') hs)"

lemma find_colon: "CHR '':'' \<notin> set k \<Longrightarrow> find_from (k @ '': '' @ v) '':'' 0 = Some (length k)"
  using find_char [of "CHR '':''" k "'' '' @ v"] by simp

lemma strtoull_space: "strtoull (CHR '' '' # v) = strtoull v"
  by (simp add: strtoull_def isspace_def code_def)

lemma scan_fields:
  "list_all field_ok hs \<Longrightarrow> scan_lines (map (\<lambda>h. fst h @ '': '' @ snd h) hs) =
     (case content_lengths hs of [] \<Rightarrow> 0 | cl # _ \<Rightarrow> strtoull cl)"
proof (induction hs)
  case (Cons h hs)
  then have "find_from (fst h @ '': '' @ snd h) '':'' 0 = Some (length (fst h))"
    by (intro find_colon) (simp add: field_ok_def)
  then show ?case using Cons by (simp add: content_lengths_def strtoull_space)
qed (simp add: content_lengths_def)

lemma scan_request_line:
  assumes "CHR '':'' \<notin> set meth"
  shows "scan_lines ((meth @ '' '' @ rest) # ls) = scan_lines ls"
proof (cases "find_from (meth @ '' '' @ rest) '':'' 0")
  case (Some colon)
  let ?l = "meth @ '' '' @ rest"
  have at: "colon < length ?l" "?l ! colon = CHR '':''"
  proof -
    have occ: "occurs_at ?l '':'' colon" by (rule find_from_SomeD(2) [OF Some])
    then show "colon < length ?l" by (simp add: occurs_at_def)
    with occ show "?l ! colon = CHR '':''"
      unfolding occurs_at_def by (metis Cons_nth_drop_Suc One_nat_def length_Cons list.inject list.size(3) take_Suc_Cons)
  qed
  have "length meth < colon"
  proof (rule ccontr)
    assume "\<not> length meth < colon"
    then have "colon < length meth \<or> colon = length meth" by auto
    moreover have "\<not> colon < length meth" using at(2) assms by (metis nth_append nth_mem)
    ultimately show False using at(2) by (auto simp: nth_append)
  qed
  then have "take colon ?l = meth @ '' '' @ take (colon - length meth - 1) rest" by (simp add: take_Cons')
  then have "CHR '' '' \<in> set (take colon ?l)" by simp
  then have "tolower (CHR '' '') \<in> set (map tolower (take colon ?l))" by (metis image_eqI set_map)
  moreover have "tolower (CHR '' '') \<notin> set ''content-length''" by code_simp
  ultimately have "map tolower (take colon ?l) \<noteq> ''content-length''" by metis
  then show ?thesis using Some by simp
qed simp

lemma request_head_join:
  "request_head meth target hs = join_lines ((meth @ '' '' @ target @ '' HTTP/1.1'') # map (\<lambda>h. fst h @ '': '' @ snd h) hs) @ CRLF @ CRLF"
proof -
  have "join_lines (l # map (\<lambda>h. fst h @ '': '' @ snd h) hs) @ CRLF = l @ CRLF @ concat (map header_field hs)" for l
    by (induction hs arbitrary: l) (simp_all add: header_field_def)
  then show ?thesis by (simp add: request_head_def)
qed

lemma request_head_found:
  assumes "request_ok meth target hs" "CHR '':'' \<notin> set meth"
  shows "find_from (request_head meth target hs @ rest) (CRLF @ CRLF) 0 = Some (length (request_head meth target hs) - 4)"
    "4 \<le> length (request_head meth target hs)"
    "scan_length (substr (request_head meth target hs @ rest) 0 (length (request_head meth target hs) - 4)) 0 =
       (case content_lengths hs of [] \<Rightarrow> 0 | cl # _ \<Rightarrow> strtoull cl)"
proof -
  note lines = request_lines [OF assms(1)]
  show four: "4 \<le> length (request_head meth target hs)" by (simp add: request_head_join)
  show "find_from (request_head meth target hs @ rest) (CRLF @ CRLF) 0 = Some (length (request_head meth target hs) - 4)"
    using find_head_end [OF lines(2), of rest] find_head_end_after [OF lines(2)] unfolding lines(1) by simp
  let ?ls = "(meth @ '' '' @ target @ '' HTTP/1.1'') # map (\<lambda>h. fst h @ '': '' @ snd h) hs"
  have "list_all plain ?ls" using assms(1) by (auto simp: request_ok_def plain_def field_ok_def list_all_iff)
  then have "scan_length (join_lines ?ls) 0 = scan_lines ?ls" using scan_length_lines [of ?ls "[]"] by simp
  also have "... = scan_lines (map (\<lambda>h. fst h @ '': '' @ snd h) hs)" by (rule scan_request_line [OF assms(2)])
  also have "... = (case content_lengths hs of [] \<Rightarrow> 0 | cl # _ \<Rightarrow> strtoull cl)"
    using assms(1) by (intro scan_fields) (simp add: request_ok_def)
  finally show "scan_length (substr (request_head meth target hs @ rest) 0 (length (request_head meth target hs) - 4)) 0 =
       (case content_lengths hs of [] \<Rightarrow> 0 | cl # _ \<Rightarrow> strtoull cl)"
    by (simp add: request_head_join substr_def)
qed

lemma read_head_slices:
  assumes "find_from (data @ concat cs) (CRLF @ CRLF) 0 = Some e" "e + 4 \<le> header_limit" "find_from data (CRLF @ CRLF) 0 = None"
  shows "\<exists>cs1 cs2. cs = cs1 @ cs2 \<and> read_head data cs = Inr (data @ concat cs1, e, cs2) \<and> e + 4 \<le> length (data @ concat cs1)"
  using assms
proof (induction cs arbitrary: data)
  case (Cons c cs)
  show ?case
  proof (cases "find_from (data @ c) (CRLF @ CRLF) 0")
    case (Some e')
    then have "e' = e" using find_from_append [OF Some, of "concat cs"] Cons.prems(1) by simp
    with Some find_from_bounds [OF Some] show ?thesis by (intro exI [of _ "[c]"] exI [of _ cs]) simp
  next
    case None
    have "length (data @ c) < e + 4"
    proof (rule ccontr)
      assume "\<not> ?thesis"
      then have "occurs_at (data @ c) (CRLF @ CRLF) e"
        using find_from_SomeD(2) [OF Cons.prems(1)] by (simp add: occurs_at_def)
      with find_from_NoneD [OF None, of e] show False by simp
    qed
    with Cons.prems(2) have "length (data @ c) \<le> header_limit" by simp
    with Cons.IH [of "data @ c"] Cons.prems None obtain cs1 cs2 where
      "cs = cs1 @ cs2" "read_head (data @ c) cs = Inr ((data @ c) @ concat cs1, e, cs2)" "e + 4 \<le> length ((data @ c) @ concat cs1)"
      by auto
    with None \<open>length (data @ c) \<le> header_limit\<close> show ?thesis
      by (intro exI [of _ "c # cs1"] exI [of _ cs2]) simp
  qed
qed simp

lemma read_body_slices:
  assumes "n \<le> length (data @ concat cs) - e - 4"
  shows "\<exists>cs1 cs2. cs = cs1 @ cs2 \<and> read_body e n data cs = Inr (data @ concat cs1) \<and> n \<le> length (data @ concat cs1) - e - 4"
  using assms
proof (induction cs arbitrary: data)
  case Nil
  then show ?case by (subst read_body.simps) simp
next
  case (Cons c cs)
  show ?case
  proof (cases "length data - e - 4 < n")
    case True
    from Cons.IH [of "data @ c"] Cons.prems obtain cs1 cs2 where
      "cs = cs1 @ cs2" "read_body e n (data @ c) cs = Inr (data @ c @ concat cs1)" "n \<le> length (data @ c @ concat cs1) - e - 4" by auto
    with True show ?thesis by (intro exI [of _ "c # cs1"] exI [of _ cs2]) (subst read_body.simps, simp)
  next
    case False
    then show ?thesis by (intro exI [of _ "[]"] exI [of _ "c # cs"]) (subst read_body.simps, simp)
  qed
qed

lemma content_length_header:
  "map_of (rev (map (\<lambda>(k, v). (map tolower k, v)) hs)) ''content-length'' =
     (if content_lengths hs = [] then None else Some (last (content_lengths hs)))"
  by (induction hs) (auto simp: content_lengths_def map_add_def split: option.splits if_splits)

text \<open>The request a complete message stands for, with the length of its last \<open>Content-Length\<close>.\<close>

definition request_of :: "bytes \<Rightarrow> bytes \<Rightarrow> (bytes \<times> bytes) list \<Rightarrow> bytes \<Rightarrow> http_request" where
  "request_of meth target hs body = \<lparr>hr_method = meth, hr_target = takeWhile (\<lambda>c. c \<noteq> CHR ''?'') target,
     hr_headers = header_map_of hs, hr_body = body\<rparr>"

lemma parse_complete:
  assumes "request_ok meth target hs" "content_lengths hs \<noteq> []" "n = strtoull (last (content_lengths hs))" "n \<le> length rest"
  shows "parse_http_request (request_head meth target hs @ rest) = Some (request_of meth target hs (take n rest))"
  using http_request_parsed [OF assms(1), of rest] assms(2-) by (simp add: content_length_header request_of_def Let_def)

lemma parse_no_body:
  assumes "request_ok meth target hs" "content_lengths hs = []"
  shows "parse_http_request (request_head meth target hs @ rest) = Some (request_of meth target hs [])"
  using http_request_parsed [OF assms(1), of rest] assms(2) by (simp add: content_length_header request_of_def Let_def)

lemma parse_incomplete:
  assumes "request_ok meth target hs" "content_lengths hs \<noteq> []" "length rest < strtoull (last (content_lengths hs))"
  shows "parse_http_request (request_head meth target hs @ rest) = None"
  using http_request_parsed [OF assms(1), of rest] assms(2-) by (simp add: content_length_header Let_def)

lemma read_request_slices:
  assumes ok: "request_ok meth target hs" "CHR '':'' \<notin> set meth" "length (request_head meth target hs) \<le> header_limit"
    and n: "n = (case content_lengths hs of [] \<Rightarrow> 0 | cl # _ \<Rightarrow> strtoull cl)" "n \<le> max_bytes" "n \<le> length rest"
    and reads: "concat reads = request_head meth target hs @ rest"
  shows "\<exists>rest'. read_request max_bytes reads = Inr (request_head meth target hs @ rest') \<and> n \<le> length rest' \<and> prefix rest' rest"
proof -
  let ?head = "request_head meth target hs" and ?e = "length (request_head meth target hs) - 4"
  note found = request_head_found [OF ok(1,2)]
  have none: "find_from [] (CRLF @ CRLF) 0 = None" by (simp add: find_from_def)
  have e: "?e + 4 = length ?head" using found(2) by simp
  from read_head_slices [of "[]" reads ?e] found(1) [of rest] reads none ok(3) e obtain cs1 cs2 where
    cs: "reads = cs1 @ cs2" "read_head [] reads = Inr (concat cs1, ?e, cs2)" "length ?head \<le> length (concat cs1)" by auto
  define r1 where "r1 = drop (length ?head) (concat cs1)"
  have both: "concat cs1 @ concat cs2 = ?head @ rest" using reads cs(1) by simp
  have "take (length ?head) (concat cs1) = ?head" using arg_cong [OF both, of "take (length ?head)"] cs(3) by simp
  then have r1: "concat cs1 = ?head @ r1" unfolding r1_def by (metis append_take_drop_id)
  with both have r2: "rest = r1 @ concat cs2" by simp
  have "n \<le> length (concat cs1 @ concat cs2) - ?e - 4" using n(3) r1 r2 e by simp
  from read_body_slices [OF this] obtain ds1 ds2 where ds: "cs2 = ds1 @ ds2" "read_body ?e n (concat cs1) cs2 = Inr (concat cs1 @ concat ds1)"
    "n \<le> length (concat cs1 @ concat ds1) - ?e - 4" by blast
  have "read_request max_bytes reads = Inr (?head @ r1 @ concat ds1)"
    using cs(2) ds(2) found(3) [of r1] n(1,2) r1 by (simp add: read_request_def)
  moreover have "n \<le> length (r1 @ concat ds1)" using ds(3) e r1 by simp
  moreover have "prefix (r1 @ concat ds1) rest" using r2 ds(1) by (simp add: prefix_def)
  ultimately show ?thesis by blast
qed

lemma connection_slices:
  assumes "request_ok meth target hs" "CHR '':'' \<notin> set meth" "length (request_head meth target hs) \<le> header_limit"
    and "content_lengths hs = [] \<and> body = [] \<or> (\<exists>cl. content_lengths hs = [cl] \<and> strtoull cl = length body)"
    and "length body \<le> unat (mb * 1024 * 1024)"
    and "concat reads = request_head meth target hs @ body @ extra"
  shows "handle_connection mb handler reads s =
    map_option sent_of (handler (request_of meth target hs body) writer_init s)"
proof -
  let ?head = "request_head meth target hs"
  have n: "length body = (case content_lengths hs of [] \<Rightarrow> 0 | cl # _ \<Rightarrow> strtoull cl)" using assms(4) by auto
  obtain rest where rest: "read_request (unat (mb * 1024 * 1024)) reads = Inr (?head @ rest)"
      "length body \<le> length rest" "prefix rest (body @ extra)"
    using read_request_slices [OF assms(1-3) n assms(5) _ assms(6)] by auto
  obtain z where "body @ extra = rest @ z" using rest(3) by (auto simp: prefix_def)
  from arg_cong [OF this, of "take (length body)"] rest(2) have body: "take (length body) rest = body" by simp
  have "parse_http_request (?head @ rest) = Some (request_of meth target hs body)"
  proof (cases "content_lengths hs = []")
    case True
    then show ?thesis using parse_no_body [OF assms(1) True] assms(4) by simp
  next
    case False
    with assms(4) have "length body = strtoull (last (content_lengths hs))" by (elim disjE exE conjE) simp_all
    from parse_complete [OF assms(1) False this rest(2)] body show ?thesis by simp
  qed
  then show ?thesis using rest(1) by (simp add: handle_connection_def)
qed

text \<open>
  C8: a request reaches the handler whole, however the network cuts it up.  If the bytes the
  client sends are the head of a well-formed request of at most 64 KiB with at most one
  \<open>Content-Length\<close>, within the size limit, followed by a body of that length (and possibly
  more), then for every way of slicing them into reads the handler is called with exactly that
  method, path, header map and body, and the reply is what the handler wrote.
\<close>

theorem connection_any_slicing:
  assumes "request_ok meth target hs" "CHR '':'' \<notin> set meth" "length (request_head meth target hs) \<le> header_limit"
    and "content_lengths hs = [] \<and> body = [] \<or> (\<exists>cl. content_lengths hs = [cl] \<and> strtoull cl = length body)"
    and "length body \<le> unat (mb * 1024 * 1024)"
    and "concat reads = request_head meth target hs @ body @ extra"
  shows "handle_connection mb handler reads s =
    map_option sent_of (handler (request_of meth target hs body) writer_init s)"
  using assms by (rule connection_slices)

lemma read_head_bound:
  assumes "\<forall>c\<in>set cs. length c \<le> 8192" "length data \<le> header_limit"
  shows "case read_head data cs of Inl (_, d) \<Rightarrow> length d \<le> header_limit + 8192
    | Inr (d, e, rest) \<Rightarrow> length d \<le> header_limit + 8192 \<and> e + 4 \<le> length d \<and> set rest \<subseteq> set cs"
  using assms
proof (induction cs arbitrary: data)
  case (Cons c cs)
  then have len: "length (data @ c) \<le> header_limit + 8192" by fastforce
  show ?case
  proof (cases "find_from (data @ c) (CRLF @ CRLF) 0")
    case None
    show ?thesis
    proof (cases "header_limit < length (data @ c)")
      case True
      then show ?thesis using None len by simp
    next
      case False
      then show ?thesis using None Cons.IH [of "data @ c"] Cons.prems(1) by (auto simp: Let_def split: sum.splits prod.splits)
    qed
  next
    case (Some e)
    then show ?thesis using len find_from_bounds [OF Some] by auto
  qed
qed simp

lemma read_body_bound:
  assumes "\<forall>c\<in>set cs. length c \<le> 8192" "e + 4 \<le> k" "length data \<le> k + n + 8192"
  shows "case read_body e n data cs of Inl (_, d) \<Rightarrow> length d \<le> k + n + 8192 | Inr d \<Rightarrow> length d \<le> k + n + 8192"
  using assms
proof (induction cs arbitrary: data)
  case (Cons c cs)
  show ?case
  proof (cases "length data - e - 4 < n")
    case True
    then have "length (data @ c) \<le> k + n + 8192" using Cons.prems(1,2) by fastforce
    with Cons have "case read_body e n (data @ c) cs of Inl (_, d) \<Rightarrow> length d \<le> k + n + 8192 | Inr d \<Rightarrow> length d \<le> k + n + 8192" by simp
    with True show ?thesis by (subst read_body.simps) simp
  next
    case False
    then show ?thesis using Cons.prems by (subst read_body.simps) simp
  qed
qed (subst read_body.simps, simp)

text \<open>
  C26: the buffer of a connection is bounded.  When every read delivers at most the 8192 bytes of
  the read buffer, whatever the client sends, the bytes held before the request is handled or
  dropped never exceed the header limit and the size limit by more than one read each.
\<close>

theorem connection_buffer_bounded:
  assumes "\<forall>c\<in>set reads. length c \<le> 8192"
  shows "(case read_request max_bytes reads of Inl (_, d) \<Rightarrow> length d | Inr d \<Rightarrow> length d) \<le> header_limit + max_bytes + 2 * 8192"
proof -
  note hd = read_head_bound [OF assms, of "[]"]
  show ?thesis
  proof (cases "read_head [] reads")
    case (Inl stop)
    then show ?thesis using hd by (cases stop) (simp add: read_request_def)
  next
    case (Inr r)
    then obtain d e rest where r: "read_head [] reads = Inr (d, e, rest)" by (cases r) auto
    let ?n = "scan_length (substr d 0 e) 0"
    have d: "length d \<le> header_limit + 8192" "e + 4 \<le> length d" "set rest \<subseteq> set reads" using hd r by auto
    show ?thesis
    proof (cases "max_bytes < ?n")
      case True
      then show ?thesis using r d by (simp add: read_request_def)
    next
      case False
      have "\<forall>c\<in>set rest. length c \<le> 8192" using assms d(3) by blast
      from read_body_bound [OF this _, of e "header_limit + 8192" d ?n] d False
      show ?thesis using r False by (auto simp: read_request_def split: sum.splits)
    qed
  qed
qed

text \<open>
  With two \<open>Content-Length\<close> headers the scan before reading the body takes the first and the
  parser the last.  When the first says zero and the last is the length of the body, the outcome
  depends on timing: the request is handled if it arrives in one read and rejected as malformed
  if the body comes in a second one.
\<close>

theorem duplicate_length_depends_on_timing:
  assumes "request_ok meth target hs" "CHR '':'' \<notin> set meth" "length (request_head meth target hs) \<le> header_limit"
    and "content_lengths hs = [a, b]" "strtoull a = 0" "strtoull b = length body" "body \<noteq> []"
  shows "handle_connection mb handler [request_head meth target hs @ body] s =
      map_option sent_of (handler (request_of meth target hs body) writer_init s)
    \<and> handle_connection mb handler [request_head meth target hs, body] s =
      Some (Inr (error_reply 400 (error_body ''malformed HTTP request'' ''bad_request'')), s)"
proof
  let ?head = "request_head meth target hs"
  have found: "find_from (?head @ r) (CRLF @ CRLF) 0 = Some (length ?head - 4)" "scan_length (substr (?head @ r) 0 (length ?head - 4)) 0 = 0"
    for r using request_head_found(1,3) [OF assms(1,2), of r] assms(4,5) by simp_all
  have read: "read_request m ((?head @ r) # rs) = Inr (?head @ r)" for m r rs
    using found by (subst read_request_def) (simp add: read_body.simps)
  have "parse_http_request (?head @ body) = Some (request_of meth target hs body)"
    using parse_complete [OF assms(1), of "length body" body] assms(4,6) by simp
  then show "handle_connection mb handler [?head @ body] s =
      map_option sent_of (handler (request_of meth target hs body) writer_init s)"
    using read [of _ body "[]"] by (simp add: handle_connection_def)
  have "parse_http_request (?head @ []) = None"
    using parse_incomplete [OF assms(1), of "[]"] assms(4,6,7) by simp
  then show "handle_connection mb handler [?head, body] s = Some (Inr (error_reply 400 (error_body ''malformed HTTP request'' ''bad_request'')), s)"
    using read [of _ "[]" "[body]"] by (simp add: handle_connection_def)
qed

section \<open>What is sent\<close>

text \<open>The writer protocol: one \<open>begin\<close>, the chunks, one \<open>end\<close>.\<close>

definition written :: "int \<Rightarrow> header_map \<Rightarrow> bytes list \<Rightarrow> socket_writer" where
  "written status headers chunks = writer_end (foldl (\<lambda>w c. writer_chunk c w) (writer_begin status headers writer_init) chunks)"

lemma written_plain:
  assumes "header_value headers ''Content-Type'' \<noteq> ''text/event-stream''"
  shows "sw_sent (written status headers chunks) =
    serialize_http_response \<lparr>hs_status = status, hs_headers = headers, hs_body = concat chunks\<rparr>"
proof -
  have "foldl (\<lambda>w c. writer_chunk c w) w chunks = w\<lparr>sw_response := (sw_response w)\<lparr>hs_body := hs_body (sw_response w) @ concat chunks\<rparr>\<rparr>"
    if "\<not> sw_streaming w" for w
    using that by (induction chunks arbitrary: w) (simp_all add: writer_chunk_def)
  then show ?thesis using assms by (simp add: written_def writer_begin_def writer_init_def writer_end_def socket_write_def Let_def)
qed

lemma written_stream:
  assumes "header_value headers ''Content-Type'' = ''text/event-stream''"
  shows "sw_sent (written status headers chunks) = erase_first (''Content-Length: 0'' @ CRLF)
      (serialize_http_response \<lparr>hs_status = status, hs_headers = map_put ci_less ''Connection'' ''close'' headers, hs_body = []\<rparr>) @ concat chunks"
proof -
  have "foldl (\<lambda>w c. writer_chunk c w) w chunks = w\<lparr>sw_sent := sw_sent w @ concat chunks\<rparr>" if "sw_streaming w" for w
    using that by (induction chunks arbitrary: w) (simp_all add: writer_chunk_def socket_write_def)
  then show ?thesis using assms by (simp add: written_def writer_begin_def writer_init_def writer_end_def socket_write_def Let_def)
qed

section \<open>Examples\<close>

definition echo_handler :: "http_request \<Rightarrow> socket_writer \<Rightarrow> unit \<Rightarrow> ((unit + socket_writer) \<times> unit) option" where
  "echo_handler r w s = Some (Inr (socket_write (hr_body r) w), s)"

lemma demo_lengths: "strtoull ''2'' = 2" "strtoull ''0'' = 0"
  by (simp_all add: strtoull_def read_nat_def digit_value_def isspace_def isdigit_def code_def)

theorem connection_any_slicing_witness:
  "handle_connection 1 echo_handler
     [take 5 (request_head ''POST'' ''/x'' [(''Content-Length'', ''2'')] @ ''hi''),
      drop 5 (request_head ''POST'' ''/x'' [(''Content-Length'', ''2'')] @ ''hi'')] () = Some (Inr ''hi'', ())"
proof -
  let ?hs = "[(''Content-Length'', ''2'')]"
  have ok: "request_ok ''POST'' ''/x'' ?hs" "CHR '':'' \<notin> set ''POST''" and cl: "content_lengths ?hs = [''2'']"
    by code_simp+
  have small: "length (request_head ''POST'' ''/x'' ?hs) \<le> header_limit" by (simp add: request_head_def header_field_def header_limit_def)
  have "handle_connection 1 echo_handler [take 5 (request_head ''POST'' ''/x'' ?hs @ ''hi''), drop 5 (request_head ''POST'' ''/x'' ?hs @ ''hi'')] ()
      = map_option sent_of (echo_handler (request_of ''POST'' ''/x'' ?hs ''hi'') writer_init ())"
    by (rule connection_any_slicing [OF ok small, where extra = "[]"]) (simp_all add: cl demo_lengths del: take_append drop_append)
  then show ?thesis by (simp only:) (simp add: echo_handler_def request_of_def writer_init_def socket_write_def sent_of_def)
qed

theorem connection_buffer_bounded_witness:
  "(case read_request 10 [''GET / HTTP/1.1'', CRLF @ CRLF] of Inl (_, d) \<Rightarrow> length d | Inr d \<Rightarrow> length d) \<le> header_limit + 10 + 2 * 8192"
  by (rule connection_buffer_bounded) simp

theorem duplicate_length_depends_on_timing_witness:
  "handle_connection 1 echo_handler [request_head ''POST'' ''/x'' [(''Content-Length'', ''0''), (''Content-Length'', ''2'')], ''hi''] ()
     = Some (Inr (error_reply 400 (error_body ''malformed HTTP request'' ''bad_request'')), ())"
proof -
  let ?hs = "[(''Content-Length'', ''0''), (''Content-Length'', ''2'')]"
  have ok: "request_ok ''POST'' ''/x'' ?hs" "CHR '':'' \<notin> set ''POST''" and cl: "content_lengths ?hs = [''0'', ''2'']"
    by code_simp+
  have small: "length (request_head ''POST'' ''/x'' ?hs) \<le> header_limit" by (simp add: request_head_def header_field_def header_limit_def)
  have two: "strtoull ''2'' = length ''hi''" "''hi'' \<noteq> []" by (simp_all add: demo_lengths)
  show ?thesis
    using duplicate_length_depends_on_timing [OF ok small cl demo_lengths(2) two, of 1 echo_handler "()"] by simp
qed

end
