(* ===== verification/Api_Handler.thy ===== *)
theory Api_Handler
  imports Engine_Correct Http_Server
begin

text \<open>
  The protocol layer (\<open>src/server/api_handler.cpp\<close>): authentication, routing, the generation,
  warm-up, session and metrics endpoints.  Requests are handled one at a time here (the gate on
  concurrent generations is modelled at the level of its atomic operations below).  The JSON
  library is an argument: parsing, serializing (which throws on text that is not UTF-8) and the
  typed look-ups with a default (which throw on a value of another type).  The calls a handler
  makes on its writer are recorded; a writer is a function of them.  An exception that no handler
  catches ends the detached thread of the connection and with it the process.
\<close>

section \<open>JSON\<close>

datatype json = JNull | JBool bool | JInt int | JReal real | JStr bytes | JArr "json list" | JObj "(bytes \<times> json) list"

record json_lib =
  jl_parse :: "bytes \<Rightarrow> json option"
  jl_dump :: "json \<Rightarrow> bytes + bytes"
  jl_value_int :: "json \<Rightarrow> bytes \<Rightarrow> int \<Rightarrow> bytes + int"
  jl_value_float :: "json \<Rightarrow> bytes \<Rightarrow> real \<Rightarrow> bytes + real"
  jl_value_bool :: "json \<Rightarrow> bytes \<Rightarrow> bool \<Rightarrow> bytes + bool"
  jl_value_string :: "json \<Rightarrow> bytes \<Rightarrow> bytes \<Rightarrow> bytes + bytes"

definition json_field :: "json \<Rightarrow> bytes \<Rightarrow> json option" where
  "json_field j k = (case j of JObj fs \<Rightarrow> map_of fs k | _ \<Rightarrow> None)"

definition error_json :: "bytes \<Rightarrow> bytes \<Rightarrow> bytes \<Rightarrow> json" where
  "error_json message kind ecode =
     JObj [(''error'', JObj [(''message'', JStr message), (''type'', JStr kind), (''code'', JStr ecode)])]"

section \<open>The state of the handler\<close>

datatype writer_call = Begin int header_map | Chunk bytes | End

record api_config =
  ap_api_key :: bytes
  ap_enable_cors :: bool
  ap_enable_metrics :: bool
  ap_max_concurrent_requests :: int
  ap_model_id :: bytes

text \<open>What the handler takes from outside: the engine's environment, the library, disk writes, the clock-based speeds.\<close>

record ('b, 'g, 'a) api_env =
  ae_engine :: "('b, 'g, 'a) engine_env"
  ae_json :: json_lib
  ae_write_ok :: bool
  ae_speeds :: "real \<times> real \<times> real"
  ae_length_error :: bytes

record ('b, 'd, 'g, 'a) api =
  ap_engine :: "('b, 'd, 'g, 'a) engine"
  ap_active_generations :: int
  ap_total_requests :: u64
  ap_errors :: u64
  ap_calls :: "writer_call list"

type_synonym ('b, 'd, 'g, 'a) handled = "(spec_fault + unit) \<times> ('b, 'd, 'g, 'a) api"

definition writer_says :: "writer_call list \<Rightarrow> ('b, 'd, 'g, 'a) api \<Rightarrow> ('b, 'd, 'g, 'a) api" where
  "writer_says cs s = s\<lparr>ap_calls := ap_calls s @ cs\<rparr>"

text \<open>The two writers.\<close>

fun play_socket :: "writer_call \<Rightarrow> socket_writer \<Rightarrow> socket_writer" where
  "play_socket (Begin status headers) w = writer_begin status headers w"
| "play_socket (Chunk data) w = writer_chunk data w"
| "play_socket End w = writer_end w"

fun play_buffer :: "writer_call \<Rightarrow> http_response \<Rightarrow> http_response" where
  "play_buffer (Begin status headers) r = r\<lparr>hs_status := status, hs_headers := headers\<rparr>"
| "play_buffer (Chunk data) r = r\<lparr>hs_body := hs_body r @ data\<rparr>"
| "play_buffer End r = r"

section \<open>Helpers\<close>

definition base_headers :: "api_config \<Rightarrow> bytes \<Rightarrow> header_map" where
  "base_headers cfg content_type =
     (let h = map_put ci_less ''Content-Type'' content_type []
      in if ap_enable_cors cfg
         then map_put ci_less ''Access-Control-Allow-Headers'' ''Content-Type, Authorization''
                (map_put ci_less ''Access-Control-Allow-Methods'' ''GET, POST, DELETE, OPTIONS''
                  (map_put ci_less ''Access-Control-Allow-Origin'' ''*'' h))
         else h)"

definition respond :: "api_config \<Rightarrow> json_lib \<Rightarrow> int \<Rightarrow> json \<Rightarrow> ('b, 'd, 'g, 'a) api \<Rightarrow> ('b, 'd, 'g, 'a) handled" where
  "respond cfg jl status body s =
     (let s1 = (if 400 \<le> status then s\<lparr>ap_errors := ap_errors s + 1\<rparr> else s);
          s2 = writer_says [Begin status (base_headers cfg ''application/json'')] s1
      in case jl_dump jl body of
           Inl m \<Rightarrow> (Inl (Threw (CallbackExn m)), s2)
         | Inr txt \<Rightarrow> (Inr (), writer_says [Chunk txt, End] s2))"

text \<open>The comparison that does not stop at the first difference; \<open>diff\<close> is an \<open>unsigned char\<close>.\<close>

definition authorized :: "api_config \<Rightarrow> http_request \<Rightarrow> bool" where
  "authorized cfg r =
     (if ap_api_key cfg = [] then True
      else let expected = ''Bearer '' @ ap_api_key cfg;
               got = header_value (hr_headers r) ''Authorization'';
               diff0 = (if length got \<noteq> length expected then 1 else 0) :: 8 word;
               diff = foldl (\<lambda>d i. d OR (word_of_byte (got ! i) XOR word_of_byte (expected ! (if i < length expected then i else 0))))
                        diff0 [0..<length got]
           in diff = 0)"

text \<open>Typed look-ups in sequence; the first that throws decides.\<close>

definition gen_config_from :: "json_lib \<Rightarrow> json \<Rightarrow> bytes + gen_config" where
  "gen_config_from jl j =
     (case jl_value_int jl j ''max_tokens'' 512 of Inl m \<Rightarrow> Inl m | Inr max_toks \<Rightarrow>
     (case jl_value_float jl j ''temperature'' (7/10) of Inl m \<Rightarrow> Inl m | Inr temperature \<Rightarrow>
     (case jl_value_float jl j ''top_p'' (95/100) of Inl m \<Rightarrow> Inl m | Inr top_p \<Rightarrow>
     (case jl_value_float jl j ''repeat_penalty'' (11/10) of Inl m \<Rightarrow> Inl m | Inr penalty \<Rightarrow>
     (case jl_value_int jl j ''seed'' 42 of Inl m \<Rightarrow> Inl m | Inr seed \<Rightarrow>
     (case jl_value_bool jl j ''echo'' False of Inl m \<Rightarrow> Inl m | Inr echo \<Rightarrow>
        Inr \<lparr>gc_max_tokens = max_toks, gc_temperature = temperature, gc_top_p = top_p, gc_repeat_penalty = penalty,
             gc_repeat_last_n = 64, gc_seed = seed, gc_echo_prompt = echo\<rparr>))))))"

section \<open>Generation\<close>

record outcome =
  oc_text :: bytes
  oc_completion_tokens :: int
  oc_prompt_tokens :: int
  oc_hit_max_tokens :: bool

text \<open>
  \<open>run_generation\<close>: the outcome and the pieces delivered (each of which reached \<open>on_piece\<close>), or
  \<open>None\<close> if the engine never returns.
\<close>

definition run_generation :: "('b, 'g, 'a) api_env \<Rightarrow> bytes \<Rightarrow> gen_config \<Rightarrow> (bytes \<Rightarrow> engine_exn + unit) \<Rightarrow> ('b, 'd, 'g, 'a) engine
    \<Rightarrow> ((spec_fault + outcome) \<times> bytes list \<times> ('b, 'd, 'g, 'a) engine) option" where
  "run_generation env prompt gen on_piece e =
     (case count_tokens (ae_engine env) prompt e of
        Inl x \<Rightarrow> Some (Inl (Threw x), [], e)
      | Inr prompt_tokens \<Rightarrow>
          (case engine_generate_stream (ae_engine env) prompt
                  (Some (\<lambda>_ piece. case on_piece piece of Inl x \<Rightarrow> Inl x | Inr _ \<Rightarrow> Inr True)) gen e of
             None \<Rightarrow> None
           | Some (Inl f, calls, e1) \<Rightarrow> Some (Inl f, calls, e1)
           | Some (Inr _, calls, e1) \<Rightarrow>
               Some (Inr \<lparr>oc_text = concat calls, oc_completion_tokens = int (length calls), oc_prompt_tokens = prompt_tokens,
                          oc_hit_max_tokens = (gc_max_tokens gen \<le> int (length calls))\<rparr>, calls, e1)))"

definition sse_json :: "api_config \<Rightarrow> bool \<Rightarrow> bytes \<Rightarrow> json" where
  "sse_json cfg chat piece =
     JObj [(''object'', JStr (if chat then ''chat.completion.chunk'' else ''text_completion.chunk'')),
           (''model'', JStr (ap_model_id cfg)),
           (''choices'', JArr [JObj [(''index'', JInt 0),
              if chat then (''delta'', JObj [(''content'', JStr piece)]) else (''text'', JStr piece)]])]"

definition sse_line :: "bytes \<Rightarrow> bytes" where
  "sse_line d = ''data: '' @ d @ [CHR 0x0A, CHR 0x0A]"

definition completion_json :: "api_config \<Rightarrow> bool \<Rightarrow> outcome \<Rightarrow> json" where
  "completion_json cfg chat out =
     (let finish = JStr (if oc_hit_max_tokens out then ''length'' else ''stop'')
      in JObj [(''object'', JStr (if chat then ''chat.completion'' else ''text_completion'')),
               (''model'', JStr (ap_model_id cfg)),
               (''choices'', JArr [JObj (if chat
                  then [(''index'', JInt 0), (''message'', JObj [(''role'', JStr ''assistant''), (''content'', JStr (oc_text out))]), (''finish_reason'', finish)]
                  else [(''index'', JInt 0), (''text'', JStr (oc_text out)), (''finish_reason'', finish)])]),
               (''usage'', JObj [(''prompt_tokens'', JInt (oc_prompt_tokens out)), (''completion_tokens'', JInt (oc_completion_tokens out)),
                  (''total_tokens'', JInt (oc_prompt_tokens out + oc_completion_tokens out))])])"

definition fault_text :: "('b, 'g, 'a) api_env \<Rightarrow> spec_fault \<Rightarrow> bytes" where
  "fault_text env f =
     (case f of
        Threw (EngineError m) \<Rightarrow> m | Threw (ModelError m) \<Rightarrow> m | Threw (CacheExn (CacheError m)) \<Rightarrow> m | Threw (CallbackExn m) \<Rightarrow> m
      | LengthError \<Rightarrow> ae_length_error env | Undefined _ \<Rightarrow> [])"

text \<open>The two \<open>catch\<close> clauses of the generation endpoints; undefined behaviour is not an exception.\<close>

definition catch_generation :: "api_config \<Rightarrow> ('b, 'g, 'a) api_env \<Rightarrow> ('b, 'd, 'g, 'a) handled \<Rightarrow> ('b, 'd, 'g, 'a) handled" where
  "catch_generation cfg env h =
     (case h of
        (Inr u, s) \<Rightarrow> (Inr u, s)
      | (Inl (Undefined ub), s) \<Rightarrow> (Inl (Undefined ub), s)
      | (Inl (Threw (EngineError m)), s) \<Rightarrow> respond cfg (ae_json env) 500 (error_json m ''server_error'' ''generation_failed'') s
      | (Inl f, s) \<Rightarrow> respond cfg (ae_json env) 500 (error_json (fault_text env f) ''server_error'' ''internal'') s)"

text \<open>The body of the \<open>try\<close> block.\<close>

definition generate_stream_reply :: "api_config \<Rightarrow> ('b, 'g, 'a) api_env \<Rightarrow> bool \<Rightarrow> bytes \<Rightarrow> gen_config \<Rightarrow> ('b, 'd, 'g, 'a) api
    \<Rightarrow> ('b, 'd, 'g, 'a) handled option" where
  "generate_stream_reply cfg env chat prompt gen s =
     (let headers = map_put ci_less ''Cache-Control'' ''no-cache'' (base_headers cfg ''text/event-stream'');
          s1 = writer_says [Begin 200 headers] s;
          line = (\<lambda>piece. jl_dump (ae_json env) (sse_json cfg chat piece))
      in case run_generation env prompt gen (\<lambda>piece. case line piece of Inl m \<Rightarrow> Inl (CallbackExn m) | Inr _ \<Rightarrow> Inr ()) (ap_engine s1) of
           None \<Rightarrow> None
         | Some (r, calls, e1) \<Rightarrow>
             let s2 = writer_says (concat (map (\<lambda>p. case line p of Inl _ \<Rightarrow> [] | Inr d \<Rightarrow> [Chunk (sse_line d)]) calls)) (s1\<lparr>ap_engine := e1\<rparr>)
             in case r of
                  Inl f \<Rightarrow> Some (Inl f, s2)
                | Inr _ \<Rightarrow> Some (Inr (), writer_says [Chunk (sse_line ''[DONE]''), End] s2))"

definition generate_reply :: "api_config \<Rightarrow> ('b, 'g, 'a) api_env \<Rightarrow> bool \<Rightarrow> bytes \<Rightarrow> gen_config \<Rightarrow> ('b, 'd, 'g, 'a) api
    \<Rightarrow> ('b, 'd, 'g, 'a) handled option" where
  "generate_reply cfg env chat prompt gen s =
     (case run_generation env prompt gen (\<lambda>_. Inr ()) (ap_engine s) of
        None \<Rightarrow> None
      | Some (Inl f, _, e1) \<Rightarrow> Some (Inl f, s\<lparr>ap_engine := e1\<rparr>)
      | Some (Inr out, _, e1) \<Rightarrow> Some (respond cfg (ae_json env) 200 (completion_json cfg chat out) (s\<lparr>ap_engine := e1\<rparr>)))"

text \<open>The messages of a chat request.\<close>

fun chat_messages :: "json_lib \<Rightarrow> json list \<Rightarrow> bytes + chat_message list" where
  "chat_messages jl [] = Inr []"
| "chat_messages jl (m # ms) =
     (case jl_value_string jl m ''role'' ''user'' of Inl x \<Rightarrow> Inl x | Inr role \<Rightarrow>
     (case jl_value_string jl m ''content'' [] of Inl x \<Rightarrow> Inl x | Inr content \<Rightarrow>
     (case chat_messages jl ms of Inl x \<Rightarrow> Inl x | Inr rest \<Rightarrow> Inr (\<lparr>cm_role = role, cm_content = content\<rparr> # rest))))"

datatype prompt_result = BadRequest bytes bytes | PromptThrew bytes | Prompt bytes

definition request_prompt :: "('b, 'g, 'a) api_env \<Rightarrow> bool \<Rightarrow> json \<Rightarrow> ('b, 'd, 'g, 'a) engine \<Rightarrow> prompt_result" where
  "request_prompt env chat body e =
     (if chat then
        (case json_field body ''messages'' of
           Some (JArr (m # ms)) \<Rightarrow>
             (case chat_messages (ae_json env) (m # ms) of
                Inl x \<Rightarrow> PromptThrew x
              | Inr messages \<Rightarrow> Prompt (engine_format_messages (ae_engine env) messages e))
         | _ \<Rightarrow> BadRequest ([CHR 0x27] @ ''messages'' @ [CHR 0x27] @ '' must be a non-empty array'') ''invalid_messages'')
      else
        (case json_field body ''prompt'' of
           Some (JStr p) \<Rightarrow> Prompt p
         | _ \<Rightarrow> BadRequest ([CHR 0x27] @ ''prompt'' @ [CHR 0x27] @ '' (string) is required'') ''missing_prompt''))"

text \<open>The part that holds a slot of the gate: what it throws before the \<open>try\<close> block escapes.\<close>

definition generate_with_slot :: "api_config \<Rightarrow> ('b, 'g, 'a) api_env \<Rightarrow> bool \<Rightarrow> json \<Rightarrow> bytes \<Rightarrow> ('b, 'd, 'g, 'a) api
    \<Rightarrow> ('b, 'd, 'g, 'a) handled option" where
  "generate_with_slot cfg env chat body prompt s =
     (case gen_config_from (ae_json env) body of
        Inl m \<Rightarrow> Some (Inl (Threw (CallbackExn m)), s)
      | Inr gen \<Rightarrow>
          (case jl_value_bool (ae_json env) body ''stream'' False of
             Inl m \<Rightarrow> Some (Inl (Threw (CallbackExn m)), s)
           | Inr stream \<Rightarrow>
               map_option (catch_generation cfg env)
                 (if stream then generate_stream_reply cfg env chat prompt gen s else generate_reply cfg env chat prompt gen s)))"

definition handle_generation :: "api_config \<Rightarrow> ('b, 'g, 'a) api_env \<Rightarrow> http_request \<Rightarrow> bool \<Rightarrow> ('b, 'd, 'g, 'a) api
    \<Rightarrow> ('b, 'd, 'g, 'a) handled option" where
  "handle_generation cfg env r chat s =
     (case jl_parse (ae_json env) (hr_body r) of
        None \<Rightarrow> Some (respond cfg (ae_json env) 400 (error_json ''request body is not valid JSON'' ''invalid_request_error'' ''invalid_json'') s)
      | Some body \<Rightarrow>
          (case request_prompt env chat body (ap_engine s) of
             BadRequest m c \<Rightarrow> Some (respond cfg (ae_json env) 400 (error_json m ''invalid_request_error'' c) s)
           | PromptThrew m \<Rightarrow> Some (Inl (Threw (CallbackExn m)), s)
           | Prompt prompt \<Rightarrow>
               if ap_max_concurrent_requests cfg \<le> ap_active_generations s
               then Some (respond cfg (ae_json env) 503 (error_json ''server is at capacity, retry later'' ''server_error'' ''overloaded'') s)
               else map_option (\<lambda>(res, s1). (res, s1\<lparr>ap_active_generations := ap_active_generations s1 - 1\<rparr>))
                      (generate_with_slot cfg env chat body prompt (s\<lparr>ap_active_generations := ap_active_generations s + 1\<rparr>))))"

section \<open>The other endpoints\<close>

definition handle_warm :: "api_config \<Rightarrow> ('b, 'g, 'a) api_env \<Rightarrow> http_request \<Rightarrow> ('b, 'd, 'g, 'a) api \<Rightarrow> ('b, 'd, 'g, 'a) handled" where
  "handle_warm cfg env r s =
     (case jl_parse (ae_json env) (hr_body r) of
        None \<Rightarrow> respond cfg (ae_json env) 400 (error_json ''request body is not valid JSON'' ''invalid_request_error'' ''invalid_json'') s
      | Some body \<Rightarrow>
          (case json_field body ''prompt'' of
             Some (JStr prompt) \<Rightarrow>
               (case (case engine_warm (ae_engine env) prompt (ap_engine s) of
                        (Inl x, e1) \<Rightarrow> (Inl (Threw x), s\<lparr>ap_engine := e1\<rparr>)
                      | (Inr tokens, e1) \<Rightarrow>
                          respond cfg (ae_json env) 200 (JObj [(''warmed'', JBool True), (''tokens'', JInt tokens)]) (s\<lparr>ap_engine := e1\<rparr>)) of
                  (Inr u, s1) \<Rightarrow> (Inr u, s1)
                | (Inl (Undefined ub), s1) \<Rightarrow> (Inl (Undefined ub), s1)
                | (Inl (Threw (EngineError m)), s1) \<Rightarrow>
                    respond cfg (ae_json env) 400 (error_json m ''invalid_request_error'' ''warm_failed'') s1
                | (Inl f, s1) \<Rightarrow> respond cfg (ae_json env) 500 (error_json (fault_text env f) ''server_error'' ''internal'') s1)
           | _ \<Rightarrow> respond cfg (ae_json env) 400
                    (error_json ([CHR 0x27] @ ''prompt'' @ [CHR 0x27] @ '' (string) is required'') ''invalid_request_error'' ''missing_prompt'') s))"

definition method_not_allowed :: json where
  "method_not_allowed = error_json ''method not allowed'' ''invalid_request_error'' ''bad_method''"

text \<open>A session operation of the engine, then the answer; only \<open>EngineError\<close> is caught.\<close>

definition session_reply :: "api_config \<Rightarrow> json_lib \<Rightarrow> (engine_exn + unit) \<times> ('b, 'd, 'g, 'a) engine \<Rightarrow> ('b, 'd, 'g, 'a) api
    \<Rightarrow> ('b, 'd, 'g, 'a) handled" where
  "session_reply cfg jl res s =
     (case res of
        (Inr _, e1) \<Rightarrow> respond cfg jl 200 (JObj [(''ok'', JBool True)]) (s\<lparr>ap_engine := e1\<rparr>)
      | (Inl x, e1) \<Rightarrow> (Inl (Threw x), s\<lparr>ap_engine := e1\<rparr>))"

definition sessions_try :: "api_config \<Rightarrow> ('b, 'g, 'a) api_env \<Rightarrow> http_request \<Rightarrow> ('b, 'd, 'g, 'a) api \<Rightarrow> ('b, 'd, 'g, 'a) handled" where
  "sessions_try cfg env r s =
     (if hr_target r = ''/v1/sessions'' \<and> hr_method r = ''POST'' then
        (case create_session (ap_engine s) of
           (i, e1) \<Rightarrow> respond cfg (ae_json env) 200 (JObj [(''id'', JStr i)]) (s\<lparr>ap_engine := e1\<rparr>))
      else if length (hr_target r) \<le> 13 then respond cfg (ae_json env) 405 method_not_allowed s
      else let rest = drop 13 (hr_target r);
               slash = find_from rest ''/'' 0;
               i = (case slash of None \<Rightarrow> rest | Some k \<Rightarrow> substr rest 0 k);
               action = (case slash of None \<Rightarrow> [] | Some k \<Rightarrow> drop (k + 1) rest)
           in if hr_method r = ''DELETE'' \<and> action = [] then session_reply cfg (ae_json env) (delete_session i (ap_engine s)) s
              else if hr_method r = ''POST'' \<and> action = ''save''
              then session_reply cfg (ae_json env) (save_session (ae_engine env) (ae_write_ok env) i (ap_engine s)) s
              else if hr_method r = ''POST'' \<and> action = ''load''
              then session_reply cfg (ae_json env) (load_session (ae_engine env) i (ap_engine s)) s
              else respond cfg (ae_json env) 405 method_not_allowed s)"

definition handle_sessions :: "api_config \<Rightarrow> ('b, 'g, 'a) api_env \<Rightarrow> http_request \<Rightarrow> ('b, 'd, 'g, 'a) api \<Rightarrow> ('b, 'd, 'g, 'a) handled" where
  "handle_sessions cfg env r s =
     (case sessions_try cfg env r s of
        (Inl (Threw (EngineError m)), s1) \<Rightarrow> respond cfg (ae_json env) 404 (error_json m ''invalid_request_error'' ''session_not_found'') s1
      | other \<Rightarrow> other)"

definition metrics_json :: "api_config \<Rightarrow> ('b, 'g, 'a) api_env \<Rightarrow> ('b, 'd, 'g, 'a) api \<Rightarrow> json" where
  "metrics_json cfg env s =
     JObj ([(''server'', JObj [(''total_requests'', JInt (uint (ap_total_requests s))), (''errors'', JInt (uint (ap_errors s))),
              (''active_generations'', JInt (ap_active_generations s))]),
            (''model'', JObj [(''id'', JStr (ap_model_id cfg)), (''context_size'', JInt (context_size (ae_engine env) (ap_engine s))),
              (''vocab_size'', JInt (vocab_size (ae_engine env) (ap_engine s)))])]
           @ (case speculative_metrics (ap_engine s) of
                None \<Rightarrow> []
              | Some m \<Rightarrow> [(''speculative'', JObj [(''acceptance_rate'', JReal (acceptance_rate m)),
                  (''total_draft_tokens'', JInt (int (sm_total_draft_tokens m))), (''total_accepted_tokens'', JInt (int (sm_total_accepted_tokens m))),
                  (''total_rejected_tokens'', JInt (int (sm_total_rejected_tokens m))), (''draft_speed_tps'', JReal (fst (ae_speeds env))),
                  (''target_speed_tps'', JReal (fst (snd (ae_speeds env)))), (''overall_speed_tps'', JReal (snd (snd (ae_speeds env))))])]))"

definition handle_metrics :: "api_config \<Rightarrow> ('b, 'g, 'a) api_env \<Rightarrow> ('b, 'd, 'g, 'a) api \<Rightarrow> ('b, 'd, 'g, 'a) handled" where
  "handle_metrics cfg env s = respond cfg (ae_json env) 200 (metrics_json cfg env s) s"

section \<open>The router\<close>

definition models_json :: "api_config \<Rightarrow> json" where
  "models_json cfg = JObj [(''object'', JStr ''list''),
     (''data'', JArr [JObj [(''id'', JStr (ap_model_id cfg)), (''object'', JStr ''model''), (''owned_by'', JStr ''reame'')]])]"

definition route :: "api_config \<Rightarrow> ('b, 'g, 'a) api_env \<Rightarrow> http_request \<Rightarrow> ('b, 'd, 'g, 'a) api \<Rightarrow> ('b, 'd, 'g, 'a) handled option" where
  "route cfg env r s0 =
     (let s = s0\<lparr>ap_total_requests := ap_total_requests s0 + 1\<rparr>; jl = ae_json env
      in if ap_enable_cors cfg \<and> hr_method r = ''OPTIONS''
         then Some (Inr (), writer_says [Begin 204 (base_headers cfg ''text/plain''), End] s)
         else if hr_target r = ''/health'' then Some (respond cfg jl 200 (JObj [(''status'', JStr ''ok'')]) s)
         else if \<not> authorized cfg r
         then Some (respond cfg jl 401 (error_json ''missing or invalid API key'' ''invalid_request_error'' ''invalid_api_key'') s)
         else if hr_target r = ''/metrics'' then
           (if \<not> ap_enable_metrics cfg then Some (respond cfg jl 404 (error_json ''metrics are disabled'' ''invalid_request_error'' ''not_found'') s)
            else Some (handle_metrics cfg env s))
         else if hr_target r = ''/v1/models'' then
           (if hr_method r \<noteq> ''GET'' then Some (respond cfg jl 405 method_not_allowed s) else Some (respond cfg jl 200 (models_json cfg) s))
         else if hr_target r = ''/v1/completions'' \<or> hr_target r = ''/v1/chat/completions'' then
           (if hr_method r \<noteq> ''POST'' then Some (respond cfg jl 405 method_not_allowed s)
            else handle_generation cfg env r (hr_target r = ''/v1/chat/completions'') s)
         else if hr_target r = ''/v1/warm'' then
           (if hr_method r \<noteq> ''POST'' then Some (respond cfg jl 405 method_not_allowed s) else Some (handle_warm cfg env r s))
         else if hr_target r = ''/v1/sessions'' \<or> take 13 (hr_target r) = ''/v1/sessions/'' then Some (handle_sessions cfg env r s)
         else Some (respond cfg jl 404 (error_json (''unknown endpoint: '' @ hr_target r) ''invalid_request_error'' ''not_found'') s))"

text \<open>\<open>ApiHandler::handle\<close> with the writer of a socket, and with the buffering writer.\<close>

definition api_handle :: "api_config \<Rightarrow> ('b, 'g, 'a) api_env \<Rightarrow> http_request \<Rightarrow> socket_writer \<Rightarrow> ('b, 'd, 'g, 'a) api
    \<Rightarrow> ((spec_fault + socket_writer) \<times> ('b, 'd, 'g, 'a) api) option" where
  "api_handle cfg env r w s =
     map_option (\<lambda>(res, s1). (case res of Inl f \<Rightarrow> Inl f | Inr _ \<Rightarrow> Inr (fold play_socket (ap_calls s1) w), s1\<lparr>ap_calls := []\<rparr>))
       (route cfg env r (s\<lparr>ap_calls := []\<rparr>))"

definition api_handle_buffered :: "api_config \<Rightarrow> ('b, 'g, 'a) api_env \<Rightarrow> http_request \<Rightarrow> ('b, 'd, 'g, 'a) api
    \<Rightarrow> ((spec_fault + http_response) \<times> ('b, 'd, 'g, 'a) api) option" where
  "api_handle_buffered cfg env r s =
     map_option (\<lambda>(res, s1). (case res of Inl f \<Rightarrow> Inl f
         | Inr _ \<Rightarrow> Inr (fold play_buffer (ap_calls s1) \<lparr>hs_status = 200, hs_headers = [], hs_body = []\<rparr>), s1\<lparr>ap_calls := []\<rparr>))
       (route cfg env r (s\<lparr>ap_calls := []\<rparr>))"

definition api_open :: "('b, 'd, 'g, 'a) engine \<Rightarrow> ('b, 'd, 'g, 'a) api" where
  "api_open e = \<lparr>ap_engine = e, ap_active_generations = 0, ap_total_requests = 0, ap_errors = 0, ap_calls = []\<rparr>"

definition api_stats :: "('b, 'd, 'g, 'a) api \<Rightarrow> u64 \<times> u64" where
  "api_stats s = (ap_total_requests s, ap_errors s)"

end
