(* ===== verification/Api_Correct.thy ===== *)
theory Api_Correct
  imports Api_Handler
begin

text \<open>
  What the HTTP interface promises: only holders of the key reach the engine, every handled
  request is answered once (with the exception of a stream that fails half way), the counters
  count, at most the configured number of generations runs at a time; and where the promises
  end: exceptions that escape the handler.
\<close>

section \<open>Authentication\<close>

lemma fold_or_zero: "foldl (\<lambda>d i. d OR f i) d0 xs = (0 :: 'w::len word) \<longleftrightarrow> d0 = 0 \<and> (\<forall>i\<in>set xs. f i = 0)"
  by (induction xs arbitrary: d0) (auto simp: or_eq_0_iff)

lemma xor_zero: "x XOR y = 0 \<longleftrightarrow> x = (y :: 'w::len word)"
  by (metis xor.assoc xor.left_neutral xor.right_neutral xor_self_eq)

lemma byte8_inject: "word_of_byte c = (word_of_byte d :: 8 word) \<longleftrightarrow> c = d"
proof -
  have "unat (of_nat (code c) :: 8 word) = code c" for c using code_less [of c] by (simp add: unat_of_nat take_bit_eq_mod)
  then show ?thesis unfolding word_of_byte_def by (metis code_def of_char_eq_iff)
qed

lemma authorized_iff_key_bare:
  "authorized cfg r \<longleftrightarrow> ap_api_key cfg = [] \<or> header_value (hr_headers r) ''Authorization'' = ''Bearer '' @ ap_api_key cfg"
proof (cases "ap_api_key cfg = []")
  case False
  define expected where "expected = ''Bearer '' @ ap_api_key cfg"
  define got where "got = header_value (hr_headers r) ''Authorization''"
  have start: "(if P then (1 :: 8 word) else 0) = 0 \<longleftrightarrow> \<not> P" for P by simp
  have "authorized cfg r \<longleftrightarrow> length got = length expected \<and> (\<forall>i\<in>set [0..<length got]. got ! i = expected ! (if i < length expected then i else 0))"
    using False unfolding authorized_def Let_def expected_def [symmetric] got_def [symmetric]
    by (simp only: if_False fold_or_zero xor_zero byte8_inject start not_not)
  also have "... \<longleftrightarrow> got = expected" unfolding list_eq_iff_nth_eq by (metis atLeast0LessThan atLeast_upt lessThan_iff)
  finally show ?thesis using False by (simp add: expected_def got_def)
qed (simp add: authorized_def)

text \<open>
  The constant-time comparison is equality.  A request is authorized exactly when no key is
  configured or its \<open>Authorization\<close> header is \<open>Bearer\<close> followed by the key.
\<close>

theorem authorized_iff_key:
  "authorized cfg r \<longleftrightarrow> ap_api_key cfg = [] \<or> header_value (hr_headers r) ''Authorization'' = ''Bearer '' @ ap_api_key cfg"
  by (rule authorized_iff_key_bare)

section \<open>What a handler says\<close>

fun error_begin :: "writer_call \<Rightarrow> bool" where
  "error_begin (Begin status _) = (400 \<le> status)"
| "error_begin _ = False"

text \<open>From one state to another with these calls on the writer: errors are counted, the other counters stay.\<close>

definition says :: "('b, 'd, 'g, 'a) api \<Rightarrow> writer_call list \<Rightarrow> ('b, 'd, 'g, 'a) api \<Rightarrow> bool" where
  "says s cs s' \<longleftrightarrow> ap_calls s' = ap_calls s @ cs \<and> ap_errors s' = ap_errors s + of_nat (length (filter error_begin cs))
     \<and> ap_active_generations s' = ap_active_generations s \<and> ap_total_requests s' = ap_total_requests s"

lemma says_trans: "says s cs s1 \<Longrightarrow> says s1 ds s2 \<Longrightarrow> says s (cs @ ds) s2"
  by (simp add: says_def)

lemma says_engine: "says s [] (s\<lparr>ap_engine := e\<rparr>)"
  by (simp add: says_def)

lemma says_writer: "list_all (\<lambda>c. \<not> error_begin c) cs \<Longrightarrow> says s cs (writer_says cs s)"
  by (simp add: says_def writer_says_def list_all_iff filter_empty_conv)

abbreviation json_begin :: "api_config \<Rightarrow> int \<Rightarrow> writer_call" where
  "json_begin cfg status \<equiv> Begin status (base_headers cfg ''application/json'')"

lemma respond_cases:
  assumes "respond cfg jl status body s = (res, s')"
  obtains (answered) t where "jl_dump jl body = Inr t" "res = Inr ()" "says s [json_begin cfg status, Chunk t, End] s'" "ap_engine s' = ap_engine s"
  | (dump_threw) m where "jl_dump jl body = Inl m" "res = Inl (Threw (CallbackExn m))" "says s [json_begin cfg status] s'" "ap_engine s' = ap_engine s"
proof (cases "jl_dump jl body")
  case (Inl m)
  then show ?thesis using assms by (intro dump_threw) (auto simp: respond_def Let_def says_def writer_says_def)
next
  case (Inr t)
  then show ?thesis using assms by (intro answered) (auto simp: respond_def Let_def says_def writer_says_def)
qed

text \<open>The sequences of calls a handler that returns may make.\<close>

definition stream_headers :: "api_config \<Rightarrow> header_map" where
  "stream_headers cfg = map_put ci_less ''Cache-Control'' ''no-cache'' (base_headers cfg ''text/event-stream'')"

inductive plain_calls :: "api_config \<Rightarrow> writer_call list \<Rightarrow> bool" for cfg where
  preflight: "plain_calls cfg [Begin 204 (base_headers cfg ''text/plain''), End]"
| answer: "plain_calls cfg [json_begin cfg status, Chunk t, End]"
| answer_anew: "plain_calls cfg [json_begin cfg status, json_begin cfg status', Chunk t, End]"

text \<open>An event of a stream: the JSON form of one piece of text.\<close>

definition stream_event :: "api_config \<Rightarrow> ('b, 'g, 'a) api_env \<Rightarrow> bool \<Rightarrow> bytes \<Rightarrow> bool" where
  "stream_event cfg env chat ev \<longleftrightarrow> (\<exists>piece d. jl_dump (ae_json env) (sse_json cfg chat piece) = Inr d \<and> ev = sse_line d)"

inductive stream_calls :: "api_config \<Rightarrow> ('b, 'g, 'a) api_env \<Rightarrow> bool \<Rightarrow> writer_call list \<Rightarrow> bool" for cfg env chat where
  streamed: "list_all (stream_event cfg env chat) ds \<Longrightarrow>
    stream_calls cfg env chat (Begin 200 (stream_headers cfg) # map Chunk (ds @ [sse_line ''[DONE]'']) @ [End])"
| stream_failed: "list_all (stream_event cfg env chat) ds \<Longrightarrow>
    stream_calls cfg env chat (Begin 200 (stream_headers cfg) # map Chunk ds @ [json_begin cfg 500, Chunk t, End])"

text \<open>A generation request whose body asks for a stream.\<close>

definition asks_stream :: "('b, 'g, 'a) api_env \<Rightarrow> http_request \<Rightarrow> bool" where
  "asks_stream env r \<longleftrightarrow> hr_method r = ''POST'' \<and> (hr_target r = ''/v1/completions'' \<or> hr_target r = ''/v1/chat/completions'')
     \<and> (\<exists>body. jl_parse (ae_json env) (hr_body r) = Some body \<and> jl_value_bool (ae_json env) body ''stream'' False = Inr True)"

lemma respond_reply:
  "respond cfg jl status body s = (Inr (), s') \<Longrightarrow> \<exists>cs. says s cs s' \<and> plain_calls cfg cs"
  by (erule respond_cases) (auto intro: answer)

lemma catch_says:
  assumes "catch_generation cfg env (res0, s1) = (Inr (), s')"
  shows "(res0 = Inr () \<and> s' = s1) \<or> (\<exists>t f. res0 = Inl f \<and> says s1 [json_begin cfg 500, Chunk t, End] s' \<and> ap_engine s' = ap_engine s1)"
proof (cases res0)
  case (Inl f)
  then obtain j where "respond cfg (ae_json env) 500 j s1 = (Inr (), s')"
    using assms by (auto simp: catch_generation_def split: spec_fault.splits engine_exn.splits)
  then show ?thesis using Inl by (elim respond_cases) auto
qed (use assms in \<open>simp add: catch_generation_def\<close>)

lemma stream_reply_says:
  assumes "generate_stream_reply cfg env chat prompt gen s = Some (res, s')"
  shows "\<exists>ds. list_all (stream_event cfg env chat) ds
    \<and> says s (Begin 200 (stream_headers cfg) # map Chunk ds @ (if res = Inr () then [Chunk (sse_line ''[DONE]''), End] else [])) s'"
proof -
  let ?line = "\<lambda>p. jl_dump (ae_json env) (sse_json cfg chat p)"
  obtain r calls e1 where run: "run_generation env prompt gen (\<lambda>p. case ?line p of Inl m \<Rightarrow> Inl (CallbackExn m) | Inr _ \<Rightarrow> Inr ())
      (ap_engine (writer_says [Begin 200 (stream_headers cfg)] s)) = Some (r, calls, e1)"
    using assms unfolding generate_stream_reply_def stream_headers_def [symmetric] Let_def by (auto split: option.splits)
  have chunks: "concat (map (\<lambda>p. case ?line p of Inl _ \<Rightarrow> [] | Inr d \<Rightarrow> [Chunk (sse_line d)]) calls) =
      map Chunk (concat (map (\<lambda>p. case ?line p of Inl _ \<Rightarrow> [] | Inr d \<Rightarrow> [sse_line d]) calls))"
    by (induction calls) (auto split: sum.splits)
  have "filter error_begin (map Chunk ds) = []" for ds by (induction ds) auto
  then have quiet: "list_all (\<lambda>c. \<not> error_begin c) (Begin 200 h # map Chunk ds @ cs)" if "list_all (\<lambda>c. \<not> error_begin c) cs" for h ds cs
    using that by (auto simp: list_all_iff)
  define ds where "ds = concat (map (\<lambda>p. case ?line p of Inl _ \<Rightarrow> [] | Inr d \<Rightarrow> [sse_line d]) calls)"
  have events: "list_all (stream_event cfg env chat) ds"
    unfolding ds_def by (induction calls) (auto simp: stream_event_def split: sum.splits)
  show ?thesis
  proof (cases r)
    case (Inl f)
    then have "res = Inl f" "s' = writer_says (map Chunk ds) ((writer_says [Begin 200 (stream_headers cfg)] s)\<lparr>ap_engine := e1\<rparr>)"
      using assms run unfolding generate_stream_reply_def stream_headers_def [symmetric] Let_def ds_def by (simp_all add: chunks)
    then show ?thesis using events quiet [of "[]"] by (intro exI [of _ ds]) (simp add: says_def writer_says_def list_all_iff filter_empty_conv)
  next
    case (Inr v)
    then have "res = Inr ()" "s' = writer_says [Chunk (sse_line ''[DONE]''), End]
        (writer_says (map Chunk ds) ((writer_says [Begin 200 (stream_headers cfg)] s)\<lparr>ap_engine := e1\<rparr>))"
      using assms run unfolding generate_stream_reply_def stream_headers_def [symmetric] Let_def ds_def by (simp_all add: chunks)
    then show ?thesis using events quiet [of "[]"]
      by (intro exI [of _ ds]) (simp add: says_def writer_says_def list_all_iff filter_empty_conv)
  qed
qed

lemma says_after_engine: "says (s\<lparr>ap_engine := e\<rparr>) cs s' \<Longrightarrow> says s cs s'"
  by (simp add: says_def)

lemma generate_with_slot_says:
  assumes "generate_with_slot cfg env chat body prompt s = Some (Inr (), s')"
  shows "\<exists>cs. says s cs s' \<and> (plain_calls cfg cs \<or> jl_value_bool (ae_json env) body ''stream'' False = Inr True \<and> stream_calls cfg env chat cs)"
proof -
  obtain gen stream res0 s1 where run: "(if stream then generate_stream_reply cfg env chat prompt gen s else generate_reply cfg env chat prompt gen s) = Some (res0, s1)"
    and catch: "catch_generation cfg env (res0, s1) = (Inr (), s')" and asked: "jl_value_bool (ae_json env) body ''stream'' False = Inr stream"
    using assms by (auto simp: generate_with_slot_def split: sum.splits)
  show ?thesis
  proof (cases stream)
    case True
    then have "generate_stream_reply cfg env chat prompt gen s = Some (res0, s1)" using run by simp
    from stream_reply_says [OF this] obtain ds where ev: "list_all (stream_event cfg env chat) ds"
      and ds: "says s (Begin 200 (stream_headers cfg) # map Chunk ds @ (if res0 = Inr () then [Chunk (sse_line ''[DONE]''), End] else [])) s1"
      by blast
    from catch_says [OF catch] show ?thesis
    proof (elim disjE exE conjE)
      assume "res0 = Inr ()" "s' = s1"
      then show ?thesis using ds streamed [OF ev] asked True by (intro exI conjI disjI2) (assumption | simp)+
    next
      fix t f assume "res0 = Inl f" "says s1 [json_begin cfg 500, Chunk t, End] s'"
      with says_trans [OF ds this(2)] stream_failed [OF ev, of t] asked True show ?thesis by auto
    qed
  next
    case False
    then consider (failed) f e1 where "res0 = Inl f" "s1 = s\<lparr>ap_engine := e1\<rparr>"
      | (replied) out e1 where "respond cfg (ae_json env) 200 (completion_json cfg chat out) (s\<lparr>ap_engine := e1\<rparr>) = (res0, s1)"
      using run by (auto simp: generate_reply_def split: option.splits sum.splits)
    then have shape: "(res0 = Inr () \<and> (\<exists>t. says s [json_begin cfg 200, Chunk t, End] s1)) \<or> (\<exists>f. res0 = Inl f \<and> (says s [] s1 \<or> says s [json_begin cfg 200] s1))"
    proof cases
      case failed
      then show ?thesis using says_engine [of s e1] by simp
    next
      case replied
      then show ?thesis using says_after_engine by (cases rule: respond_cases) blast+
    qed
    from catch_says [OF catch] have "\<exists>cs. says s cs s' \<and> plain_calls cfg cs"
    proof (elim disjE exE conjE)
      assume "res0 = Inr ()" "s' = s1"
      then show ?thesis using shape answer by fastforce
    next
      fix t f assume threw: "res0 = Inl f" "says s1 [json_begin cfg 500, Chunk t, End] s'"
      then show ?thesis using shape says_trans [OF _ threw(2)] answer [of cfg 500 t] answer_anew [of cfg 200 500 t] by force
    qed
    then show ?thesis by blast
  qed
qed

lemma says_slot:
  "says (s\<lparr>ap_active_generations := n\<rparr>) cs s1 \<Longrightarrow> says s cs (s1\<lparr>ap_active_generations := ap_active_generations s\<rparr>)"
  by (simp add: says_def)

lemma handle_generation_says:
  assumes "handle_generation cfg env r chat s = Some (Inr (), s')"
  shows "\<exists>cs. says s cs s' \<and> (plain_calls cfg cs
    \<or> (\<exists>body. jl_parse (ae_json env) (hr_body r) = Some body \<and> jl_value_bool (ae_json env) body ''stream'' False = Inr True) \<and> stream_calls cfg env chat cs)"
proof -
  have reply: ?thesis if "respond cfg (ae_json env) status j s = (Inr (), s')" for status j using respond_reply [OF that] by blast
  consider (respond) status j where "respond cfg (ae_json env) status j s = (Inr (), s')"
    | (slot) body prompt s1 where "generate_with_slot cfg env chat body prompt (s\<lparr>ap_active_generations := ap_active_generations s + 1\<rparr>) = Some (Inr (), s1)"
        "s' = s1\<lparr>ap_active_generations := ap_active_generations s1 - 1\<rparr>" "jl_parse (ae_json env) (hr_body r) = Some body"
    using assms by (auto simp: handle_generation_def split: option.splits prompt_result.splits if_splits)
  then show ?thesis
  proof cases
    case slot
    from generate_with_slot_says [OF slot(1)] obtain cs where cs: "says (s\<lparr>ap_active_generations := ap_active_generations s + 1\<rparr>) cs s1"
      "plain_calls cfg cs \<or> jl_value_bool (ae_json env) body ''stream'' False = Inr True \<and> stream_calls cfg env chat cs" by blast
    then have "ap_active_generations s1 - 1 = ap_active_generations s" by (simp add: says_def)
    then show ?thesis using says_slot [OF cs(1)] cs(2) slot(2,3) by auto
  qed (rule reply)
qed

lemma handle_warm_says:
  assumes "handle_warm cfg env r s = (Inr (), s')"
  shows "\<exists>cs. says s cs s' \<and> plain_calls cfg cs"
proof -
  have again: "\<exists>cs. says s cs s' \<and> plain_calls cfg cs"
    if "says s [] s1 \<or> (\<exists>st. says s [json_begin cfg st] s1)" "respond cfg (ae_json env) status j s1 = (Inr (), s')" for s1 status j
    using that(2)
  proof (cases rule: respond_cases)
    case (answered t)
    then show ?thesis using that(1) says_trans [OF _ answered(3)] answer [of cfg status t] answer_anew [of cfg _ status t] by force
  qed simp
  have start: "says s [] s" by (simp add: says_def)
  show ?thesis
  proof (cases "\<exists>body prompt. jl_parse (ae_json env) (hr_body r) = Some body \<and> json_field body ''prompt'' = Some (JStr prompt)")
    case False
    then obtain j where "respond cfg (ae_json env) 400 j s = (Inr (), s')"
      using assms by (auto simp: handle_warm_def split: option.splits json.splits)
    then show ?thesis using again [of s] start by blast
  next
    case True
    then obtain body prompt where bp: "jl_parse (ae_json env) (hr_body r) = Some body" "json_field body ''prompt'' = Some (JStr prompt)" by blast
    obtain w e1 where warm: "engine_warm (ae_engine env) prompt (ap_engine s) = (w, e1)" by fastforce
    define h where "h = (case w of Inl x \<Rightarrow> (Inl (Threw x), s\<lparr>ap_engine := e1\<rparr>)
      | Inr tokens \<Rightarrow> respond cfg (ae_json env) 200 (JObj [(''warmed'', JBool True), (''tokens'', JInt tokens)]) (s\<lparr>ap_engine := e1\<rparr>))"
    obtain res1 s1 where h: "h = (res1, s1)" by fastforce
    have shape: "(\<exists>f. res1 = Inl f \<and> (says s [] s1 \<or> (\<exists>st. says s [json_begin cfg st] s1)))
        \<or> (res1 = Inr () \<and> (\<exists>cs. says s cs s1 \<and> plain_calls cfg cs))"
    proof (cases w)
      case (Inl x)
      then show ?thesis using h says_engine [of s e1] by (auto simp: h_def)
    next
      case (Inr tokens)
      then have "respond cfg (ae_json env) 200 (JObj [(''warmed'', JBool True), (''tokens'', JInt tokens)]) (s\<lparr>ap_engine := e1\<rparr>) = (res1, s1)"
        using h by (simp add: h_def)
      then show ?thesis using says_after_engine answer by (cases rule: respond_cases) blast+
    qed
    have run: "(case h of (Inr u, s1) \<Rightarrow> (Inr u, s1) | (Inl (Undefined ub), s1) \<Rightarrow> (Inl (Undefined ub), s1)
        | (Inl (Threw (EngineError m)), s1) \<Rightarrow> respond cfg (ae_json env) 400 (error_json m ''invalid_request_error'' ''warm_failed'') s1
        | (Inl f, s1) \<Rightarrow> respond cfg (ae_json env) 500 (error_json (fault_text env f) ''server_error'' ''internal'') s1) = (Inr (), s')"
      using assms bp warm unfolding handle_warm_def h_def by (cases w) simp_all
    show ?thesis
    proof (cases res1)
      case (Inl f)
      then obtain st j where "respond cfg (ae_json env) st j s1 = (Inr (), s')"
        using run h by (auto split: spec_fault.splits engine_exn.splits)
      then show ?thesis using again shape Inl by auto
    next
      case (Inr u)
      then show ?thesis using run h shape by simp
    qed
  qed
qed

lemma session_reply_says:
  assumes "session_reply cfg jl res s = (out, s')"
  shows "(\<exists>f. out = Inl f \<and> (says s [] s' \<or> says s [json_begin cfg 200] s')) \<or> (out = Inr () \<and> (\<exists>t. says s [json_begin cfg 200, Chunk t, End] s'))"
proof (cases "fst res")
  case (Inl x)
  then show ?thesis using assms says_engine by (cases res) (auto simp: session_reply_def)
next
  case (Inr u)
  then have "respond cfg jl 200 (JObj [(''ok'', JBool True)]) (s\<lparr>ap_engine := snd res\<rparr>) = (out, s')"
    using assms by (cases res) (simp add: session_reply_def)
  then show ?thesis using says_after_engine by (cases rule: respond_cases) blast+
qed

lemma sessions_try_says:
  assumes "sessions_try cfg env r s = (out, s')"
  shows "(\<exists>f. out = Inl f \<and> (says s [] s' \<or> (\<exists>st. says s [json_begin cfg st] s'))) \<or> (out = Inr () \<and> (\<exists>st t. says s [json_begin cfg st, Chunk t, End] s'))"
proof -
  have said: ?thesis if "respond cfg (ae_json env) status j (s\<lparr>ap_engine := e\<rparr>) = (out, s')" for status j e
    using that says_after_engine by (cases rule: respond_cases) blast+
  have here: ?thesis if "respond cfg (ae_json env) status j s = (out, s')" for status j
    using said [of status j "ap_engine s"] that by simp
  have sess: ?thesis if "session_reply cfg (ae_json env) res s = (out, s')" for res
    using session_reply_says [OF that] by blast
  show ?thesis
    using assms here said sess unfolding sessions_try_def Let_def
    by (simp split: if_splits prod.splits)
qed

lemma handle_sessions_says:
  assumes "handle_sessions cfg env r s = (Inr (), s')"
  shows "\<exists>cs. says s cs s' \<and> plain_calls cfg cs"
proof -
  obtain out s1 where attempt: "sessions_try cfg env r s = (out, s1)" by fastforce
  show ?thesis
  proof (cases "\<exists>m. out = Inl (Threw (EngineError m))")
    case True
    then obtain m where "respond cfg (ae_json env) 404 (error_json m ''invalid_request_error'' ''session_not_found'') s1 = (Inr (), s')"
      using assms attempt by (auto simp: handle_sessions_def)
    then show ?thesis
    proof (cases rule: respond_cases)
      case (answered t)
      then show ?thesis using sessions_try_says [OF attempt] True says_trans [OF _ answered(3)] answer [of cfg 404 t] answer_anew [of cfg _ 404 t] by force
    qed simp
  next
    case False
    then have "handle_sessions cfg env r s = (out, s1)"
      using attempt by (auto simp: handle_sessions_def split: sum.splits spec_fault.splits engine_exn.splits)
    then show ?thesis using assms sessions_try_says [OF attempt] answer by fastforce
  qed
qed

lemma route_says:
  assumes "route cfg env r s = Some (Inr (), s')"
  shows "\<exists>cs. says (s\<lparr>ap_total_requests := ap_total_requests s + 1\<rparr>) cs s'
    \<and> (plain_calls cfg cs \<or> asks_stream env r \<and> stream_calls cfg env (hr_target r = ''/v1/chat/completions'') cs)"
proof -
  let ?s = "s\<lparr>ap_total_requests := ap_total_requests s + 1\<rparr>" and ?chat = "hr_target r = ''/v1/chat/completions''"
  have pre: "says ?s [Begin 204 (base_headers cfg ''text/plain''), End] (writer_says [Begin 204 (base_headers cfg ''text/plain''), End] ?s)"
    by (rule says_writer) simp
  consider (plain) "\<exists>cs. says ?s cs s' \<and> plain_calls cfg cs"
    | (generation) "hr_method r = ''POST''" "hr_target r = ''/v1/completions'' \<or> ?chat" "handle_generation cfg env r ?chat ?s = Some (Inr (), s')"
    using assms pre preflight [of cfg] respond_reply [of cfg "ae_json env" _ _ ?s s']
      handle_warm_says [of cfg env r ?s s'] handle_sessions_says [of cfg env r ?s s']
    unfolding route_def Let_def handle_metrics_def
    by (simp split: if_splits) blast+
  then show ?thesis
  proof cases
    case generation
    from handle_generation_says [OF generation(3)] generation(1,2) show ?thesis unfolding asks_stream_def by blast
  qed blast
qed

section \<open>What is sent\<close>

lemma content_type_put:
  assumes "map_wf ci_less h" "map tolower k \<noteq> ''content-type''"
  shows "header_value (map_put ci_less k v h) ''Content-Type'' = header_value h ''Content-Type''"
proof -
  have "map tolower ''Content-Type'' = ''content-type''" by code_simp
  with assms show ?thesis by (simp only: header_value_def header_put_find) simp
qed

lemma base_headers_type: "header_value (base_headers cfg ct) ''Content-Type'' = ct" "map_wf ci_less (base_headers cfg ct)"
proof -
  let ?h = "map_put ci_less ''Content-Type'' ct []"
  have wf: "map_wf ci_less ?h" by (rule header.wf_put) simp
  have t: "header_value ?h ''Content-Type'' = ct" by (simp add: header_value_def ci_less_fold_case)
  have names: "map tolower ''Access-Control-Allow-Origin'' \<noteq> ''content-type''" "map tolower ''Access-Control-Allow-Methods'' \<noteq> ''content-type''"
    "map tolower ''Access-Control-Allow-Headers'' \<noteq> ''content-type''" by code_simp+
  show "header_value (base_headers cfg ct) ''Content-Type'' = ct"
    unfolding base_headers_def Let_def by (simp only: content_type_put [OF header.wf_put [OF header.wf_put [OF wf]] names(3)]
        content_type_put [OF header.wf_put [OF wf] names(2)] content_type_put [OF wf names(1)] t split: if_splits) simp
  show "map_wf ci_less (base_headers cfg ct)"
    unfolding base_headers_def Let_def by (cases "ap_enable_cors cfg") (simp_all only: if_True if_False wf header.wf_put)
qed

lemma stream_headers_type: "header_value (stream_headers cfg) ''Content-Type'' = ''text/event-stream''"
proof -
  have name: "map tolower ''Cache-Control'' \<noteq> ''content-type''" by code_simp
  show ?thesis unfolding stream_headers_def by (simp only: content_type_put [OF base_headers_type(2) name] base_headers_type(1))
qed

definition stream_head :: "api_config \<Rightarrow> bytes" where
  "stream_head cfg = ''HTTP/1.1 200 OK'' @ CRLF
     @ (if ap_enable_cors cfg
        then ''Access-Control-Allow-Headers: Content-Type, Authorization'' @ CRLF
             @ ''Access-Control-Allow-Methods: GET, POST, DELETE, OPTIONS'' @ CRLF @ ''Access-Control-Allow-Origin: *'' @ CRLF else [])
     @ ''Cache-Control: no-cache'' @ CRLF @ ''Connection: close'' @ CRLF @ ''Content-Type: text/event-stream'' @ CRLF @ CRLF"

lemma stream_head_erased:
  "erase_first (''Content-Length: 0'' @ CRLF)
     (serialize_http_response \<lparr>hs_status = 200, hs_headers = map_put ci_less ''Connection'' ''close'' (stream_headers cfg), hs_body = []\<rparr>) = stream_head cfg"
proof -
  have num: "show_int 200 = ''200''" "show_nat 0 = ''0''" by code_simp+
  have on: "map_put ci_less ''Connection'' ''close'' (stream_headers cfg) =
      (if ap_enable_cors cfg then [(''Access-Control-Allow-Headers'', ''Content-Type, Authorization''),
        (''Access-Control-Allow-Methods'', ''GET, POST, DELETE, OPTIONS''), (''Access-Control-Allow-Origin'', ''*'')] else [])
      @ [(''Cache-Control'', ''no-cache''), (''Connection'', ''close''), (''Content-Type'', ''text/event-stream'')]"
  proof (cases "ap_enable_cors cfg")
    case True
    have "map_put ci_less ''Connection'' ''close'' (map_put ci_less ''Cache-Control'' ''no-cache''
        (map_put ci_less ''Access-Control-Allow-Headers'' ''Content-Type, Authorization''
          (map_put ci_less ''Access-Control-Allow-Methods'' ''GET, POST, DELETE, OPTIONS''
            (map_put ci_less ''Access-Control-Allow-Origin'' ''*'' (map_put ci_less ''Content-Type'' ''text/event-stream'' [])))))
      = [(''Access-Control-Allow-Headers'', ''Content-Type, Authorization''), (''Access-Control-Allow-Methods'', ''GET, POST, DELETE, OPTIONS''),
         (''Access-Control-Allow-Origin'', ''*''), (''Cache-Control'', ''no-cache''), (''Connection'', ''close''), (''Content-Type'', ''text/event-stream'')]"
      by code_simp
    with True show ?thesis by (simp only: stream_headers_def base_headers_def Let_def if_True) simp
  next
    case False
    have "map_put ci_less ''Connection'' ''close'' (map_put ci_less ''Cache-Control'' ''no-cache'' (map_put ci_less ''Content-Type'' ''text/event-stream'' []))
      = [(''Cache-Control'', ''no-cache''), (''Connection'', ''close''), (''Content-Type'', ''text/event-stream'')]"
      by code_simp
    with False show ?thesis by (simp only: stream_headers_def base_headers_def Let_def if_False) simp
  qed
  have none: "map_find ci_less ''Content-Length'' ((if b then [(''Access-Control-Allow-Headers'', ''Content-Type, Authorization''),
        (''Access-Control-Allow-Methods'', ''GET, POST, DELETE, OPTIONS''), (''Access-Control-Allow-Origin'', ''*'')] else [])
      @ [(''Cache-Control'', ''no-cache''), (''Connection'', ''close''), (''Content-Type'', ''text/event-stream'')]) = None" for b
    by (cases b) (simp only: if_True, code_simp, simp only: if_False, code_simp)
  show ?thesis
    unfolding serialize_http_response_def http_response.simps on none num status_reason_def stream_head_def
    by (cases "ap_enable_cors cfg") (simp_all add: header_field_def erase_first_def find_from_def num)
qed

lemma play_chunks:
  "fold play_socket (map Chunk ds) w = foldl (\<lambda>w c. writer_chunk c w) w ds"
  by (induction ds arbitrary: w) simp_all

lemma sent_stream:
  "sw_sent (fold play_socket (Begin 200 (stream_headers cfg) # map Chunk ds @ [End]) writer_init) = stream_head cfg @ concat ds"
  using written_stream [OF stream_headers_type, of 200 cfg ds, unfolded stream_head_erased] by (simp add: written_def play_chunks)

lemma stream_started:
  "\<exists>w. fold play_socket (Begin 200 (stream_headers cfg) # map Chunk ds) writer_init = w \<and> sw_streaming w
     \<and> sw_sent w = stream_head cfg @ concat ds \<and> hs_body (sw_response w) = []"
proof -
  have run: "foldl (\<lambda>w c. writer_chunk c w) w ds = w\<lparr>sw_sent := sw_sent w @ concat ds\<rparr>" if "sw_streaming w" for w
    using that by (induction ds arbitrary: w) (simp_all add: writer_chunk_def socket_write_def)
  have start: "sw_streaming (writer_begin 200 (stream_headers cfg) writer_init)"
    "sw_sent (writer_begin 200 (stream_headers cfg) writer_init) = stream_head cfg"
    "hs_body (sw_response (writer_begin 200 (stream_headers cfg) writer_init)) = []"
    unfolding writer_begin_def stream_headers_type Let_def by (simp_all add: writer_init_def socket_write_def stream_head_erased [symmetric])
  show ?thesis using run [OF start(1)] start by (simp add: play_chunks)
qed

lemma json_type: "header_value (base_headers cfg ''application/json'') ''Content-Type'' \<noteq> ''text/event-stream''"
  "header_value (base_headers cfg ''text/plain'') ''Content-Type'' \<noteq> ''text/event-stream''"
  by (simp_all add: base_headers_type)

lemma writer_begin_plain:
  "header_value h ''Content-Type'' \<noteq> ''text/event-stream'' \<Longrightarrow> writer_begin status h w =
     w\<lparr>sw_response := (sw_response w)\<lparr>hs_status := status, hs_headers := h\<rparr>, sw_streaming := False\<rparr>"
  by (simp add: writer_begin_def Let_def)

lemma sent_stream_failed:
  "sw_sent (fold play_socket (Begin 200 (stream_headers cfg) # map Chunk ds @ [json_begin cfg status, Chunk t, End]) writer_init) =
     stream_head cfg @ concat ds
     @ serialize_http_response \<lparr>hs_status = status, hs_headers = base_headers cfg ''application/json'', hs_body = t\<rparr>"
proof -
  obtain w where w: "fold play_socket (Begin 200 (stream_headers cfg) # map Chunk ds) writer_init = w" "sw_streaming w"
    "sw_sent w = stream_head cfg @ concat ds" "hs_body (sw_response w) = []" using stream_started by blast
  have cs: "Begin 200 (stream_headers cfg) # map Chunk ds @ [json_begin cfg status, Chunk t, End]
      = (Begin 200 (stream_headers cfg) # map Chunk ds) @ [json_begin cfg status, Chunk t, End]" by simp
  show ?thesis unfolding cs fold_append comp_apply w(1)
    using w(3,4) json_type by (cases w; cases "sw_response w") (simp add: writer_begin_plain writer_chunk_def writer_end_def socket_write_def)
qed

text \<open>What the sequences of handler calls put on the wire.\<close>

lemma plain_sent:
  assumes "plain_calls cfg cs"
  shows "\<exists>status ct body. sw_sent (fold play_socket cs writer_init) =
    serialize_http_response \<lparr>hs_status = status, hs_headers = base_headers cfg ct, hs_body = body\<rparr>"
  using assms
  by cases (use json_type in \<open>simp_all add: writer_begin_plain writer_chunk_def writer_end_def socket_write_def writer_init_def, blast+\<close>)

lemma stream_sent:
  assumes "stream_calls cfg env chat cs"
  shows "\<exists>events. list_all (stream_event cfg env chat) events
    \<and> (sw_sent (fold play_socket cs writer_init) = stream_head cfg @ concat events @ sse_line ''[DONE]''
     \<or> (\<exists>body. sw_sent (fold play_socket cs writer_init) = stream_head cfg @ concat events
          @ serialize_http_response \<lparr>hs_status = 500, hs_headers = base_headers cfg ''application/json'', hs_body = body\<rparr>))"
  using assms
proof cases
  case (streamed ds)
  then show ?thesis using sent_stream [of cfg "ds @ [sse_line ''[DONE]'']"] by (intro exI [of _ ds]) simp
next
  case (stream_failed ds t)
  then show ?thesis using sent_stream_failed [of cfg ds 500 t] by blast
qed

text \<open>
  C17: what a handled request gets.  When the router returns for a request that does not ask for a
  stream, the connection has carried exactly one complete HTTP response and nothing else.  For a
  generation that asks for a stream it has carried one complete response (the request was turned
  down); or the head of an event stream, one event per piece of text, and the final \<open>[DONE]\<close>; or,
  when the generation failed after its stream began, the head, events, and then a whole
  second response with status 500 in place of \<open>[DONE]\<close>.  In every case the request counter went
  up by one, the error counter by the number of error responses begun, and the gate on generations
  is as it was.
\<close>

theorem api_answers_once:
  assumes "route cfg env r s = Some (Inr (), s')" "ap_calls s = []" "sent = sw_sent (fold play_socket (ap_calls s') writer_init)"
  shows "((\<exists>status ct body. sent = serialize_http_response \<lparr>hs_status = status, hs_headers = base_headers cfg ct, hs_body = body\<rparr>)
      \<or> asks_stream env r \<and> (\<exists>events. list_all (stream_event cfg env (hr_target r = ''/v1/chat/completions'')) events
          \<and> (sent = stream_head cfg @ concat events @ sse_line ''[DONE]''
           \<or> (\<exists>body. sent = stream_head cfg @ concat events
                @ serialize_http_response \<lparr>hs_status = 500, hs_headers = base_headers cfg ''application/json'', hs_body = body\<rparr>))))
    \<and> ap_total_requests s' = ap_total_requests s + 1
    \<and> ap_errors s' = ap_errors s + of_nat (length (filter error_begin (ap_calls s')))
    \<and> ap_active_generations s' = ap_active_generations s"
proof -
  obtain cs where cs: "says (s\<lparr>ap_total_requests := ap_total_requests s + 1\<rparr>) cs s'"
    and shape: "plain_calls cfg cs \<or> asks_stream env r \<and> stream_calls cfg env (hr_target r = ''/v1/chat/completions'') cs"
    using route_says [OF assms(1)] by blast
  have "ap_calls s' = cs" using cs assms(2) by (simp add: says_def)
  then have sent: "sent = sw_sent (fold play_socket cs writer_init)" using assms(3) by simp
  have counts: "ap_total_requests s' = ap_total_requests s + 1 \<and> ap_errors s' = ap_errors s + of_nat (length (filter error_begin (ap_calls s')))
      \<and> ap_active_generations s' = ap_active_generations s" using cs assms(2) by (simp add: says_def)
  from shape show ?thesis
  proof
    assume "plain_calls cfg cs"
    from plain_sent [OF this, folded sent] counts show ?thesis by blast
  next
    assume st: "asks_stream env r \<and> stream_calls cfg env (hr_target r = ''/v1/chat/completions'') cs"
    from stream_sent [OF conjunct2 [OF st], folded sent] st counts show ?thesis by blast
  qed
qed

section \<open>Only with the key\<close>

lemma respond_effect:
  "ap_engine (snd (respond cfg jl status body s)) = ap_engine s"
  "\<exists>rest. ap_calls (snd (respond cfg jl status body s)) = ap_calls s @ json_begin cfg status # rest"
  by (auto simp: respond_def Let_def writer_says_def split: sum.splits)

text \<open>
  C9: without the key the engine is out of reach.  A request that is not authorized never
  changes the engine and runs nothing; it is answered 204 (a CORS preflight), 200 (the health
  check) or 401.
\<close>

theorem api_requires_key:
  assumes "\<not> authorized cfg r"
  shows "\<exists>res s' headers rest. route cfg env r s = Some (res, s') \<and> ap_engine s' = ap_engine s
    \<and> ap_calls s' = ap_calls s @ Begin (if ap_enable_cors cfg \<and> hr_method r = ''OPTIONS'' then 204
        else if hr_target r = ''/health'' then 200 else 401) headers # rest"
proof -
  let ?s = "s\<lparr>ap_total_requests := ap_total_requests s + 1\<rparr>"
  consider (options) "ap_enable_cors cfg \<and> hr_method r = ''OPTIONS''"
    | (health) "\<not> (ap_enable_cors cfg \<and> hr_method r = ''OPTIONS'')" "hr_target r = ''/health''"
    | (refused) "\<not> (ap_enable_cors cfg \<and> hr_method r = ''OPTIONS'')" "hr_target r \<noteq> ''/health''" by blast
  then show ?thesis
  proof cases
    case options
    then show ?thesis by (auto simp: route_def Let_def writer_says_def)
  next
    case health
    then have "route cfg env r s = Some (respond cfg (ae_json env) 200 (JObj [(''status'', JStr ''ok'')]) ?s)"
      by (auto simp: route_def Let_def)
    then show ?thesis using health respond_effect [of cfg "ae_json env" 200 "JObj [(''status'', JStr ''ok'')]" ?s]
      by (cases "respond cfg (ae_json env) 200 (JObj [(''status'', JStr ''ok'')]) ?s") auto
  next
    case refused
    let ?j = "error_json ''missing or invalid API key'' ''invalid_request_error'' ''invalid_api_key''"
    have "route cfg env r s = Some (respond cfg (ae_json env) 401 ?j ?s)"
      using refused assms by (auto simp: route_def Let_def)
    then show ?thesis using refused respond_effect [of cfg "ae_json env" 401 ?j ?s]
      by (cases "respond cfg (ae_json env) 401 ?j ?s") auto
  qed
qed

section \<open>Generation requests\<close>

lemma route_generation:
  assumes "hr_method r = ''POST''" "hr_target r = ''/v1/completions'' \<or> hr_target r = ''/v1/chat/completions''" "authorized cfg r"
  shows "route cfg env r s = handle_generation cfg env r (hr_target r = ''/v1/chat/completions'') (s\<lparr>ap_total_requests := ap_total_requests s + 1\<rparr>)"
  using assms by (auto simp: route_def Let_def)

lemma handle_generation_slot:
  assumes "jl_parse (ae_json env) (hr_body r) = Some body" "request_prompt env chat body (ap_engine s) = Prompt prompt"
    and "ap_active_generations s < ap_max_concurrent_requests cfg"
  shows "handle_generation cfg env r chat s = map_option (\<lambda>(res, s1). (res, s1\<lparr>ap_active_generations := ap_active_generations s1 - 1\<rparr>))
    (generate_with_slot cfg env chat body prompt (s\<lparr>ap_active_generations := ap_active_generations s + 1\<rparr>))"
  using assms by (simp add: handle_generation_def)

text \<open>
  C38: a value of the wrong type takes the server down.  If a completion request is valid JSON with
  a prompt but one of the parameters (say \<open>max_tokens\<close>) makes the typed look-up throw, the
  exception leaves the handler outside its \<open>try\<close> block: nothing was answered, and the thread of
  the connection, which has no handler either, ends the process.
\<close>

theorem parameter_type_escapes:
  assumes "hr_method r = ''POST''" "hr_target r = ''/v1/completions''" "authorized cfg r"
    and "jl_parse (ae_json env) (hr_body r) = Some body" "json_field body ''prompt'' = Some (JStr prompt)"
    and "ap_active_generations s < ap_max_concurrent_requests cfg" "gen_config_from (ae_json env) body = Inl m"
  shows "\<exists>s'. route cfg env r s = Some (Inl (Threw (CallbackExn m)), s') \<and> ap_calls s' = ap_calls s
    \<and> ap_active_generations s' = ap_active_generations s
    \<and> api_handle cfg env r w s = Some (Inl (Threw (CallbackExn m)), s'\<lparr>ap_calls := []\<rparr>)"
proof -
  have run: "route cfg env r t = Some (Inl (Threw (CallbackExn m)), t\<lparr>ap_total_requests := ap_total_requests t + 1\<rparr>)"
    if "ap_active_generations t < ap_max_concurrent_requests cfg" for t
  proof -
    let ?t = "t\<lparr>ap_total_requests := ap_total_requests t + 1\<rparr>"
    have "request_prompt env False body (ap_engine ?t) = Prompt prompt" using assms(5) by (simp add: request_prompt_def)
    moreover have "route cfg env r t = handle_generation cfg env r False ?t"
      using route_generation [of r cfg env t] assms(1-3) by simp
    ultimately show ?thesis
      using handle_generation_slot [OF assms(4), of False ?t prompt cfg] that assms(7) by (simp add: generate_with_slot_def)
  qed
  show ?thesis using run [OF assms(6)] run [of "s\<lparr>ap_calls := []\<rparr>"] assms(6) by (simp add: api_handle_def)
qed

text \<open>
  C37: a stream that fails half way is followed by a second HTTP response.  When a generation that
  is being streamed ends with an exception -- of the engine, or of the JSON library on a piece
  that is not valid UTF-8 by itself, as when a token ends inside a character -- the handler sends
  an error response with its own status line and headers after the events already sent.
\<close>

theorem stream_error_appends_response:
  assumes "gen_config_from (ae_json env) body = Inr gen" "jl_value_bool (ae_json env) body ''stream'' False = Inr True"
    and "generate_stream_reply cfg env chat prompt gen s = Some (Inl (Threw x), s1)" "ap_calls s = []"
    and "\<And>c. \<exists>t. jl_dump (ae_json env) (error_json (fault_text env (Threw x)) ''server_error'' c) = Inr t"
  shows "\<exists>s' events t. generate_with_slot cfg env chat body prompt s = Some (Inr (), s')
    \<and> sw_sent (fold play_socket (ap_calls s') writer_init) = stream_head cfg @ concat events
        @ serialize_http_response \<lparr>hs_status = 500, hs_headers = base_headers cfg ''application/json'', hs_body = t\<rparr>"
proof -
  obtain c where catch: "catch_generation cfg env (Inl (Threw x), s1) = respond cfg (ae_json env) 500 (error_json (fault_text env (Threw x)) ''server_error'' c) s1"
    by (cases x) (auto simp: catch_generation_def fault_text_def)
  obtain t s' where s': "respond cfg (ae_json env) 500 (error_json (fault_text env (Threw x)) ''server_error'' c) s1 = (Inr (), s')"
    "says s1 [json_begin cfg 500, Chunk t, End] s'"
  proof -
    obtain res s2 where r: "respond cfg (ae_json env) 500 (error_json (fault_text env (Threw x)) ''server_error'' c) s1 = (res, s2)" by fastforce
    from r show thesis using assms(5) [of c] by (cases rule: respond_cases) (use r that in auto)
  qed
  from stream_reply_says [OF assms(3)] obtain ds where "says s (Begin 200 (stream_headers cfg) # map Chunk ds) s1" by auto
  from says_trans [OF this s'(2)] assms(4)
  have calls: "ap_calls s' = Begin 200 (stream_headers cfg) # map Chunk ds @ [json_begin cfg 500, Chunk t, End]" by (simp add: says_def)
  have "generate_with_slot cfg env chat body prompt s = Some (Inr (), s')"
    using assms(1-3) catch s'(1) by (simp add: generate_with_slot_def)
  then show ?thesis using sent_stream_failed [of cfg ds 500 t]
    by (intro exI [of _ s'] exI [of _ ds] exI [of _ t] conjI) (simp_all only: calls)
qed

definition outcome_of :: "gen_config \<Rightarrow> int \<Rightarrow> bytes list \<Rightarrow> outcome" where
  "outcome_of gen n calls = \<lparr>oc_text = concat calls, oc_completion_tokens = int (length calls), oc_prompt_tokens = n,
     oc_hit_max_tokens = (gc_max_tokens gen \<le> int (length calls))\<rparr>"

lemma completion_handled:
  assumes req: "hr_method r = ''POST''" "hr_target r = ''/v1/completions''" "authorized cfg r"
    and json: "jl_parse (ae_json env) (hr_body r) = Some body" "json_field body ''prompt'' = Some (JStr prompt)"
      "gen_config_from (ae_json env) body = Inr gen" "jl_value_bool (ae_json env) body ''stream'' False = Inr False"
    and free: "ap_active_generations s < ap_max_concurrent_requests cfg"
    and run: "count_tokens (ae_engine env) prompt (ap_engine s) = Inr n"
      "engine_generate_stream (ae_engine env) prompt (Some (\<lambda>_ _. Inr True)) gen (ap_engine s) = Some (Inr (), calls, e')"
    and dump: "jl_dump (ae_json env) (completion_json cfg False (outcome_of gen n calls)) = Inr t"
  shows "\<exists>w s'. api_handle cfg env r writer_init s = Some (Inr w, s') \<and> ap_engine s' = e' \<and> ap_active_generations s' = ap_active_generations s
    \<and> sw_sent w = serialize_http_response \<lparr>hs_status = 200, hs_headers = base_headers cfg ''application/json'', hs_body = t\<rparr>"
proof -
  let ?s = "s\<lparr>ap_calls := [], ap_total_requests := ap_total_requests s + 1\<rparr>"
  let ?s1 = "?s\<lparr>ap_active_generations := ap_active_generations s + 1\<rparr>"
  have gen: "run_generation env prompt gen (\<lambda>_. Inr ()) (ap_engine ?s1) = Some (Inr (outcome_of gen n calls), calls, e')"
    using run by (simp add: run_generation_def outcome_of_def)
  let ?r = "respond cfg (ae_json env) 200 (completion_json cfg False (outcome_of gen n calls)) (?s1\<lparr>ap_engine := e'\<rparr>)"
  obtain s2 where r: "?r = (Inr (), s2)" "says (?s1\<lparr>ap_engine := e'\<rparr>) [json_begin cfg 200, Chunk t, End] s2" "ap_engine s2 = e'"
  proof -
    obtain res s2 where r: "?r = (res, s2)" by fastforce
    from r show thesis using dump by (cases rule: respond_cases) (use r that in auto)
  qed
  have "generate_with_slot cfg env False body prompt ?s1 = Some (Inr (), s2)"
    using json(3,4) gen r(1) by (simp add: generate_with_slot_def generate_reply_def catch_generation_def)
  moreover have "request_prompt env False body (ap_engine ?s) = Prompt prompt" using json(2) by (simp add: request_prompt_def)
  ultimately have "handle_generation cfg env r False ?s = Some (Inr (), s2\<lparr>ap_active_generations := ap_active_generations s2 - 1\<rparr>)"
    using handle_generation_slot [OF json(1), of False ?s prompt cfg] free by simp
  then have route: "route cfg env r (s\<lparr>ap_calls := []\<rparr>) = Some (Inr (), s2\<lparr>ap_active_generations := ap_active_generations s2 - 1\<rparr>)"
    using route_generation [of r cfg env "s\<lparr>ap_calls := []\<rparr>"] req by simp
  have calls: "ap_calls s2 = [json_begin cfg 200, Chunk t, End]" "ap_active_generations s2 - 1 = ap_active_generations s"
    using r(2) by (simp_all add: says_def)
  have "sw_sent (fold play_socket (ap_calls s2) writer_init) =
      serialize_http_response \<lparr>hs_status = 200, hs_headers = base_headers cfg ''application/json'', hs_body = t\<rparr>"
    unfolding calls using json_type by (simp add: writer_begin_plain writer_chunk_def writer_end_def socket_write_def writer_init_def)
  then show ?thesis using route r(3) calls(2) by (simp add: api_handle_def)
qed

section \<open>The gate\<close>

text \<open>
  \<open>BusyGuard\<close> at the level of its atomic operations, which the threads of all connections
  interleave: the counter, the guards that acquired a slot, and those that added one to the
  counter, found it full and are about to take it back.
\<close>

record gate =
  ga_active :: int
  ga_holders :: nat
  ga_backing_off :: nat

inductive gate_step :: "int \<Rightarrow> gate \<Rightarrow> gate \<Rightarrow> bool" for max_requests where
  acquire: "ga_active g < max_requests \<Longrightarrow> gate_step max_requests g (g\<lparr>ga_active := ga_active g + 1, ga_holders := Suc (ga_holders g)\<rparr>)"
| refuse: "max_requests \<le> ga_active g \<Longrightarrow> gate_step max_requests g (g\<lparr>ga_active := ga_active g + 1, ga_backing_off := Suc (ga_backing_off g)\<rparr>)"
| back_off: "ga_backing_off g = Suc n \<Longrightarrow> gate_step max_requests g (g\<lparr>ga_active := ga_active g - 1, ga_backing_off := n\<rparr>)"
| release: "ga_holders g = Suc n \<Longrightarrow> gate_step max_requests g (g\<lparr>ga_active := ga_active g - 1, ga_holders := n\<rparr>)"

definition gate_init :: gate where
  "gate_init = \<lparr>ga_active = 0, ga_holders = 0, ga_backing_off = 0\<rparr>"

text \<open>
  At most the configured number of generations runs at a time.  However the threads
  interleave, the counter is the number of guards that hold a slot plus those about to back
  off, and no more than \<open>max_concurrent_requests\<close> hold a slot.
\<close>

theorem gate_bounded:
  assumes "(gate_step max_requests)\<^sup>*\<^sup>* gate_init g"
  shows "ga_active g = int (ga_holders g) + int (ga_backing_off g) \<and> ga_holders g \<le> nat max_requests"
  using assms
proof (induction rule: rtranclp_induct)
  case (step g h)
  from step.hyps(2) step.IH show ?case by cases auto
qed (simp add: gate_init_def)

theorem gate_bounded_witness:
  "ga_holders (gate_init\<lparr>ga_active := 1, ga_holders := 1\<rparr>) \<le> nat 1"
proof -
  have "gate_step 1 gate_init (gate_init\<lparr>ga_active := 1, ga_holders := 1\<rparr>)"
    using acquire [of gate_init 1] by (simp add: gate_init_def)
  then have "(gate_step 1)\<^sup>*\<^sup>* gate_init (gate_init\<lparr>ga_active := 1, ga_holders := 1\<rparr>)" by (rule r_into_rtranclp)
  from gate_bounded [OF this] show ?thesis by blast
qed

section \<open>Examples\<close>

text \<open>A stand-in for the JSON library: a request body stands for its own prompt, with greedy parameters, plus a field of choice.\<close>

definition demo_value :: "(json \<Rightarrow> 'v option) \<Rightarrow> json \<Rightarrow> bytes \<Rightarrow> 'v \<Rightarrow> bytes + 'v" where
  "demo_value get j k d = (case json_field j k of None \<Rightarrow> Inr d | Some v \<Rightarrow> (case get v of None \<Rightarrow> Inl ''wrong type'' | Some x \<Rightarrow> Inr x))"

definition demo_body :: "bytes \<times> json \<Rightarrow> bytes \<Rightarrow> json" where
  "demo_body field b = JObj [field, (''prompt'', JStr b), (''max_tokens'', JInt 1), (''temperature'', JReal 0), (''repeat_penalty'', JReal 1)]"

definition demo_json :: "bytes \<times> json \<Rightarrow> json_lib" where
  "demo_json field = \<lparr>jl_parse = (\<lambda>b. Some (demo_body field b)),
     jl_dump = (\<lambda>j. if field = (''stream'', JBool True) \<and> json_field j ''choices'' \<noteq> None then Inl ''invalid UTF-8 byte'' else Inr ''{}''),
     jl_value_int = demo_value (\<lambda>v. case v of JInt i \<Rightarrow> Some i | _ \<Rightarrow> None),
     jl_value_float = demo_value (\<lambda>v. case v of JReal x \<Rightarrow> Some x | _ \<Rightarrow> None),
     jl_value_bool = demo_value (\<lambda>v. case v of JBool b \<Rightarrow> Some b | _ \<Rightarrow> None),
     jl_value_string = demo_value (\<lambda>v. case v of JStr b \<Rightarrow> Some b | _ \<Rightarrow> None)\<rparr>"

definition demo_api_env :: "bytes \<times> json \<Rightarrow> (token list list real_backend, unit, unit) api_env" where
  "demo_api_env field = \<lparr>ae_engine = demo_engine_env, ae_json = demo_json field, ae_write_ok = True, ae_speeds = (0, 0, 0), ae_length_error = []\<rparr>"

definition demo_api_config :: "bytes \<Rightarrow> api_config" where
  "demo_api_config key = \<lparr>ap_api_key = key, ap_enable_cors = False, ap_enable_metrics = True, ap_max_concurrent_requests = 1, ap_model_id = ''m''\<rparr>"

definition demo_api :: "(token list list real_backend, unit, unit, unit) api" where
  "demo_api = api_open demo_classic"

definition demo_post :: http_request where
  "demo_post = \<lparr>hr_method = ''POST'', hr_target = ''/v1/completions'', hr_headers = [], hr_body = ''a''\<rparr>"

definition api_gen :: gen_config where
  "api_gen = \<lparr>gc_max_tokens = 1, gc_temperature = 0, gc_top_p = 95/100, gc_repeat_penalty = 1, gc_repeat_last_n = 64, gc_seed = 42, gc_echo_prompt = False\<rparr>"

lemma demo_gen_config: "fst field \<in> {''stream'', ''x''} \<Longrightarrow> gen_config_from (demo_json field) (demo_body field b) = Inr api_gen"
  by (cases field) (auto simp: gen_config_from_def demo_json_def demo_value_def demo_body_def json_field_def api_gen_def)

lemma api_sample: "sampler_sample demo_env api_gen [0, 1] h g = (Inr 1, g)"
proof -
  have "max_element [0, 1] 0 (Suc 0) = 1" by (simp add: max_element.simps)
  then show ?thesis by (simp add: sample_def distribution_def api_gen_def argmax_def repeat_penalty_def)
qed

lemma api_classic_run:
  "\<exists>e'. engine_generate_stream demo_engine_env ''a'' (Some (\<lambda>_ p. f p)) api_gen demo_classic =
     Some (case f [byte_of (1 :: token)] of Inl x \<Rightarrow> Inl (Threw x) | Inr _ \<Rightarrow> Inr (), [[byte_of (1 :: token)]], e')"
proof -
  have lim: "gc_max_tokens api_gen = 1" "gc_echo_prompt api_gen = False" by (simp_all add: api_gen_def)
  have "en_arca demo_classic = None" by (simp add: demo_classic_def bare_engine_def)
  then show ?thesis
    by (cases "f [byte_of (1 :: token)]")
      (simp_all add: uncached_stream generate_stream_impl_def demo_engine_env_def demo_classic_def bare_engine_def impl_classic_def
        prefill_prompt_def loud_eval lim api_sample)
qed

theorem api_requires_key_witness:
  "\<exists>res s' headers rest. route (demo_api_config ''k'') (demo_api_env (''x'', JNull)) demo_post demo_api = Some (res, s')
     \<and> ap_calls s' = Begin 401 headers # rest"
proof -
  have "\<not> authorized (demo_api_config ''k'') demo_post"
    unfolding authorized_iff_key_bare by (simp add: demo_api_config_def demo_post_def header_value_def)
  from api_requires_key [OF this, of "demo_api_env (''x'', JNull)" demo_api] show ?thesis
    by (auto simp: demo_api_config_def demo_post_def demo_api_def api_open_def)
qed

theorem parameter_type_escapes_witness:
  "\<exists>s'. route (demo_api_config []) (demo_api_env (''max_tokens'', JStr ''many'')) demo_post demo_api = Some (Inl (Threw (CallbackExn ''wrong type'')), s')
     \<and> ap_calls s' = []"
proof -
  let ?field = "(''max_tokens'', JStr ''many'')"
  have auth: "authorized (demo_api_config []) demo_post" by (simp add: authorized_def demo_api_config_def)
  have req: "hr_method demo_post = ''POST''" "hr_target demo_post = ''/v1/completions''" by (simp_all add: demo_post_def)
  have parse: "jl_parse (ae_json (demo_api_env ?field)) (hr_body demo_post) = Some (demo_body ?field ''a'')"
    "json_field (demo_body ?field ''a'') ''prompt'' = Some (JStr ''a'')"
    "gen_config_from (ae_json (demo_api_env ?field)) (demo_body ?field ''a'') = Inl ''wrong type''"
    by (simp_all add: demo_api_env_def demo_json_def demo_post_def demo_body_def json_field_def gen_config_from_def demo_value_def)
  have free: "ap_active_generations demo_api < ap_max_concurrent_requests (demo_api_config [])" "ap_calls demo_api = []"
    by (simp_all add: demo_api_def api_open_def demo_api_config_def)
  from parameter_type_escapes [OF req auth parse(1,2) free(1) parse(3), of writer_init] free(2) show ?thesis by auto
qed

theorem stream_error_appends_response_witness:
  "\<exists>s' events t. generate_with_slot (demo_api_config []) (demo_api_env (''stream'', JBool True)) False (demo_body (''stream'', JBool True) ''a'') ''a'' demo_api
       = Some (Inr (), s')
     \<and> sw_sent (fold play_socket (ap_calls s') writer_init) = stream_head (demo_api_config []) @ concat events
         @ serialize_http_response \<lparr>hs_status = 500, hs_headers = base_headers (demo_api_config []) ''application/json'', hs_body = t\<rparr>"
proof -
  let ?field = "(''stream'', JBool True)" and ?cfg = "demo_api_config []"
  let ?env = "demo_api_env ?field"
  have json: "gen_config_from (ae_json ?env) (demo_body ?field ''a'') = Inr api_gen"
    using demo_gen_config [of ?field "''a''"] by (simp add: demo_api_env_def)
  have stream: "jl_value_bool (ae_json ?env) (demo_body ?field ''a'') ''stream'' False = Inr True"
    by (simp add: demo_api_env_def demo_json_def demo_value_def demo_body_def json_field_def)
  have bad: "jl_dump (ae_json ?env) (sse_json ?cfg False p) = Inl ''invalid UTF-8 byte''" for p
    by (simp add: demo_api_env_def demo_json_def sse_json_def json_field_def)
  have good: "\<exists>t. jl_dump (ae_json ?env) (error_json m k c) = Inr t" for m k c
    by (simp add: demo_api_env_def demo_json_def error_json_def json_field_def)
  have count: "count_tokens demo_engine_env ''a'' demo_classic = Inr 1"
    by (simp add: count_tokens_def demo_engine_env_def loud_ops)
  obtain e' where run: "engine_generate_stream demo_engine_env ''a'' (Some (\<lambda>_ p. Inl (CallbackExn ''invalid UTF-8 byte''))) api_gen demo_classic
      = Some (Inl (Threw (CallbackExn ''invalid UTF-8 byte'')), [[byte_of (1 :: token)]], e')"
    using api_classic_run [of "\<lambda>p. Inl (CallbackExn ''invalid UTF-8 byte'')"] by auto
  have "ae_engine ?env = demo_engine_env" "ap_engine demo_api = demo_classic" by (simp_all add: demo_api_env_def demo_api_def api_open_def)
  then have "\<exists>s1. generate_stream_reply ?cfg ?env False ''a'' api_gen demo_api = Some (Inl (Threw (CallbackExn ''invalid UTF-8 byte'')), s1)"
    by (simp add: generate_stream_reply_def run_generation_def bad Let_def writer_says_def count run)
  then obtain s1 where "generate_stream_reply ?cfg ?env False ''a'' api_gen demo_api = Some (Inl (Threw (CallbackExn ''invalid UTF-8 byte'')), s1)" ..
  from stream_error_appends_response [OF json stream this _ good] show ?thesis by (simp add: demo_api_def api_open_def)
qed

theorem api_answers_once_witness:
  "\<exists>s' status ct body. route (demo_api_config []) (demo_api_env (''x'', JNull)) (demo_post\<lparr>hr_target := ''/health''\<rparr>) demo_api = Some (Inr (), s')
     \<and> sw_sent (fold play_socket (ap_calls s') writer_init) =
         serialize_http_response \<lparr>hs_status = status, hs_headers = base_headers (demo_api_config []) ct, hs_body = body\<rparr>
     \<and> ap_total_requests s' = 1 \<and> ap_active_generations s' = 0"
proof -
  let ?r = "demo_post\<lparr>hr_target := ''/health''\<rparr>" and ?env = "demo_api_env (''x'', JNull)"
  have "\<exists>s'. route (demo_api_config []) ?env ?r demo_api = Some (Inr (), s')"
    by (simp add: route_def Let_def respond_def demo_api_env_def demo_json_def json_field_def demo_api_config_def)
  then obtain s' where run: "route (demo_api_config []) ?env ?r demo_api = Some (Inr (), s')" ..
  have calls: "ap_calls demo_api = []" and plain: "\<not> asks_stream ?env ?r" by (simp_all add: demo_api_def api_open_def asks_stream_def)
  from api_answers_once [OF run calls refl] plain obtain status ct body where
    "sw_sent (fold play_socket (ap_calls s') writer_init) =
       serialize_http_response \<lparr>hs_status = status, hs_headers = base_headers (demo_api_config []) ct, hs_body = body\<rparr>"
    "ap_total_requests s' = ap_total_requests demo_api + 1" "ap_active_generations s' = ap_active_generations demo_api" by blast
  moreover have "ap_total_requests demo_api = 0" "ap_active_generations demo_api = 0" by (simp_all add: demo_api_def api_open_def)
  ultimately show ?thesis using run by (intro exI conjI) (assumption | simp)+
qed

end
