(* ===== verification/Config_File.thy ===== *)
theory Config_File
  imports Http_Parser Complex_Main
begin

text \<open>
  The configuration file and the logger (\<open>utils/config.cpp\<close>, \<open>utils/logger.cpp\<close>).  A stream is
  the bytes it delivers; \<open>getlines\<close> is the sequence of lines \<open>std::getline\<close> returns.  A
  \<open>ConfigError\<close> carries its message and its line number, 0 when it is not tied to a line.  The
  lemmas show what a file means whatever its white space, which value wins, and which line an
  error names.
\<close>

section \<open>Parsing\<close>

type_synonym config = "(bytes, bytes) smap"

datatype config_error = ConfigError bytes nat

definition blanks :: bytes where
  "blanks = [CHR '' '', CHR 0x09, CHR 0x0D, CHR 0x0A]"

definition config_trim :: "bytes \<Rightarrow> bytes" where
  "config_trim = trim_chars blanks"

definition to_lower :: "bytes \<Rightarrow> bytes" where
  "to_lower = map tolower"

function getlines :: "bytes \<Rightarrow> bytes list" where
  "getlines s =
     (if s = [] then []
      else takeWhile (\<lambda>x. x \<noteq> CHR 0x0A) s # getlines (tl (dropWhile (\<lambda>x. x \<noteq> CHR 0x0A) s)))"
  by auto

lemma tl_dropWhile_less: "s \<noteq> [] \<Longrightarrow> length (tl (dropWhile P s)) < length s"
  using length_dropWhile_le [of P s] by (cases s) auto

termination getlines
  by (relation "measure length") (auto simp del: length_tl intro: tl_dropWhile_less)

declare getlines.simps [simp del]

fun parse_lines :: "bytes list \<Rightarrow> nat \<Rightarrow> bytes \<Rightarrow> config \<Rightarrow> config_error + config" where
  "parse_lines [] line_no sect cfg = Inr cfg"
| "parse_lines (line # rest) line_no sect cfg =
     (let n = line_no + 1; t = config_trim line in
      if t = [] \<or> hd t = CHR ''#'' \<or> hd t = CHR '';'' then parse_lines rest n sect cfg
      else if hd t = CHR ''['' then
        (if last t \<noteq> CHR '']'' then Inl (ConfigError (''unterminated section header: '' @ t) n)
         else let s = config_trim (substr t 1 (length t - 2)) in
              if s = [] then Inl (ConfigError ''empty section name'' n) else parse_lines rest n s cfg)
      else case find_from t ''='' 0 of
        None \<Rightarrow> Inl (ConfigError (''expected '' @ [CHR 0x27] @ ''key = value'' @ [CHR 0x27] @ '': '' @ t) n)
      | Some eq \<Rightarrow>
          (let key = config_trim (substr t 0 eq) in
           if key = [] then Inl (ConfigError ''empty key'' n)
           else parse_lines rest n sect
                  (map_put (<) (if sect = [] then key else sect @ ''.'' @ key) (config_trim (drop (eq + 1) t)) cfg)))"

definition config_parse :: "bytes \<Rightarrow> config_error + config" where
  "config_parse stream = parse_lines (getlines stream) 0 [] []"

definition config_load :: "(bytes \<Rightarrow> bytes option) \<Rightarrow> bytes \<Rightarrow> config_error + config" where
  "config_load fs path =
     (case fs path of None \<Rightarrow> Inl (ConfigError (''cannot open config file: '' @ path) 0)
                    | Some stream \<Rightarrow> config_parse stream)"

section \<open>Lookup\<close>

definition config_has :: "config \<Rightarrow> bytes \<Rightarrow> bool" where
  "config_has cfg key \<longleftrightarrow> map_find (<) key cfg \<noteq> None"

definition get_string :: "config \<Rightarrow> bytes \<Rightarrow> config_error + bytes" where
  "get_string cfg key =
     (case map_find (<) key cfg of None \<Rightarrow> Inl (ConfigError (''missing config key: '' @ key) 0) | Some v \<Rightarrow> Inr v)"

definition bad_value :: "bytes \<Rightarrow> bytes \<Rightarrow> bytes \<Rightarrow> config_error" where
  "bad_value key what raw = ConfigError (''key '' @ [CHR 0x27] @ key @ [CHR 0x27] @ what @ [CHR 0x27] @ raw @ [CHR 0x27]) 0"

definition get_int :: "config \<Rightarrow> bytes \<Rightarrow> config_error + int" where
  "get_int cfg key =
     (case get_string cfg key of Inl e \<Rightarrow> Inl e
      | Inr raw \<Rightarrow> (case stol raw of
            Inl _ \<Rightarrow> Inl (bad_value key '' is not an integer: '' raw)
          | Inr (v, pos) \<Rightarrow> if pos \<noteq> length raw then Inl (bad_value key '' is not an integer: '' raw) else Inr v))"

definition get_double :: "(bytes \<Rightarrow> conv_error + real \<times> nat) \<Rightarrow> config \<Rightarrow> bytes \<Rightarrow> config_error + real" where
  "get_double stod cfg key =
     (case get_string cfg key of Inl e \<Rightarrow> Inl e
      | Inr raw \<Rightarrow> (case stod raw of
            Inl _ \<Rightarrow> Inl (bad_value key '' is not a number: '' raw)
          | Inr (v, pos) \<Rightarrow> if pos \<noteq> length raw then Inl (bad_value key '' is not a number: '' raw) else Inr v))"

definition get_bool :: "config \<Rightarrow> bytes \<Rightarrow> config_error + bool" where
  "get_bool cfg key =
     (case get_string cfg key of Inl e \<Rightarrow> Inl e
      | Inr v \<Rightarrow> (let raw = to_lower v in
          if raw = ''true'' \<or> raw = ''yes'' \<or> raw = ''on'' \<or> raw = ''1'' then Inr True
          else if raw = ''false'' \<or> raw = ''no'' \<or> raw = ''off'' \<or> raw = ''0'' then Inr False
          else Inl (bad_value key '' is not a boolean: '' v)))"

definition get_string_or :: "config \<Rightarrow> bytes \<Rightarrow> bytes \<Rightarrow> config_error + bytes" where
  "get_string_or cfg key dflt = (if config_has cfg key then get_string cfg key else Inr dflt)"

definition get_int_or :: "config \<Rightarrow> bytes \<Rightarrow> int \<Rightarrow> config_error + int" where
  "get_int_or cfg key dflt = (if config_has cfg key then get_int cfg key else Inr dflt)"

definition get_double_or :: "(bytes \<Rightarrow> conv_error + real \<times> nat) \<Rightarrow> config \<Rightarrow> bytes \<Rightarrow> real \<Rightarrow> config_error + real" where
  "get_double_or stod cfg key dflt = (if config_has cfg key then get_double stod cfg key else Inr dflt)"

definition get_bool_or :: "config \<Rightarrow> bytes \<Rightarrow> bool \<Rightarrow> config_error + bool" where
  "get_bool_or cfg key dflt = (if config_has cfg key then get_bool cfg key else Inr dflt)"

section \<open>The logger\<close>

datatype log_level = Debug | Info | Warn | Error

definition level_rank :: "log_level \<Rightarrow> nat" where
  "level_rank l = (case l of Debug \<Rightarrow> 0 | Info \<Rightarrow> 1 | Warn \<Rightarrow> 2 | Error \<Rightarrow> 3)"

definition level_name :: "log_level \<Rightarrow> bytes" where
  "level_name l = (case l of Debug \<Rightarrow> ''DEBUG'' | Info \<Rightarrow> ''INFO'' | Warn \<Rightarrow> ''WARN'' | Error \<Rightarrow> ''ERROR'')"

definition level_from_string :: "bytes \<Rightarrow> bytes + log_level" where
  "level_from_string name =
     (let l = map tolower name in
      if l = ''debug'' then Inr Debug else if l = ''info'' then Inr Info
      else if l = ''warn'' then Inr Warn else if l = ''error'' then Inr Error
      else Inl (''unknown log level: '' @ name))"

text \<open>The logger's state: what it wrote, its threshold, and whether lines carry the time (an argument).\<close>

record logger =
  lg_out :: bytes
  lg_min_level :: log_level
  lg_timestamps :: bool

definition write_log :: "bytes \<Rightarrow> log_level \<Rightarrow> bytes \<Rightarrow> logger \<Rightarrow> logger" where
  "write_log now level message l =
     (if level_rank level < level_rank (lg_min_level l) then l
      else l\<lparr>lg_out := lg_out l @ (if lg_timestamps l then ''['' @ now @ ''] '' else [])
               @ ''['' @ level_name level @ ''] '' @ message @ [CHR 0x0A]\<rparr>)"

lemma level_round_trip: "level_from_string (level_name l) = Inr l"
  by (cases l) (simp_all add: level_name_def, code_simp+)

section \<open>The meaning of a file\<close>

text \<open>
  A line of a file: the white space before it, what it says, and the white space after it.  The
  items carry the white space inside them: \<open>Sect p s q\<close> puts \<open>p\<close> and \<open>q\<close> between the brackets and
  the name, \<open>Assign k p q v\<close> puts \<open>p\<close> and \<open>q\<close> around the equals sign.
\<close>

datatype config_item = Blank | Comment char bytes | Sect bytes bytes bytes | Assign bytes bytes bytes bytes

fun line_text :: "bytes \<times> config_item \<times> bytes \<Rightarrow> bytes" where
  "line_text (l, Blank, r) = l @ r"
| "line_text (l, Comment c s, r) = l @ c # s @ r"
| "line_text (l, Sect p s q, r) = l @ ''['' @ p @ s @ q @ '']'' @ r"
| "line_text (l, Assign k p q v, r) = l @ k @ p @ ''='' @ q @ v @ r"

definition pad_ok :: "bytes \<Rightarrow> bool" where
  "pad_ok l \<longleftrightarrow> list_all (\<lambda>c. c \<in> set blanks) l \<and> CHR 0x0A \<notin> set l"

definition trimmed :: "bytes \<Rightarrow> bool" where
  "trimmed s \<longleftrightarrow> CHR 0x0A \<notin> set s \<and> (s = [] \<or> hd s \<notin> set blanks \<and> last s \<notin> set blanks)"

fun item_ok :: "config_item \<Rightarrow> bool" where
  "item_ok Blank = True"
| "item_ok (Comment c s) = (c \<in> {CHR ''#'', CHR '';''} \<and> CHR 0x0A \<notin> set s)"
| "item_ok (Sect p s q) = (pad_ok p \<and> s \<noteq> [] \<and> trimmed s \<and> pad_ok q)"
| "item_ok (Assign k p q v) = (k \<noteq> [] \<and> trimmed k \<and> pad_ok p \<and> pad_ok q \<and> trimmed v \<and> CHR ''='' \<notin> set k \<and> hd k \<notin> {CHR ''#'', CHR '';'', CHR ''[''})"

fun cline_ok :: "bytes \<times> config_item \<times> bytes \<Rightarrow> bool" where
  "cline_ok (l, i, r) = (pad_ok l \<and> item_ok i \<and> pad_ok r)"

definition config_text :: "(bytes \<times> config_item \<times> bytes) list \<Rightarrow> bytes" where
  "config_text ls = concat (map (\<lambda>x. line_text x @ [CHR 0x0A]) ls)"

text \<open>A file with or without a newline after its last line.\<close>

definition config_file :: "bool \<Rightarrow> (bytes \<times> config_item \<times> bytes) list \<Rightarrow> bytes" where
  "config_file newline ls = (if newline then config_text ls else butlast (config_text ls))"

text \<open>The assignments a file makes, in order, with their full keys.\<close>

fun assignments :: "bytes \<Rightarrow> config_item list \<Rightarrow> (bytes \<times> bytes) list" where
  "assignments sect [] = []"
| "assignments sect (Sect p s q # is) = assignments s is"
| "assignments sect (Assign k p q v # is) = (if sect = [] then k else sect @ ''.'' @ k, v) # assignments sect is"
| "assignments sect (i # is) = assignments sect is"


section \<open>Correctness\<close>

lemma trim_pad:
  assumes "set l \<subseteq> set cs" "set r \<subseteq> set cs" "m = [] \<or> hd m \<notin> set cs \<and> last m \<notin> set cs"
  shows "trim_chars cs (l @ m @ r) = m"
proof -
  have l: "dropWhile (\<lambda>c. c \<in> set cs) l = []" and r: "dropWhile (\<lambda>c. c \<in> set cs) (rev r) = []"
    using assms(1,2) by auto
  show ?thesis
  proof (cases "m = []")
    case True
    have "list_all (\<lambda>c. c \<in> set cs) (l @ r)" using assms(1,2) by (auto simp: list_all_iff)
    then have "dropWhile (\<lambda>c. c \<in> set cs) (l @ r) = []" by (simp only: list_all_iff dropWhile_eq_Nil_conv)
    then show ?thesis using True by (simp only: trim_chars_ends append_Nil) simp
  next
    case False
    then have "dropWhile (\<lambda>c. c \<in> set cs) (m @ r) = m @ r" using assms(3) by (cases m) auto
    moreover have "dropWhile (\<lambda>c. c \<in> set cs) (l @ m @ r) = dropWhile (\<lambda>c. c \<in> set cs) (m @ r)"
      using assms(1) by (intro dropWhile_append2) auto
    moreover have "dropWhile (\<lambda>c. c \<in> set cs) (rev r @ rev m) = dropWhile (\<lambda>c. c \<in> set cs) (rev m)"
      using assms(2) by (intro dropWhile_append2) auto
    moreover have "dropWhile (\<lambda>c. c \<in> set cs) (rev m) = rev m"
      using False assms(3) by (cases m rule: rev_cases) auto
    ultimately show ?thesis by (simp add: trim_chars_ends)
  qed
qed

lemma not_blank [simp]:
  "CHR ''='' \<notin> set blanks" "CHR ''['' \<notin> set blanks" "CHR '']'' \<notin> set blanks" "CHR ''#'' \<notin> set blanks" "CHR '';'' \<notin> set blanks"
  by (simp_all add: blanks_def)

lemma config_trim_pad: "pad_ok l \<Longrightarrow> pad_ok r \<Longrightarrow> trimmed m \<Longrightarrow> config_trim (l @ m @ r) = m"
  unfolding config_trim_def by (rule trim_pad) (auto simp: pad_ok_def trimmed_def list_all_iff)

lemma pad_ok_Nil [simp]: "pad_ok []"
  by (simp add: pad_ok_def)

lemma getlines_line:
  assumes "CHR 0x0A \<notin> set x"
  shows "getlines (x @ CHR 0x0A # rest) = x # getlines rest"
proof -
  have "takeWhile (\<lambda>c. c \<noteq> CHR 0x0A) (x @ CHR 0x0A # rest) = x"
    "dropWhile (\<lambda>c. c \<noteq> CHR 0x0A) (x @ CHR 0x0A # rest) = CHR 0x0A # rest"
    using assms by (induction x) auto
  then show ?thesis by (simp add: getlines.simps [of "x @ CHR 0x0A # rest"])
qed

lemma line_text_one_line: "cline_ok (l, i, r) \<Longrightarrow> CHR 0x0A \<notin> set (line_text (l, i, r))"
  by (cases i) (auto simp: pad_ok_def trimmed_def list_all_iff)

lemma getlines_text:
  "list_all cline_ok ls \<Longrightarrow> getlines (config_text ls @ rest) = map line_text ls @ getlines rest"
proof (induction ls)
  case (Cons x ls)
  obtain l i r where x: "x = (l, i, r)" by (cases x)
  from Cons getlines_line [OF line_text_one_line, of l i r "config_text ls @ rest"] show ?case
    by (simp add: config_text_def x)
qed (simp add: config_text_def)

fun apply_item :: "config_item \<Rightarrow> bytes \<times> config \<Rightarrow> bytes \<times> config" where
  "apply_item (Sect p s q) (sect, cfg) = (s, cfg)"
| "apply_item (Assign k p q v) (sect, cfg) = (sect, map_put (<) (if sect = [] then k else sect @ ''.'' @ k) v cfg)"
| "apply_item i (sect, cfg) = (sect, cfg)"

lemma parse_pair:
  assumes "pad_ok l" "pad_ok r" "item_ok (Assign k p q v)"
  shows "parse_lines (line_text (l, Assign k p q v, r) # rest) n sect cfg =
    parse_lines rest (n + 1) sect (map_put (<) (if sect = [] then k else sect @ ''.'' @ k) v cfg)"
proof -
  define w where "w = (if v = [] then [] else q @ v)"
  define t where "t = k @ p @ ''='' @ w"
  have k: "k \<noteq> []" "trimmed k" "CHR ''='' \<notin> set k" "hd k \<notin> {CHR ''#'', CHR '';'', CHR ''[''}" and v: "trimmed v"
    and pq: "pad_ok p" "pad_ok q"
    using assms(3) by auto
  have pads: "CHR 0x0A \<notin> set p" "CHR 0x0A \<notin> set q" "CHR ''='' \<notin> set p" using pq by (auto simp: pad_ok_def list_all_iff)
  have last: "last t = (if v = [] then CHR ''='' else last v)" by (simp add: t_def w_def)
  have tr: "trimmed t" using k v pads last by (auto simp: trimmed_def t_def w_def)
  have "config_trim (line_text (l, Assign k p q v, r)) = t"
  proof (cases "v = []")
    case True
    have "pad_ok (q @ r)" using assms(2) pq by (simp add: pad_ok_def)
    from config_trim_pad [OF assms(1) this tr] True show ?thesis by (simp add: t_def w_def)
  next
    case False
    from config_trim_pad [OF assms(1,2) tr] False show ?thesis by (simp add: t_def w_def)
  qed
  moreover have "find_from t ''='' 0 = Some (length (k @ p))"
    using find_char [of "CHR ''=''" "k @ p" w] k pads by (simp add: t_def)
  moreover have "config_trim (substr t 0 (length (k @ p))) = k"
    using config_trim_pad [OF pad_ok_Nil pq(1) k(2)] by (simp add: t_def substr_def)
  moreover have "config_trim (drop (length (k @ p) + 1) t) = v"
    using config_trim_pad [OF pq(2) pad_ok_Nil v] config_trim_pad [OF pad_ok_Nil pad_ok_Nil v]
    by (cases "v = []") (simp_all add: t_def w_def)
  moreover have "t \<noteq> []" "hd t = hd k" using k by (simp_all add: t_def)
  ultimately show ?thesis using k by (simp add: Let_def del: line_text.simps)
qed

lemma parse_section:
  assumes "pad_ok l" "pad_ok r" "item_ok (Sect p s q)"
  shows "parse_lines (line_text (l, Sect p s q, r) # rest) n sect cfg = parse_lines rest (n + 1) s cfg"
proof -
  define t where "t = ''['' @ (p @ s @ q) @ '']''"
  have tr: "trimmed t" using assms by (auto simp: t_def trimmed_def pad_ok_def list_all_iff)
  have "config_trim (line_text (l, Sect p s q, r)) = t" using config_trim_pad [OF assms(1,2) tr] by (simp add: t_def)
  moreover have "t \<noteq> []" "hd t = CHR ''[''" "last t = CHR '']''" by (simp_all add: t_def)
  moreover have "config_trim (substr t 1 (length t - 2)) = s"
    using config_trim_pad [of p q s] assms(3) by (simp add: t_def substr_def)
  ultimately show ?thesis using assms(3) by (simp add: Let_def del: line_text.simps)
qed

lemma dropWhile_hd: "\<not> P c \<Longrightarrow> dropWhile P (l @ c # s) = dropWhile P l @ c # s"
  by (induction l) auto

lemma config_trim_hd:
  assumes "pad_ok l" "c \<notin> set blanks"
  shows "\<exists>t. config_trim (l @ c # s) = c # t"
proof -
  let ?P = "\<lambda>x. x \<in> set blanks"
  have "dropWhile ?P l = []" using assms(1) by (auto simp: pad_ok_def list_all_iff)
  then have "config_trim (l @ c # s) = rev (dropWhile ?P (rev s @ c # []))"
    using assms(2) by (simp add: config_trim_def trim_chars_ends dropWhile_hd)
  also have "\<dots> = c # rev (dropWhile ?P (rev s))"
    using assms(2) dropWhile_hd [of ?P c "rev s" "[]"] by simp
  finally show ?thesis by blast
qed

lemma parse_line_text:
  assumes "cline_ok (l, i, r)"
  shows "parse_lines (line_text (l, i, r) # rest) n sect cfg =
    (case apply_item i (sect, cfg) of (sect', cfg') \<Rightarrow> parse_lines rest (n + 1) sect' cfg')"
proof (cases i)
  case Blank
  have "config_trim (l @ [] @ r) = []" using assms by (intro config_trim_pad) (auto simp: trimmed_def)
  then show ?thesis by (simp add: Blank)
next
  case (Comment c s)
  then have "\<exists>t. config_trim (l @ c # s @ r) = c # t" using assms by (intro config_trim_hd) auto
  then show ?thesis using assms by (auto simp: Comment)
next
  case (Sect p s q)
  then show ?thesis using assms parse_section [of l r p s q] by (simp del: line_text.simps parse_lines.simps)
next
  case (Assign k p q v)
  then show ?thesis using assms parse_pair [of l r k p q v] by (simp del: line_text.simps parse_lines.simps)
qed


lemma parse_lines_items:
  "list_all cline_ok ls \<Longrightarrow> parse_lines (map line_text ls @ rest) n sect cfg =
     (case fold apply_item (map (fst \<circ> snd) ls) (sect, cfg) of (sect', cfg') \<Rightarrow> parse_lines rest (n + length ls) sect' cfg')"
proof (induction ls arbitrary: n sect cfg)
  case (Cons x ls)
  obtain l i r where x: "x = (l, i, r)" by (cases x)
  obtain sect' cfg' where step: "apply_item i (sect, cfg) = (sect', cfg')" by (cases "apply_item i (sect, cfg)")
  from Cons.prems x have ok: "cline_ok (l, i, r)" by simp
  show ?case
    using Cons.IH [of "n + 1" sect' cfg'] Cons.prems parse_line_text [OF ok, of "map line_text ls @ rest" n sect cfg] step
    by (simp add: x del: line_text.simps parse_lines.simps cline_ok.simps)
qed simp

lemma items_meaning:
  "map_wf (<) cfg \<Longrightarrow> fold apply_item is (sect, cfg) = (sect', cfg') \<Longrightarrow> map_wf (<) cfg' \<and>
     map_find (<) key cfg' = (case map_of (rev (assignments sect is)) key of None \<Rightarrow> map_find (<) key cfg | Some v \<Rightarrow> Some v)"
proof (induction "is" arbitrary: sect cfg)
  case (Cons i "is")
  obtain s1 c1 where step: "apply_item i (sect, cfg) = (s1, c1)" by (cases "apply_item i (sect, cfg)")
  have wf: "map_wf (<) c1" using Cons.prems(1) step by (cases i) (auto intro: str_map.wf_put)
  have rest: "fold apply_item is (s1, c1) = (sect', cfg')" using Cons.prems(2) step by simp
  show ?case
    using Cons.IH [OF wf rest] Cons.prems(1) step
    by (cases i) (auto simp: str_map.find_put_eq map_add_def split: option.splits)
qed auto

lemma get_string_find: "get_string cfg key = Inr v \<longleftrightarrow> map_find (<) key cfg = Some v"
  by (simp add: get_string_def split: option.splits)

lemma show_int_read:
  assumes "lo \<le> i" "i \<le> hi"
  shows "sto_integer lo hi (show_int i) = Inr (i, length (show_int i))"
proof (cases "i < 0")
  case True
  have "isdigit (hd (show_nat (nat (- i))))" by (rule show_nat_hd)
  moreover have "\<not> isspace CHR ''-''" by (simp add: char_class_defs)
  ultimately show ?thesis using True assms show_nat_digits [of "nat (- i)"]
    by (simp add: sto_integer_def show_int_def takeWhile_all)
next
  case False
  with assms show ?thesis by (simp add: show_int_def sto_integer_digits [OF show_nat_digits])
qed

lemma get_int_shown:
  assumes "get_string cfg key = Inr (show_int i)" "- (2 ^ 63) \<le> i" "i < 2 ^ 63"
  shows "get_int cfg key = Inr i"
proof -
  have "stol (show_int i) = Inr (i, length (show_int i))" using assms(2,3) by (intro show_int_read) auto
  then show ?thesis unfolding get_int_def assms(1) by simp
qed

lemma getlines_last:
  assumes "CHR 0x0A \<notin> set x"
  shows "getlines x = (if x = [] then [] else [x])"
proof -
  have "takeWhile (\<lambda>c. c \<noteq> CHR 0x0A) x = x" "dropWhile (\<lambda>c. c \<noteq> CHR 0x0A) x = []" using assms by auto
  then show ?thesis unfolding getlines.simps [of x] by (simp only: list.sel getlines.simps [of "[]"] simp_thms if_True)
qed

lemma config_text_snoc: "config_text (ls @ [x]) = config_text ls @ line_text x @ [CHR 0x0A]"
  by (simp add: config_text_def)

lemma parse_config_file:
  assumes "list_all cline_ok ls"
  shows "config_parse (config_file newline ls) = Inr (snd (fold apply_item (map (fst \<circ> snd) ls) ([], [])))"
proof -
  have full: "parse_lines (map line_text ls) 0 [] [] = Inr (snd (fold apply_item (map (fst \<circ> snd) ls) ([], [])))"
    using parse_lines_items [OF assms, of "[]" 0 "[]" "[]"] by (simp split: prod.splits)
  have lns: "getlines (config_text ls) = map line_text ls"
    using getlines_text [OF assms, of "[]"] by (simp add: getlines.simps [of "[]"])
  show ?thesis
  proof (cases "newline \<or> ls = []")
    case True
    then show ?thesis using full lns by (auto simp: config_parse_def config_file_def config_text_def)
  next
    case False
    then obtain ls' x where ls: "ls = ls' @ [x]" by (cases ls rule: rev_cases) auto
    with assms have ok: "list_all cline_ok ls'" "cline_ok x" by auto
    have one: "CHR 0x0A \<notin> set (line_text x)" using ok(2) line_text_one_line by (cases x) blast
    have "butlast (config_text ls) = config_text ls' @ line_text x"
      unfolding ls config_text_snoc by (simp add: butlast_append)
    then have "getlines (config_file newline ls) = map line_text ls' @ (if line_text x = [] then [] else [line_text x])"
      using False getlines_text [OF ok(1), of "line_text x"] getlines_last [OF one] by (simp add: config_file_def)
    moreover have "parse_lines [[]] n sect cfg = Inr cfg" for n sect cfg
      using config_trim_pad [OF pad_ok_Nil pad_ok_Nil, of "[]"] by (simp add: trimmed_def)
    ultimately show ?thesis
      using full parse_lines_items [OF ok(1), of "[]" 0 "[]" "[]"] parse_lines_items [OF ok(1), of "[line_text x]" 0 "[]" "[]"]
      by (auto simp: config_parse_def ls simp del: parse_lines.simps(2) split: prod.splits)
  qed
qed

lemma config_meaning:
  assumes "list_all cline_ok ls"
  shows "\<exists>cfg. config_parse (config_file newline ls) = Inr cfg \<and> map_wf (<) cfg
    \<and> (\<forall>key. get_string cfg key = (case map_of (rev (assignments [] (map (fst \<circ> snd) ls))) key of
          None \<Rightarrow> Inl (ConfigError (''missing config key: '' @ key) 0) | Some v \<Rightarrow> Inr v))
    \<and> (\<forall>key i. map_of (rev (assignments [] (map (fst \<circ> snd) ls))) key = Some (show_int i) \<and> - (2 ^ 63) \<le> i \<and> i < 2 ^ 63
          \<longrightarrow> get_int cfg key = Inr i)"
proof -
  obtain sect cfg where f: "fold apply_item (map (fst \<circ> snd) ls) ([], []) = (sect, cfg)" by fastforce
  have parse: "config_parse (config_file newline ls) = Inr cfg" using parse_config_file [OF assms, of newline] f by simp
  note meaning = items_meaning [OF map_wf_Nil f]
  have str: "get_string cfg key = (case map_of (rev (assignments [] (map (fst \<circ> snd) ls))) key of
      None \<Rightarrow> Inl (ConfigError (''missing config key: '' @ key) 0) | Some v \<Rightarrow> Inr v)" for key
    using meaning [of key] by (simp add: get_string_def split: option.splits)
  show ?thesis using parse meaning str get_int_shown by auto
qed

text \<open>
  C28: what a configuration file says.  Take any sequence of section headers, assignments, comments
  and blank lines, with any white space, each piece of its own, before and after a line, inside
  the brackets of a header and on either side of the equals sign, and with or without a newline
  after the last line.  The parser accepts the file, and a key then has the value of the last
  assignment to it in its section; a key that is never assigned is reported missing.  A value
  that is the decimal form of a 64-bit integer is read back as that integer.
\<close>

theorem config_round_trip:
  assumes "list_all cline_ok ls"
  shows "\<exists>cfg. config_parse (config_file newline ls) = Inr cfg \<and> map_wf (<) cfg
    \<and> (\<forall>key. get_string cfg key = (case map_of (rev (assignments [] (map (fst \<circ> snd) ls))) key of
          None \<Rightarrow> Inl (ConfigError (''missing config key: '' @ key) 0) | Some v \<Rightarrow> Inr v))
    \<and> (\<forall>key i. map_of (rev (assignments [] (map (fst \<circ> snd) ls))) key = Some (show_int i) \<and> - (2 ^ 63) \<le> i \<and> i < 2 ^ 63
          \<longrightarrow> get_int cfg key = Inr i)"
  using assms by (rule config_meaning)

text \<open>What makes a line faulty, and the message it gets.\<close>

fun faulty :: "bytes \<Rightarrow> bytes \<Rightarrow> bool" where
  "faulty t msg \<longleftrightarrow> trimmed t \<and> t \<noteq> [] \<and> hd t \<notin> {CHR ''#'', CHR '';''} \<and>
     (hd t = CHR ''['' \<and> last t \<noteq> CHR '']'' \<and> msg = ''unterminated section header: '' @ t
    \<or> (\<exists>p. pad_ok p \<and> t = ''['' @ p @ '']'') \<and> msg = ''empty section name''
    \<or> hd t \<noteq> CHR ''['' \<and> CHR ''='' \<notin> set t \<and> msg = ''expected '' @ [CHR 0x27] @ ''key = value'' @ [CHR 0x27] @ '': '' @ t
    \<or> hd t = CHR ''='' \<and> msg = ''empty key'')"

lemma parse_faulty:
  assumes "faulty t msg" "config_trim line = t"
  shows "parse_lines (line # rest) n sect cfg = Inl (ConfigError msg (n + 1))"
proof -
  have empty: "config_trim p = []" if "pad_ok p" for p
    using config_trim_pad [OF that pad_ok_Nil, of "[]"] by (simp add: trimmed_def)
  have eq0: "find_from t ''='' 0 = Some 0" if "hd t = CHR ''=''" "t \<noteq> []"
    using find_char [of "CHR ''=''" "[]" "tl t"] that by (metis append_Nil empty_iff list.collapse list.size(3) set_empty)
  have none: "find_from t ''='' 0 = None" if "CHR ''='' \<notin> set t" using find_char_none [OF that] .
  have t: "t \<noteq> []" "hd t \<notin> {CHR ''#'', CHR '';''}" using assms(1) by auto
  consider (unclosed) "hd t = CHR ''[''" "last t \<noteq> CHR '']''" "msg = ''unterminated section header: '' @ t"
    | (name) p where "pad_ok p" "t = ''['' @ p @ '']''" "msg = ''empty section name''"
    | (key) "hd t \<noteq> CHR ''[''" "CHR ''='' \<notin> set t" "msg = ''expected '' @ [CHR 0x27] @ ''key = value'' @ [CHR 0x27] @ '': '' @ t"
    | (nokey) "hd t = CHR ''=''" "msg = ''empty key''"
    using assms(1) unfolding faulty.simps by blast
  then show ?thesis
  proof cases
    case unclosed
    then show ?thesis using assms(2) t by simp
  next
    case name
    then have "config_trim (substr t 1 (length t - 2)) = []" using empty [of p] by (simp add: substr_def)
    then show ?thesis using assms(2) t name by simp
  next
    case key
    then show ?thesis using assms(2) t none by simp
  next
    case nokey
    have "config_trim [] = []" using empty [of "[]"] by simp
    then show ?thesis using assms(2) t nokey eq0 by (simp add: substr_def)
  qed
qed

text \<open>
  The line an error names.  When the first lines of a file are well formed and the next one is
  not -- an unterminated section header, an empty section name, a line with no equals sign, an
  assignment with no key -- the parser rejects the file with the message for that line and its
  1-based number, whatever follows.
\<close>

theorem config_error_line:
  assumes "list_all cline_ok ls" "faulty t msg" "pad_ok l" "pad_ok r"
  shows "config_parse (config_text ls @ l @ t @ r @ CHR 0x0A # rest) = Inl (ConfigError msg (length ls + 1))"
proof -
  have "CHR 0x0A \<notin> set (l @ t @ r)" using assms(2-4) by (auto simp: trimmed_def pad_ok_def)
  from getlines_line [OF this, of rest] have "getlines (l @ t @ r @ CHR 0x0A # rest) = (l @ t @ r) # getlines rest" by simp
  moreover have "config_trim (l @ t @ r) = t" using assms(2-4) by (intro config_trim_pad) auto
  ultimately show ?thesis
    using getlines_text [OF assms(1), of "l @ t @ r @ CHR 0x0A # rest"] parse_lines_items [OF assms(1), of "(l @ t @ r) # getlines rest" 0 "[]" "[]"]
      parse_faulty [OF assms(2), of "l @ t @ r"]
    by (simp add: config_parse_def del: parse_lines.simps split: prod.splits)
qed

section \<open>Witnesses\<close>

definition demo_lines :: "(bytes \<times> config_item \<times> bytes) list" where
  "demo_lines = [('' '', Comment CHR ''#'' ''demo'', []), ([], Sect [] ''server'' [], [CHR 0x0D]), ([CHR 0x09], Assign ''port'' '' '' '' '' ''1'', ''  ''),
     ([], Blank, []), ([], Assign ''port'' '' '' '' '' ''-80'', [])]"

lemma demo_lines_ok: "list_all cline_ok demo_lines"
  by code_simp

theorem config_round_trip_witness:
  "line_text (last demo_lines) = ''port = -80''
   \<and> (\<exists>cfg. config_parse (config_file False demo_lines) = Inr cfg \<and> get_int cfg ''server.port'' = Inr (- 80))"
proof -
  have "map_of (rev (assignments [] (map (fst \<circ> snd) demo_lines))) ''server.port'' = Some (show_int (- 80))"
    by code_simp
  then have "\<exists>cfg. config_parse (config_file False demo_lines) = Inr cfg \<and> get_int cfg ''server.port'' = Inr (- 80)"
    using config_round_trip [OF demo_lines_ok, of False] by fastforce
  then show ?thesis by (simp add: demo_lines_def)
qed

theorem config_error_line_witness:
  "config_parse (config_text demo_lines @ ''  [half'' @ CHR 0x0A # ''x = 1'') = Inl (ConfigError ''unterminated section header: [half'' 6)"
proof -
  have "faulty ''[half'' (''unterminated section header: '' @ ''[half'')" "pad_ok ''  ''" "pad_ok []" by (simp_all add: trimmed_def pad_ok_def blanks_def)
  from config_error_line [OF demo_lines_ok this, of "''x = 1''"] show ?thesis by (simp add: demo_lines_def)
qed

end
