(* ===== verification/Startup.thy ===== *)
theory Startup
  imports Engine Config_File
begin

text \<open>
  How a process gets from its command line to an engine: the model wrapper (\<open>core/model.cpp\<close>),
  the zero-configuration path (\<open>core/autoconfig.cpp\<close>) and the parts of \<open>main.cpp\<close> that
  compute -- the argument loops, the engine and server settings read from a configuration file,
  the settings of \<open>--best-of\<close>.  The file system, the download command and \<open>std::stof\<close> are
  arguments; log lines, signals and the chat loop on the terminal are not modelled.
\<close>

section \<open>Shared pieces\<close>

datatype startup_exn = OfEngine engine_exn | OfConfig config_error | OfConversion conv_error | OfLevel bytes

definition and_then :: "'e + 'a \<Rightarrow> ('a \<Rightarrow> 'e + 'b) \<Rightarrow> 'e + 'b" where
  "and_then r f = (case r of Inl e \<Rightarrow> Inl e | Inr x \<Rightarrow> f x)"

definition read_key :: "config_error + 'a \<Rightarrow> startup_exn + 'a" where
  "read_key r = (case r of Inl e \<Rightarrow> Inl (OfConfig e) | Inr x \<Rightarrow> Inr x)"

lemma and_then_simps [simp]: "and_then (Inl e) f = Inl e" "and_then (Inr x) f = f x"
  by (simp_all add: and_then_def)

lemma and_then_Inr: "and_then r f = Inr y \<longleftrightarrow> (\<exists>x. r = Inr x \<and> f x = Inr y)"
  by (cases r) auto

lemma read_key_Inr [simp]: "read_key r = Inr x \<longleftrightarrow> r = Inr x"
  by (cases r) (auto simp: read_key_def)

text \<open>\<open>static_cast\<close> to a 32-bit signed integer.\<close>

definition to_int32 :: "int \<Rightarrow> int" where
  "to_int32 i = sint (word_of_int i :: 32 word)"

lemma to_int32_id: "- (2 ^ 31) \<le> i \<Longrightarrow> i < 2 ^ 31 \<Longrightarrow> to_int32 i = i"
  by (simp add: to_int32_def sint_sbintrunc' signed_take_bit_int_eq_self)

lemma to_int32_range: "- (2 ^ 31) \<le> to_int32 i \<and> to_int32 i < 2 ^ 31"
  using sint_range_size [of "word_of_int i :: 32 word"] by (simp add: to_int32_def word_size)

lemma to_int32_cong: "to_int32 i mod 2 ^ 32 = i mod 2 ^ 32"
proof -
  have "take_bit 32 (to_int32 i) = take_bit 32 i"
    by (simp add: to_int32_def sint_sbintrunc' take_bit_signed_take_bit)
  then show ?thesis by (simp add: take_bit_eq_mod)
qed

section \<open>The model wrapper\<close>

definition validate_params :: "model_params \<Rightarrow> engine_exn option" where
  "validate_params p =
     (if mp_path p = [] then Some (ModelError ''model path is empty'')
      else if mp_context_length p \<le> 0
        then Some (ModelError (''context_length must be positive, got '' @ show_int (mp_context_length p)))
      else if mp_threads p \<le> 0 then Some (ModelError (''threads must be positive, got '' @ show_int (mp_threads p)))
      else None)"

definition default_threads :: "u32 \<Rightarrow> int" where
  "default_threads hw = (if hw = 0 then 1 else to_int32 (uint hw))"

definition from_config :: "u32 \<Rightarrow> config \<Rightarrow> startup_exn + model_params" where
  "from_config hw cfg =
     (case get_string cfg ''model.path'' of
        Inl _ \<Rightarrow> Inl (OfEngine (ModelError (''config key '' @ [CHR 0x27] @ ''model.path'' @ [CHR 0x27] @ '' is required to load a model'')))
      | Inr path \<Rightarrow>
          and_then (read_key (get_int_or cfg ''model.context_length'' 4096)) (\<lambda>ctx.
          and_then (read_key (get_int_or cfg ''model.threads'' (default_threads hw))) (\<lambda>threads.
          and_then (read_key (get_bool_or cfg ''memory.use_mmap'' True)) (\<lambda>mmap.
          and_then (read_key (get_bool_or cfg ''memory.use_mlock'' False)) (\<lambda>mlock.
          and_then (read_key (get_string_or cfg ''memory.kv_cache_type'' ''f16'')) (\<lambda>kv.
            if kv \<noteq> ''f16'' \<and> kv \<noteq> ''q8_0'' \<and> kv \<noteq> ''q4_0''
            then Inl (OfEngine (ModelError (''memory.kv_cache_type must be f16, q8_0 or q4_0, got '' @ [CHR 0x27] @ kv @ [CHR 0x27])))
            else Inr \<lparr>mp_path = path, mp_context_length = to_int32 ctx, mp_threads = to_int32 threads,
                      mp_use_mmap = mmap, mp_use_mlock = mlock, mp_kv_cache_type = kv, mp_n_seq_max = 1, mp_n_ubatch = 0\<rparr>))))))"

definition model_new :: "model_params \<Rightarrow> 'b option \<Rightarrow> engine_exn + 'b" where
  "model_new p backend =
     (case validate_params p of Some e \<Rightarrow> Inl e
      | None \<Rightarrow> (case backend of None \<Rightarrow> Inl (ModelError ''backend is null'') | Some b \<Rightarrow> Inr b))"

definition model_load :: "(model_params \<Rightarrow> engine_exn + 'b) \<Rightarrow> model_params \<Rightarrow> engine_exn + 'b" where
  "model_load make_llama_backend p =
     (case validate_params p of Some e \<Rightarrow> Inl e
      | None \<Rightarrow> and_then (make_llama_backend p) (\<lambda>b. model_new p (Some b)))"

definition model_tokenize :: "'b backend_ops \<Rightarrow> bytes \<Rightarrow> bool \<Rightarrow> 'b \<Rightarrow> engine_exn + token list" where
  "model_tokenize ops txt add_special b = bo_tokenize ops txt add_special b"

definition model_detokenize :: "'b backend_ops \<Rightarrow> token list \<Rightarrow> 'b \<Rightarrow> engine_exn + bytes" where
  "model_detokenize ops tokens b =
     (if tokens = [] then Inr []
      else let n_vocab = bo_vocab_size ops b
           in case find (\<lambda>t. sint t < 0 \<or> n_vocab \<le> sint t) tokens of
                Some t \<Rightarrow> Inl (ModelError (''token id '' @ show_int (sint t) @ '' out of range [0, '' @ show_int n_vocab @ '')''))
              | None \<Rightarrow> bo_detokenize ops tokens b)"

definition model_forward :: "'b backend_ops \<Rightarrow> token list \<Rightarrow> 'b \<Rightarrow> (engine_exn + logits) \<times> 'b" where
  "model_forward ops tokens b =
     (if tokens = [] then (Inl (ModelError ''forward pass requires at least one token''), b)
      else let n_ctx = bo_context_length ops b
           in if n_ctx < length tokens
              then (Inl (ModelError (''input of '' @ show_nat (length tokens) @ '' tokens exceeds context length '' @ show_nat n_ctx)), b)
              else case bo_decode ops tokens b of
                     (Inl e, b') \<Rightarrow> (Inl e, b')
                   | (Inr ls, b') \<Rightarrow>
                       (let n_vocab = nat (bo_vocab_size ops b')
                        in if length ls \<noteq> n_vocab
                           then (Inl (ModelError (''backend returned '' @ show_nat (length ls) @ '' logits, expected vocab size '' @ show_nat n_vocab)), b')
                           else (Inr ls, b')))"

definition model_vocab_size :: "'b backend_ops \<Rightarrow> 'b \<Rightarrow> int" where
  "model_vocab_size ops b = bo_vocab_size ops b"

definition model_context_length :: "'b backend_ops \<Rightarrow> 'b \<Rightarrow> nat" where
  "model_context_length ops b = bo_context_length ops b"

section \<open>Zero configuration\<close>

record model_spec =
  ms_name :: bytes
  ms_url :: bytes
  ms_filename :: bytes
  ms_default_ctx :: int
  ms_note :: bytes

text \<open>The notes contain a middle dot, two bytes of UTF-8.\<close>

definition mid_dot :: bytes where
  "mid_dot = [CHR 0xC2, CHR 0xB7]"

definition model_catalog :: "model_spec list" where
  "model_catalog =
     [\<lparr>ms_name = ''tinyllama'',
       ms_url = ''https://huggingface.co/TheBloke/TinyLlama-1.1B-Chat-v1.0-GGUF/'' @ ''resolve/main/tinyllama-1.1b-chat-v1.0.Q4_K_M.gguf'',
       ms_filename = ''tinyllama-1.1b-chat-v1.0.Q4_K_M.gguf'', ms_default_ctx = 2048,
       ms_note = ''1.1B '' @ mid_dot @ '' ~670 MB '' @ mid_dot @ '' fast, basic quality''\<rparr>,
      \<lparr>ms_name = ''qwen2.5-0.5b'',
       ms_url = ''https://huggingface.co/Qwen/Qwen2.5-0.5B-Instruct-GGUF/resolve/'' @ ''main/qwen2.5-0.5b-instruct-q4_k_m.gguf'',
       ms_filename = ''qwen2.5-0.5b-instruct-q4_k_m.gguf'', ms_default_ctx = 4096,
       ms_note = ''0.5B '' @ mid_dot @ '' ~400 MB '' @ mid_dot @ '' very fast, tiny''\<rparr>,
      \<lparr>ms_name = ''qwen2.5-1.5b'',
       ms_url = ''https://huggingface.co/Qwen/Qwen2.5-1.5B-Instruct-GGUF/resolve/'' @ ''main/qwen2.5-1.5b-instruct-q4_k_m.gguf'',
       ms_filename = ''qwen2.5-1.5b-instruct-q4_k_m.gguf'', ms_default_ctx = 4096,
       ms_note = ''1.5B '' @ mid_dot @ '' ~1 GB '' @ mid_dot @ '' good default on a laptop''\<rparr>,
      \<lparr>ms_name = ''qwen2.5-3b'',
       ms_url = ''https://huggingface.co/Qwen/Qwen2.5-3B-Instruct-GGUF/resolve/'' @ ''main/qwen2.5-3b-instruct-q4_k_m.gguf'',
       ms_filename = ''qwen2.5-3b-instruct-q4_k_m.gguf'', ms_default_ctx = 4096,
       ms_note = ''3B '' @ mid_dot @ '' ~2 GB '' @ mid_dot @ '' stronger, still light''\<rparr>,
      \<lparr>ms_name = ''olmoe'',
       ms_url = ''https://huggingface.co/bartowski/OLMoE-1B-7B-0924-Instruct-GGUF/'' @ ''resolve/main/OLMoE-1B-7B-0924-Instruct-Q4_K_M.gguf'',
       ms_filename = ''olmoe-1b-7b-instruct-q4_k_m.gguf'', ms_default_ctx = 4096,
       ms_note = ''7B MoE, 1B active '' @ mid_dot @ '' ~4.3 GB '' @ mid_dot @ '' 7B-class extraction at ~5x the '' @ ''speed of a dense 7B''\<rparr>,
      \<lparr>ms_name = ''qwen3.5-9b'',
       ms_url = ''https://huggingface.co/unsloth/Qwen3.5-9B-GGUF/resolve/'' @ ''main/Qwen3.5-9B-Q4_K_M.gguf'',
       ms_filename = ''qwen3.5-9b-q4_k_m.gguf'', ms_default_ctx = 8192,
       ms_note = ''9B '' @ mid_dot @ '' ~5.3 GB '' @ mid_dot @ '' the judgment pick: audits and reviews measured '' @ ''right where smaller models invent findings''\<rparr>]"

text \<open>\<open>s.rfind(t, 0) == 0\<close>: \<open>t\<close> is a prefix of \<open>s\<close>.\<close>

definition starts_with :: "bytes \<Rightarrow> bytes \<Rightarrow> bool" where
  "starts_with s t \<longleftrightarrow> take (length t) s = t"

fun prefix_scan :: "bytes \<Rightarrow> model_spec list \<Rightarrow> model_spec option \<Rightarrow> model_spec option" where
  "prefix_scan t [] found = found"
| "prefix_scan t (m # ms) found =
     (if starts_with (to_lower (ms_name m)) t
      then (if found \<noteq> None then None else prefix_scan t ms (Some m))
      else prefix_scan t ms found)"

definition resolve_in :: "model_spec list \<Rightarrow> bytes \<Rightarrow> model_spec option" where
  "resolve_in cat token =
     (let t = to_lower token in
      case find (\<lambda>m. to_lower (ms_name m) = t) cat of
        Some m \<Rightarrow> Some m
      | None \<Rightarrow> prefix_scan t cat None)"

definition resolve_model :: "bytes \<Rightarrow> model_spec option" where
  "resolve_model token = resolve_in model_catalog token"

definition auto_threads :: "u32 \<Rightarrow> int" where
  "auto_threads hw =
     (if hw = 0 then 1 else if hw \<le> 4 then to_int32 (uint hw) else to_int32 (uint hw) - 1)"

definition rfind_char :: "char \<Rightarrow> bytes \<Rightarrow> nat option" where
  "rfind_char c s = (if c \<in> set s then Some (length s - 1 - length (takeWhile (\<lambda>x. x \<noteq> c) (rev s))) else None)"

definition default_engine_config :: engine_config where
  "default_engine_config =
     \<lparr>ec_model_path = [], ec_draft_model_path = [], ec_n_ctx = 8192, ec_n_threads = 18, ec_use_mmap = True,
      ec_use_mlock = False, ec_kv_cache_type = ''f16'', ec_n_ubatch = 0, ec_use_speculative = True,
      ec_use_prompt_lookup = False, ec_draft_tokens = 16, ec_cache_dir = [], ec_cache_max_mb = 512,
      ec_cache_compress = True, ec_cache_block_tokens = 256, ec_n_parallel = 1\<rparr>"

definition auto_config :: "bytes \<Rightarrow> bytes \<Rightarrow> u32 \<Rightarrow> int \<Rightarrow> engine_config" where
  "auto_config model_path home hw ctx =
     (let base = (if home \<noteq> [] then home @ ''/.reame''
                  else let dir = (case rfind_char CHR ''/'' model_path of None \<Rightarrow> [] | Some slash \<Rightarrow> substr model_path 0 slash)
                       in (if dir = [] then ''.'' else dir) @ ''/.reame'')
      in default_engine_config\<lparr>ec_model_path := model_path, ec_n_threads := auto_threads hw,
           ec_n_ctx := (if 0 < ctx then ctx else 4096), ec_kv_cache_type := ''q8_0'', ec_use_speculative := True,
           ec_use_prompt_lookup := True, ec_cache_dir := base @ ''/cache''\<rparr>)"


section \<open>The command line\<close>

record cli =
  cl_config_path :: bytes
  cl_prompt :: bytes
  cl_max_tokens :: int
  cl_temperature :: real
  cl_best_of :: int
  cl_serve :: bool

definition cli_default :: cli where
  "cli_default = \<lparr>cl_config_path = ''config/reame.conf'', cl_prompt = [], cl_max_tokens = 128,
     cl_temperature = 7/10, cl_best_of = 1, cl_serve = False\<rparr>"

text \<open>
  How the argument loop ends.  The conversions stand outside the \<open>try\<close> block of \<open>main\<close>: a
  value they reject is an exception nobody catches.
\<close>

datatype cli_result = HelpShown | VersionShown | NeedsArgument bytes | UnknownArgument bytes
  | Uncaught conv_error | Parsed cli

definition takes_value :: "bytes \<Rightarrow> bool" where
  "takes_value arg \<longleftrightarrow> arg \<in> {''--config'', ''-c'', ''--prompt'', ''-p'', ''--max-tokens'', ''--temp'', ''--best-of''}"

definition set_option :: "(bytes \<Rightarrow> conv_error + real \<times> nat) \<Rightarrow> bytes \<Rightarrow> bytes \<Rightarrow> cli \<Rightarrow> conv_error + cli" where
  "set_option stof arg v c =
     (if arg = ''--config'' \<or> arg = ''-c'' then Inr (c\<lparr>cl_config_path := v\<rparr>)
      else if arg = ''--max-tokens'' then and_then (stoi v) (\<lambda>(n, _). Inr (c\<lparr>cl_max_tokens := n\<rparr>))
      else if arg = ''--temp'' then and_then (stof v) (\<lambda>(x, _). Inr (c\<lparr>cl_temperature := x\<rparr>))
      else if arg = ''--best-of'' then and_then (stoi v) (\<lambda>(n, _). Inr (c\<lparr>cl_best_of := n\<rparr>))
      else Inr (c\<lparr>cl_prompt := v\<rparr>))"

fun parse_args :: "(bytes \<Rightarrow> conv_error + real \<times> nat) \<Rightarrow> bytes list \<Rightarrow> cli \<Rightarrow> cli_result" where
  "parse_args stof [] c = Parsed c"
| "parse_args stof (arg # rest) c =
     (if arg = ''--help'' \<or> arg = ''-h'' then HelpShown
      else if arg = ''--serve'' \<or> arg = ''-s'' then parse_args stof rest (c\<lparr>cl_serve := True\<rparr>)
      else if arg = ''--version'' \<or> arg = ''-v'' then VersionShown
      else if takes_value arg then
        (case rest of
           [] \<Rightarrow> NeedsArgument arg
         | v # rest' \<Rightarrow> (case set_option stof arg v c of Inl e \<Rightarrow> Uncaught e | Inr c' \<Rightarrow> parse_args stof rest' c'))
      else UnknownArgument arg)"

section \<open>Settings from a configuration file\<close>

definition file_engine_config :: "config \<Rightarrow> startup_exn + engine_config" where
  "file_engine_config cfg =
     and_then (read_key (get_string cfg ''model.path'')) (\<lambda>path.
     and_then (read_key (get_int_or cfg ''model.context_length'' 4096)) (\<lambda>ctx.
     and_then (read_key (get_int_or cfg ''model.threads'' 4)) (\<lambda>threads.
     and_then (read_key (get_bool_or cfg ''memory.use_mmap'' True)) (\<lambda>mmap.
     and_then (read_key (get_bool_or cfg ''memory.use_mlock'' False)) (\<lambda>mlock.
     and_then (read_key (get_string_or cfg ''memory.kv_cache_type'' ''f16'')) (\<lambda>kv.
     and_then (read_key (get_int_or cfg ''model.ubatch'' 0)) (\<lambda>ubatch.
     and_then (read_key (get_bool_or cfg ''speculative.enabled'' True)) (\<lambda>spec.
     and_then (read_key (get_string_or cfg ''speculative.mode'' ''model'')) (\<lambda>mode.
     and_then (read_key (get_string_or cfg ''speculative.draft_model_path'' [])) (\<lambda>draft_path.
     and_then (read_key (get_int_or cfg ''speculative.draft_tokens'' 16)) (\<lambda>draft_tokens.
     and_then (read_key (get_string_or cfg ''cache.directory'' [])) (\<lambda>dir.
     and_then (read_key (get_int_or cfg ''cache.max_size_mb'' 512)) (\<lambda>mb.
     and_then (read_key (get_bool_or cfg ''cache.compress'' True)) (\<lambda>compress.
     and_then (read_key (get_int_or cfg ''cache.block_tokens'' 256)) (\<lambda>block.
     and_then (read_key (get_int_or cfg ''server.parallel'' 1)) (\<lambda>par.
     Inr \<lparr>ec_model_path = path, ec_draft_model_path = draft_path, ec_n_ctx = to_int32 ctx, ec_n_threads = to_int32 threads,
          ec_use_mmap = mmap, ec_use_mlock = mlock, ec_kv_cache_type = kv, ec_n_ubatch = to_int32 ubatch,
          ec_use_speculative = spec, ec_use_prompt_lookup = (mode = ''lookup''), ec_draft_tokens = to_int32 draft_tokens,
          ec_cache_dir = dir, ec_cache_max_mb = word_of_int mb, ec_cache_compress = compress,
          ec_cache_block_tokens = to_int32 block, ec_n_parallel = to_int32 par\<rparr>))))))))))))))))"

text \<open>The settings \<open>--best-of\<close> forces; \<open>None\<close> where the product overflows a signed \<open>int\<close>.\<close>

definition apply_best_of :: "int \<Rightarrow> engine_config \<Rightarrow> engine_config option" where
  "apply_best_of n c =
     (if 1 < n then
        (if ec_n_ctx c * n < - (2 ^ 31) \<or> 2 ^ 31 \<le> ec_n_ctx c * n then None
         else Some (c\<lparr>ec_n_parallel := n, ec_n_ctx := ec_n_ctx c * n, ec_use_speculative := False,
                      ec_use_prompt_lookup := False, ec_cache_dir := []\<rparr>))
      else Some c)"

text \<open>\<open>[arca] remote = host:port\<close>: the client's host and port, when there is a remote.\<close>

definition arca_remote :: "config \<Rightarrow> startup_exn + (bytes \<times> int) option" where
  "arca_remote cfg =
     and_then (read_key (get_string_or cfg ''arca.remote'' [])) (\<lambda>remote.
       if remote = [] then Inr None
       else case rfind_char CHR '':'' remote of
              None \<Rightarrow> Inr (Some (remote, 6420))
            | Some colon \<Rightarrow> (case stoi (drop (colon + 1) remote) of
                  Inl e \<Rightarrow> Inl (OfConversion e)
                | Inr (port, _) \<Rightarrow> Inr (Some (substr remote 0 colon, port))))"

record server_config =
  sc_host :: bytes
  sc_port :: int
  sc_threads :: int
  sc_max_concurrent_requests :: int
  sc_timeout_seconds :: int
  sc_max_request_size_mb :: u64
  sc_enable_cors :: bool
  sc_enable_metrics :: bool
  sc_enable_request_logging :: bool
  sc_api_key :: bytes
  sc_model_id :: bytes

definition file_server_config :: "config \<Rightarrow> startup_exn + server_config" where
  "file_server_config cfg =
     and_then (read_key (get_string_or cfg ''server.host'' ''0.0.0.0'')) (\<lambda>host.
     and_then (read_key (get_int_or cfg ''server.port'' 8080)) (\<lambda>port.
     and_then (read_key (get_int_or cfg ''server.threads'' 2)) (\<lambda>threads.
     and_then (read_key (get_int_or cfg ''server.max_concurrent_requests'' 10)) (\<lambda>concurrent.
     and_then (read_key (get_int_or cfg ''server.timeout_seconds'' 300)) (\<lambda>timeout.
     and_then (read_key (get_int_or cfg ''server.max_request_size_mb'' 10)) (\<lambda>mb.
     and_then (read_key (get_bool_or cfg ''server.enable_cors'' True)) (\<lambda>cors.
     and_then (read_key (get_bool_or cfg ''server.enable_metrics'' True)) (\<lambda>metrics.
     and_then (read_key (get_bool_or cfg ''server.enable_request_logging'' True)) (\<lambda>logging.
     and_then (read_key (get_string_or cfg ''server.api_key'' [])) (\<lambda>key.
     and_then (read_key (get_string_or cfg ''server.model_id'' ''reame'')) (\<lambda>ident.
     Inr \<lparr>sc_host = host, sc_port = to_int32 port, sc_threads = to_int32 threads,
          sc_max_concurrent_requests = to_int32 concurrent, sc_timeout_seconds = to_int32 timeout,
          sc_max_request_size_mb = word_of_int mb, sc_enable_cors = cors, sc_enable_metrics = metrics,
          sc_enable_request_logging = logging, sc_api_key = key, sc_model_id = ident\<rparr>)))))))))))"

text \<open>
  What \<open>main\<close> decides before it loads a model.  A failed conversion or an overflow of the
  context size is outside what the program defines.
\<close>

datatype 'a start = Exit bool | Aborts | Start 'a engine_config "(bytes \<times> int) option"

definition main_start :: "(bytes \<Rightarrow> conv_error + real \<times> nat) \<Rightarrow> (bytes \<Rightarrow> bytes option) \<Rightarrow> (bytes \<Rightarrow> bool) \<Rightarrow> bytes list \<Rightarrow> cli start" where
  "main_start stof fs file_exists args =
     (case parse_args stof args cli_default of
        HelpShown \<Rightarrow> Exit True
      | VersionShown \<Rightarrow> Exit True
      | NeedsArgument _ \<Rightarrow> Exit False
      | UnknownArgument _ \<Rightarrow> Exit False
      | Uncaught _ \<Rightarrow> Aborts
      | Parsed c \<Rightarrow>
          (case and_then (read_key (config_load fs (cl_config_path c))) (\<lambda>cfg.
                and_then (read_key (get_string_or cfg ''logging.level'' ''info'')) (\<lambda>name.
                and_then (case level_from_string name of Inl e \<Rightarrow> Inl (OfLevel e) | Inr l \<Rightarrow> Inr l) (\<lambda>_.
                and_then (read_key (get_string_or cfg ''model.path'' ''<unset>'')) (\<lambda>_.
                and_then (read_key (get_int_or cfg ''server.port'' 8080)) (\<lambda>_. Inr cfg))))) of
             Inl _ \<Rightarrow> Exit False
           | Inr cfg \<Rightarrow>
               if cl_prompt c = [] \<and> \<not> cl_serve c then Exit True
               else case file_engine_config cfg of
                 Inl _ \<Rightarrow> Exit False
               | Inr ec0 \<Rightarrow>
                   (case apply_best_of (cl_best_of c) ec0 of
                      None \<Rightarrow> Aborts
                    | Some ec \<Rightarrow>
                        (case arca_remote cfg of
                           Inl _ \<Rightarrow> Exit False
                         | Inr remote \<Rightarrow>
                             if missing_model_file_error file_exists ec \<noteq> [] then Exit False
                             else Start c ec remote))))"

section \<open>The \<open>run\<close> command\<close>

record run_args =
  ra_prompt :: bytes
  ra_serve :: bool
  ra_max_tokens :: int
  ra_temperature :: real
  ra_best_of :: int

definition run_default :: run_args where
  "run_default = \<lparr>ra_prompt = [], ra_serve = False, ra_max_tokens = 512, ra_temperature = 7/10, ra_best_of = 1\<rparr>"

definition set_run_option :: "(bytes \<Rightarrow> conv_error + real \<times> nat) \<Rightarrow> bytes \<Rightarrow> bytes \<Rightarrow> run_args \<Rightarrow> conv_error + run_args" where
  "set_run_option stof a v r =
     (if a = ''--max-tokens'' then and_then (stoi v) (\<lambda>(n, _). Inr (r\<lparr>ra_max_tokens := n\<rparr>))
      else if a = ''--temp'' then and_then (stof v) (\<lambda>(x, _). Inr (r\<lparr>ra_temperature := x\<rparr>))
      else and_then (stoi v) (\<lambda>(n, _). Inr (r\<lparr>ra_best_of := n\<rparr>)))"

fun parse_run_args :: "(bytes \<Rightarrow> conv_error + real \<times> nat) \<Rightarrow> bytes list \<Rightarrow> run_args \<Rightarrow> conv_error + run_args" where
  "parse_run_args stof [] r = Inr r"
| "parse_run_args stof (a # rest) r =
     (if a = ''--serve'' then parse_run_args stof rest (r\<lparr>ra_serve := True\<rparr>)
      else if a \<in> {''--max-tokens'', ''--temp'', ''--best-of''} \<and> rest \<noteq> [] then
        (case set_run_option stof a (hd rest) r of
           Inl e \<Rightarrow> Inl e
         | Inr r' \<Rightarrow> parse_run_args stof (tl rest) r')
      else parse_run_args stof rest (if ra_prompt r = [] then r\<lparr>ra_prompt := a\<rparr> else r))"

datatype fs_effect = MakeParentDirs bytes | RunCommand bytes | RemoveFile bytes | RenameFile bytes bytes

definition ensure_downloaded :: "(bytes \<Rightarrow> bool) \<Rightarrow> (bytes \<Rightarrow> int) \<Rightarrow> bytes \<Rightarrow> bytes \<Rightarrow> bool \<times> fs_effect list" where
  "ensure_downloaded file_exists system_rc url dest =
     (if file_exists dest then (True, [])
      else let tmp = dest @ ''.part'';
               q = [CHR 0x27];
               cmd = ''curl -L -C - --fail --progress-bar -o '' @ q @ tmp @ q @ '' '' @ q @ url @ q
           in if system_rc cmd \<noteq> 0 then (False, [MakeParentDirs dest, RunCommand cmd, RemoveFile tmp])
              else (True, [MakeParentDirs dest, RunCommand cmd, RenameFile tmp dest]))"

definition zero_start :: "(bytes \<Rightarrow> bool) \<Rightarrow> (bytes \<Rightarrow> int) \<Rightarrow> bytes \<Rightarrow> u32 \<Rightarrow> bytes \<Rightarrow> run_args \<Rightarrow> run_args start \<times> fs_effect list" where
  "zero_start file_exists system_rc home hw token r =
     (let spec = resolve_model token;
          path = (case spec of
              Some m \<Rightarrow> (let p = home @ ''/.reame/models'' @ ''/'' @ ms_filename m
                          in case ensure_downloaded file_exists system_rc (ms_url m) p of (ok, fx) \<Rightarrow> (if ok then Some p else None, fx))
            | None \<Rightarrow> (if file_exists token then Some token else None, []))
      in case path of
           (None, fx) \<Rightarrow> (Exit False, fx)
         | (Some p, fx) \<Rightarrow>
             (case apply_best_of (ra_best_of r) (auto_config p home hw (case spec of Some m \<Rightarrow> ms_default_ctx m | None \<Rightarrow> 0)) of
                None \<Rightarrow> (Aborts, fx)
              | Some ec \<Rightarrow> (Start r ec None, fx)))"


section \<open>The \<open>arca\<close> command\<close>

text \<open>\<open>std::stoull\<close>: like \<open>strtoull\<close>, but no digit or a magnitude beyond 64 bits is an exception.\<close>

definition stoull :: "bytes \<Rightarrow> conv_error + u64" where
  "stoull s =
     (let t = dropWhile isspace s;
          u = (if t \<noteq> [] \<and> (hd t = CHR ''-'' \<or> hd t = CHR ''+'') then tl t else t);
          ds = takeWhile isdigit u
      in if ds = [] then Inl InvalidArgument
         else if 2 ^ 64 \<le> read_nat ds then Inl OutOfRange
         else Inr (of_nat (strtoull s)))"

record arca_args =
  aa_port :: int
  aa_directory :: bytes
  aa_max_bytes :: u64

fun parse_arca_args :: "bytes list \<Rightarrow> arca_args \<Rightarrow> conv_error + arca_args" where
  "parse_arca_args [] c = Inr c"
| "parse_arca_args [a] c = Inr c"
| "parse_arca_args (a # v # rest) c =
     (if a = ''--port'' then and_then (stoi v) (\<lambda>(n, _). parse_arca_args rest (c\<lparr>aa_port := n\<rparr>))
      else if a = ''--dir'' then parse_arca_args rest (c\<lparr>aa_directory := v\<rparr>)
      else if a = ''--max-mb'' then and_then (stoull v) (\<lambda>n. parse_arca_args rest (c\<lparr>aa_max_bytes := n * 1024 * 1024\<rparr>))
      else parse_arca_args (v # rest) c)"

section \<open>Correctness\<close>

subsection \<open>The model wrapper\<close>

text \<open>
  C40: what a forward pass of the model wrapper returns.  If it succeeds, the input was not empty
  and fits the context, and the result is the model's output after exactly these tokens from a fresh
  start, with one entry for each token of the vocabulary, whatever the backend was doing before.
\<close>

theorem model_forward_fresh:
  assumes "llama_model_ok api toks model" "model_forward (real_ops api) tokens b = (Inr ls, b')"
  shows "tokens \<noteq> [] \<and> length tokens \<le> bo_context_length (real_ops api) b \<and> ls = model tokens
    \<and> length ls = nat (bo_vocab_size (real_ops api) b')"
proof -
  have dec: "tokens \<noteq> []" "length tokens \<le> bo_context_length (real_ops api) b" "bo_decode (real_ops api) tokens b = (Inr ls, b')"
    "length ls = nat (bo_vocab_size (real_ops api) b')"
    using assms(2) by (auto simp: model_forward_def Let_def split: if_splits prod.splits sum.splits)
  with model_backend.decode_logits [OF real_backend_model [OF assms(1)] dec(3)] show ?thesis by simp
qed

subsection \<open>The catalog\<close>

lemma prefix_scan_filter:
  "prefix_scan t ms found = (case filter (\<lambda>m. starts_with (to_lower (ms_name m)) t) ms of
     [] \<Rightarrow> found | [m] \<Rightarrow> (if found = None then Some m else None) | _ \<Rightarrow> None)"
  by (induction ms arbitrary: found) (auto split: list.splits)

lemma filter_single:
  "distinct xs \<Longrightarrow> filter P xs = [x] \<longleftrightarrow> x \<in> set xs \<and> P x \<and> (\<forall>y\<in>set xs. P y \<longrightarrow> y = x)"
proof (induction xs)
  case (Cons a xs)
  have "filter P xs = [] \<longleftrightarrow> (\<forall>y\<in>set xs. \<not> P y)" by (simp add: filter_empty_conv)
  with Cons show ?case by auto
qed simp

lemma resolve_in_iff:
  assumes "distinct (map (to_lower \<circ> ms_name) cat)"
  shows "resolve_in cat token = Some m \<longleftrightarrow> m \<in> set cat \<and>
    (to_lower (ms_name m) = to_lower token
     \<or> starts_with (to_lower (ms_name m)) (to_lower token)
       \<and> (\<forall>m'\<in>set cat. starts_with (to_lower (ms_name m')) (to_lower token) \<longrightarrow> m' = m))"
proof -
  let ?t = "to_lower token"
  have inj: "m1 = m2" if "m1 \<in> set cat" "m2 \<in> set cat" "to_lower (ms_name m1) = to_lower (ms_name m2)" for m1 m2
    using assms that by (simp add: distinct_map inj_on_def)
  have dist: "distinct cat" using assms distinct_map by blast
  have exact: "starts_with (to_lower (ms_name m')) ?t" if "to_lower (ms_name m') = ?t" for m'
    using that by (simp add: starts_with_def)
  show ?thesis
  proof (cases "find (\<lambda>m. to_lower (ms_name m) = ?t) cat")
    case None
    then have "\<forall>m'\<in>set cat. to_lower (ms_name m') \<noteq> ?t" by (simp add: find_None_iff)
    moreover have "resolve_in cat token = Some m \<longleftrightarrow> filter (\<lambda>m. starts_with (to_lower (ms_name m)) ?t) cat = [m]"
      using None by (auto simp: resolve_in_def prefix_scan_filter split: list.splits)
    ultimately show ?thesis using filter_single [OF dist] by auto
  next
    case (Some m0)
    then have m0: "m0 \<in> set cat" "to_lower (ms_name m0) = ?t" using find_SomeD by fast+
    then have "resolve_in cat token = Some m \<longleftrightarrow> m = m0" using Some by (auto simp: resolve_in_def)
    then show ?thesis using m0 inj exact by metis
  qed
qed

lemma catalog_names: "distinct (map (to_lower \<circ> ms_name) model_catalog)"
  by code_simp

lemma catalog_ctx: "m \<in> set model_catalog \<Longrightarrow> 0 < ms_default_ctx m \<and> ms_filename m \<noteq> []"
  by (auto simp: model_catalog_def)

text \<open>
  How a model name is resolved.  A name stands for a model of the catalog exactly when, case
  ignored, it is that model's name or it is a prefix of that model's name and of no other.
\<close>

theorem resolve_model_unambiguous:
  "resolve_model token = Some m \<longleftrightarrow> m \<in> set model_catalog \<and>
    (to_lower (ms_name m) = to_lower token
     \<or> starts_with (to_lower (ms_name m)) (to_lower token)
       \<and> (\<forall>m'\<in>set model_catalog. starts_with (to_lower (ms_name m')) (to_lower token) \<longrightarrow> m' = m))"
  unfolding resolve_model_def by (rule resolve_in_iff [OF catalog_names])


subsection \<open>The command line\<close>

datatype cli_opt = OConfig bytes | OPrompt bytes | OMaxTokens int | OTemp bytes | OBestOf int | OServe

fun opt_args :: "bool \<Rightarrow> cli_opt \<Rightarrow> bytes list" where
  "opt_args long (OConfig v) = [if long then ''--config'' else ''-c'', v]"
| "opt_args long (OPrompt v) = [if long then ''--prompt'' else ''-p'', v]"
| "opt_args long (OMaxTokens n) = [''--max-tokens'', show_int n]"
| "opt_args long (OTemp v) = [''--temp'', v]"
| "opt_args long (OBestOf n) = [''--best-of'', show_int n]"
| "opt_args long OServe = [if long then ''--serve'' else ''-s'']"

fun opt_ok :: "(bytes \<Rightarrow> conv_error + real \<times> nat) \<Rightarrow> cli_opt \<Rightarrow> bool" where
  "opt_ok stof (OMaxTokens n) = (- (2 ^ 31) \<le> n \<and> n < 2 ^ 31)"
| "opt_ok stof (OBestOf n) = (- (2 ^ 31) \<le> n \<and> n < 2 ^ 31)"
| "opt_ok stof (OTemp v) = (case stof v of Inl _ \<Rightarrow> False | Inr _ \<Rightarrow> True)"
| "opt_ok stof _ = True"

fun opt_sets :: "(bytes \<Rightarrow> conv_error + real \<times> nat) \<Rightarrow> cli_opt \<Rightarrow> cli \<Rightarrow> cli" where
  "opt_sets stof (OConfig v) c = c\<lparr>cl_config_path := v\<rparr>"
| "opt_sets stof (OPrompt v) c = c\<lparr>cl_prompt := v\<rparr>"
| "opt_sets stof (OMaxTokens n) c = c\<lparr>cl_max_tokens := n\<rparr>"
| "opt_sets stof (OTemp v) c = c\<lparr>cl_temperature := fst (projr (stof v))\<rparr>"
| "opt_sets stof (OBestOf n) c = c\<lparr>cl_best_of := n\<rparr>"
| "opt_sets stof OServe c = c\<lparr>cl_serve := True\<rparr>"

lemma parse_one_opt:
  assumes "opt_ok stof x"
  shows "parse_args stof (opt_args long x @ rest) c = parse_args stof rest (opt_sets stof x c)"
proof (cases x)
  case (OMaxTokens n)
  then have "stoi (show_int n) = Inr (n, length (show_int n))" using assms by (intro show_int_read) auto
  then show ?thesis by (simp add: OMaxTokens takes_value_def set_option_def)
next
  case (OBestOf n)
  then have "stoi (show_int n) = Inr (n, length (show_int n))" using assms by (intro show_int_read) auto
  then show ?thesis by (simp add: OBestOf takes_value_def set_option_def)
next
  case (OTemp v)
  then show ?thesis using assms by (auto simp: takes_value_def set_option_def split: sum.splits)
qed (simp_all add: takes_value_def set_option_def)

lemma parse_opts:
  "list_all (\<lambda>(_, x). opt_ok stof x) opts \<Longrightarrow>
     parse_args stof (concat (map (\<lambda>(long, x). opt_args long x) opts) @ rest) c =
     parse_args stof rest (fold (\<lambda>(_, x). opt_sets stof x) opts c)"
  by (induction opts arbitrary: c) (auto simp: parse_one_opt)

text \<open>
  The command line.  Any sequence of options, in long or short spelling, is read as the settings
  it spells out: a later option overrides an earlier one, numbers are read back as the
  numbers written, and every value is taken literally, even one that looks like an option.  If
  the sequence is followed by an option whose value is missing, or by a word that is no option, the
  program reports that word instead.
\<close>

theorem cli_round_trip:
  assumes "list_all (\<lambda>(_, x). opt_ok stof x) opts"
  shows "parse_args stof (concat (map (\<lambda>(long, x). opt_args long x) opts)) c = Parsed (fold (\<lambda>(_, x). opt_sets stof x) opts c)"
    and "takes_value arg \<Longrightarrow> parse_args stof (concat (map (\<lambda>(long, x). opt_args long x) opts) @ [arg]) c = NeedsArgument arg"
    and "\<not> takes_value arg \<Longrightarrow> arg \<notin> {''--help'', ''-h'', ''--serve'', ''-s'', ''--version'', ''-v''} \<Longrightarrow>
      parse_args stof (concat (map (\<lambda>(long, x). opt_args long x) opts) @ arg # rest) c = UnknownArgument arg"
  using parse_opts [OF assms, of "[]" c] parse_opts [OF assms, of "[arg]" c] parse_opts [OF assms, of "arg # rest" c]
  by (auto simp: takes_value_def)

subsection \<open>The engine settings\<close>

lemma validate_None_iff:
  "validate c = None \<longleftrightarrow> ec_model_path c \<noteq> [] \<and> 0 < ec_n_ctx c \<and> 0 < ec_n_threads c
     \<and> ec_kv_cache_type c \<in> {''f16'', ''q8_0'', ''q4_0''} \<and> 1 \<le> ec_n_parallel c
     \<and> (1 < ec_n_parallel c \<longrightarrow> \<not> ec_use_prompt_lookup c \<and> ec_draft_model_path c = [] \<and> ec_cache_dir c = [])"
proof -
  define kv where "kv \<longleftrightarrow> ec_kv_cache_type c \<in> {''f16'', ''q8_0'', ''q4_0''}"
  have "ec_kv_cache_type c \<noteq> ''f16'' \<and> ec_kv_cache_type c \<noteq> ''q8_0'' \<and> ec_kv_cache_type c \<noteq> ''q4_0'' \<longleftrightarrow> \<not> kv"
    unfolding kv_def by blast
  moreover have "(if P then Some x else r) = None \<longleftrightarrow> \<not> P \<and> r = None" "(if P then r else None) = None \<longleftrightarrow> (P \<longrightarrow> r = None)"
    for P and x :: engine_exn and r by simp_all
  ultimately show ?thesis unfolding validate_def kv_def [symmetric] by (simp only: not_le not_less de_Morgan_disj not_not simp_thms option.distinct conj_assoc)
qed

lemma engine_config_fields:
  assumes "file_engine_config cfg = Inr c"
  shows "get_string cfg ''model.path'' = Inr (ec_model_path c)"
    and "\<exists>i. get_int_or cfg ''model.context_length'' 4096 = Inr i \<and> ec_n_ctx c = to_int32 i"
    and "\<exists>i. get_int_or cfg ''model.threads'' 4 = Inr i \<and> ec_n_threads c = to_int32 i"
    and "\<exists>i. get_int_or cfg ''server.parallel'' 1 = Inr i \<and> ec_n_parallel c = to_int32 i"
    and "get_string_or cfg ''memory.kv_cache_type'' ''f16'' = Inr (ec_kv_cache_type c)"
    and "get_string_or cfg ''speculative.draft_model_path'' [] = Inr (ec_draft_model_path c)"
  using assms unfolding file_engine_config_def by (auto simp: and_then_Inr)

text \<open>
  What is left of a number in the file.  When the engine settings are read from a file, the
  context length, the number of threads and the number of parallel sequences are 32-bit numbers
  congruent to the ones written, modulo \<open>2 ^ 32\<close>: equal to them when they fit, and otherwise
  some other number that nothing reports, so that a context length of \<open>2 ^ 32 + 1\<close> is
  accepted and means 1.
\<close>

theorem config_numbers_wrap:
  assumes "file_engine_config cfg = Inr c"
  shows "\<exists>ctx threads par. get_int_or cfg ''model.context_length'' 4096 = Inr ctx
    \<and> get_int_or cfg ''model.threads'' 4 = Inr threads \<and> get_int_or cfg ''server.parallel'' 1 = Inr par
    \<and> list_all2 (\<lambda>i n. - (2 ^ 31) \<le> n \<and> n < 2 ^ 31 \<and> n mod 2 ^ 32 = i mod 2 ^ 32 \<and> (- (2 ^ 31) \<le> i \<and> i < 2 ^ 31 \<longrightarrow> n = i))
        [ctx, threads, par] [ec_n_ctx c, ec_n_threads c, ec_n_parallel c]"
proof -
  have wrap: "- (2 ^ 31) \<le> to_int32 i \<and> to_int32 i < 2 ^ 31 \<and> to_int32 i mod 2 ^ 32 = i mod 2 ^ 32
      \<and> (- (2 ^ 31) \<le> i \<and> i < 2 ^ 31 \<longrightarrow> to_int32 i = i)" for i
    using to_int32_range to_int32_cong to_int32_id by blast
  obtain ctx threads par where fields: "get_int_or cfg ''model.context_length'' 4096 = Inr ctx" "ec_n_ctx c = to_int32 ctx"
    "get_int_or cfg ''model.threads'' 4 = Inr threads" "ec_n_threads c = to_int32 threads"
    "get_int_or cfg ''server.parallel'' 1 = Inr par" "ec_n_parallel c = to_int32 par"
    using engine_config_fields(2-4) [OF assms] by blast
  show ?thesis unfolding fields using wrap [of ctx] wrap [of threads] wrap [of par] by (intro exI conjI) (rule refl | simp)+
qed

lemma main_start_settings:
  assumes "main_start stof fs file_exists args = Start c ec remote"
  shows "\<exists>cfg ec0. config_load fs (cl_config_path c) = Inr cfg \<and> file_engine_config cfg = Inr ec0
    \<and> apply_best_of (cl_best_of c) ec0 = Some ec"
  using assms unfolding main_start_def
  by (auto simp: and_then_Inr split: cli_result.splits sum.splits option.splits if_splits) (metis sum.exhaust)+

text \<open>
  C35: voting cannot be combined with a configured draft model.  When \<open>--best-of\<close> asks for more
  than one candidate and \<open>main\<close> gets as far as the engine, the settings it hands over come from the
  configuration file, with speculation off, one sequence per candidate and the context multiplied.
  The engine accepts them exactly when they are sane and the file names no draft model: the code
  switches speculation off but keeps the path from the file, which the engine then rejects as
  speculative decoding.
\<close>

theorem best_of_needs_no_draft:
  assumes "main_start stof fs file_exists args = Start c ec remote" "1 < cl_best_of c"
  shows "\<exists>cfg. config_load fs (cl_config_path c) = Inr cfg
    \<and> \<not> ec_use_speculative ec \<and> ec_n_parallel ec = cl_best_of c \<and> ec_n_ctx ec mod cl_best_of c = 0
    \<and> (validate ec = None \<longleftrightarrow> get_string cfg ''model.path'' \<noteq> Inr [] \<and> 0 < ec_n_ctx ec \<and> 0 < ec_n_threads ec
         \<and> ec_kv_cache_type ec \<in> {''f16'', ''q8_0'', ''q4_0''}
         \<and> get_string_or cfg ''speculative.draft_model_path'' [] = Inr [])"
proof -
  obtain cfg ec0 where cfg: "config_load fs (cl_config_path c) = Inr cfg" and ec0: "file_engine_config cfg = Inr ec0"
    and best: "apply_best_of (cl_best_of c) ec0 = Some ec"
    using main_start_settings [OF assms(1)] by blast
  from best have "ec = ec0\<lparr>ec_n_parallel := cl_best_of c, ec_n_ctx := ec_n_ctx ec0 * cl_best_of c, ec_use_speculative := False,
      ec_use_prompt_lookup := False, ec_cache_dir := []\<rparr>"
    using assms(2) by (auto simp: apply_best_of_def split: if_splits)
  then show ?thesis using assms(2) cfg engine_config_fields(1,6) [OF ec0] by (simp add: validate_None_iff)
qed

lemma auto_threads_pos: "unat hw < 2 ^ 31 \<Longrightarrow> 0 < auto_threads hw"
proof -
  assume "unat hw < 2 ^ 31"
  then have "uint hw < 2 ^ 31" by (simp add: nat_less_iff flip: nat_uint_eq)
  moreover have "0 \<le> uint hw" by simp
  ultimately have id: "to_int32 (uint hw) = uint hw" by (intro to_int32_id) linarith+
  have "uint hw \<noteq> 0" if "hw \<noteq> 0" using that by (simp add: uint_0_iff)
  then have "hw \<noteq> 0 \<Longrightarrow> 0 < uint hw" using uint_ge_0 [of hw] by linarith
  moreover have "\<not> hw \<le> 4 \<Longrightarrow> 4 < uint hw" by (simp add: word_le_def)
  ultimately show ?thesis using id by (auto simp: auto_threads_def)
qed

lemma auto_config_fields:
  "ec_model_path (auto_config p home hw ctx) = p" "ec_n_threads (auto_config p home hw ctx) = auto_threads hw"
  "ec_n_ctx (auto_config p home hw ctx) = (if 0 < ctx then ctx else 4096)" "ec_kv_cache_type (auto_config p home hw ctx) = ''q8_0''"
  "ec_n_parallel (auto_config p home hw ctx) = 1" "ec_draft_model_path (auto_config p home hw ctx) = []"
  by (simp_all add: auto_config_def default_engine_config_def Let_def)

lemma apply_best_of_valid:
  assumes "apply_best_of n ec0 = Some ec" "validate ec0 = None" "ec_n_parallel ec0 = 1" "ec_draft_model_path ec0 = []"
  shows "validate ec = None \<and> ec_n_parallel ec = max 1 n \<and> ec_n_ctx ec = ec_n_ctx ec0 * max 1 n \<and> ec_model_path ec = ec_model_path ec0"
proof (cases "1 < n")
  case True
  then have "ec = ec0\<lparr>ec_n_parallel := n, ec_n_ctx := ec_n_ctx ec0 * n, ec_use_speculative := False,
      ec_use_prompt_lookup := False, ec_cache_dir := []\<rparr>"
    using assms(1) by (simp add: apply_best_of_def split: if_splits)
  with True assms(2-) show ?thesis by (simp add: validate_None_iff)
next
  case False
  with assms show ?thesis by (simp add: apply_best_of_def)
qed

text \<open>
  C29: the zero-configuration command works out of the box.  Whatever model it is given, whatever the
  machine's number of cores (below \<open>2 ^ 31\<close>) and whether or not there is a home directory: when
  \<open>reame run\<close> gets as far as starting an engine, the engine accepts the settings, each of
  the candidates asked for has the model's whole context, and the model file was there already
  or has just been moved into place by a download that succeeded.
\<close>

theorem zero_config_accepted:
  assumes "zero_start file_exists system_rc home hw token r = (Start r' ec remote, fx)"
    and "unat hw < 2 ^ 31" "\<not> file_exists []"
  shows "validate ec = None \<and> ec_n_parallel ec = max 1 (ra_best_of r)
    \<and> ec_n_ctx ec = (case resolve_model token of Some m \<Rightarrow> ms_default_ctx m | None \<Rightarrow> 4096) * max 1 (ra_best_of r)
    \<and> (file_exists (ec_model_path ec) \<or>
        (\<exists>cmd. system_rc cmd = 0 \<and> {RunCommand cmd, RenameFile (ec_model_path ec @ ''.part'') (ec_model_path ec)} \<subseteq> set fx))"
proof (cases "resolve_model token")
  case None
  then have tok: "file_exists token" and best: "apply_best_of (ra_best_of r) (auto_config token home hw 0) = Some ec"
    using assms(1) by (auto simp: zero_start_def split: if_splits option.splits)
  then have "token \<noteq> []" using assms(3) by auto
  then have "validate (auto_config token home hw 0) = None" using auto_threads_pos [OF assms(2)] by (simp add: validate_def auto_config_fields)
  from apply_best_of_valid [OF best this] None tok show ?thesis by (simp add: auto_config_fields)
next
  case (Some m)
  let ?p = "home @ ''/.reame/models'' @ ''/'' @ ms_filename m" and ?ctx = "ms_default_ctx m"
  have "m \<in> set model_catalog" using Some resolve_in_iff [OF catalog_names] by (auto simp: resolve_model_def)
  then have ctx: "0 < ?ctx" using catalog_ctx by blast
  from assms(1) Some have down: "ensure_downloaded file_exists system_rc (ms_url m) ?p = (True, fx)"
    and best: "apply_best_of (ra_best_of r) (auto_config ?p home hw ?ctx) = Some ec"
    by (auto simp: zero_start_def Let_def split: if_splits option.splits prod.splits)
  have "validate (auto_config ?p home hw ?ctx) = None" using auto_threads_pos [OF assms(2)] ctx by (simp add: validate_def auto_config_fields)
  note valid = apply_best_of_valid [OF best this]
  from down have "file_exists ?p \<or> (\<exists>cmd. system_rc cmd = 0 \<and> {RunCommand cmd, RenameFile (?p @ ''.part'') ?p} \<subseteq> set fx)"
    by (auto simp: ensure_downloaded_def Let_def split: if_splits)
  with valid Some ctx show ?thesis by (simp add: auto_config_fields)
qed


section \<open>Witnesses\<close>

definition demo_stof :: "bytes \<Rightarrow> conv_error + real \<times> nat" where
  "demo_stof s = Inl InvalidArgument"

definition demo_fs :: "bytes \<Rightarrow> bytes option" where
  "demo_fs path = (if path = ''d.conf''
     then Some (config_text [([], Sect [] ''model'' [], []), ([], Assign ''path'' '' '' '' '' ''m'', []), ([], Assign ''context_length'' '' '' '' '' ''4294967297'', []),
                             ([], Sect [] ''speculative'' [], []), ([], Assign ''draft_model_path'' '' '' '' '' ''d'', [])]) else None)"

definition demo_cfg :: config where
  "demo_cfg = (case config_load demo_fs ''d.conf'' of Inl _ \<Rightarrow> [] | Inr c \<Rightarrow> c)"

lemma demo_cfg_eval:
  "demo_cfg = [(''model.context_length'', ''4294967297''), (''model.path'', ''m''), (''speculative.draft_model_path'', ''d'')]"
  by code_simp

theorem model_forward_fresh_witness:
  "fst (model_forward (real_ops ref_api) [3] \<lparr>rb_ctx = [[]], rb_n_past = 0\<rparr>) = Inr [1, 0]"
proof -
  obtain ls b' where run: "model_forward (real_ops ref_api) [3] \<lparr>rb_ctx = [[]], rb_n_past = 0\<rparr> = (Inr ls, b')"
    by (simp add: model_forward_def real_ops_def real_decode_def real_reset_def decode_impl_def append_batch_def ref_api_def last_logits_def
        ref_seqs_ok_def contiguous_def seq_tokens_def ref_toks_def)
  from model_forward_fresh [OF ref_model_ok run] run show ?thesis by simp
qed

theorem resolve_model_unambiguous_witness:
  "resolve_model ''TINYLLAMA'' = Some (hd model_catalog) \<and> resolve_model ''qwen2.5'' \<noteq> Some (hd model_catalog)"
proof -
  have "to_lower (ms_name (hd model_catalog)) \<noteq> to_lower ''qwen2.5''"
    "\<not> starts_with (to_lower (ms_name (hd model_catalog))) (to_lower ''qwen2.5'')" "to_lower (ms_name (hd model_catalog)) = to_lower ''TINYLLAMA''"
    by code_simp+
  moreover have "hd model_catalog \<in> set model_catalog" by (simp add: model_catalog_def)
  ultimately show ?thesis unfolding resolve_model_unambiguous by blast
qed

lemma demo_opts_ok: "list_all (\<lambda>(_, x). opt_ok demo_stof x) [(True, OPrompt ''--serve''), (False, OConfig ''d.conf''), (True, OBestOf 2)]"
  by simp

theorem cli_round_trip_witness:
  "parse_args demo_stof [''--prompt'', ''--serve'', ''-c'', ''d.conf'', ''--best-of'', ''2''] cli_default =
     Parsed (cli_default\<lparr>cl_prompt := ''--serve'', cl_config_path := ''d.conf'', cl_best_of := 2\<rparr>)"
proof -
  have "show_int 2 = ''2''" by code_simp
  then show ?thesis using cli_round_trip(1) [OF demo_opts_ok, of cli_default] by simp
qed

lemma demo_engine_config:
  "\<exists>c. file_engine_config demo_cfg = Inr c \<and> ec_model_path c = ''m'' \<and> ec_n_ctx c = 1 \<and> ec_n_threads c = 4 \<and> ec_draft_model_path c = ''d''
     \<and> ec_kv_cache_type c = ''f16''"
proof -
  have found: "map_find (<) ''model.path'' demo_cfg = Some ''m''" "map_find (<) ''speculative.draft_model_path'' demo_cfg = Some ''d''"
    "map_find (<) ''model.context_length'' demo_cfg = Some ''4294967297''"
    unfolding demo_cfg_eval by code_simp+
  have "stol ''4294967297'' = Inr (4294967297, 10)"
    by (simp add: sto_integer_def read_nat_def digit_value_def char_class_defs)
  then have "get_string demo_cfg ''model.path'' = Inr ''m''" "get_int_or demo_cfg ''model.context_length'' 4096 = Inr 4294967297"
    "get_string_or demo_cfg ''speculative.draft_model_path'' [] = Inr ''d''"
    by (simp_all add: get_string_def get_int_or_def get_int_def get_string_or_def config_has_def found)
  moreover have "to_int32 4294967297 = 1" "to_int32 4 = 4" by (simp_all add: to_int32_def)
  moreover have "list_all (\<lambda>k. \<not> config_has demo_cfg k)
      [''model.threads'', ''memory.use_mmap'', ''memory.use_mlock'', ''memory.kv_cache_type'', ''model.ubatch'', ''speculative.enabled'', ''speculative.mode'',
       ''speculative.draft_tokens'', ''cache.directory'', ''cache.max_size_mb'', ''cache.compress'', ''cache.block_tokens'', ''server.parallel'']"
    unfolding demo_cfg_eval by code_simp
  then have "\<not> config_has demo_cfg ''model.threads''" "\<not> config_has demo_cfg ''memory.use_mmap''" "\<not> config_has demo_cfg ''memory.use_mlock''" "\<not> config_has demo_cfg ''memory.kv_cache_type''" "\<not> config_has demo_cfg ''model.ubatch''" "\<not> config_has demo_cfg ''speculative.enabled''" "\<not> config_has demo_cfg ''speculative.mode''" "\<not> config_has demo_cfg ''speculative.draft_tokens''" "\<not> config_has demo_cfg ''cache.directory''" "\<not> config_has demo_cfg ''cache.max_size_mb''" "\<not> config_has demo_cfg ''cache.compress''" "\<not> config_has demo_cfg ''cache.block_tokens''" "\<not> config_has demo_cfg ''server.parallel''"
    by (simp_all only: list.pred_inject simp_thms)
  ultimately show ?thesis
    by (simp add: file_engine_config_def read_key_def get_string_or_def get_int_or_def get_bool_or_def)
qed

theorem config_numbers_wrap_witness:
  "\<exists>c ctx. file_engine_config demo_cfg = Inr c \<and> get_int_or demo_cfg ''model.context_length'' 4096 = Inr ctx \<and> ec_n_ctx c mod 2 ^ 32 = ctx mod 2 ^ 32"
proof -
  obtain c where "file_engine_config demo_cfg = Inr c" using demo_engine_config by blast
  with config_numbers_wrap [OF this] show ?thesis by auto
qed


lemma demo_start:
  "\<exists>c ec. main_start demo_stof demo_fs (\<lambda>_. True) [''--prompt'', ''--serve'', ''-c'', ''d.conf'', ''--best-of'', ''2''] = Start c ec None
     \<and> cl_best_of c = 2 \<and> cl_config_path c = ''d.conf''"
proof -
  obtain ec0 where ec0: "file_engine_config demo_cfg = Inr ec0" "ec_n_ctx ec0 = 1" "ec_draft_model_path ec0 = ''d''"
    using demo_engine_config by blast
  let ?c = "cli_default\<lparr>cl_prompt := ''--serve'', cl_config_path := ''d.conf'', cl_best_of := 2\<rparr>"
  have "show_int 2 = ''2''" by code_simp
  then have args: "parse_args demo_stof [''--prompt'', ''--serve'', ''-c'', ''d.conf'', ''--best-of'', ''2''] cli_default = Parsed ?c"
    using parse_opts [OF demo_opts_ok, of "[]" cli_default] by simp
  have load: "config_load demo_fs ''d.conf'' = Inr demo_cfg" unfolding demo_cfg_eval by code_simp
  have "list_all (\<lambda>k. \<not> config_has demo_cfg k) [''logging.level'', ''server.port'', ''arca.remote'']"
    and lvl: "level_from_string ''info'' = Inr Info" unfolding demo_cfg_eval by code_simp+
  then have keys: "\<not> config_has demo_cfg ''logging.level''" "\<not> config_has demo_cfg ''server.port''" "\<not> config_has demo_cfg ''arca.remote''"
    by (simp_all only: list.pred_inject simp_thms)
  have path: "get_string_or demo_cfg ''model.path'' ''<unset>'' = Inr ''m''" unfolding demo_cfg_eval by code_simp
  have best: "apply_best_of 2 ec0 = Some (ec0\<lparr>ec_n_parallel := 2, ec_n_ctx := 2, ec_use_speculative := False,
      ec_use_prompt_lookup := False, ec_cache_dir := []\<rparr>)" by (simp add: apply_best_of_def ec0)
  have "main_start demo_stof demo_fs (\<lambda>_. True) [''--prompt'', ''--serve'', ''-c'', ''d.conf'', ''--best-of'', ''2''] =
      Start ?c (ec0\<lparr>ec_n_parallel := 2, ec_n_ctx := 2, ec_use_speculative := False, ec_use_prompt_lookup := False, ec_cache_dir := []\<rparr>) None"
    unfolding main_start_def args
    by (simp add: load read_key_def keys lvl path ec0(1) best arca_remote_def missing_model_file_error_def
        get_string_or_def [of _ "''logging.level''"] get_string_or_def [of _ "''arca.remote''"] get_int_or_def [of _ "''server.port''"])
  then show ?thesis by (intro exI conjI) (assumption | simp)+
qed

theorem best_of_needs_no_draft_witness:
  "\<exists>c ec. main_start demo_stof demo_fs (\<lambda>_. True) [''--prompt'', ''--serve'', ''-c'', ''d.conf'', ''--best-of'', ''2''] = Start c ec None
     \<and> validate ec \<noteq> None \<and> \<not> ec_use_speculative ec"
proof -
  obtain c ec where start: "main_start demo_stof demo_fs (\<lambda>_. True) [''--prompt'', ''--serve'', ''-c'', ''d.conf'', ''--best-of'', ''2''] = Start c ec None"
    "cl_best_of c = 2" "cl_config_path c = ''d.conf''" using demo_start by blast
  have load: "config_load demo_fs ''d.conf'' = Inr demo_cfg"
    and draft: "get_string_or demo_cfg ''speculative.draft_model_path'' [] = Inr ''d''" unfolding demo_cfg_eval by code_simp+
  have final: "(a \<longleftrightarrow> b \<and> d \<and> e \<and> f \<and> g) \<Longrightarrow> a \<longrightarrow> g" for a b d e f g by blast
  have "1 < cl_best_of c" using start(2) by simp
  from best_of_needs_no_draft [OF start(1) this] obtain cfg where "config_load demo_fs (cl_config_path c) = Inr cfg"
    "\<not> ec_use_speculative ec" "validate ec = None \<longrightarrow> get_string_or cfg ''speculative.draft_model_path'' [] = Inr []"
    by (elim exE conjE) (drule final, erule meta_allE, (drule meta_mp, assumption)+, assumption)
  then have "\<not> ec_use_speculative ec" "validate ec = None \<longrightarrow> get_string_or demo_cfg ''speculative.draft_model_path'' [] = Inr []"
    unfolding start(3) load by (simp_all only: sum.inject simp_thms)
  then have "validate ec \<noteq> None \<and> \<not> ec_use_speculative ec" unfolding draft by (simp del: not_None_eq)
  with start(1) show ?thesis by blast
qed

theorem zero_config_accepted_witness:
  "\<exists>ec. zero_start (\<lambda>p. p = ''m.gguf'') (\<lambda>_. 0) [] 8 ''m.gguf'' (run_default\<lparr>ra_best_of := 3\<rparr>)
      = (Start (run_default\<lparr>ra_best_of := 3\<rparr>) ec None, []) \<and> validate ec = None \<and> ec_n_ctx ec = 4096 * 3"
proof -
  have none: "resolve_model ''m.gguf'' = None" by code_simp
  obtain ec where start: "zero_start (\<lambda>p. p = ''m.gguf'') (\<lambda>_. 0) [] 8 ''m.gguf'' (run_default\<lparr>ra_best_of := 3\<rparr>)
      = (Start (run_default\<lparr>ra_best_of := 3\<rparr>) ec None, [])"
    by (simp add: zero_start_def none apply_best_of_def auto_config_fields run_default_def)
  have hw: "unat (8 :: u32) < 2 ^ 31" by simp
  show ?thesis using zero_config_accepted [OF start hw] start none by (simp add: run_default_def)
qed

end
