(* ===== verification/Server_Lifecycle.thy ===== *)
theory Server_Lifecycle
  imports Reame_Prelude
begin

text \<open>
  Starting and stopping the two daemons (\<open>arca/server.cpp\<close>, \<open>server/http_server.cpp\<close>): the accept
  thread, the detached connection workers counted by \<open>active_connections\<close>, and the threads that
  call \<open>start\<close> and \<open>stop\<close>, interleaved at their atomic actions.  What a worker does between its
  first and its last action is in \<open>Arca_Server\<close> and \<open>Http_Server\<close>.
\<close>

section \<open>State and actions\<close>

text \<open>
  A worker is spawned, enters its read loop (the ARCA worker registers its socket first), leaves
  it (and unregisters), and is gone once it has decremented the counter.
\<close>

datatype worker_phase = Spawned | Serving | Leaving | Gone

record worker =
  wk_phase :: worker_phase
  wk_shut :: bool

datatype stop_phase = Idle | Joining | Joined | Draining | Stopped

record lifecycle =
  lc_running :: bool
  lc_accepting :: bool
  lc_workers :: "worker list"
  lc_active :: int
  lc_stop :: stop_phase
  lc_polls :: nat

definition server_init :: lifecycle where
  "server_init = \<lparr>lc_running = False, lc_accepting = False, lc_workers = [], lc_active = 0, lc_stop = Idle, lc_polls = 0\<rparr>"

definition start_server :: "lifecycle \<Rightarrow> lifecycle" where
  "start_server s = (if lc_running s then s else s\<lparr>lc_running := True, lc_accepting := True, lc_stop := Idle\<rparr>)"

definition accept_connection :: "lifecycle \<Rightarrow> lifecycle" where
  "accept_connection s =
     s\<lparr>lc_active := lc_active s + 1, lc_workers := lc_workers s @ [\<lparr>wk_phase = Spawned, wk_shut = False\<rparr>]\<rparr>"

definition accept_loop_ends :: "lifecycle \<Rightarrow> lifecycle" where
  "accept_loop_ends s = s\<lparr>lc_accepting := False\<rparr>"

definition set_phase :: "nat \<Rightarrow> worker_phase \<Rightarrow> lifecycle \<Rightarrow> lifecycle" where
  "set_phase i p s = s\<lparr>lc_workers := (lc_workers s)[i := (lc_workers s ! i)\<lparr>wk_phase := p\<rparr>]\<rparr>"

definition worker_done :: "nat \<Rightarrow> lifecycle \<Rightarrow> lifecycle" where
  "worker_done i s = (set_phase i Gone s)\<lparr>lc_active := lc_active s - 1\<rparr>"

definition stop_begin :: "lifecycle \<Rightarrow> lifecycle" where
  "stop_begin s = (if lc_running s then s\<lparr>lc_running := False, lc_stop := Joining, lc_polls := 0\<rparr> else s)"

definition stop_join :: "lifecycle \<Rightarrow> lifecycle" where
  "stop_join s = s\<lparr>lc_stop := Joined\<rparr>"

text \<open>Every registered socket is shut down, under the lock of the registry.\<close>

definition stop_shutdown :: "lifecycle \<Rightarrow> lifecycle" where
  "stop_shutdown s = s\<lparr>lc_stop := Draining,
     lc_workers := map (\<lambda>w. if wk_phase w = Serving then w\<lparr>wk_shut := True\<rparr> else w) (lc_workers s)\<rparr>"

definition stop_return :: "lifecycle \<Rightarrow> lifecycle" where
  "stop_return s = s\<lparr>lc_stop := Stopped\<rparr>"

abbreviation in_phase :: "nat \<Rightarrow> worker_phase \<Rightarrow> lifecycle \<Rightarrow> bool" where
  "in_phase i p s \<equiv> i < length (lc_workers s) \<and> wk_phase (lc_workers s ! i) = p"

text \<open>
  The ARCA daemon.  The label says whether a client acts: a worker leaves its loop on its own only
  when its socket was shut down, otherwise because its client hung up or broke the protocol.
\<close>

inductive arca_life_step :: "lifecycle \<Rightarrow> bool \<Rightarrow> lifecycle \<Rightarrow> bool" where
  start: "lc_stop s = Idle \<or> lc_stop s = Stopped \<Longrightarrow> arca_life_step s False (start_server s)"
| accept: "lc_accepting s \<Longrightarrow> arca_life_step s True (accept_connection s)"
| loop_ends: "lc_accepting s \<Longrightarrow> \<not> lc_running s \<Longrightarrow> arca_life_step s False (accept_loop_ends s)"
| register: "in_phase i Spawned s \<Longrightarrow> arca_life_step s False (set_phase i Serving s)"
| hung_up: "in_phase i Serving s \<Longrightarrow> \<not> wk_shut (lc_workers s ! i) \<Longrightarrow> arca_life_step s True (set_phase i Leaving s)"
| shut_down: "in_phase i Serving s \<Longrightarrow> wk_shut (lc_workers s ! i) \<Longrightarrow> arca_life_step s False (set_phase i Leaving s)"
| finished: "in_phase i Leaving s \<Longrightarrow> arca_life_step s False (worker_done i s)"
| stop: "arca_life_step s False (stop_begin s)"
| join: "lc_stop s = Joining \<Longrightarrow> \<not> lc_accepting s \<Longrightarrow> arca_life_step s False (stop_join s)"
| shutdown: "lc_stop s = Joined \<Longrightarrow> arca_life_step s False (stop_shutdown s)"
| return: "lc_stop s = Draining \<Longrightarrow> lc_active s \<le> 0 \<Longrightarrow> arca_life_step s False (stop_return s)"

text \<open>The HTTP server: no registry, and at most 600 polls of the counter.\<close>

inductive http_life_step :: "lifecycle \<Rightarrow> lifecycle \<Rightarrow> bool" where
  start: "lc_stop s = Idle \<or> lc_stop s = Stopped \<Longrightarrow> http_life_step s (start_server s)"
| accept: "lc_accepting s \<Longrightarrow> http_life_step s (accept_connection s)"
| loop_ends: "lc_accepting s \<Longrightarrow> \<not> lc_running s \<Longrightarrow> http_life_step s (accept_loop_ends s)"
| serve: "in_phase i Spawned s \<Longrightarrow> http_life_step s (set_phase i Serving s)"
| leave: "in_phase i Serving s \<Longrightarrow> http_life_step s (set_phase i Leaving s)"
| finished: "in_phase i Leaving s \<Longrightarrow> http_life_step s (worker_done i s)"
| stop: "http_life_step s (stop_begin s)"
| join: "lc_stop s = Joining \<Longrightarrow> \<not> lc_accepting s \<Longrightarrow> http_life_step s (s\<lparr>lc_stop := Draining\<rparr>)"
| poll: "lc_stop s = Draining \<Longrightarrow> lc_polls s < 600 \<Longrightarrow> 0 < lc_active s \<Longrightarrow> http_life_step s (s\<lparr>lc_polls := lc_polls s + 1\<rparr>)"
| return: "lc_stop s = Draining \<Longrightarrow> lc_polls s = 600 \<or> lc_active s \<le> 0 \<Longrightarrow> http_life_step s (stop_return s)"

inductive arca_life :: "lifecycle \<Rightarrow> bool" where
  init: "arca_life server_init"
| step: "arca_life s \<Longrightarrow> arca_life_step s c s' \<Longrightarrow> arca_life s'"

inductive http_life :: "lifecycle \<Rightarrow> bool" where
  init: "http_life server_init"
| step: "http_life s \<Longrightarrow> http_life_step s s' \<Longrightarrow> http_life s'"

section \<open>The counter counts the workers\<close>

definition live :: "worker list \<Rightarrow> nat" where
  "live ws = (\<Sum>w\<leftarrow>ws. if wk_phase w = Gone then 0 else 1)"

lemma live_update:
  assumes "i < length ws"
  shows "live (ws[i := w]) + (if wk_phase (ws ! i) = Gone then 0 else 1) = live ws + (if wk_phase w = Gone then 0 else 1)"
  using assms
proof (induction ws arbitrary: i)
  case (Cons a ws)
  then show ?case by (cases i) (auto simp: live_def split: if_splits)
qed simp

lemma live_length: "live ws = length (filter (\<lambda>w. wk_phase w \<noteq> Gone) ws)"
  by (induction ws) (auto simp: live_def)

lemma live_snoc [simp]: "live (ws @ [w]) = live ws + (if wk_phase w = Gone then 0 else 1)"
  by (simp add: live_def)

lemma live_zero: "live ws = 0 \<longleftrightarrow> (\<forall>w\<in>set ws. wk_phase w = Gone)"
  by (auto simp: live_def)

lemma live_busy: "i < length ws \<Longrightarrow> wk_phase (ws ! i) \<noteq> Gone \<Longrightarrow> live ws \<noteq> 0"
  unfolding live_zero by (blast intro: nth_mem)

lemma live_shutdown [simp]: "live (map (\<lambda>w. if wk_phase w = Serving then w\<lparr>wk_shut := True\<rparr> else w) ws) = live ws"
  by (induction ws) (auto simp: live_def)

definition life_ok :: "lifecycle \<Rightarrow> bool" where
  "life_ok s \<longleftrightarrow> lc_active s = int (live (lc_workers s))
     \<and> (lc_stop s \<in> {Joined, Draining, Stopped} \<longrightarrow> \<not> lc_accepting s)
     \<and> (lc_running s \<longrightarrow> lc_stop s = Idle)"

lemma life_ok_init: "life_ok server_init"
  by (simp add: life_ok_def server_init_def live_def)

lemma life_ok_actions:
  assumes "life_ok s"
  shows "lc_stop s = Idle \<or> lc_stop s = Stopped \<Longrightarrow> life_ok (start_server s)"
    and "lc_accepting s \<Longrightarrow> life_ok (accept_connection s)"
    and "life_ok (accept_loop_ends s)"
    and "i < length (lc_workers s) \<Longrightarrow> wk_phase (lc_workers s ! i) \<noteq> Gone \<Longrightarrow> p \<noteq> Gone \<Longrightarrow> life_ok (set_phase i p s)"
    and "i < length (lc_workers s) \<Longrightarrow> wk_phase (lc_workers s ! i) \<noteq> Gone \<Longrightarrow> life_ok (worker_done i s)"
    and "life_ok (stop_begin s)"
    and "lc_stop s = Joining \<Longrightarrow> \<not> lc_accepting s \<Longrightarrow> life_ok (stop_join s)"
    and "lc_stop s = Joined \<Longrightarrow> life_ok (stop_shutdown s)"
    and "lc_stop s = Draining \<Longrightarrow> life_ok (stop_return s)"
  using assms live_update [of i "lc_workers s" "(lc_workers s ! i)\<lparr>wk_phase := p\<rparr>"]
    live_update [of i "lc_workers s" "(lc_workers s ! i)\<lparr>wk_phase := Gone\<rparr>"]
  by (auto simp: life_ok_def start_server_def accept_connection_def accept_loop_ends_def set_phase_def worker_done_def
      stop_begin_def stop_join_def stop_shutdown_def stop_return_def)


lemma arca_life_ok: "arca_life s \<Longrightarrow> life_ok s \<and> (lc_stop s = Stopped \<longrightarrow> live (lc_workers s) = 0)"
proof (induction rule: arca_life.induct)
  case init
  show ?case using life_ok_init by (simp add: server_init_def)
next
  case (step s c s')
  then have ok: "life_ok s" "lc_stop s = Stopped \<Longrightarrow> live (lc_workers s) = 0" by auto
  have idle: "lc_stop s \<noteq> Stopped" if "i < length (lc_workers s)" "wk_phase (lc_workers s ! i) \<noteq> Gone" for i
    using that ok(2) live_busy by blast
  have works: ?case if "s' = set_phase i p s \<or> s' = worker_done i s" "p \<noteq> Gone" "i < length (lc_workers s)" "wk_phase (lc_workers s ! i) \<noteq> Gone" for i p
    using that idle [OF that(3,4)] life_ok_actions(4,5) [OF ok(1) that(3,4)] by (auto simp: set_phase_def worker_done_def)
  from step.hyps(2) show ?case
  proof cases
    case accept
    then have "lc_stop s \<noteq> Stopped" using ok(1) by (auto simp: life_ok_def)
    with accept show ?thesis using life_ok_actions(2) [OF ok(1)] by (simp add: accept_connection_def)
  next
    case return
    then have "live (lc_workers s) = 0" using ok(1) by (simp add: life_ok_def)
    with return show ?thesis using life_ok_actions(9) [OF ok(1)] by (simp add: stop_return_def)
  next
    case (register i)
    then show ?thesis by (intro works [of i Serving]) auto
  next
    case (hung_up i)
    then show ?thesis by (intro works [of i Leaving]) auto
  next
    case (shut_down i)
    then show ?thesis by (intro works [of i Leaving]) auto
  next
    case (finished i)
    then show ?thesis by (intro works [of i Leaving]) auto
  qed (use ok life_ok_actions [OF ok(1)] in \<open>auto simp: start_server_def accept_loop_ends_def stop_begin_def stop_join_def stop_shutdown_def\<close>)
qed

lemma http_life_ok: "http_life s \<Longrightarrow> life_ok s \<and> lc_polls s \<le> 600 \<and> (lc_stop s = Stopped \<and> lc_polls s < 600 \<longrightarrow> live (lc_workers s) = 0)"
proof (induction rule: http_life.induct)
  case init
  show ?case using life_ok_init by (simp add: server_init_def)
next
  case (step s s')
  then have ok: "life_ok s" "lc_polls s \<le> 600" "lc_stop s = Stopped \<Longrightarrow> lc_polls s < 600 \<Longrightarrow> live (lc_workers s) = 0" by auto
  have idle: "\<not> (lc_stop s = Stopped \<and> lc_polls s < 600)" if "i < length (lc_workers s)" "wk_phase (lc_workers s ! i) \<noteq> Gone" for i
    using that ok(3) live_busy by blast
  have works: ?case if "s' = set_phase i p s \<or> s' = worker_done i s" "p \<noteq> Gone" "i < length (lc_workers s)" "wk_phase (lc_workers s ! i) \<noteq> Gone" for i p
    using that ok(2) idle [OF that(3,4)] life_ok_actions(4,5) [OF ok(1) that(3,4)] by (auto simp: set_phase_def worker_done_def)
  from step.hyps(2) show ?case
  proof cases
    case accept
    then have "lc_stop s \<noteq> Stopped" using ok(1) by (auto simp: life_ok_def)
    with accept ok(2) show ?thesis using life_ok_actions(2) [OF ok(1)] by (simp add: accept_connection_def)
  next
    case return
    then have "lc_polls s < 600 \<longrightarrow> live (lc_workers s) = 0" using ok(1) by (auto simp: life_ok_def)
    with return ok(2) show ?thesis using life_ok_actions(9) [OF ok(1)] by (simp add: stop_return_def)
  next
    case join
    then show ?thesis using ok by (simp add: life_ok_def)
  next
    case poll
    then show ?thesis using ok by (simp add: life_ok_def)
  next
    case (serve i)
    then show ?thesis by (intro works [of i Serving]) auto
  next
    case (leave i)
    then show ?thesis by (intro works [of i Leaving]) auto
  next
    case (finished i)
    then show ?thesis by (intro works [of i Leaving]) auto
  qed (use ok life_ok_actions [OF ok(1)] in \<open>auto simp: start_server_def accept_loop_ends_def stop_begin_def\<close>)
qed

section \<open>Stopping\<close>

lemma http_polls:
  assumes "http_life s" "lc_stop s = Draining" "0 < lc_active s" "lc_polls s = 0"
  shows "n \<le> 600 \<Longrightarrow> http_life (s\<lparr>lc_polls := n\<rparr>)"
proof (induction n)
  case 0
  then show ?case using assms(1,4) by (metis lifecycle.surjective lifecycle.update_convs(6))
next
  case (Suc n)
  then have "http_life (s\<lparr>lc_polls := n\<rparr>)" by simp
  from http_life.step [OF this http_life_step.poll] show ?case using assms(2,3) Suc.prems by simp
qed

lemma http_gives_up: "\<exists>s. http_life s \<and> lc_stop s = Stopped \<and> lc_polls s = 600 \<and> map wk_phase (lc_workers s) = [Serving]"
proof -
  let ?s = "\<lambda>r a ph st n. \<lparr>lc_running = r, lc_accepting = a, lc_workers = [\<lparr>wk_phase = ph, wk_shut = False\<rparr>], lc_active = 1, lc_stop = st, lc_polls = n\<rparr>"
  note simps = server_init_def start_server_def accept_connection_def set_phase_def accept_loop_ends_def stop_begin_def stop_join_def stop_return_def
  have "http_life (start_server server_init)" using http_life.step [OF http_life.init http_life_step.start] by (simp add: simps)
  then have "http_life (?s True True Spawned Idle 0)" using http_life.step [OF _ http_life_step.accept] by (force simp: simps)
  then have "http_life (?s True True Serving Idle 0)" using http_life.step [OF _ http_life_step.serve [of 0]] by (force simp: simps)
  then have "http_life (?s False True Serving Joining 0)" using http_life.step [OF _ http_life_step.stop] by (force simp: simps)
  then have "http_life (?s False False Serving Joining 0)" using http_life.step [OF _ http_life_step.loop_ends] by (force simp: simps)
  then have "http_life (?s False False Serving Draining 0)" using http_life.step [OF _ http_life_step.join] by (force simp: simps)
  from http_polls [OF this, of 600] have "http_life (?s False False Serving Draining 600)" by simp
  then have "http_life (?s False False Serving Stopped 600)" using http_life.step [OF _ http_life_step.return] by (force simp: simps)
  then show ?thesis by (intro exI [of _ "?s False False Serving Stopped 600"]) simp
qed

text \<open>
  C30: what has ended when \<open>stop\<close> has returned, in whatever order the threads act.  For the ARCA
  daemon: the accept thread and every connection worker, so that nothing uses the server's state
  when it is destroyed.  For the HTTP server: the accept thread, and every connection worker too
  unless \<open>stop\<close> gave up after 600 polls of the counter, which is exactly the number of workers
  left.  That case does happen: there is a run in which \<open>stop\<close> has returned while a worker still
  serves its connection.
\<close>

theorem stop_outlives_workers:
  "(arca_life s \<and> lc_stop s = Stopped \<longrightarrow>
      \<not> lc_accepting s \<and> lc_active s = 0 \<and> list_all (\<lambda>w. wk_phase w = Gone) (lc_workers s))
   \<and> (http_life s \<and> lc_stop s = Stopped \<longrightarrow>
      \<not> lc_accepting s \<and> lc_active s = int (length (filter (\<lambda>w. wk_phase w \<noteq> Gone) (lc_workers s)))
      \<and> (list_all (\<lambda>w. wk_phase w = Gone) (lc_workers s) \<or> lc_polls s = 600))
   \<and> (\<exists>s. http_life s \<and> lc_stop s = Stopped \<and> lc_polls s = 600 \<and> map wk_phase (lc_workers s) = [Serving])"
  using arca_life_ok [of s] http_life_ok [of s] http_gives_up
  by (auto simp: life_ok_def live_zero live_length list_all_iff simp flip: live_zero)

text \<open>Steps in which no client takes part.\<close>

definition quiet_step :: "lifecycle \<Rightarrow> lifecycle \<Rightarrow> bool" where
  "quiet_step s s' \<longleftrightarrow> arca_life_step s False s'"

definition stuck :: "lifecycle \<Rightarrow> bool" where
  "stuck s \<longleftrightarrow> life_ok s \<and> lc_stop s = Draining \<and> (\<exists>i. in_phase i Serving s \<and> \<not> wk_shut (lc_workers s ! i))"

lemma stuck_quiet: "stuck s \<Longrightarrow> quiet_step s s' \<Longrightarrow> stuck s'"
proof -
  assume stuck: "stuck s" and quiet: "quiet_step s s'"
  then obtain i where ok: "life_ok s" "lc_stop s = Draining" and i: "in_phase i Serving s" "\<not> wk_shut (lc_workers s ! i)"
    by (auto simp: stuck_def)
  have "live (lc_workers s) \<noteq> 0" using i by (intro live_busy [of i]) auto
  then have active: "0 < lc_active s" using ok(1) by (simp add: life_ok_def)
  have run: "\<not> lc_running s" "\<not> lc_accepting s" using ok by (auto simp: life_ok_def)
  have keep: "stuck (set_phase j p s)" if "j < length (lc_workers s)" "wk_phase (lc_workers s ! j) \<noteq> Gone" "p \<noteq> Gone" "j \<noteq> i" for j p
    using that i ok life_ok_actions(4) [OF ok(1)] unfolding stuck_def by (auto simp: set_phase_def intro!: exI [of _ i])
  from quiet [unfolded quiet_step_def] show "stuck s'"
  proof cases
    case (finished j)
    then have "j \<noteq> i" using i by auto
    then show ?thesis using finished i ok life_ok_actions(5) [OF ok(1)] unfolding stuck_def
      by (auto simp: set_phase_def worker_done_def intro!: exI [of _ i])
  next
    case (register j)
    then have "j \<noteq> i" using i by auto
    with register show ?thesis by (auto intro: keep)
  next
    case (shut_down j)
    then have "j \<noteq> i" using i by auto
    with shut_down show ?thesis by (auto intro: keep)
  qed (use stuck ok run active i keep in \<open>auto simp: stop_begin_def\<close>)
qed

text \<open>
  C31: stopping the ARCA daemon can hang.  There is a reachable state in which \<open>stop\<close> waits for the counter
  and can never go on while the clients are silent: a worker that was spawned before the accept
  thread ended but registered its socket after \<open>stop\<close> had gone through the registry is blocked on
  a socket nobody shuts down.
\<close>

theorem arca_stop_can_hang:
  "\<exists>s. arca_life s \<and> lc_stop s = Draining \<and> (\<forall>s'. quiet_step\<^sup>*\<^sup>* s s' \<longrightarrow> lc_stop s' = Draining \<and> 0 < lc_active s')"
proof -
  let ?w = "\<lambda>p. \<lparr>wk_phase = p, wk_shut = False\<rparr>"
  let ?s = "\<lambda>r a ws st. \<lparr>lc_running = r, lc_accepting = a, lc_workers = ws, lc_active = int (length ws), lc_stop = st, lc_polls = 0\<rparr>"
  note simps = server_init_def start_server_def accept_connection_def accept_loop_ends_def stop_begin_def stop_join_def stop_shutdown_def set_phase_def
  have 1: "arca_life (?s True True [] Idle)"
    using arca_life.step [OF arca_life.init arca_life_step.start] by (simp add: simps)
  have 2: "arca_life (?s True True [?w Spawned] Idle)"
    using arca_life.step [OF 1 arca_life_step.accept] by (simp add: simps)
  have 3: "arca_life (?s False True [?w Spawned] Joining)"
    using arca_life.step [OF 2 arca_life_step.stop] by (simp add: simps)
  have 4: "arca_life (?s False False [?w Spawned] Joining)"
    using arca_life.step [OF 3 arca_life_step.loop_ends] by (simp add: simps)
  have 5: "arca_life (?s False False [?w Spawned] Joined)"
    using arca_life.step [OF 4 arca_life_step.join] by (simp add: simps)
  have 6: "arca_life (?s False False [?w Spawned] Draining)"
    using arca_life.step [OF 5 arca_life_step.shutdown] by (simp add: simps)
  have 7: "arca_life (?s False False [?w Serving] Draining)"
    using arca_life.step [OF 6 arca_life_step.register [of 0]] by (simp add: simps)
  have "stuck (?s False False [?w Serving] Draining)" using arca_life_ok [OF 7] by (auto simp: stuck_def)
  moreover have "stuck s'" if "quiet_step\<^sup>*\<^sup>* s s'" "stuck s" for s s'
    using that by (induction rule: rtranclp_induct) (auto intro: stuck_quiet)
  moreover have "lc_stop s' = Draining \<and> 0 < lc_active s'" if "stuck s'" for s'
    using that live_busy [of _ "lc_workers s'"] by (force simp: stuck_def life_ok_def)
  ultimately show ?thesis using 7 by (intro exI [of _ "?s False False [?w Serving] Draining"]) auto
qed

text \<open>When every worker that is still alive was registered in time, the wait comes to an end.\<close>

definition weight :: "worker \<Rightarrow> nat" where
  "weight w = (case wk_phase w of Spawned \<Rightarrow> 3 | Serving \<Rightarrow> 2 | Leaving \<Rightarrow> 1 | Gone \<Rightarrow> 0)"

definition drainable :: "lifecycle \<Rightarrow> bool" where
  "drainable s \<longleftrightarrow> life_ok s \<and> lc_stop s = Draining \<and>
     (\<forall>w\<in>set (lc_workers s). wk_phase w \<noteq> Spawned \<and> (wk_phase w = Serving \<longrightarrow> wk_shut w))"

lemma weight_update:
  "i < length ws \<Longrightarrow> weight w < weight (ws ! i) \<Longrightarrow> sum_list (map weight (ws[i := w])) < sum_list (map weight ws)"
proof (induction ws arbitrary: i)
  case (Cons a ws)
  then show ?case by (cases i) auto
qed simp

lemma drain_progress:
  assumes "drainable s" "live (lc_workers s) \<noteq> 0"
  shows "\<exists>s'. quiet_step s s' \<and> drainable s' \<and> sum_list (map weight (lc_workers s')) < sum_list (map weight (lc_workers s))"
proof -
  have ok: "life_ok s" "lc_stop s = Draining" using assms(1) by (auto simp: drainable_def)
  obtain i where i: "i < length (lc_workers s)" "wk_phase (lc_workers s ! i) \<noteq> Gone"
    using assms(2) live_zero by (metis in_set_conv_nth)
  have others: "wk_phase w \<noteq> Spawned \<and> (wk_phase w = Serving \<longrightarrow> wk_shut w)" if "w \<in> set (lc_workers s)" for w
    using assms(1) that by (auto simp: drainable_def)
  have upd: "wk_phase w \<noteq> Spawned \<and> (wk_phase w = Serving \<longrightarrow> wk_shut w)"
    if "w \<in> set ((lc_workers s)[i := (lc_workers s ! i)\<lparr>wk_phase := p\<rparr>])" "p \<in> {Leaving, Gone}" for w p
    using that set_update_subset_insert [of "lc_workers s" i] others by fastforce
  show ?thesis
  proof (cases "wk_phase (lc_workers s ! i) = Serving")
    case True
    then have shut: "wk_shut (lc_workers s ! i)" using others i(1) by simp
    have "quiet_step s (set_phase i Leaving s)" using arca_life_step.shut_down [of i s] i True shut by (simp add: quiet_step_def)
    moreover have "drainable (set_phase i Leaving s)"
      using life_ok_actions(4) [OF ok(1) i, of Leaving] ok(2) upd [of _ Leaving] by (auto simp: drainable_def set_phase_def)
    moreover have "sum_list (map weight (lc_workers (set_phase i Leaving s))) < sum_list (map weight (lc_workers s))"
      using weight_update [OF i(1)] True by (simp add: set_phase_def weight_def)
    ultimately show ?thesis by blast
  next
    case False
    then have leaving: "wk_phase (lc_workers s ! i) = Leaving" using others [of "lc_workers s ! i"] i by (cases "wk_phase (lc_workers s ! i)") auto
    have "quiet_step s (worker_done i s)" using arca_life_step.finished [of i s] i leaving by (simp add: quiet_step_def)
    moreover have "drainable (worker_done i s)"
      using life_ok_actions(5) [OF ok(1) i] ok(2) upd [of _ Gone] by (auto simp: drainable_def set_phase_def worker_done_def)
    moreover have "sum_list (map weight (lc_workers (worker_done i s))) < sum_list (map weight (lc_workers s))"
      using weight_update [OF i(1)] leaving by (simp add: set_phase_def worker_done_def weight_def)
    ultimately show ?thesis by blast
  qed
qed

text \<open>
  Stopping the ARCA daemon ends when no worker is late.  If \<open>stop\<close> goes through the registry when
  every live worker has registered its socket or is already leaving, then it returns without any
  client doing anything.
\<close>

theorem arca_stop_returns:
  assumes "arca_life s" "lc_stop s = Joined" "\<forall>w\<in>set (lc_workers s). wk_phase w \<noteq> Spawned"
  shows "\<exists>s'. quiet_step\<^sup>*\<^sup>* s s' \<and> lc_stop s' = Stopped \<and> lc_active s' = 0"
proof -
  have drain: "\<exists>s'. quiet_step\<^sup>*\<^sup>* s s' \<and> drainable s' \<and> live (lc_workers s') = 0" if "drainable s" for s
    using that
  proof (induction "sum_list (map weight (lc_workers s))" arbitrary: s rule: less_induct)
    case less
    show ?case
    proof (cases "live (lc_workers s) = 0")
      case False
      with drain_progress [OF less.prems] obtain s1 where "quiet_step s s1" "drainable s1"
        "sum_list (map weight (lc_workers s1)) < sum_list (map weight (lc_workers s))" by blast
      with less.hyps [of s1] show ?thesis by (meson converse_rtranclp_into_rtranclp)
    qed (use less.prems in blast)
  qed
  have first: "quiet_step s (stop_shutdown s)" using arca_life_step.shutdown [OF assms(2)] by (simp add: quiet_step_def)
  have "life_ok (stop_shutdown s)" using arca_life_ok [OF assms(1)] life_ok_actions(8) [of s] assms(2) by blast
  then have "drainable (stop_shutdown s)" using assms(3) by (auto simp: drainable_def stop_shutdown_def split: if_splits)
  from drain [OF this] obtain s1 where s1: "quiet_step\<^sup>*\<^sup>* (stop_shutdown s) s1" "drainable s1" "live (lc_workers s1) = 0" by blast
  then have active: "lc_active s1 = 0" "lc_stop s1 = Draining" by (auto simp: drainable_def life_ok_def)
  then have "quiet_step s1 (stop_return s1)" using arca_life_step.return [of s1] by (simp add: quiet_step_def)
  with first s1(1) have "quiet_step\<^sup>*\<^sup>* s (stop_return s1)"
    by (meson converse_rtranclp_into_rtranclp rtranclp.rtrancl_into_rtrancl)
  then show ?thesis using active by (auto simp: stop_return_def)
qed


section \<open>Witnesses\<close>

lemma stopped_at_once: "\<exists>s. arca_life s \<and> lc_stop s = Joined \<and> lc_workers s = [] \<and> lc_polls s = 0 \<and> http_life (s\<lparr>lc_stop := Stopped\<rparr>)"
proof -
  let ?s = "\<lambda>r a st. \<lparr>lc_running = r, lc_accepting = a, lc_workers = [], lc_active = 0, lc_stop = st, lc_polls = 0\<rparr>"
  note simps = server_init_def start_server_def accept_loop_ends_def stop_begin_def stop_join_def stop_return_def
  have "arca_life (?s True True Idle)" using arca_life.step [OF arca_life.init arca_life_step.start] by (simp add: simps)
  then have "arca_life (?s False True Joining)" using arca_life.step [OF _ arca_life_step.stop] by (force simp: simps)
  then have "arca_life (?s False False Joining)" using arca_life.step [OF _ arca_life_step.loop_ends] by (force simp: simps)
  then have a: "arca_life (?s False False Joined)" using arca_life.step [OF _ arca_life_step.join] by (force simp: simps)
  have "http_life (?s True True Idle)" using http_life.step [OF http_life.init http_life_step.start] by (simp add: simps)
  then have "http_life (?s False True Joining)" using http_life.step [OF _ http_life_step.stop] by (force simp: simps)
  then have "http_life (?s False False Joining)" using http_life.step [OF _ http_life_step.loop_ends] by (force simp: simps)
  then have "http_life (?s False False Draining)" using http_life.step [OF _ http_life_step.join] by (force simp: simps)
  then have "http_life (?s False False Stopped)" using http_life.step [OF _ http_life_step.return] by (force simp: simps)
  with a show ?thesis by (intro exI [of _ "?s False False Joined"]) simp
qed

theorem stop_outlives_workers_witness:
  "\<exists>a h. arca_life a \<and> lc_stop a = Stopped \<and> lc_active a = 0
     \<and> http_life h \<and> lc_stop h = Stopped \<and> lc_workers h = [] \<and> lc_active h = 0 \<and> \<not> lc_accepting h"
proof -
  obtain s where s: "arca_life s" "lc_stop s = Joined" "lc_workers s = []" "http_life (s\<lparr>lc_stop := Stopped\<rparr>)"
    using stopped_at_once by blast
  from arca_stop_returns [of s] s(1-3) obtain a where "quiet_step\<^sup>*\<^sup>* s a" and a: "lc_stop a = Stopped" by auto
  from this(1) have "arca_life a" by (induction rule: rtranclp_induct) (use s(1) in \<open>auto simp: quiet_step_def intro: arca_life.step\<close>)
  then show ?thesis
    using a s(3,4) stop_outlives_workers [of a] stop_outlives_workers [of "s\<lparr>lc_stop := Stopped\<rparr>"]
    by (intro exI [of _ a] exI [of _ "s\<lparr>lc_stop := Stopped\<rparr>"]) simp
qed

theorem arca_stop_can_hang_witness: "\<exists>s. arca_life s \<and> lc_stop s = Draining \<and> 0 < lc_active s"
  using arca_stop_can_hang by blast

theorem arca_stop_returns_witness: "\<exists>s s'. arca_life s \<and> quiet_step\<^sup>*\<^sup>* s s' \<and> lc_stop s' = Stopped"
proof -
  obtain s where "arca_life s" "lc_stop s = Joined" "lc_workers s = []" using stopped_at_once by blast
  with arca_stop_returns [of s] show ?thesis by auto
qed

end
