(* ===== verification/Spec2Isabelle.thy ===== *)
theory Spec2Isabelle
  imports Engine_Arca Engine_Sessions Engine_Worker Conclave_Vote Api_Correct Startup Server_Lifecycle
begin

text \<open>
  Verification of SovranX (the \<open>reame\<close> inference engine, C++ sources under \<open>src/src\<close> and
  \<open>src/include/reame\<close>).

  \<^bold>\<open>The program.\<close>  \<open>reame\<close> runs a language model on a CPU and serves it over HTTP.  An HTTP server
  (\<open>server/http_server.cpp\<close>, \<open>http_parser.cpp\<close>) reads a request from a socket and hands it to the API
  handler (\<open>server/api_handler.cpp\<close>), which checks the key, takes a slot in the concurrency gate and
  calls the engine (\<open>core/engine.cpp\<close>).  The engine generates text in one of three modes: a plain loop
  over a KV cache kept on disk (\<open>cache/*\<close>), speculative decoding (\<open>speculative/*\<close>, with drafts from a
  small model, from the prompt or from the corpus of past generations, \<open>palimpsest/*\<close>), or a
  scheduler that interleaves many requests in one batch (\<open>core/scheduler.cpp\<close>) driven by a worker
  thread.  All three sample with \<open>core/sampler.cpp\<close> from the logits of llama.cpp behind
  \<open>core/llama_backend_real.cpp\<close>.  The Conclave (\<open>core/conclave.cpp\<close>) elects one of several
  answers.  A deterministic answer can come from a shared archive, the ARCA daemon (\<open>arca/*\<close>), which
  speaks the Redis protocol and keeps its entries in the same disk store.

  \<^bold>\<open>Theories and sources.\<close>  Records carry the members of the C++ classes, with a prefix per class;
  operations keep their C++ names, with the class or module in front where several share one.

  \<^item> \<open>Reame_Prelude\<close>: bytes, words, character classes, searching, decimal and little-endian
    conversions of the C++ library; the named collections of the development.  \<open>Std_Map\<close>: \<open>std::map\<close>
    over a comparator (locales \<open>std_compare\<close>, \<open>std_less\<close>).
  \<^item> \<open>Disk_Store\<close> (\<open>cache/disk_cache_store.cpp\<close>) with the interface \<open>Blob_Store\<close>; \<open>Cache_Serializer\<close>,
    \<open>Cache_Manager\<close>, \<open>Prefix_Cache\<close> (\<open>cache/*.cpp\<close>).
  \<^item> \<open>Resp\<close>, \<open>Archive\<close>, \<open>Arca_Server\<close>, \<open>Arca_Client\<close> (\<open>arca/*.cpp\<close>); \<open>Corpus_Index\<close>
    (\<open>palimpsest/corpus_index.cpp\<close>).
  \<^item> \<open>Llama_Backend\<close>, \<open>Model_Backend\<close>: the backend interface, the wrapper over llama.cpp, and the
    contracts clients rely on (locales \<open>kv_backend\<close>, \<open>model_backend\<close>, \<open>seq_backend\<close>), which \<open>llama_model\<close>
    provides for the wrapper over any llama.cpp that computes a model.  \<open>Sampler\<close>.
  \<^item> \<open>Reference_Gen\<close>: the abstract specification of generation, one token after the other from the
    model's logits.  \<open>Scheduler\<close>, \<open>Draft_Sources\<close>, \<open>Speculative\<close>, \<open>Conclave\<close>: the components.
  \<^item> \<open>Engine\<close> (\<open>core/engine.cpp\<close>) with \<open>Engine_Correct\<close> (modes and termination), \<open>Engine_Arca\<close> (the
    transparent cache over client, daemon and store), \<open>Engine_Sessions\<close>, \<open>Conclave_Vote\<close> (the early stop),
    \<open>Engine_Worker\<close> (worker thread, callers, destructor and their condition variables).
  \<^item> \<open>Http_Parser\<close>, \<open>Http_Server\<close>, \<open>Api_Handler\<close>, \<open>Api_Correct\<close> (\<open>server/*.cpp\<close>); \<open>Server_Lifecycle\<close>:
    start and stop of the two daemons as interleaved threads.
  \<^item> \<open>Config_File\<close> (\<open>utils/config.cpp\<close>, \<open>utils/logger.cpp\<close>); \<open>Startup\<close> (\<open>core/model.cpp\<close>,
    \<open>core/autoconfig.cpp\<close>, and of \<open>main.cpp\<close> the argument loops, the settings and every exit before a
    model is loaded).

  \<^bold>\<open>What the lemmas show.\<close>

  \<^item> Generation: the classic and the parallel engine deliver the reference generation at any
    temperature, the speculative one for greedy requests, so the modes agree; greedy speculative decoding
    is lossless and one round of speculative sampling keeps the target distribution; the scheduler
    gives every request the tokens it would get alone and finishes all of them; classic and
    speculative generations always end, parallel ones unless a wake-up of the caller is lost.
  \<^item> Storage: the disk store refines a lossy map within its budget; the prefix cache leaves exactly the
    prompt in the backend; snapshots, corpora and stores survive a restart; a replayed answer is the
    answer that was stored.
  \<^item> Wire formats: both parsers give the same result for every slicing of the stream, and return what was
    encoded; a connection's buffer is bounded; the archive answers a pipeline command by command.
  \<^item> The API: without the key nothing reaches the engine, and the key is the one in the configuration
    file, in whatever layout it is written; a request that asks for no stream gets exactly one response,
    and what a streamed one gets is spelled out; the gate admits the configured number.
  \<^item> Threads: invariants of the daemon, the gate, the lifecycles and the engine's worker over all
    interleavings; what \<open>stop\<close> and the destructor can rely on; the runs in which a wake-up is lost,
    \<open>stop\<close> hangs, or \<open>stop\<close> gives up while a worker runs.
  \<^item> Theorems about errors state behaviour that differs from what a comment or a header says; the
    texts before them say how.

  \<^bold>\<open>Loops, bounds and fuel.\<close>  Loops are structural or well-founded recursion.  The scheduler's
  \<open>run_until_idle\<close>, the speculative \<open>spec_loop\<close> and everything above them are \<open>partial_function\<close>s
  into \<open>option\<close>, \<open>None\<close> meaning that the call never returns; \<open>run_until_idle_drains\<close> and
  \<open>engine_generate_terminates\<close> show that no loop runs forever.  One call can still fail to return:
  the caller of a parallel engine sleeps on a condition variable, and \<open>impl_parallel\<close> is \<open>None\<close> when
  the interleaving (the parameter \<open>ee_wakes\<close>) loses its wake-up; \<open>Engine_Worker\<close> models the threads and
  exhibits such interleavings for both condition variables.  There is no fuel except in the
  eviction loop of the disk store, which takes the number of entries and cannot need more.

  \<^bold>\<open>Conventions and idealisations.\<close>  An exception is the left side of a sum, undefined behaviour a
  value of its own.  Floating point is real arithmetic.  Token positions are natural numbers; counters
  and budgets that can wrap are words.  Logs of delivered tokens and calls are history variables.  A
  mutex makes the section it guards one step, except where the mutex is the subject
  (\<open>Engine_Worker\<close>, \<open>Server_Lifecycle\<close>).  llama.cpp, zstd, the hash, the random generator, the JSON
  library, the clock, the file system and the network are arguments; what is assumed of them is a
  predicate over the argument (\<open>llama_model_ok\<close>, \<open>zstd_lossless\<close>) that a reference instance satisfies.

  \<^bold>\<open>Not modelled.\<close>  The stub backend, where every operation throws; loading of models and
  creation of contexts in \<open>llama_backend_real.cpp\<close>, which only pass parameters to llama.cpp; socket
  options, name resolution and deadlines; wall-clock metrics; log lines, usage texts, signals and the
  chat loop of \<open>main.cpp\<close>.
\<close>

section \<open>Properties that span components\<close>

text \<open>
  C5: the remote archive end to end.  A client stores a value and reads it back over one
  connection.  Whatever way the network slices the requests on their way to the daemon and
  the reply on its way back, the daemon acknowledges the write and answers the read, and the
  client returns exactly the bytes it stored.
\<close>

theorem arca_round_trip:
  assumes "archive_wf a" "sendable [''SET'', k, v]" "cmd_fits [''SET'', k, v] a"
    and "fst (disk_put True (ar_store a) k v)" "cmd_fits [''GET'', k] (snd (dispatch True [''SET'', k, v] a))"
    and "plain_reads evs" "concat (map re_bytes evs) = set_request k v @ get_request k"
    and "client_connect env c" "ne_write env" "[] \<notin> set (ne_chunks env)"
    and "concat (ne_chunks env) = resp_bulk v"
  shows "(\<exists>a'. serve evs a = (HungUp, resp_simple ''OK'' @ resp_bulk v, a') \<and> archive_wf a')
    \<and> fst (client_get env k c) = Some v"
proof -
  have names: "upper ''SET'' = ''SET''" "upper ''GET'' = ''GET''" by code_simp+
  let ?cmds = "[[''SET'', k, v], [''GET'', k]]"
  define a1 where "a1 = snd (dispatch True [''SET'', k, v] a)"
  have len: "int (length k) \<le> kMaxBulkBytes" "int (length v) \<le> kMaxBulkBytes"
    using assms(2) by (simp_all add: sendable_def)
  have set1: "dispatch True [''SET'', k, v] a = (Inr (resp_simple ''OK''), a1)"
    using assms(4) names by (simp add: dispatch_SET a1_def)
  have wf: "store_wf (ar_store a)" using assms(1) by (simp add: archive_wf_def)
  have "fst (disk_get (ar_store a1) k) = Some v"
    using disk.stored_then_read [OF wf cmd_fits_no_wrap [OF assms(1,3)] assms(4)] names
    by (simp add: a1_def dispatch_SET)
  then obtain a2 where get1: "dispatch True [''GET'', k] a1 = (Inr (resp_bulk v), a2)"
    using names by (simp add: dispatch_GET)
  have fit: "all_fit (map (Pair True) ?cmds) a" using assms(3,5) by simp
  have "list_all sendable ?cmds" using assms(2) len by (simp add: sendable_def kMaxElements_def kMaxBulkBytes_def)
  from parse_loop_sendable [OF this, of "[]"] assms(7)
  have parsed: "parse_loop (rp_buf resp_parser_init @ concat (map re_bytes evs)) 0 [] =
      (?cmds, length (concat (map encode_command ?cmds)), None)"
    by (simp add: set_request_encode get_request_encode resp_parser_init_def)
  have "dispatch_cmds [] ?cmds a [] = (Inr (resp_simple ''OK'' @ resp_bulk v), a2)"
    using set1 get1 by simp
  from serve_loop_stream [OF parser_idle_init assms(6) parsed this, of "[]"] dispatch_cmds_all [OF assms(1) fit] this
  have "\<exists>a'. serve evs a = (HungUp, resp_simple ''OK'' @ resp_bulk v, a') \<and> archive_wf a'" by (auto simp: serve_def)
  moreover have "read_reply (ne_chunks env) = Inr (Some v, True)"
    using read_reply_bulk [of "ne_chunks env" v "[]"] assms(10,11) len by (simp add: kMaxBulkBytes_def)
  ultimately show ?thesis using assms(8,9) by (simp add: client_get_def)
qed

theorem arca_round_trip_witness:
  "fst (client_get \<lparr>ne_connect = True, ne_write = True, ne_chunks = [take 3 (resp_bulk ''v''), drop 3 (resp_bulk ''v'')]\<rparr>
     ''k'' \<lparr>ac_connected = False\<rparr>) = Some ''v''"
proof -
  let ?env = "\<lparr>ne_connect = True, ne_write = True, ne_chunks = [take 3 (resp_bulk ''v''), drop 3 (resp_bulk ''v'')]\<rparr>"
  have chunks: "take 3 (resp_bulk ''v'') \<noteq> []" "drop 3 (resp_bulk ''v'') \<noteq> []" by code_simp+
  have name: "upper ''SET'' = ''SET''" by code_simp
  have put: "fst (disk_put True (ar_store demo_archive) ''k'' ''v'')" by (simp add: demo_archive_ok demo_put)
  have "ds_total_bytes (ar_store (snd (dispatch True [''SET'', ''k'', ''v''] demo_archive))) \<le> 2 ^ 63"
    by (simp add: dispatch_SET name demo_archive_ok demo_put entry_size_def kHeaderLen_def)
  then have fit: "cmd_fits [''GET'', ''k''] (snd (dispatch True [''SET'', ''k'', ''v''] demo_archive))"
    by (simp add: cmd_fits_def)
  show ?thesis
    using arca_round_trip [OF demo_archive_ok(1) sendable_small demo_cmd_fits put fit,
        of "[one_read (set_request ''k'' ''v'' @ get_request ''k'')]" ?env "\<lparr>ac_connected = False\<rparr>"] chunks
    by (simp add: plain_reads_def one_read_def client_connect_def)
qed

text \<open>
  C1: a completion request end to end.  A client that holds the key posts a well-formed completion
  request that asks for no stream, in whatever pieces the network delivers it, to a server with a
  free slot.  If the generation returns, then on any engine and at any temperature the bytes sent
  back are one complete 200 response, whose body is the JSON document made of the pieces the engine
  delivered.  When no response cache is attached and the engine is a ready classic or parallel one
  at any temperature, or a speculative one with sampling switched off and room left in the context,
  those pieces are the reference generation: the echoed prompt if asked for, then the pieces of the
  tokens the model samples one by one until an end token, the token budget or the end of the
  context.
\<close>

theorem completion_end_to_end:
  assumes model: "llama_model_ok api toks model" "ee_ops (ae_engine env) = real_ops api" "real_tokenize api prompt True = Inr tokens"
    and wire: "request_ok ''POST'' ''/v1/completions'' hs" "length (request_head ''POST'' ''/v1/completions'' hs) \<le> header_limit"
      "content_lengths hs = [cl]" "strtoull cl = length body" "length body \<le> unat (mb * 1024 * 1024)"
      "concat reads = request_head ''POST'' ''/v1/completions'' hs @ body @ extra"
    and key: "ap_api_key cfg = [] \<or> header_value (header_map_of hs) ''Authorization'' = ''Bearer '' @ ap_api_key cfg"
    and json: "jl_parse (ae_json env) body = Some j" "json_field j ''prompt'' = Some (JStr prompt)"
      "gen_config_from (ae_json env) j = Inr gen" "jl_value_bool (ae_json env) j ''stream'' False = Inr False"
    and free: "ap_active_generations s < ap_max_concurrent_requests cfg"
    and run: "engine_generate_stream (ae_engine env) prompt (Some (\<lambda>_ _. Inr True)) gen (ap_engine s) = Some (Inr (), calls, e')"
    and dump: "jl_dump (ae_json env) (completion_json cfg False (outcome_of gen (int (length tokens)) calls)) = Inr t"
  shows "(\<exists>s'. handle_connection mb (api_handle cfg env) reads s =
        Some (Inr (serialize_http_response \<lparr>hs_status = 200, hs_headers = base_headers cfg ''application/json'', hs_body = t\<rparr>), s')
      \<and> ap_engine s' = e')
    \<and> (mode_ready api toks model (ae_engine env) U gen tokens (ap_engine s) \<and> en_arca (ap_engine s) = None \<and> 0 < gc_max_tokens gen \<longrightarrow>
        (\<exists>ts. calls = (if gc_echo_prompt gen then [prompt] else []) @ pieces (real_ops api) b0 ts
          \<and> ref_prefix (ee_sampler (ae_engine env)) model (llama_vocab_is_eog api) gen (llama_n_ctx api) tokens ts
          \<and> ref_stop (ee_sampler (ae_engine env)) model (llama_vocab_is_eog api) gen (llama_n_ctx api) tokens ts))"
proof -
  let ?r = "request_of ''POST'' ''/v1/completions'' hs body"
  have "CHR '':'' \<notin> set ''POST''" by simp
  then have conn: "handle_connection mb (api_handle cfg env) reads s = map_option sent_of (api_handle cfg env ?r writer_init s)"
    using wire by (intro connection_slices) auto
  have fields: "hr_method ?r = ''POST''" "hr_target ?r = ''/v1/completions''" "hr_headers ?r = header_map_of hs" "hr_body ?r = body"
    by (simp_all add: request_of_def)
  have auth: "authorized cfg ?r" using key by (simp add: authorized_iff_key_bare fields(3))
  have count: "count_tokens (ae_engine env) prompt (ap_engine s) = Inr (int (length tokens))"
    using model(2,3) by (simp add: count_tokens_def real_ops_queries)
  obtain w s' where "api_handle cfg env ?r writer_init s = Some (Inr w, s')" "ap_engine s' = e'"
    "sw_sent w = serialize_http_response \<lparr>hs_status = 200, hs_headers = base_headers cfg ''application/json'', hs_body = t\<rparr>"
    using completion_handled [OF fields(1,2) auth _ json(2-4) free count run dump] json(1) fields(4) by auto
  then have sent: "\<exists>s'. handle_connection mb (api_handle cfg env) reads s =
        Some (Inr (serialize_http_response \<lparr>hs_status = 200, hs_headers = base_headers cfg ''application/json'', hs_body = t\<rparr>), s')
      \<and> ap_engine s' = e'" using conn by (auto simp: sent_of_def)
  have "\<exists>ts. calls = (if gc_echo_prompt gen then [prompt] else []) @ pieces (real_ops api) b0 ts
      \<and> ref_prefix (ee_sampler (ae_engine env)) model (llama_vocab_is_eog api) gen (llama_n_ctx api) tokens ts
      \<and> ref_stop (ee_sampler (ae_engine env)) model (llama_vocab_is_eog api) gen (llama_n_ctx api) tokens ts"
    if ready: "mode_ready api toks model (ae_engine env) U gen tokens (ap_engine s)" and cache: "en_arca (ap_engine s) = None" and pos: "0 < gc_max_tokens gen"
  proof -
    have "generate_stream_impl (ae_engine env) prompt (\<lambda>_ _. Inr True) gen (ap_engine s) = Some (Inr (), calls, e')"
      using run uncached_stream [of "ap_engine s"] cache by auto
    from stream_impl_complete [OF model ready _ pos this, of b0] show ?thesis by auto
  qed
  with sent show ?thesis by blast
qed

lemma api_parallel_run:
  "\<exists>e'. engine_generate_stream demo_engine_env ''a'' (Some (\<lambda>_ _. Inr True)) api_gen demo_parallel = Some (Inr (), [[byte_of (1 :: token)]], e')"
proof -
  have lim: "gc_max_tokens api_gen = 1" "gc_echo_prompt api_gen = False" by (simp_all add: api_gen_def)
  have "en_arca demo_parallel = None" by (simp add: demo_parallel_def demo_classic_def bare_engine_def)
  then show ?thesis
    by (simp add: uncached_stream generate_stream_impl_def demo_engine_env_def demo_parallel_def demo_classic_def bare_engine_def impl_parallel_def submit_def
       run_until_idle.simps sched_step_def admit_def admit_one_def cells_used_def slice_of_def advance_one_def finish_def error_of_def
       loud_eval lim api_sample)
qed

text \<open>The same request to a classic and to a parallel engine: the response, and the text of the reference generation.\<close>

theorem completion_end_to_end_witness:
  "list_all (\<lambda>e. (\<exists>s'. handle_connection 1 (api_handle (demo_api_config []) (demo_api_env (''x'', JNull)))
      [take 9 (request_head ''POST'' ''/v1/completions'' [(''Content-Length'', ''1'')] @ ''a''),
       drop 9 (request_head ''POST'' ''/v1/completions'' [(''Content-Length'', ''1'')] @ ''a'')] (api_open e)
      = Some (Inr (serialize_http_response \<lparr>hs_status = 200, hs_headers = base_headers (demo_api_config []) ''application/json'', hs_body = ''{}''\<rparr>), s'))
    \<and> (\<exists>ts. [[byte_of (1 :: token)]] = pieces (real_ops loud_api) demo_backend ts
        \<and> ref_prefix demo_env (\<lambda>_. [0, 1]) (llama_vocab_is_eog loud_api) api_gen (llama_n_ctx loud_api) [demo_token] ts))
    [demo_classic, demo_parallel]"
proof -
  let ?hs = "[(''Content-Length'', ''1'')]" and ?cfg = "demo_api_config []" and ?field = "(''x'', JNull)"
  let ?env = "demo_api_env ?field"
  have env: "ae_engine ?env = demo_engine_env" "ee_ops demo_engine_env = real_ops loud_api" "ee_sampler demo_engine_env = demo_env"
    and arca: "en_arca demo_classic = None" "en_arca demo_parallel = None"
    by (simp_all add: demo_api_env_def demo_engine_env_def demo_parallel_def demo_classic_def bare_engine_def)
  have ready: "mode_ready loud_api ref_toks (\<lambda>_. [0, 1]) demo_engine_env UNIV api_gen [demo_token] demo_classic"
    "mode_ready loud_api ref_toks (\<lambda>_. [0, 1]) demo_engine_env UNIV api_gen [demo_token] demo_parallel"
    using demo_parallel_ready by (simp_all add: mode_ready_def demo_classic_def demo_parallel_def bare_engine_def cache_ready_def)
  have ok: "request_ok ''POST'' ''/v1/completions'' ?hs" and cl: "content_lengths ?hs = [''1'']" by code_simp+
  have small: "length (request_head ''POST'' ''/v1/completions'' ?hs) \<le> header_limit" by (simp add: request_head_def header_field_def header_limit_def)
  have one: "strtoull ''1'' = length ''a''" by (simp add: strtoull_def read_nat_def digit_value_def isspace_def isdigit_def code_def)
  have json: "jl_parse (ae_json ?env) ''a'' = Some (demo_body ?field ''a'')" "json_field (demo_body ?field ''a'') ''prompt'' = Some (JStr ''a'')"
    "gen_config_from (ae_json ?env) (demo_body ?field ''a'') = Inr api_gen" "jl_value_bool (ae_json ?env) (demo_body ?field ''a'') ''stream'' False = Inr False"
    "jl_dump (ae_json ?env) d = Inr ''{}''" for d
    using demo_gen_config [of ?field "''a''"] by (simp_all add: demo_api_env_def demo_json_def demo_body_def json_field_def demo_value_def)
  have small2: "length ''a'' \<le> unat (1 * 1024 * 1024 :: u64)" by simp
  have slices: "concat [take 9 (request_head ''POST'' ''/v1/completions'' ?hs @ ''a''), drop 9 (request_head ''POST'' ''/v1/completions'' ?hs @ ''a'')]
      = request_head ''POST'' ''/v1/completions'' ?hs @ ''a'' @ []" by (simp del: take_append drop_append)
  have rest: "0 < gc_max_tokens api_gen" "ap_api_key ?cfg = []" "\<not> gc_echo_prompt api_gen"
    by (simp_all add: api_gen_def demo_api_config_def)
  have free: "ap_active_generations (api_open e) < ap_max_concurrent_requests ?cfg" "ap_engine (api_open e) = e"
    for e :: "(token list list real_backend, unit, unit, unit) engine" by (simp_all add: demo_api_config_def api_open_def)
  obtain e1 where run1: "engine_generate_stream demo_engine_env ''a'' (Some (\<lambda>_ _. Inr True)) api_gen demo_classic
      = Some (Inr (), [[byte_of (1 :: token)]], e1)" using api_classic_run [of "\<lambda>_. Inr True"] by auto
  obtain e2 where run2: "engine_generate_stream demo_engine_env ''a'' (Some (\<lambda>_ _. Inr True)) api_gen demo_parallel
      = Some (Inr (), [[byte_of (1 :: token)]], e2)" using api_parallel_run by auto
  note classic = completion_end_to_end [where s = "api_open demo_classic" and U = UNIV and ?b0.0 = demo_backend, unfolded free(2),
      OF loud_model_ok _ demo_tokenize ok small cl one small2 slices disjI1 [OF rest(2)] json(1-4) free(1) _ json(5), unfolded env(1), OF env(2) run1]
  note parallel = completion_end_to_end [where s = "api_open demo_parallel" and U = UNIV and ?b0.0 = demo_backend, unfolded free(2),
      OF loud_model_ok _ demo_tokenize ok small cl one small2 slices disjI1 [OF rest(2)] json(1-4) free(1) _ json(5), unfolded env(1), OF env(2) run2]
  show ?thesis
    unfolding list.pred_inject
  proof (intro conjI TrueI)
  qed (use classic parallel ready arca rest(1,3) env(3) in auto)
qed

text \<open>The settings the HTTP server passes on to its handler.\<close>

definition handler_config :: "server_config \<Rightarrow> api_config" where
  "handler_config sc = \<lparr>ap_api_key = sc_api_key sc, ap_enable_cors = sc_enable_cors sc, ap_enable_metrics = sc_enable_metrics sc,
     ap_max_concurrent_requests = sc_max_concurrent_requests sc, ap_model_id = sc_model_id sc\<rparr>"

text \<open>
  C27: the key in the configuration file is the key the server demands.  Take a file of sections,
  assignments, comments and blank lines in any layout, from which a server is configured.  A request
  is authorized exactly when it carries the value last assigned to \<open>api_key\<close> in the section
  \<open>server\<close> as a bearer token; if that value is empty, or there is none, every request is.
\<close>

theorem configured_key_enforced:
  assumes "list_all cline_ok ls" "config_parse (config_file newline ls) = Inr cfg" "file_server_config cfg = Inr sc"
  shows "authorized (handler_config sc) r \<longleftrightarrow>
    (case map_of (rev (assignments [] (map (fst \<circ> snd) ls))) ''server.api_key'' of
       None \<Rightarrow> True
     | Some key \<Rightarrow> key = [] \<or> header_value (hr_headers r) ''Authorization'' = ''Bearer '' @ key)"
proof -
  let ?last = "map_of (rev (assignments [] (map (fst \<circ> snd) ls))) ''server.api_key''"
  have found: "get_string cfg ''server.api_key'' = (case ?last of
      None \<Rightarrow> Inl (ConfigError (''missing config key: '' @ ''server.api_key'') 0) | Some v \<Rightarrow> Inr v)"
    using config_meaning [OF assms(1), of newline] assms(2) by auto
  have "get_string_or cfg ''server.api_key'' [] = Inr (sc_api_key sc)"
    using assms(3) unfolding file_server_config_def by (auto simp: and_then_Inr)
  then have "sc_api_key sc = (case ?last of None \<Rightarrow> [] | Some v \<Rightarrow> v)"
    using found by (auto simp: get_string_or_def config_has_def get_string_def split: option.splits if_splits)
  then show ?thesis by (auto simp: authorized_iff_key_bare handler_config_def split: option.splits)
qed

definition key_lines :: "(bytes \<times> config_item \<times> bytes) list" where
  "key_lines = [([], Sect [] ''server'' [], []), ([], Assign ''api_key'' '' '' '' '' ''k'', [])]"

theorem configured_key_enforced_witness:
  "\<exists>cfg sc. config_parse (config_file True key_lines) = Inr cfg \<and> file_server_config cfg = Inr sc
     \<and> \<not> authorized (handler_config sc) \<lparr>hr_method = ''GET'', hr_target = ''/v1/models'', hr_headers = [], hr_body = []\<rparr>"
proof -
  have ok: "list_all cline_ok key_lines" and key: "map_of (rev (assignments [] (map (fst \<circ> snd) key_lines))) ''server.api_key'' = Some ''k''"
    and parse: "config_parse (config_file True key_lines) = Inr [(''server.api_key'', ''k'')]" by code_simp+
  have "list_all (\<lambda>k. \<not> config_has [(''server.api_key'', ''k'')] k)
      [''server.host'', ''server.port'', ''server.threads'', ''server.max_concurrent_requests'', ''server.timeout_seconds'',
       ''server.max_request_size_mb'', ''server.enable_cors'', ''server.enable_metrics'', ''server.enable_request_logging'', ''server.model_id'']"
    and "get_string_or [(''server.api_key'', ''k'')] ''server.api_key'' [] = Inr ''k''" by code_simp+
  then obtain sc where sc: "file_server_config [(''server.api_key'', ''k'')] = Inr sc"
    unfolding list.pred_inject
    by (elim conjE) (simp add: file_server_config_def read_key_def get_int_or_def get_bool_or_def get_string_or_def [of _ "''server.host''"] get_string_or_def [of _ "''server.model_id''"])
  show ?thesis using configured_key_enforced [OF ok parse sc] key parse sc by (intro exI conjI) (assumption | simp add: header_value_def)+
qed

end
